(* ===== verification/Prelude.thy ===== *)
theory Prelude
  imports Main "HOL-Library.Word"
begin

text \<open>
  Shared vocabulary of the development.

  \<^item> machine integers of the C++ code (\<open>uint8\<close>, \<open>uint16\<close>, \<open>uint32\<close> of
    \<^verbatim>\<open>eventloop/typedef.hh\<close>) as words, memory as lists of bytes;
  \<^item> the little-endian layout of 16-bit and 32-bit integers in memory, the byte swap of
    \<^verbatim>\<open>eventloop/swapping.hh\<close> and its laws;
  \<^item> the effects of a C++ member function: a result is a value or an exception, together
    with the state at the end of the call (an \<^verbatim>\<open>ERROR(...)\<close> throws, and what was
    assigned before the throw stays assigned);
  \<^item> generic lemmas on lists and sizes that the components share, collected in
    \<open>chunk_simps\<close>, \<open>size_simps\<close> and \<open>layout_simps\<close>.
\<close>

unbundle bit_operations_syntax

section \<open>Machine integers and memory\<close>

type_synonym u8 = "8 word"
type_synonym u16 = "16 word"
type_synonym u32 = "32 word"
type_synonym bytes = "u8 list"

named_theorems chunk_simps \<open>how the chunk operations act on the bytes they describe\<close>
named_theorems size_simps \<open>sizes computed from header members\<close>
named_theorems layout_simps \<open>memory layout of headers\<close>

section \<open>Results of member functions\<close>

text \<open>
  \<open>Err\<close> is an exception thrown by \<^verbatim>\<open>ERROR(...)\<close>, with the start of its message;
  \<open>Assert\<close> a failed \<^verbatim>\<open>assert\<close>; \<open>Undef\<close> a step whose behaviour C++ leaves undefined
  (memory outside an object); \<open>Fuel\<close> a loop cut off by the fuel of its model.
\<close>

datatype cxx_error = Err string | Assert string | Undef string | Fuel

type_synonym ('a, 's) result = "(cxx_error + 'a) \<times> 's"

definition andthen :: "('a, 's) result \<Rightarrow> ('a \<Rightarrow> 's \<Rightarrow> ('b, 's) result) \<Rightarrow> ('b, 's) result" where
  "andthen r f = (case r of (Inl e, s) \<Rightarrow> (Inl e, s) | (Inr x, s) \<Rightarrow> f x s)"

lemma andthen_simps [simp]:
  "andthen (Inl e, s) f = (Inl e, s)"
  "andthen (Inr x, s) f = f x s"
  by (simp_all add: andthen_def)

lemma andthen_Inr_iff:
  "andthen r f = (Inr y, t) \<longleftrightarrow> (\<exists>x s. r = (Inr x, s) \<and> f x s = (Inr y, t))"
  by (cases r; cases "fst r") (auto simp: andthen_def split: sum.splits)

lemma andthen_Inl_iff:
  "andthen r f = (Inl e, t) \<longleftrightarrow>
     r = (Inl e, t) \<or> (\<exists>x s. r = (Inr x, s) \<and> f x s = (Inl e, t))"
  by (cases r; cases "fst r") (auto simp: andthen_def split: sum.splits)

text \<open>An operation applied to one value after the other, until one fails.\<close>

fun each :: "('e \<Rightarrow> 's \<Rightarrow> (unit, 's) result) \<Rightarrow> 'e list \<Rightarrow> 's \<Rightarrow> (unit, 's) result" where
  "each f [] st = (Inr (), st)"
| "each f (e # es) st = andthen (f e st) (\<lambda>_ st. each f es st)"

lemma andthen_split:
  "P (andthen r f) \<longleftrightarrow>
     (\<forall>e s. r = (Inl e, s) \<longrightarrow> P (Inl e, s)) \<and> (\<forall>x s. r = (Inr x, s) \<longrightarrow> P (f x s))"
  by (cases r; cases "fst r") (auto simp: andthen_def)

text \<open>
  \<open>outcome P E r\<close>: a call returns a value and state with \<open>P\<close>, or throws with \<open>E\<close>.
\<close>

definition outcome ::
  "('a \<Rightarrow> 's \<Rightarrow> bool) \<Rightarrow> (cxx_error \<Rightarrow> 's \<Rightarrow> bool) \<Rightarrow> ('a, 's) result \<Rightarrow> bool" where
  "outcome P E r = (case r of (Inl e, s) \<Rightarrow> E e s | (Inr x, s) \<Rightarrow> P x s)"

lemma outcome_simps [simp]:
  "outcome P E (Inl e, s) = E e s"
  "outcome P E (Inr x, s) = P x s"
  by (simp_all add: outcome_def)

lemma outcome_andthen:
  assumes "outcome P E r" and "\<And>x s. P x s \<Longrightarrow> outcome Q E (f x s)"
  shows "outcome Q E (andthen r f)"
  using assms by (cases r; cases "fst r") auto

lemma outcome_mono:
  assumes "outcome P E r" and "\<And>x s. P x s \<Longrightarrow> P' x s" and "\<And>e s. E e s \<Longrightarrow> E' e s"
  shows "outcome P' E' r"
  using assms by (cases r; cases "fst r") auto

lemma outcomeD:
  "outcome P E r \<Longrightarrow> r = (Inr x, s) \<Longrightarrow> P x s"
  "outcome P E r \<Longrightarrow> r = (Inl e, s) \<Longrightarrow> E e s"
  by simp_all

section \<open>Integers in memory\<close>

text \<open>The host is little endian: the low byte of an integer has the lowest address.\<close>

definition u16_of :: "u8 \<Rightarrow> u8 \<Rightarrow> u16" where
  "u16_of a b = ucast a OR push_bit 8 (ucast b)"

definition u32_of :: "u8 \<Rightarrow> u8 \<Rightarrow> u8 \<Rightarrow> u8 \<Rightarrow> u32" where
  "u32_of a b c d =
     ucast a OR push_bit 8 (ucast b) OR push_bit 16 (ucast c) OR push_bit 24 (ucast d)"

definition bytes16 :: "u16 \<Rightarrow> bytes" where
  "bytes16 w = [ucast w, ucast (drop_bit 8 w)]"

definition bytes32 :: "u32 \<Rightarrow> bytes" where
  "bytes32 w = [ucast w, ucast (drop_bit 8 w), ucast (drop_bit 16 w), ucast (drop_bit 24 w)]"

fun words32 :: "bytes \<Rightarrow> u32 list" where
  "words32 (a # b # c # d # bs) = u32_of a b c d # words32 bs"
| "words32 _ = []"

definition bswap_16 :: "u16 \<Rightarrow> u16" where
  "bswap_16 w = u16_of (ucast (drop_bit 8 w)) (ucast w)"

definition bswap_32 :: "u32 \<Rightarrow> u32" where
  "bswap_32 w = u32_of (ucast (drop_bit 24 w)) (ucast (drop_bit 16 w)) (ucast (drop_bit 8 w)) (ucast w)"

text \<open>Swapping every aligned 32-bit word of a memory area in place.\<close>

fun swap32 :: "bytes \<Rightarrow> bytes" where
  "swap32 (a # b # c # d # bs) = d # c # b # a # swap32 bs"
| "swap32 bs = bs"

lemma unat_u32: "unat (w :: u32) < 2 ^ 32"
  using unsigned_less [of w] by simp

lemma unat_u16: "unat (w :: u16) < 2 ^ 16"
  using unsigned_less [of w] by simp

lemma u8_bit_high: "8 \<le> n \<Longrightarrow> \<not> bit (a :: u8) n"
  using bit_imp_le_length [of a n] by auto

lemma length_bytes16 [simp]: "length (bytes16 w) = 2"
  by (simp add: bytes16_def)

lemma length_bytes32 [simp]: "length (bytes32 w) = 4"
  by (simp add: bytes32_def)

lemma u16_of_bytes [simp]: "u16_of (ucast w) (ucast (drop_bit 8 w)) = w"
  by (rule bit_word_eqI) (auto simp: u16_of_def bit_simps)

lemma u32_of_bytes [simp]:
  "u32_of (ucast w) (ucast (drop_bit 8 w)) (ucast (drop_bit 16 w)) (ucast (drop_bit 24 w)) = w"
proof (rule bit_word_eqI)
  fix n assume "n < LENGTH(32)"
  then consider "n < 8" | "8 \<le> n" "n < 16" | "16 \<le> n" "n < 24" | "24 \<le> n" "n < 32"
    by fastforce
  then show "bit (u32_of (ucast w) (ucast (drop_bit 8 w)) (ucast (drop_bit 16 w))
      (ucast (drop_bit 24 w))) n = bit w n"
    by cases (auto simp: u32_of_def bit_simps)
qed

lemma bytes16_u16_of [simp]: "bytes16 (u16_of a b) = [a, b]"
  unfolding bytes16_def u16_of_def
  by (auto intro!: bit_word_eqI simp: bit_simps u8_bit_high)

lemma bytes32_u32_of [simp]: "bytes32 (u32_of a b c d) = [a, b, c, d]"
  unfolding bytes32_def u32_of_def
  by (auto intro!: bit_word_eqI simp: bit_simps u8_bit_high)

lemma words32_bytes32 [simp]: "words32 (bytes32 w @ bs) = w # words32 bs"
  by (simp add: bytes32_def)

lemma words32_concat [simp]: "words32 (concat (map bytes32 ws)) = ws"
  by (induction ws) auto

lemma length_swap32 [simp]: "length (swap32 bs) = length bs"
  by (induction bs rule: swap32.induct) auto

lemma swap32_swap32 [simp]: "swap32 (swap32 bs) = bs"
  by (induction bs rule: swap32.induct) auto

lemma bswap_32_u32_of [simp]: "bswap_32 (u32_of a b c d) = u32_of d c b a"
proof -
  have "bytes32 (u32_of a b c d) = [a, b, c, d]" by simp
  then show ?thesis by (simp add: bswap_32_def bytes32_def)
qed

lemma bswap_32_bswap_32 [simp]: "bswap_32 (bswap_32 w) = w"
proof -
  have "w = u32_of (ucast w) (ucast (drop_bit 8 w)) (ucast (drop_bit 16 w)) (ucast (drop_bit 24 w))"
    by simp
  then show ?thesis by (metis bswap_32_u32_of)
qed

lemma words32_swap32: "words32 (swap32 bs) = map bswap_32 (words32 bs)"
  by (induction bs rule: swap32.induct) auto

lemma swap32_bytes32: "swap32 (bytes32 w @ bs) = bytes32 (bswap_32 w) @ swap32 bs"
  unfolding bswap_32_def bytes32_u32_of by (simp add: bytes32_def)

lemma swap32_append: "length xs mod 4 = 0 \<Longrightarrow> swap32 (xs @ ys) = swap32 xs @ swap32 ys"
  by (induction xs rule: swap32.induct) (auto simp: mod_Suc split: if_splits)

lemma swap32_cut:
  assumes "n mod 4 = 0" and "n \<le> length d"
  shows swap32_take: "swap32 (take n d) = take n (swap32 d)"
    and swap32_drop: "swap32 (drop n d) = drop n (swap32 d)"
proof -
  have "swap32 (take n d @ drop n d) = swap32 (take n d) @ swap32 (drop n d)"
    by (intro swap32_append) (use assms in simp)
  then show "swap32 (take n d) = take n (swap32 d)" "swap32 (drop n d) = drop n (swap32 d)"
    using assms(2) by simp_all
qed

section \<open>Lists\<close>

definition slice :: "nat \<Rightarrow> nat \<Rightarrow> 'a list \<Rightarrow> 'a list" where
  "slice i n xs = take n (drop i xs)"

lemma length_slice [simp]: "length (slice i n xs) = min n (length xs - i)"
  by (simp add: slice_def)

lemma slice_append_slice: "slice i m xs @ slice (i + m) n xs = slice i (m + n) xs"
  by (simp add: slice_def take_add add.commute)

lemma slice_0 [simp]: "slice i 0 xs = []"
  by (simp add: slice_def)

lemma take_slice: "m \<le> n \<Longrightarrow> take m (slice i n xs) = slice i m xs"
  by (simp add: slice_def min_def)

lemma drop_slice: "drop m (slice i n xs) = slice (i + m) (n - m) xs"
  by (simp add: slice_def drop_take add.commute)

lemma take_slice_drop: "take a xs @ slice a b xs @ drop (a + b) xs = xs"
  using append_take_drop_id [of b "drop a xs"] by (simp add: slice_def add.commute)

section \<open>Sizes\<close>

text \<open>
  \<open>wrap32\<close> and \<open>wrap64\<close> are the reduction of an unsigned C++ expression to its width.
  A \<^verbatim>\<open>size_t\<close> subtraction \<open>a - b\<close> is \<open>sub64 a b\<close>: it wraps when \<open>a < b\<close>.
\<close>

definition wrap32 :: "nat \<Rightarrow> nat" where
  "wrap32 n = n mod 2 ^ 32"

definition wrap64 :: "nat \<Rightarrow> nat" where
  "wrap64 n = n mod 2 ^ 64"

definition sub64 :: "nat \<Rightarrow> nat \<Rightarrow> nat" where
  "sub64 a b = wrap64 (a + (2 ^ 64 - wrap64 b))"

lemma wrap32_id [simp]: "n < 2 ^ 32 \<Longrightarrow> wrap32 n = n"
  by (simp add: wrap32_def)

lemma wrap64_id [simp]: "n < 2 ^ 64 \<Longrightarrow> wrap64 n = n"
  by (simp add: wrap64_def)

lemma wrap32_less [simp]: "wrap32 n < 2 ^ 32"
  by (simp add: wrap32_def)

lemma wrap64_less [simp]: "wrap64 n < 2 ^ 64"
  by (simp add: wrap64_def)

lemma sub64_le: "b \<le> a \<Longrightarrow> a < 2 ^ 64 \<Longrightarrow> sub64 a b = a - b"
  by (simp add: sub64_def wrap64_def mod_if)

lemma sub64_gr:
  assumes "a < b" and "b < 2 ^ 64"
  shows "sub64 a b = 2 ^ 64 - (b - a)"
proof -
  have "a + (2 ^ 64 - b) = 2 ^ 64 - (b - a)" using assms by simp
  moreover have "2 ^ 64 - (b - a) < (2 ^ 64 :: nat)" using assms by simp
  ultimately show ?thesis using assms by (simp add: sub64_def wrap64_def)
qed

lemma mod_neq_window: "i < j \<Longrightarrow> j < i + m \<Longrightarrow> i mod m \<noteq> j mod m" for i j m :: nat
proof
  assume "i < j" "j < i + m" "i mod m = j mod m"
  then have "m dvd j - i" by (metis less_imp_le_nat mod_eq_dvd_iff_nat)
  moreover have "0 < j - i" "j - i < m" using \<open>i < j\<close> \<open>j < i + m\<close> by linarith+
  ultimately show False by (metis nat_dvd_not_less)
qed

end
