(* ===== verification/Input_Buffer.thy ===== *)
theory Input_Buffer
  imports Prelude
begin

text \<open>
  The input side's memory interface (\<^verbatim>\<open>file_input/input_buffer.hh\<close>, \<^verbatim>\<open>input_buffer.cc\<close>).

  A range of the input is handed out as one or two \<^emph>\<open>chunks\<close> (the circular buffer behind
  it may wrap), and the event readers consume chunks. A \<^verbatim>\<open>buf_chunk\<close> (a pointer and a
  length) is modelled by the bytes it denotes; the pointer pair \<open>src .. end\<close> of the C++
  functions by the list of the chunks between them, so \<open>src >= end\<close> is the empty list.

  The theory shows that every chunk operation acts as \<^term>\<open>take\<close> and \<^term>\<open>drop\<close> on the
  concatenation of the chunks, and states as a locale what a reader relies on in an
  \<^verbatim>\<open>input_buffer\<close>.
\<close>

section \<open>Chunk operations\<close>

type_synonym buf_chunk = bytes

definition copy_range :: "buf_chunk list \<Rightarrow> buf_chunk list \<Rightarrow> cxx_error + buf_chunk list \<times> nat" where
  "copy_range dest src =
     (case src of
        [] \<Rightarrow> Inr (dest, 0)
      | c # next \<Rightarrow>
          (case next of
             [] \<Rightarrow> Inr (dest @ [c], length c)
           | d # rest \<Rightarrow>
               if rest \<noteq> [] then Inl (Assert ''next+1 == end'')
               else Inr (dest @ [c, d], length c + length d)))"

definition get_range :: "buf_chunk list \<Rightarrow> nat \<Rightarrow> bytes option \<times> buf_chunk list" where
  "get_range src n =
     (case src of
        [] \<Rightarrow> (None, [])
      | c # cs \<Rightarrow>
          if n < length c then (Some (take n c), drop n c # cs)
          else
            let remain = n - length c in
            if remain = 0 then (Some c, cs)
            else case cs of
                [] \<Rightarrow> (None, [])
              | d # ds \<Rightarrow>
                  if remain > length d then (None, d # ds)
                  else (Some (c @ take remain d), drop remain d # ds))"

fun get_range_many_loop :: "bytes \<Rightarrow> buf_chunk list \<Rightarrow> nat \<Rightarrow> bytes option \<times> buf_chunk list \<times> nat" where
  "get_range_many_loop dest [] n = (None, [], 0)"
| "get_range_many_loop dest (c # cs) n =
     (if length c \<le> n then
        let n' = n - length c in
        if n' = 0 then (Some (dest @ c), cs, 0)
        else get_range_many_loop (dest @ c) cs n'
      else (Some (dest @ take n c), c # cs, n))"

definition get_range_many ::
  "buf_chunk list \<Rightarrow> nat \<Rightarrow> nat \<Rightarrow> bytes option \<times> buf_chunk list \<times> nat" where
  "get_range_many src offset n =
     (case src of
        [] \<Rightarrow> (None, [], offset)
      | c # cs \<Rightarrow>
          if offset + n < length c then (Some (slice offset n c), c # cs, offset + n)
          else
            let avail = length c - offset; n' = n - avail in
            if n' = 0 then (Some (slice offset avail c), cs, 0)
            else get_range_many_loop (slice offset avail c) cs n')"

text \<open>
  The variant that hands out a pointer when the data is contiguous (\<open>Inl\<close>), and the two
  chunks when it is not (\<open>Inr\<close>).
\<close>

definition get_range_cont ::
  "buf_chunk list \<Rightarrow> nat \<Rightarrow> (bytes + buf_chunk \<times> buf_chunk) option \<times> buf_chunk list" where
  "get_range_cont src n =
     (case src of
        [] \<Rightarrow> (None, [])
      | c # cs \<Rightarrow>
          if n < length c then (Some (Inl (take n c)), drop n c # cs)
          else
            let remain = n - length c in
            if remain = 0 then (Some (Inl c), cs)
            else case cs of
                [] \<Rightarrow> (None, [])
              | d # ds \<Rightarrow>
                  if remain > length d then (None, d # ds)
                  else if remain = length d then (Some (Inr (c, d)), ds)
                  else (Some (Inr (c, take remain d)), drop remain d # ds))"

definition get_range_chunks :: "buf_chunk list \<Rightarrow> nat \<Rightarrow> buf_chunk list option \<times> buf_chunk list" where
  "get_range_chunks src n =
     (case src of
        [] \<Rightarrow> (None, [])
      | c # cs \<Rightarrow>
          if n < length c then (Some [take n c], drop n c # cs)
          else
            let remain = n - length c in
            if remain = 0 then (Some [c], cs)
            else case cs of
                [] \<Rightarrow> (None, [])
              | d # ds \<Rightarrow>
                  if remain > length d then (None, d # ds)
                  else if remain = length d then (Some [c, d], ds)
                  else (Some [c, take remain d], drop remain d # ds))"

definition skip_range :: "buf_chunk list \<Rightarrow> nat \<Rightarrow> bool \<times> buf_chunk list" where
  "skip_range src n =
     (case src of
        [] \<Rightarrow> (False, [])
      | c # cs \<Rightarrow>
          if n < length c then (True, drop n c # cs)
          else
            let remain = n - length c in
            if remain = 0 then (True, cs)
            else case cs of
                [] \<Rightarrow> (False, [])
              | d # ds \<Rightarrow>
                  if remain > length d then (False, d # ds)
                  else (True, drop remain d # ds))"

section \<open>The input buffer interface\<close>

text \<open>
  The virtual functions of \<^verbatim>\<open>input_buffer\<close>, over the state \<open>'s\<close> of the class that
  implements them. \<open>map_range\<close> returns the chunks of a range; no chunk means that the range
  is not available (its return value 0).
\<close>

record 's input_buffer =
  map_range :: "'s \<Rightarrow> int \<Rightarrow> int \<Rightarrow> (buf_chunk list, 's) result"
  release_to :: "'s \<Rightarrow> int \<Rightarrow> 's"
  buffer_size :: "'s \<Rightarrow> nat"
  max_item_length :: "'s \<Rightarrow> nat"

record 's input_buffer_cont =
  ic_input :: 's
  ic_cur :: int

text \<open>
  \<^verbatim>\<open>off_t += size_t\<close>: the sum is taken modulo \<open>2 ^ 64\<close> and read as a signed number, so a
  length that wrapped below zero moves the position backwards.
\<close>

definition off_add :: "int \<Rightarrow> nat \<Rightarrow> int" where
  "off_add cur n = (cur + int n + 2 ^ 63) mod 2 ^ 64 - 2 ^ 63"

lemma off_add_small: "0 \<le> i \<Longrightarrow> i + int n < 2 ^ 63 \<Longrightarrow> off_add i n = i + int n"
  by (simp add: off_add_def)

definition read_range :: "'s input_buffer \<Rightarrow> 's \<Rightarrow> int \<Rightarrow> nat \<Rightarrow> (bytes option, 's) result" where
  "read_range vt s start n =
     andthen (map_range vt s start (off_add start n))
       (\<lambda>chunks s. (Inr (if chunks = [] then None else Some (concat chunks)), s))"

definition cont_map_range ::
  "'s input_buffer \<Rightarrow> 's input_buffer_cont \<Rightarrow> nat \<Rightarrow> (buf_chunk list, 's input_buffer_cont) result" where
  "cont_map_range vt ic n =
     (let start = ic_cur ic; cur = off_add start n
      in case map_range vt (ic_input ic) start cur of
           (r, s) \<Rightarrow> (r, \<lparr>ic_input = s, ic_cur = cur\<rparr>))"

definition cont_read_range ::
  "'s input_buffer \<Rightarrow> 's input_buffer_cont \<Rightarrow> nat \<Rightarrow> (bytes option, 's input_buffer_cont) result" where
  "cont_read_range vt ic n =
     (let start = ic_cur ic; cur = off_add start n
      in case read_range vt (ic_input ic) start n of
           (r, s) \<Rightarrow> (r, \<lparr>ic_input = s, ic_cur = cur\<rparr>))"

definition cont_release_to :: "'s input_buffer \<Rightarrow> 's input_buffer_cont \<Rightarrow> int \<Rightarrow> 's input_buffer_cont" where
  "cont_release_to vt ic end = ic\<lparr>ic_input := release_to vt (ic_input ic) end\<rparr>"

section \<open>Chunk operations on the bytes they describe\<close>

text \<open>One or two chunks, as \<open>map_range\<close> delivers them and the operations leave them.\<close>

abbreviation two_chunks :: "buf_chunk list \<Rightarrow> bool" where
  "two_chunks cs \<equiv> length cs \<le> 2"

lemma two_chunks_cases:
  assumes "two_chunks cs"
  obtains "cs = []" | c where "cs = [c]" | c d where "cs = [c, d]"
  using assms by (cases cs; cases "tl cs"; cases "tl (tl cs)") auto

lemma two_chunks_rest: "two_chunks cs \<Longrightarrow> two_chunks (snd (skip_range cs n))" "two_chunks cs \<Longrightarrow> two_chunks (snd (get_range cs n))"
  "two_chunks cs \<Longrightarrow> two_chunks (snd (get_range_cont cs n))"
  by (elim two_chunks_cases; auto simp: skip_range_def get_range_def get_range_cont_def Let_def)+

lemma get_range_None:
  "two_chunks cs \<Longrightarrow> fst (get_range cs n) = None \<longleftrightarrow> cs = [] \<or> length (concat cs) < n"
  by (erule two_chunks_cases) (auto simp: get_range_def Let_def split: if_splits)

lemma get_range_Some:
  assumes "two_chunks cs" and "cs \<noteq> []" and "n \<le> length (concat cs)"
  shows "\<exists>cs'. get_range cs n = (Some (take n (concat cs)), cs') \<and>
           concat cs' = drop n (concat cs) \<and> length cs' \<le> length cs"
  using assms by (elim two_chunks_cases) (auto simp: get_range_def Let_def)

lemma get_range_SomeD:
  assumes "two_chunks cs" and "get_range cs n = (Some b, cs')"
  shows "b = take n (concat cs)" and "concat cs' = drop n (concat cs)" and "n \<le> length (concat cs)"
    and "length cs' \<le> length cs" and "length b = n"
  using assms by (auto elim!: two_chunks_cases simp: get_range_def Let_def split: if_splits)

lemma skip_range_iff:
  "two_chunks cs \<Longrightarrow> skip_range cs n = (fst (get_range cs n) \<noteq> None, snd (get_range cs n))"
  by (erule two_chunks_cases) (auto simp: get_range_def skip_range_def Let_def)

lemma get_range_chunks_None:
  "two_chunks cs \<Longrightarrow> fst (get_range_chunks cs n) = None \<longleftrightarrow> cs = [] \<or> length (concat cs) < n"
  by (erule two_chunks_cases) (auto simp: get_range_chunks_def Let_def split: if_splits)

lemma get_range_chunks_SomeD:
  assumes "two_chunks cs" and "get_range_chunks cs n = (Some ds, cs')"
  shows "concat ds = take n (concat cs)" and "concat cs' = drop n (concat cs)"
    and "n \<le> length (concat cs)" and "two_chunks ds" and "ds \<noteq> []" and "length cs' \<le> length cs"
  using assms by (auto elim!: two_chunks_cases simp: get_range_chunks_def Let_def split: if_splits)

definition cont_bytes :: "bytes + buf_chunk \<times> buf_chunk \<Rightarrow> bytes" where
  "cont_bytes r = (case r of Inl d \<Rightarrow> d | Inr (c, d) \<Rightarrow> c @ d)"

lemma get_range_cont_chunks:
  assumes "two_chunks cs"
  shows "map_option cont_bytes (fst (get_range_cont cs n)) =
           map_option concat (fst (get_range_chunks cs n))"
    and "snd (get_range_cont cs n) = snd (get_range_chunks cs n)"
  using assms
  by (auto elim!: two_chunks_cases simp: get_range_cont_def get_range_chunks_def cont_bytes_def Let_def)

lemma get_range_many_loop_None:
  "0 < n \<Longrightarrow> fst (get_range_many_loop dest cs n) = None \<longleftrightarrow> length (concat cs) < n"
  by (induction dest cs n rule: get_range_many_loop.induct) (auto simp: Let_def)

lemma get_range_many_loop_SomeD:
  assumes "0 < n" and "get_range_many_loop dest cs n = (Some b, cs', off')"
  shows "b = dest @ take n (concat cs) \<and> drop off' (concat cs') = drop n (concat cs) \<and>
         (off' = 0 \<or> (\<exists>c rest. cs' = c # rest \<and> off' < length c)) \<and> n \<le> length (concat cs) \<and>
         length cs' \<le> length cs \<and> set cs' \<subseteq> set cs"
  using assms
proof (induction dest cs n rule: get_range_many_loop.induct)
  case (1 dest n)
  then show ?case by simp
next
  case (2 dest c cs n)
  show ?case
  proof (cases "length c \<le> n \<and> n - length c \<noteq> 0")
    case True
    with 2 show ?thesis by (auto simp: Let_def)
  next
    case False
    with 2 show ?thesis by (auto simp: Let_def split: if_splits)
  qed
qed

text \<open>A read position: chunks and an offset into the first of them.\<close>

definition offset_ok :: "buf_chunk list \<Rightarrow> nat \<Rightarrow> bool" where
  "offset_ok cs off \<longleftrightarrow> (case cs of [] \<Rightarrow> off = 0 | c # _ \<Rightarrow> off \<le> length c)"

lemma get_range_many_None:
  assumes "offset_ok cs off" and "0 < n"
  shows "fst (get_range_many cs off n) = None \<longleftrightarrow> length (drop off (concat cs)) < n"
  using assms
  by (cases cs) (auto simp: get_range_many_def offset_ok_def Let_def get_range_many_loop_None)

lemma get_range_many_SomeD:
  assumes "offset_ok cs off" and "0 < n" and "get_range_many cs off n = (Some b, cs', off')"
  shows "b = take n (drop off (concat cs)) \<and> drop off' (concat cs') = drop (off + n) (concat cs) \<and>
         offset_ok cs' off' \<and> length b = n \<and> length cs' \<le> length cs \<and> set cs' \<subseteq> set cs"
proof (cases cs)
  case Nil
  with assms show ?thesis by (simp add: get_range_many_def)
next
  case (Cons c ds)
  with assms(1) have off: "off \<le> length c" by (simp add: offset_ok_def)
  show ?thesis
  proof (cases "length c < off + n")
    case False
    with assms Cons off show ?thesis
      by (auto simp: get_range_many_def offset_ok_def slice_def Let_def split: list.splits if_splits)
  next
    case True
    then have more: "\<not> n \<le> length c - off" using off by linarith
    from assms(3) Cons True more have
      loop: "get_range_many_loop (drop off c) ds (n - (length c - off)) = (Some b, cs', off')"
      by (simp add: get_range_many_def slice_def Let_def del: diff_diff_right)
    have pos: "0 < n - (length c - off)" using more by linarith
    from get_range_many_loop_SomeD [OF pos loop] True off Cons show ?thesis
      by (auto simp: offset_ok_def add.commute [of n off] split: list.splits)
  qed
qed

text \<open>What is left from a position on: the measure of loops over the data of an event.\<close>

definition left_in :: "buf_chunk list \<Rightarrow> nat \<Rightarrow> nat" where
  "left_in cs offset = (case cs of [] \<Rightarrow> 0 | c # ds \<Rightarrow> length c - offset + length (concat ds))"

lemma get_range_many_loop_left:
  "get_range_many_loop dest cs n = (Some b, cs', off') \<Longrightarrow> 0 < n \<Longrightarrow>
   left_in cs' off' + n = length (concat cs) \<and> (off' = 0 \<or> (\<exists>c ds. cs' = c # ds \<and> off' \<le> length c))"
proof (induction dest cs n rule: get_range_many_loop.induct)
  case (2 dest c cs n)
  then show ?case
    by (cases "length c < n") (auto simp: Let_def left_in_def split: if_splits list.splits)
qed simp

lemma get_range_many_left:
  assumes "get_range_many cs off n = (Some b, cs', off')" and "0 < n"
  shows "left_in cs' off' + n \<le> left_in cs off \<and> (off' = 0 \<or> (\<exists>c ds. cs' = c # ds \<and> off' \<le> length c))"
proof (cases cs)
  case Nil
  with assms show ?thesis by (simp add: get_range_many_def)
next
  case (Cons c ds)
  show ?thesis
  proof (cases "off + n < length c \<or> n - (length c - off) = 0")
    case True
    with assms Cons show ?thesis
      by (auto simp: get_range_many_def Let_def left_in_def split: if_splits list.splits)
  next
    case False
    with assms(1) Cons have "get_range_many_loop (slice off (length c - off) c) ds (n - (length c - off)) =
        (Some b, cs', off')"
      by (auto simp: get_range_many_def Let_def simp del: diff_diff_right)
    from get_range_many_loop_left [OF this] False Cons show ?thesis
      by (auto simp: left_in_def)
  qed
qed

lemma left_in_tl: "left_in (tl cs) 0 \<le> left_in cs k"
  by (cases cs; cases "tl cs") (auto simp: left_in_def)

lemma left_in_offset: "k \<le> k' \<Longrightarrow> left_in cs k' \<le> left_in cs k"
  by (cases cs) (auto simp: left_in_def)

text \<open>A position in the chunks, no one of which is empty, and the bytes from there on.\<close>

definition position :: "buf_chunk list \<Rightarrow> nat \<Rightarrow> bytes \<Rightarrow> bool" where
  "position cs off bs \<longleftrightarrow>
     [] \<notin> set cs \<and> bs = drop off (concat cs) \<and> (case cs of [] \<Rightarrow> off = 0 | c # _ \<Rightarrow> off < length c)"

lemma position_Nil: "position cs off bs \<Longrightarrow> bs = [] \<longleftrightarrow> cs = []"
  by (cases cs) (auto simp: position_def)

lemma position_offset_ok: "position cs off bs \<Longrightarrow> offset_ok cs off"
  by (cases cs) (auto simp: position_def offset_ok_def)

lemma position_read:
  assumes "position cs off bs" and "0 < n" and "get_range_many cs off n = (Some b, cs', off')"
  shows "b = take n bs" and "position cs' off' (drop n bs)" and "n \<le> length bs"
proof -
  note ok = position_offset_ok [OF assms(1)]
  from get_range_many_SomeD [OF ok assms(2,3)] have
    r: "b = take n (drop off (concat cs))" "drop off' (concat cs') = drop (off + n) (concat cs)"
      "offset_ok cs' off'" "length b = n" "set cs' \<subseteq> set cs" by auto
  show "b = take n bs" "n \<le> length bs" using r assms(1) by (auto simp: position_def)
  have "off' < length c" if "cs' = c # ds" for c ds
  proof -
    have "c \<noteq> []" using that r(5) assms(1) by (auto simp: position_def)
    then show ?thesis
      using assms(2,3) that ok
      by (cases cs) (auto simp: get_range_many_def offset_ok_def Let_def split: if_splits
          dest: get_range_many_loop_SomeD [rotated])
  qed
  then show "position cs' off' (drop n bs)"
    using r assms(1) by (auto simp: position_def add.commute offset_ok_def split: list.splits)
qed

lemma position_read_None:
  "position cs off bs \<Longrightarrow> 0 < n \<Longrightarrow> fst (get_range_many cs off n) = None \<longleftrightarrow> length bs < n"
  using get_range_many_None [OF position_offset_ok] by (auto simp: position_def)

section \<open>What a reader relies on\<close>

text \<open>
  The contract of an \<^verbatim>\<open>input_buffer\<close>, as the event readers use it. \<open>stream s\<close> is the whole
  content of the input, \<open>released s\<close> the position up to which the reader has given memory
  back, \<open>window s\<close> how far beyond that position ranges can be mapped, \<open>mapped s\<close> a position
  that has been reached by mapping (memory can be given back up to there).
  A range inside the input is delivered as one or two chunks with exactly its bytes, cut only at
  a position that is a multiple of the window; a range
  that reaches past the end of the input is reported as not available; a range beyond the
  window is not available or refused with an error.
\<close>

locale input_source =
  fixes vt :: "'s input_buffer"
    and invar :: "'s \<Rightarrow> bool"
    and stream :: "'s \<Rightarrow> bytes"
    and released :: "'s \<Rightarrow> int"
    and window :: "'s \<Rightarrow> nat"
    and mapped :: "'s \<Rightarrow> int"
  assumes released_nonneg: "invar s \<Longrightarrow> 0 \<le> released s"
    and map_range_mapped:
      "invar s \<Longrightarrow> released s \<le> i \<Longrightarrow> i \<le> j \<Longrightarrow> j \<le> int (length (stream s)) \<Longrightarrow>
       j \<le> released s + int (window s) \<Longrightarrow>
       \<exists>cs s'. map_range vt s i j = (Inr cs, s') \<and> cs \<noteq> [] \<and> two_chunks cs \<and>
         (length cs = 2 \<longrightarrow> [] \<notin> set cs) \<and>
         (length cs = 2 \<longrightarrow> window s dvd nat i + length (hd cs)) \<and>
         concat cs = slice (nat i) (nat (j - i)) (stream s) \<and>
         invar s' \<and> stream s' = stream s \<and> released s' = released s \<and> window s' = window s \<and>
         mapped s \<le> mapped s' \<and> j \<le> mapped s'"
    and map_range_eof:
      "invar s \<Longrightarrow> released s \<le> i \<Longrightarrow> i \<le> j \<Longrightarrow> int (length (stream s)) < j \<Longrightarrow>
       j \<le> released s + int (window s) \<Longrightarrow>
       \<exists>s'. map_range vt s i j = (Inr [], s') \<and>
         invar s' \<and> stream s' = stream s \<and> released s' = released s \<and> window s' = window s \<and>
         mapped s \<le> mapped s'"
    and map_range_outside:
      "invar s \<Longrightarrow> released s \<le> i \<Longrightarrow> i \<le> j \<Longrightarrow> released s + int (window s) < j \<Longrightarrow>
       \<exists>r s'. map_range vt s i j = (r, s') \<and>
         (r = Inr [] \<and> int (length (stream s)) < j \<or> (\<exists>m. r = Inl (Err m))) \<and>
         invar s' \<and> stream s' = stream s \<and> released s' = released s \<and> window s' = window s \<and>
         mapped s \<le> mapped s'"
    and release_to_moves:
      "invar s \<Longrightarrow> released s \<le> i \<Longrightarrow> i \<le> mapped s \<Longrightarrow>
       invar (release_to vt s i) \<and> stream (release_to vt s i) = stream s \<and>
       released (release_to vt s i) = i \<and> window (release_to vt s i) = window s \<and>
       mapped (release_to vt s i) = mapped s"
    and max_item: "invar s \<Longrightarrow> max_item_length vt s = window s div 3"
    and stream_length: "invar s \<Longrightarrow> int (length (stream s)) < 2 ^ 62"
    and window_length: "invar s \<Longrightarrow> int (window s) < 2 ^ 61"
begin

text \<open>The states of one input that differ only in what has been buffered so far.\<close>

definition same_input :: "'s \<Rightarrow> 's \<Rightarrow> bool" where
  "same_input s s' \<longleftrightarrow>
     invar s' \<and> stream s' = stream s \<and> released s' = released s \<and> window s' = window s \<and>
     mapped s \<le> mapped s'"

lemma same_input_trans: "same_input s s' \<Longrightarrow> same_input s' s'' \<Longrightarrow> same_input s s''"
  by (simp add: same_input_def)

lemma read_range_mapped:
  assumes "invar s" and "released s \<le> i" and "i + int n \<le> int (length (stream s))"
    and "i + int n \<le> released s + int (window s)" and "i + int n < 2 ^ 63"
  shows "\<exists>s'. read_range vt s i n = (Inr (Some (slice (nat i) n (stream s))), s') \<and> same_input s s'"
proof -
  have "0 \<le> i" using released_nonneg [OF assms(1)] assms(2) by linarith
  then have off: "off_add i n = i + int n" using assms(5) by (rule off_add_small)
  from map_range_mapped [OF assms(1,2) _ assms(3,4)] obtain cs s' where
    "map_range vt s i (i + int n) = (Inr cs, s')" "cs \<noteq> []"
    "concat cs = slice (nat i) n (stream s)" "same_input s s'"
    by (auto simp: same_input_def)
  then show ?thesis by (auto simp: read_range_def off)
qed

lemma read_range_eof:
  assumes "invar s" and "released s \<le> i" and "int (length (stream s)) < i + int n"
    and "i + int n \<le> released s + int (window s)" and "i + int n < 2 ^ 63"
  shows "\<exists>s'. read_range vt s i n = (Inr None, s') \<and> same_input s s'"
proof -
  have "0 \<le> i" using released_nonneg [OF assms(1)] assms(2) by linarith
  then have off: "off_add i n = i + int n" using assms(5) by (rule off_add_small)
  from map_range_eof [OF assms(1,2) _ assms(3,4)] obtain s' where
    "map_range vt s i (i + int n) = (Inr [], s')" "same_input s s'"
    by (auto simp: same_input_def)
  then show ?thesis by (auto simp: read_range_def off)
qed

text \<open>A reader at a position of its input, and one from where memory can be given back.\<close>

definition cont_pos :: "bytes \<Rightarrow> nat \<Rightarrow> nat \<Rightarrow> 's input_buffer_cont \<Rightarrow> bool" where
  "cont_pos S w p ic \<longleftrightarrow>
     (let s = ic_input ic in invar s \<and> stream s = S \<and> window s = w \<and> released s \<le> int p \<and> ic_cur ic = int p)"

definition cont_at :: "bytes \<Rightarrow> nat \<Rightarrow> nat \<Rightarrow> 's input_buffer_cont \<Rightarrow> bool" where
  "cont_at S w p ic \<longleftrightarrow>
     (let s = ic_input ic in invar s \<and> stream s = S \<and> window s = w \<and> released s \<le> int p \<and> int p \<le> mapped s \<and> ic_cur ic = int p)"

lemma cont_at_pos: "cont_at S w p ic \<Longrightarrow> cont_pos S w p ic"
  by (simp add: cont_at_def cont_pos_def Let_def)

lemma cont_map_at:
  assumes "cont_pos S w p ic" "int (p + n) \<le> released (ic_input ic) + int w" "p + n \<le> length S"
  shows "\<exists>cs ic'. cont_map_range vt ic n = (Inr cs, ic') \<and> cs \<noteq> [] \<and> two_chunks cs \<and> (length cs = 2 \<longrightarrow> [] \<notin> set cs) \<and>
    concat cs = slice p n S \<and> cont_at S w (p + n) ic' \<and> released (ic_input ic') = released (ic_input ic)"
proof -
  let ?s = "ic_input ic"
  have a: "invar ?s" "stream ?s = S" "window ?s = w" "released ?s \<le> int p" "ic_cur ic = int p"
    using assms(1) by (simp_all add: cont_pos_def Let_def)
  have "int (length S) < 2 ^ 62" using stream_length [OF a(1)] a(2) by simp
  then have off: "off_add (int p) n = int p + int n" using assms(3) by (intro off_add_small) auto
  from map_range_mapped [OF a(1), of "int p" "int p + int n"] a(2-4) assms(2,3) obtain cs s' where
    m: "map_range vt ?s (int p) (int p + int n) = (Inr cs, s')" "cs \<noteq> []" "two_chunks cs" "length cs = 2 \<longrightarrow> [] \<notin> set cs"
      "concat cs = slice p n S" "invar s'" "stream s' = S" "released s' = released ?s" "window s' = w" "int p + int n \<le> mapped s'" by auto
  then show ?thesis using a off by (simp add: cont_map_range_def cont_at_def Let_def)
qed

lemma cont_read_at:
  assumes "cont_pos S w p ic" "int (p + n) \<le> released (ic_input ic) + int w" "p + n \<le> length S"
  shows "\<exists>ic'. cont_read_range vt ic n = (Inr (Some (slice p n S)), ic') \<and> cont_at S w (p + n) ic' \<and> released (ic_input ic') = released (ic_input ic)"
proof -
  from cont_map_at [OF assms] obtain cs ic' where
    "cont_map_range vt ic n = (Inr cs, ic')" "cs \<noteq> []" "concat cs = slice p n S" "cont_at S w (p + n) ic'" "released (ic_input ic') = released (ic_input ic)" by auto
  then show ?thesis by (auto simp: cont_read_range_def cont_map_range_def read_range_def Let_def split: prod.splits)
qed

lemma cont_read_end:
  assumes "cont_pos S w p ic" "p \<le> length S + 2 ^ 33" "length S < p + n" "int (p + n) \<le> released (ic_input ic) + int w"
  shows "\<exists>ic'. cont_read_range vt ic n = (Inr None, ic')"
proof -
  let ?s = "ic_input ic"
  have a: "invar ?s" "stream ?s = S" "window ?s = w" "released ?s \<le> int p" "ic_cur ic = int p"
    using assms(1) by (simp_all add: cont_pos_def Let_def)
  have "int p + int n < 2 ^ 63"
    using stream_length [OF a(1)] window_length [OF a(1)] a(2,3,4) assms(2,4) by simp
  from read_range_eof [OF a(1) a(4), of n] a(2,3) assms(3,4) this obtain s' where "read_range vt ?s (int p) n = (Inr None, s')" by auto
  then show ?thesis using a(5) by (simp add: cont_read_range_def)
qed

lemma cont_release_at:
  assumes "cont_at S w p ic"
  shows "cont_at S w p (cont_release_to vt ic (ic_cur ic))" "released (ic_input (cont_release_to vt ic (ic_cur ic))) = int p"
  using assms release_to_moves [of "ic_input ic" "int p"] by (simp_all add: cont_at_def Let_def cont_release_to_def)

text \<open>The same for any length: what is left of a position when the input ends or the window is too small.\<close>

definition cont_held :: "bytes \<Rightarrow> 's input_buffer_cont \<Rightarrow> bool" where
  "cont_held S ic \<longleftrightarrow> invar (ic_input ic) \<and> stream (ic_input ic) = S"

lemma cont_at_holds: "cont_at S w p ic \<Longrightarrow> cont_held S ic"
  by (simp add: cont_at_def cont_held_def Let_def)

lemma cont_map_any:
  assumes "cont_pos S w p ic" "p \<le> length S + 2 ^ 33" "n \<le> 2 ^ 33"
  shows "outcome (\<lambda>cs ic'. cont_held S ic' \<and> (cs \<noteq> [] \<longrightarrow> two_chunks cs \<and> p + n \<le> length S \<and> length (concat cs) = n \<and> cont_at S w (p + n) ic' \<and>
      released (ic_input ic') = released (ic_input ic)))
    (\<lambda>e ic'. cont_held S ic' \<and> (\<exists>m. e = Err m)) (cont_map_range vt ic n)"
proof -
  let ?s = "ic_input ic"
  have a: "invar ?s" "stream ?s = S" "window ?s = w" "released ?s \<le> int p" "ic_cur ic = int p"
    using assms(1) by (simp_all add: cont_pos_def Let_def)
  have "int (length S) < 2 ^ 62" using stream_length [OF a(1)] a(2) by simp
  then have off: "off_add (int p) n = int p + int n" using assms(2,3) by (intro off_add_small) auto
  consider "released ?s + int w < int p + int n" | "int p + int n \<le> released ?s + int w" "int (length S) < int p + int n"
    | "int (p + n) \<le> released ?s + int w" "p + n \<le> length S" by linarith
  then show ?thesis
  proof cases
    case 1
    from map_range_outside [OF a(1,4), of "int p + int n"] 1 a show ?thesis by (auto simp: cont_map_range_def off cont_held_def)
  next
    case 2
    from map_range_eof [OF a(1,4), of "int p + int n"] 2 a show ?thesis by (auto simp: cont_map_range_def off cont_held_def)
  next
    case 3
    from cont_map_at [OF assms(1) 3] obtain cs ic' where
      m: "cont_map_range vt ic n = (Inr cs, ic')" "two_chunks cs" "concat cs = slice p n S" "cont_at S w (p + n) ic'"
        "released (ic_input ic') = released (ic_input ic)" by auto
    have "length (slice p n S) = n" using 3(2) by (simp add: slice_def)
    then show ?thesis using m 3(2) cont_at_holds [OF m(4)] by simp
  qed
qed

lemma cont_read_any:
  assumes "cont_pos S w p ic" "p \<le> length S + 2 ^ 33" "n \<le> 2 ^ 33"
  shows "outcome (\<lambda>b ic'. cont_held S ic' \<and> (\<forall>d. b = Some d \<longrightarrow> p + n \<le> length S \<and> length d = n \<and> cont_at S w (p + n) ic' \<and>
      released (ic_input ic') = released (ic_input ic)))
    (\<lambda>e ic'. cont_held S ic' \<and> (\<exists>m. e = Err m)) (cont_read_range vt ic n)"
proof -
  have r: "cont_read_range vt ic n = andthen (cont_map_range vt ic n) (\<lambda>cs ic. (Inr (if cs = [] then None else Some (concat cs)), ic))"
    by (auto simp: cont_read_range_def cont_map_range_def read_range_def andthen_def Let_def split: prod.splits sum.splits)
  show ?thesis unfolding r by (rule outcome_andthen [OF cont_map_any [OF assms]]) auto
qed

end

section \<open>Properties\<close>

text \<open>C30. The four ways to take \<open>n\<close> bytes from one or two chunks (copying them, as a pointer or
  two chunks, as chunks, or skipping them) succeed on exactly the same inputs, deliver the
  same bytes, the first \<open>n\<close> of the data, and leave exactly the rest of the data behind.\<close>

theorem chunk_reads_agree:
  assumes "two_chunks cs" and "cs \<noteq> []"
  shows "if n \<le> length (concat cs)
         then (\<exists>b ds r cs1 cs2.
                 get_range cs n = (Some b, cs1) \<and> get_range_chunks cs n = (Some ds, cs2) \<and>
                 get_range_cont cs n = (Some r, cs2) \<and> skip_range cs n = (True, cs1) \<and>
                 b = take n (concat cs) \<and> concat ds = b \<and> cont_bytes r = b \<and>
                 concat cs1 = drop n (concat cs) \<and> concat cs2 = drop n (concat cs))
         else fst (get_range cs n) = None \<and> fst (get_range_chunks cs n) = None \<and>
              fst (get_range_cont cs n) = None \<and> \<not> fst (skip_range cs n)"
  using assms
  by (elim two_chunks_cases)
    (auto simp: get_range_def get_range_chunks_def get_range_cont_def skip_range_def
      cont_bytes_def Let_def)

theorem chunk_reads_agree_witness:
  "two_chunks [[1, 2], [3, 4, 5]] \<and>
   get_range [[1, 2], [3, 4, 5 :: u8]] 3 = (Some [1, 2, 3], [[4, 5]])"
  using chunk_reads_agree [of "[[1, 2], [3, 4, 5]]" 3] by (simp add: get_range_def)

text \<open>Reading \<open>n\<close> bytes across any number of chunks from an offset in the first one fails
  exactly when fewer than \<open>n\<close> bytes remain; otherwise it delivers the next \<open>n\<close> bytes and
  leaves a read position that denotes exactly the bytes after them.\<close>

lemma get_range_many_refines:
  assumes "offset_ok cs off" and "0 < n"
  shows "case get_range_many cs off n of
           (None, _, _) \<Rightarrow> length (drop off (concat cs)) < n
         | (Some b, cs', off') \<Rightarrow>
             n \<le> length (drop off (concat cs)) \<and> b = take n (drop off (concat cs)) \<and>
             drop off' (concat cs') = drop n (drop off (concat cs)) \<and> offset_ok cs' off'"
proof -
  obtain r cs' off' where res: "get_range_many cs off n = (r, cs', off')"
    by (metis prod_cases3)
  show ?thesis
  proof (cases r)
    case None
    with res get_range_many_None [OF assms] show ?thesis by simp
  next
    case (Some b)
    with res get_range_many_SomeD [OF assms] get_range_many_None [OF assms] show ?thesis
      by (auto simp: add.commute)
  qed
qed

lemma get_range_many_refines_witness:
  "offset_ok [[9, 1], [2], [3, 4 :: u8]] 1 \<and>
   get_range_many [[9, 1], [2], [3, 4 :: u8]] 1 3 = (Some [1, 2, 3], [[3, 4]], 1)"
  using get_range_many_refines [of "[[9, 1], [2], [3, 4]]" 1 3]
  by (simp add: get_range_many_def offset_ok_def slice_def)

end
