(* ===== verification/Pipe_Buffer.thy ===== *)
theory Pipe_Buffer
  imports Input_Buffer
begin

text \<open>
  The circular input buffer (\<^verbatim>\<open>file_input/pipe_buffer.cc\<close>), in the build without a reader
  thread: \<open>read_now\<close> fills the buffer from the file descriptor until a requested position is
  available, \<open>map_range\<close> hands out a range of it as one or two chunks, \<open>release_to\<close> gives
  memory back. \<open>_avail\<close> and \<open>_done\<close> are stream positions (they would wrap after \<open>2 ^ 64\<close>
  bytes); the buffer cell of position \<open>i\<close> is \<open>i AND (_size - 1)\<close>.

  The operating system's \<^verbatim>\<open>read\<close> delivers the next bytes of the descriptor's data, between one
  and the number asked for, 0 bytes at the end, or fails; how much it delivers, and whether
  a signal interrupts it, is decided by a schedule carried by the descriptor.
\<close>

section \<open>The file descriptor\<close>

datatype read_result = Read_some nat | Read_eintr | Read_fail

record fd_state =
  fd_data :: bytes
  fd_pos :: nat
  fd_sched :: "read_result list"

datatype sys_read = Got bytes | Intr | Failed

definition sys_read :: "fd_state \<Rightarrow> nat \<Rightarrow> sys_read \<times> fd_state" where
  "sys_read fd n =
     (let left = length (fd_data fd) - fd_pos fd;
          deliver = (\<lambda>k fd. (Got (slice (fd_pos fd) k (fd_data fd)), fd\<lparr>fd_pos := fd_pos fd + k\<rparr>))
      in case fd_sched fd of
           [] \<Rightarrow> deliver (min n left) fd
         | Read_some k # rs \<Rightarrow> deliver (min (max 1 k) (min n left)) (fd\<lparr>fd_sched := rs\<rparr>)
         | Read_eintr # rs \<Rightarrow> (Intr, fd\<lparr>fd_sched := rs\<rparr>)
         | Read_fail # rs \<Rightarrow> (Failed, fd\<lparr>fd_sched := rs\<rparr>))"

section \<open>The buffer\<close>

record pipe_buffer =
  pb_buffer :: bytes
  pb_size :: nat
  pb_avail :: nat
  pb_done :: nat
  pb_front :: nat
  pb_reached_eof :: bool
  pb_fd :: fd_state

definition buf_write :: "bytes \<Rightarrow> nat \<Rightarrow> bytes \<Rightarrow> bytes" where
  "buf_write buf off data = take off buf @ data @ drop (off + length data) buf"

definition pipe_new :: pipe_buffer where
  "pipe_new =
     \<lparr>pb_buffer = [], pb_size = 0, pb_avail = 0, pb_done = 0, pb_front = 0,
      pb_reached_eof = False, pb_fd = \<lparr>fd_data = [], fd_pos = 0, fd_sched = []\<rparr>\<rparr>"

text \<open>
  \<open>push_magic\<close> are the bytes that the opening code has already read from the descriptor to
  recognise the file type; they are put first in the buffer. \<open>fresh\<close> is what \<^verbatim>\<open>malloc\<close>
  returns.
\<close>

definition pipe_init :: "fd_state \<Rightarrow> bytes \<Rightarrow> bytes \<Rightarrow> pipe_buffer \<Rightarrow> pipe_buffer" where
  "pipe_init fd push_magic fresh pb =
     pb\<lparr>pb_fd := fd, pb_buffer := buf_write fresh 0 push_magic, pb_size := length fresh,
        pb_avail := pb_avail pb + length push_magic\<rparr>"

definition pipe_realloc :: "bytes \<Rightarrow> pipe_buffer \<Rightarrow> (unit, pipe_buffer) result" where
  "pipe_realloc fresh pb =
     (if pb_avail pb = 0 \<and> pb_done pb = 0
      then (Inr (), pb\<lparr>pb_buffer := fresh, pb_size := length fresh\<rparr>)
      else (Inl (Assert ''_avail == 0 && _done == 0''), pb))"

function read_now :: "int \<Rightarrow> pipe_buffer \<Rightarrow> (bool, pipe_buffer) result" where
  "read_now end pb =
     (if int (pb_avail pb) - end < 0 then
        if pb_reached_eof pb then (Inr False, pb)
        else
          let space = pb_size pb - (pb_avail pb - pb_done pb);
              offset = pb_avail pb AND (pb_size pb - 1);
              need = nat (end - int (pb_avail pb));
              segment = min (min (pb_size pb - offset) space) need
          in if space \<le> 0 then (Inl (Err ''pipe_buffer too small''), pb)
             else case sys_read (pb_fd pb) segment of
                 (Got data, fd) \<Rightarrow>
                   if data = [] then read_now end (pb\<lparr>pb_reached_eof := True, pb_fd := fd\<rparr>)
                   else read_now end
                          (pb\<lparr>pb_buffer := buf_write (pb_buffer pb) offset data,
                              pb_avail := pb_avail pb + length data, pb_fd := fd\<rparr>)
               | (Intr, fd) \<Rightarrow> read_now end (pb\<lparr>pb_fd := fd\<rparr>)
               | (Failed, fd) \<Rightarrow> (Inl (Err ''Error while reading''), pb\<lparr>pb_fd := fd\<rparr>)
      else (Inr True, pb))"
  by pat_completeness auto

definition read_now_measure :: "int \<times> pipe_buffer \<Rightarrow> nat" where
  "read_now_measure = (\<lambda>(end, pb).
     (length (fd_data (pb_fd pb)) - fd_pos (pb_fd pb)) + length (fd_sched (pb_fd pb)) +
     (if pb_reached_eof pb then 0 else 1))"

lemma sys_read_Got:
  assumes "sys_read fd n = (Got data, fd')"
  shows "length (fd_data fd') - fd_pos fd' + length (fd_sched fd') + length data \<le>
           length (fd_data fd) - fd_pos fd + length (fd_sched fd)"
    and "data = slice (fd_pos fd) (length data) (fd_data fd)" and "length data \<le> n"
    and "fd_data fd' = fd_data fd" and "fd_pos fd' = fd_pos fd + length data"
    and "set (fd_sched fd') \<subseteq> set (fd_sched fd)"
    and "0 < n \<Longrightarrow> data = [] \<Longrightarrow> length (fd_data fd) \<le> fd_pos fd"
  using assms
  by (auto simp: sys_read_def Let_def slice_def min_def split: list.splits read_result.splits if_splits)

lemma sys_read_Intr:
  assumes "sys_read fd n = (Intr, fd')"
  shows "fd_data fd' = fd_data fd" and "fd_pos fd' = fd_pos fd"
    and "length (fd_sched fd) = Suc (length (fd_sched fd'))"
    and "set (fd_sched fd') \<subseteq> set (fd_sched fd)"
  using assms by (auto simp: sys_read_def Let_def split: list.splits read_result.splits)

lemma sys_read_Failed: "sys_read fd n = (Failed, fd') \<Longrightarrow> Read_fail \<in> set (fd_sched fd)"
  by (auto simp: sys_read_def Let_def split: list.splits read_result.splits)

lemma sys_read_progress:
  assumes "(Got data, fd') = sys_read fd n" and "data \<noteq> []"
  shows "length (fd_data fd') - fd_pos fd' + length (fd_sched fd') <
           length (fd_data fd) - fd_pos fd + length (fd_sched fd)"
proof -
  have "0 < length data" using assms(2) by simp
  then show ?thesis using sys_read_Got(1) [OF assms(1) [symmetric]] by linarith
qed

lemma sys_read_Intr_progress:
  assumes "(Intr, fd') = sys_read fd n"
  shows "length (fd_data fd') - fd_pos fd' + length (fd_sched fd') <
           length (fd_data fd) - fd_pos fd + length (fd_sched fd)"
  using sys_read_Intr [OF assms [symmetric]] by simp

termination read_now
proof (relation "measure read_now_measure", goal_cases)
  case 1
  show ?case by simp
next
  case (2 e pb)
  then show ?case by (auto simp: read_now_measure_def dest!: sys_read_Got(1) [OF sym])
next
  case (3 e pb)
  then show ?case
    by (simp add: read_now_measure_def) (drule sys_read_progress, assumption, simp)
next
  case (4 e pb sp off need seg r fd)
  from 4(8,9) have "(Intr, fd) = sys_read (pb_fd pb) seg" by simp
  from sys_read_Intr_progress [OF this] show ?case by (simp add: read_now_measure_def)
qed

declare read_now.simps [simp del]

definition pipe_map_range :: "pipe_buffer \<Rightarrow> int \<Rightarrow> int \<Rightarrow> (buf_chunk list, pipe_buffer) result" where
  "pipe_map_range pb start end =
     andthen (read_now end pb) (\<lambda>avail pb.
       if \<not> avail then (Inr [], pb)
       else
         let pb = pb\<lparr>pb_front := nat (end mod 2 ^ 64)\<rparr>;
             offset = nat (start mod 2 ^ 64) AND (pb_size pb - 1);
             size = nat ((end - start) mod 2 ^ 64);
             segment = pb_size pb - offset
         in if size \<le> segment then (Inr [slice offset size (pb_buffer pb)], pb)
            else if size - segment > pb_size pb then (Inl (Undef ''chunk outside the buffer''), pb)
            else (Inr [slice offset segment (pb_buffer pb), slice 0 (size - segment) (pb_buffer pb)], pb))"

definition pipe_release_to :: "pipe_buffer \<Rightarrow> int \<Rightarrow> pipe_buffer" where
  "pipe_release_to pb end = pb\<lparr>pb_done := nat (end mod 2 ^ 64)\<rparr>"

definition pipe_buffer_size :: "pipe_buffer \<Rightarrow> nat" where
  "pipe_buffer_size pb = pb_size pb"

definition pipe_max_item_length :: "pipe_buffer \<Rightarrow> nat" where
  "pipe_max_item_length pb = pb_size pb div 3"

definition pipe_vt :: "pipe_buffer input_buffer" where
  "pipe_vt =
     \<lparr>map_range = pipe_map_range, release_to = pipe_release_to,
      buffer_size = pipe_buffer_size, max_item_length = pipe_max_item_length\<rparr>"

section \<open>The invariant\<close>

definition pipe_stream :: "pipe_buffer \<Rightarrow> bytes" where
  "pipe_stream pb = fd_data (pb_fd pb)"

text \<open>
  The cells of the positions between \<open>_done\<close> and \<open>_avail\<close> hold the bytes of the stream.
\<close>

definition pipe_inv :: "pipe_buffer \<Rightarrow> bool" where
  "pipe_inv pb \<longleftrightarrow>
     (\<exists>k. pb_size pb = 2 ^ k) \<and> length (pb_buffer pb) = pb_size pb \<and>
     pb_done pb \<le> pb_avail pb \<and> pb_avail pb \<le> pb_done pb + pb_size pb \<and>
     fd_pos (pb_fd pb) = pb_avail pb \<and> pb_avail pb \<le> length (pipe_stream pb) \<and>
     length (pipe_stream pb) < 2 ^ 62 \<and> pb_size pb < 2 ^ 61 \<and>
     (pb_reached_eof pb \<longrightarrow> pb_avail pb = length (pipe_stream pb)) \<and>
     Read_fail \<notin> set (fd_sched (pb_fd pb)) \<and>
     (\<forall>i. pb_done pb \<le> i \<and> i < pb_avail pb \<longrightarrow>
        pb_buffer pb ! (i mod pb_size pb) = pipe_stream pb ! i)"

lemma and_size_mod: "size = 2 ^ k \<Longrightarrow> i AND (size - 1) = i mod size" for i size :: nat
  by (metis mask_eq_exp_minus_1 take_bit_eq_mask take_bit_eq_mod)

lemma mod_add_no_wrap: "a mod m + k < m \<Longrightarrow> (a + k) mod m = a mod m + k" for a k m :: nat
proof -
  assume "a mod m + k < m"
  then have "(a mod m + k) mod m = a mod m + k" by simp
  then show ?thesis by (simp add: mod_add_left_eq)
qed

lemma length_buf_write:
  "off + length data \<le> length buf \<Longrightarrow> length (buf_write buf off data) = length buf"
  by (simp add: buf_write_def)

lemma nth_buf_write:
  "off + length data \<le> length buf \<Longrightarrow> i < length buf \<Longrightarrow>
   buf_write buf off data ! i =
     (if off \<le> i \<and> i < off + length data then data ! (i - off) else buf ! i)"
  by (auto simp: buf_write_def nth_append)

text \<open>Storing the next bytes of the stream at \<open>_avail\<close> does not touch a cell still in use.\<close>

lemma pipe_inv_store:
  assumes inv: "pipe_inv pb" and off: "off = pb_avail pb mod pb_size pb"
    and fits: "off + length data \<le> pb_size pb" "pb_avail pb + length data \<le> pb_done pb + pb_size pb"
    and data: "data = slice (pb_avail pb) (length data) (pipe_stream pb)"
    and fd: "fd_data fd = pipe_stream pb" "fd_pos fd = pb_avail pb + length data"
      "Read_fail \<notin> set (fd_sched fd)" "\<not> pb_reached_eof pb"
  shows "pipe_inv (pb\<lparr>pb_buffer := buf_write (pb_buffer pb) off data,
                      pb_avail := pb_avail pb + length data, pb_fd := fd\<rparr>)"
proof -
  let ?m = "pb_size pb" and ?a = "pb_avail pb" and ?buf = "pb_buffer pb"
  have len: "length ?buf = ?m" and pos: "0 < ?m"
    and cells: "\<And>i. pb_done pb \<le> i \<Longrightarrow> i < ?a \<Longrightarrow> ?buf ! (i mod ?m) = pipe_stream pb ! i"
    using inv by (auto simp: pipe_inv_def)
  have more: "?a + length data \<le> length (pipe_stream pb)"
    using arg_cong [OF data, of length] inv by (auto simp: pipe_inv_def)
  have "buf_write ?buf off data ! (i mod ?m) = pipe_stream pb ! i"
    if i: "pb_done pb \<le> i" "i < ?a + length data" for i
  proof (cases "i < ?a")
    case True
    have "i mod ?m \<noteq> off + k" if k: "k < length data" for k
    proof -
      have "(?a + k) mod ?m = off + k" using k fits(1) off by (simp add: mod_add_no_wrap)
      moreover have "i < ?a + k" "?a + k < i + ?m" using True i k fits(2) by linarith+
      ultimately show ?thesis using mod_neq_window by metis
    qed
    then have "\<not> (off \<le> i mod ?m \<and> i mod ?m < off + length data)"
      by (metis add_diff_inverse_nat add_less_cancel_left not_less)
    then have "buf_write ?buf off data ! (i mod ?m) = ?buf ! (i mod ?m)"
      using fits(1) len pos by (auto simp: nth_buf_write)
    then show ?thesis using cells [OF i(1) True] by simp
  next
    case False
    define k where "k = i - ?a"
    have k: "i = ?a + k" "k < length data" using False i by (auto simp: k_def)
    have "i mod ?m = off + k"
      using k fits(1) off by (simp add: mod_add_no_wrap)
    moreover have "data ! k = pipe_stream pb ! i"
      using k more by (subst data) (simp add: slice_def)
    ultimately show ?thesis using nth_buf_write [of off data ?buf "i mod ?m"] fits(1) len k by simp
  qed
  then show ?thesis using inv fits fd more
    by (auto simp: pipe_inv_def pipe_stream_def length_buf_write)
qed

text \<open>One round of the loop, with the number of bytes it asks for.\<close>

definition read_segment :: "int \<Rightarrow> pipe_buffer \<Rightarrow> nat" where
  "read_segment e pb =
     min (min (pb_size pb - pb_avail pb mod pb_size pb) (pb_size pb - (pb_avail pb - pb_done pb)))
       (nat (e - int (pb_avail pb)))"

lemma read_now_done:
  "\<not> int (pb_avail pb) < e \<Longrightarrow> read_now e pb = (Inr True, pb)"
  "int (pb_avail pb) < e \<Longrightarrow> pb_reached_eof pb \<Longrightarrow> read_now e pb = (Inr False, pb)"
  by (simp_all add: read_now.simps [of e pb])

lemma read_now_round:
  assumes "pb_size pb = 2 ^ k" and "int (pb_avail pb) < e" and "\<not> pb_reached_eof pb"
    and "pb_avail pb - pb_done pb < pb_size pb"
  shows "read_now e pb =
      (case sys_read (pb_fd pb) (read_segment e pb) of
         (Got data, fd) \<Rightarrow>
           if data = [] then read_now e (pb\<lparr>pb_reached_eof := True, pb_fd := fd\<rparr>)
           else read_now e (pb\<lparr>pb_buffer := buf_write (pb_buffer pb) (pb_avail pb mod pb_size pb) data,
                               pb_avail := pb_avail pb + length data, pb_fd := fd\<rparr>)
       | (Intr, fd) \<Rightarrow> read_now e (pb\<lparr>pb_fd := fd\<rparr>)
       | (Failed, fd) \<Rightarrow> (Inl (Err ''Error while reading''), pb\<lparr>pb_fd := fd\<rparr>))"
proof -
  have "pb_avail pb AND (pb_size pb - 1) = pb_avail pb mod pb_size pb"
    by (rule and_size_mod [OF assms(1)])
  then show ?thesis
    using assms(2-4) by (subst read_now.simps) (simp add: Let_def read_segment_def)
qed

lemma read_segment_bounds:
  assumes "pipe_inv pb" and "int (pb_avail pb) < e" and "pb_avail pb - pb_done pb < pb_size pb"
  shows "0 < read_segment e pb" and "pb_avail pb mod pb_size pb + read_segment e pb \<le> pb_size pb"
    and "pb_avail pb + read_segment e pb \<le> pb_done pb + pb_size pb"
proof -
  have "0 < pb_size pb" "pb_done pb \<le> pb_avail pb" "pb_avail pb \<le> pb_done pb + pb_size pb"
    using assms(1) by (auto simp: pipe_inv_def)
  moreover from this have "pb_avail pb mod pb_size pb < pb_size pb" by simp
  ultimately show "0 < read_segment e pb" "pb_avail pb mod pb_size pb + read_segment e pb \<le> pb_size pb"
    "pb_avail pb + read_segment e pb \<le> pb_done pb + pb_size pb"
    using assms(2,3) by (auto simp: read_segment_def min_def)
qed

lemma read_now_too_small:
  assumes "int (pb_avail pb) < e" and "\<not> pb_reached_eof pb" and "\<not> pb_avail pb - pb_done pb < pb_size pb"
  shows "read_now e pb = (Inl (Err ''pipe_buffer too small''), pb)"
  using assms by (subst read_now.simps) (simp add: Let_def)

text \<open>
  The outcome of \<open>read_now\<close> for any end position: whether the input reaches that far, or, for
  an end outside the window only, the error that the buffer is too small.
\<close>

definition read_now_outcome :: "int \<Rightarrow> pipe_buffer \<Rightarrow> cxx_error + bool \<Rightarrow> bool" where
  "read_now_outcome e pb r \<longleftrightarrow>
     r = Inr (e \<le> int (length (pipe_stream pb))) \<or>
     int (pb_done pb + pb_size pb) < e \<and> r = Inl (Err ''pipe_buffer too small'')"

lemma read_now_spec_any:
  assumes "pipe_inv pb"
  shows "\<exists>r pb'. read_now e pb = (r, pb') \<and> read_now_outcome e pb r \<and> pipe_inv pb' \<and>
           pipe_stream pb' = pipe_stream pb \<and> pb_done pb' = pb_done pb \<and> pb_size pb' = pb_size pb \<and>
           pb_avail pb \<le> pb_avail pb' \<and> (r = Inr True \<longrightarrow> e \<le> int (pb_avail pb'))"
  using assms
proof (induction "read_now_measure (e, pb)" arbitrary: pb rule: less_induct)
  case less
  note inv = less.prems
  obtain k where k: "pb_size pb = 2 ^ k" using inv by (auto simp: pipe_inv_def)
  show ?case
  proof (cases "int (pb_avail pb) < e \<and> \<not> pb_reached_eof pb \<and> pb_avail pb - pb_done pb < pb_size pb")
    case False
    have "pb_done pb \<le> pb_avail pb" using inv by (simp add: pipe_inv_def)
    then have "int (pb_done pb + pb_size pb) < e"
      if "int (pb_avail pb) < e" "\<not> pb_avail pb - pb_done pb < pb_size pb"
      using that by linarith
    then show ?thesis
      using inv False
      by (cases "int (pb_avail pb) < e"; cases "pb_reached_eof pb")
        (auto simp: read_now_done read_now_too_small read_now_outcome_def pipe_inv_def)
  next
    case True
    then have round: "int (pb_avail pb) < e" "\<not> pb_reached_eof pb" "pb_avail pb - pb_done pb < pb_size pb"
      by simp_all
    note seg = read_segment_bounds [OF inv round(1,3)]
    note round = read_now_round [OF k round]
    obtain r fd where rd: "sys_read (pb_fd pb) (read_segment e pb) = (r, fd)" by fastforce
    show ?thesis
    proof (cases r)
      case (Got data)
      note got = sys_read_Got [OF rd [unfolded Got]]
      show ?thesis
      proof (cases "data = []")
        case empty: True
        let ?pb = "pb\<lparr>pb_reached_eof := True, pb_fd := fd\<rparr>"
        have "pipe_inv ?pb" using inv got seg(1) empty by (auto simp: pipe_inv_def pipe_stream_def)
        moreover have "read_now_measure (e, ?pb) < read_now_measure (e, pb)"
          using got(1) True by (simp add: read_now_measure_def)
        ultimately show ?thesis
          using less.hyps [of ?pb] round rd Got empty got(4)
          by (simp add: pipe_stream_def read_now_outcome_def)
      next
        case False
        let ?pb = "pb\<lparr>pb_buffer := buf_write (pb_buffer pb) (pb_avail pb mod pb_size pb) data,
                      pb_avail := pb_avail pb + length data, pb_fd := fd\<rparr>"
        have "pipe_inv ?pb"
          by (rule pipe_inv_store [OF inv refl])
            (use got seg inv True in \<open>auto simp: pipe_inv_def pipe_stream_def\<close>)
        moreover have "read_now_measure (e, ?pb) < read_now_measure (e, pb)"
          using sys_read_progress [OF rd [unfolded Got, symmetric] False] by (simp add: read_now_measure_def)
        moreover have "read_now e pb = read_now e ?pb" using round rd Got False by simp
        ultimately show ?thesis
          using less.hyps [of ?pb] got(4) by (auto simp: pipe_stream_def read_now_outcome_def)
      qed
    next
      case Intr
      let ?pb = "pb\<lparr>pb_fd := fd\<rparr>"
      note intr = sys_read_Intr [OF rd [unfolded Intr]]
      have "pipe_inv ?pb" using inv intr by (auto simp: pipe_inv_def pipe_stream_def)
      moreover have "read_now_measure (e, ?pb) < read_now_measure (e, pb)"
        using intr by (simp add: read_now_measure_def)
      ultimately show ?thesis
        using less.hyps [of ?pb] round rd Intr intr by (simp add: pipe_stream_def read_now_outcome_def)
    next
      case Failed
      then have "Read_fail \<in> set (fd_sched (pb_fd pb))" using rd by (auto dest: sys_read_Failed)
      then show ?thesis using inv by (simp add: pipe_inv_def)
    qed
  qed
qed

lemma read_now_spec:
  assumes "pipe_inv pb" and "e \<le> int (pb_done pb + pb_size pb)"
  shows "\<exists>pb'. read_now e pb = (Inr (e \<le> int (length (pipe_stream pb))), pb') \<and> pipe_inv pb' \<and>
           pipe_stream pb' = pipe_stream pb \<and> pb_done pb' = pb_done pb \<and> pb_size pb' = pb_size pb \<and>
           pb_avail pb \<le> pb_avail pb' \<and>
           (e \<le> int (length (pipe_stream pb)) \<longrightarrow> e \<le> int (pb_avail pb'))"
  using read_now_spec_any [OF assms(1), of e] assms(2) by (auto simp: read_now_outcome_def)

section \<open>Mapping a range\<close>

lemma mod_add_wrap:
  "m \<le> a mod m + k \<Longrightarrow> k \<le> m \<Longrightarrow> 0 < m \<Longrightarrow> (a + k) mod m = a mod m + k - m" for a k m :: nat
proof -
  assume *: "m \<le> a mod m + k" "k \<le> m" "0 < m"
  have "(a + k) mod m = (a mod m + k) mod m" by (simp add: mod_add_left_eq)
  also have "\<dots> = (a mod m + k - m) mod m" using * by (simp add: le_mod_geq)
  also have "\<dots> = a mod m + k - m"
  proof (rule mod_less)
    have "a mod m < m" using * by simp
    then show "a mod m + k - m < m" using * by linarith
  qed
  finally show ?thesis .
qed

lemma pipe_cell:
  assumes "pipe_inv pb" and "pb_done pb \<le> i" and "i < pb_avail pb"
  shows "pb_buffer pb ! (i mod pb_size pb) = pipe_stream pb ! i"
  using assms by (simp add: pipe_inv_def)

lemma pipe_segment:
  assumes inv: "pipe_inv pb" and "pb_done pb \<le> i" and "i + n \<le> pb_avail pb"
    and "i mod pb_size pb + n \<le> pb_size pb"
  shows "slice (i mod pb_size pb) n (pb_buffer pb) = slice i n (pipe_stream pb)"
proof (rule nth_equalityI)
  show "length (slice (i mod pb_size pb) n (pb_buffer pb)) = length (slice i n (pipe_stream pb))"
    using assms by (auto simp: pipe_inv_def)
next
  fix j assume "j < length (slice (i mod pb_size pb) n (pb_buffer pb))"
  then have j: "j < n" by simp
  have bounds: "length (pb_buffer pb) = pb_size pb" "i + j < length (pipe_stream pb)"
    using inv assms(3) j by (auto simp: pipe_inv_def)
  have "pb_buffer pb ! ((i + j) mod pb_size pb) = pipe_stream pb ! (i + j)"
    by (rule pipe_cell [OF inv]) (use assms(2,3) j in auto)
  moreover have "(i + j) mod pb_size pb = i mod pb_size pb + j"
    by (rule mod_add_no_wrap) (use assms(4) j in auto)
  ultimately show "slice (i mod pb_size pb) n (pb_buffer pb) ! j = slice i n (pipe_stream pb) ! j"
    using assms(4) j bounds by (simp add: slice_def)
qed

lemma pipe_segment_wrapped:
  assumes inv: "pipe_inv pb" and "pb_done pb \<le> i" and "i + n \<le> pb_avail pb" and "n \<le> pb_size pb"
    and "pb_size pb < i mod pb_size pb + n"
  defines "seg \<equiv> pb_size pb - i mod pb_size pb"
  shows "slice (i mod pb_size pb) seg (pb_buffer pb) @ slice 0 (n - seg) (pb_buffer pb) =
           slice i n (pipe_stream pb)"
proof -
  have pos: "0 < pb_size pb" and le: "i mod pb_size pb < pb_size pb"
    using inv by (auto simp: pipe_inv_def)
  then have seg: "seg \<le> n" "i mod pb_size pb + seg = pb_size pb" using assms(5) by (auto simp: seg_def)
  have "(i + seg) mod pb_size pb = 0" using seg(2) by (metis mod_add_left_eq mod_self)
  then have "slice 0 (n - seg) (pb_buffer pb) = slice (i + seg) (n - seg) (pipe_stream pb)"
    using pipe_segment [OF inv, of "i + seg" "n - seg"] assms(2-4) seg by simp
  moreover have "slice (i mod pb_size pb) seg (pb_buffer pb) = slice i seg (pipe_stream pb)"
    by (rule pipe_segment [OF inv assms(2)]) (use assms(3) seg in auto)
  ultimately show ?thesis using seg(1) by (simp add: slice_append_slice)
qed

lemma pipe_map_range_eq:
  assumes rd: "read_now j pb = (Inr True, pb1)" and k: "pb_size pb1 = 2 ^ k"
    and a: "nat (i mod 2 ^ 64) = a" and n: "nat ((j - i) mod 2 ^ 64) = n"
    and pb': "pb' = pb1\<lparr>pb_front := nat (j mod 2 ^ 64)\<rparr>"
    and seg: "seg = pb_size pb1 - a mod pb_size pb1"
  shows "pipe_map_range pb i j =
      (if n \<le> seg then (Inr [slice (a mod pb_size pb1) n (pb_buffer pb1)], pb')
       else if n - seg > pb_size pb1 then (Inl (Undef ''chunk outside the buffer''), pb')
       else (Inr [slice (a mod pb_size pb1) seg (pb_buffer pb1), slice 0 (n - seg) (pb_buffer pb1)], pb'))"
proof -
  have off: "a AND (pb_size pb1 - 1) = a mod pb_size pb1" by (rule and_size_mod [OF k])
  have front: "pb_size (pb1\<lparr>pb_front := x\<rparr>) = pb_size pb1"
    "pb_buffer (pb1\<lparr>pb_front := x\<rparr>) = pb_buffer pb1" for x by simp_all
  show ?thesis
    unfolding pipe_map_range_def rd andthen_simps Let_def pb' seg
    by (simp only: a n front off not_True_eq_False if_False)
qed

lemma round_up_dvd: "0 < s \<Longrightarrow> s dvd a + (s - a mod s)" for a s :: nat
proof -
  assume "0 < s"
  then have "a + (s - a mod s) = a div s * s + s" using div_mult_mod_eq [of a s] mod_less_divisor [of s a] by linarith
  then show ?thesis by simp
qed

lemma pipe_map_range_spec:
  assumes inv: "pipe_inv pb" and i: "int (pb_done pb) \<le> i" "i \<le> j" "j \<le> int (length (pipe_stream pb))"
    and win: "j \<le> int (pb_done pb) + int (pb_size pb)"
  shows "\<exists>cs pb'. pipe_map_range pb i j = (Inr cs, pb') \<and> cs \<noteq> [] \<and> two_chunks cs \<and>
           (length cs = 2 \<longrightarrow> [] \<notin> set cs) \<and>
           (length cs = 2 \<longrightarrow> pb_size pb dvd nat i + length (hd cs)) \<and>
           concat cs = slice (nat i) (nat (j - i)) (pipe_stream pb) \<and> pipe_inv pb' \<and>
           pipe_stream pb' = pipe_stream pb \<and> pb_done pb' = pb_done pb \<and> pb_size pb' = pb_size pb \<and>
           pb_avail pb \<le> pb_avail pb' \<and> j \<le> int (pb_avail pb')"
proof -
  from read_now_spec [OF inv, of j] win i(3) obtain pb1 where
    rd: "read_now j pb = (Inr True, pb1)" and inv1: "pipe_inv pb1" and
    same: "pipe_stream pb1 = pipe_stream pb" "pb_done pb1 = pb_done pb" "pb_size pb1 = pb_size pb" and
    av: "j \<le> int (pb_avail pb1)" and mono: "pb_avail pb \<le> pb_avail pb1"
    by auto
  define a n where "a = nat i" and "n = nat (j - i)"
  define pb' where "pb' = pb1\<lparr>pb_front := nat (j mod 2 ^ 64)\<rparr>"
  have inv': "pipe_inv pb'" using inv1 by (simp add: pb'_def pipe_inv_def pipe_stream_def)
  obtain k where k: "pb_size pb = 2 ^ k" using inv by (auto simp: pipe_inv_def)
  then have k1: "pb_size pb1 = 2 ^ k" using same by simp
  have small: "j < 2 ^ 63" using i(3) inv by (auto simp: pipe_inv_def)
  have nums: "nat (i mod 2 ^ 64) = a" "nat ((j - i) mod 2 ^ 64) = n"
    using small i by (simp_all add: a_def n_def)
  have "int a = i" "int n = j - i" using i by (simp_all add: a_def n_def)
  then have "a + n = nat j" "pb_done pb \<le> a" "n \<le> pb_size pb"
    using i(1,2) win by linarith+
  then have facts: "pb_done pb' \<le> a" "a + n \<le> pb_avail pb'" "n \<le> pb_size pb'" "pb_size pb' = pb_size pb"
    "pipe_stream pb' = pipe_stream pb" "pb_done pb' = pb_done pb" "length (pb_buffer pb') = pb_size pb"
    "pb_avail pb' = pb_avail pb1"
    using av same inv1 by (simp_all add: pb'_def pipe_stream_def pipe_inv_def)
  have lt: "a mod pb_size pb < pb_size pb" using k by simp
  show ?thesis
  proof (cases "n \<le> pb_size pb - a mod pb_size pb")
    case True
    have "pipe_map_range pb i j = (Inr [slice (a mod pb_size pb) n (pb_buffer pb')], pb')"
      using True pipe_map_range_eq [OF rd k1 nums pb'_def refl] same by (simp add: pb'_def)
    moreover have "slice (a mod pb_size pb) n (pb_buffer pb') = slice a n (pipe_stream pb')"
      using pipe_segment [OF inv' facts(1,2)] True lt facts(4) by simp
    ultimately show ?thesis using inv' facts av mono by (simp add: a_def n_def)
  next
    case False
    let ?seg = "pb_size pb - a mod pb_size pb"
    have "\<not> pb_size pb < n - ?seg" using facts(3,4) by simp
    then have "pipe_map_range pb i j =
        (Inr [slice (a mod pb_size pb) ?seg (pb_buffer pb'), slice 0 (n - ?seg) (pb_buffer pb')], pb')"
      using False pipe_map_range_eq [OF rd k1 nums pb'_def refl] same
      by (simp add: pb'_def del: diff_diff_right)
    moreover have "slice (a mod pb_size pb) ?seg (pb_buffer pb') @ slice 0 (n - ?seg) (pb_buffer pb') =
        slice a n (pipe_stream pb')"
      using pipe_segment_wrapped [OF inv' facts(1-3)] False facts(4) by simp
    moreover have "slice (a mod pb_size pb) ?seg (pb_buffer pb') \<noteq> []" "slice 0 (n - ?seg) (pb_buffer pb') \<noteq> []"
      using False lt facts(3,4,7) by (auto simp flip: length_greater_0_conv)
    moreover have "pb_size pb dvd a + length (slice (a mod pb_size pb) ?seg (pb_buffer pb'))"
      using round_up_dvd [of "pb_size pb" a] k facts(7) by (simp add: slice_def)
    ultimately show ?thesis using inv' facts av mono by (auto simp: a_def n_def)
  qed
qed

lemma pipe_map_range_eof:
  assumes inv: "pipe_inv pb" and "int (length (pipe_stream pb)) < j"
    and win: "j \<le> int (pb_done pb) + int (pb_size pb)"
  shows "\<exists>pb'. pipe_map_range pb i j = (Inr [], pb') \<and> pipe_inv pb' \<and>
           pipe_stream pb' = pipe_stream pb \<and> pb_done pb' = pb_done pb \<and> pb_size pb' = pb_size pb \<and>
           pb_avail pb \<le> pb_avail pb'"
  using read_now_spec [OF inv, of j] assms(2,3) by (auto simp: pipe_map_range_def)

lemma pipe_map_range_outside:
  assumes inv: "pipe_inv pb" and out: "int (pb_done pb) + int (pb_size pb) < j"
  shows "\<exists>r pb'. pipe_map_range pb i j = (r, pb') \<and>
           (r = Inr [] \<and> int (length (pipe_stream pb)) < j \<or> (\<exists>m. r = Inl (Err m))) \<and> pipe_inv pb' \<and>
           pipe_stream pb' = pipe_stream pb \<and> pb_done pb' = pb_done pb \<and> pb_size pb' = pb_size pb \<and>
           pb_avail pb \<le> pb_avail pb'"
proof -
  from read_now_spec_any [OF inv, of j] obtain r pb' where r: "read_now j pb = (r, pb')"
    "read_now_outcome j pb r" "pipe_inv pb'" "pipe_stream pb' = pipe_stream pb" "pb_done pb' = pb_done pb"
    "pb_size pb' = pb_size pb" "pb_avail pb \<le> pb_avail pb'" "r = Inr True \<longrightarrow> j \<le> int (pb_avail pb')"
    by blast
  have "r \<noteq> Inr True" using r(3,5,6,8) out by (auto simp: pipe_inv_def)
  then show ?thesis using r by (auto simp: pipe_map_range_def read_now_outcome_def)
qed

lemma pipe_release_to_spec:
  assumes "pipe_inv pb" and "int (pb_done pb) \<le> i" and "i \<le> int (pb_avail pb)"
  shows "pipe_inv (pipe_release_to pb i)" and "int (pb_done (pipe_release_to pb i)) = i"
proof -
  have "i < 2 ^ 63" "0 \<le> i" using assms by (auto simp: pipe_inv_def)
  then have "pb_done (pipe_release_to pb i) = nat i" by (simp add: pipe_release_to_def)
  then show "pipe_inv (pipe_release_to pb i)" "int (pb_done (pipe_release_to pb i)) = i"
    using assms by (auto simp: pipe_inv_def pipe_release_to_def pipe_stream_def)
qed

interpretation pipe: input_source pipe_vt pipe_inv pipe_stream "\<lambda>pb. int (pb_done pb)" pb_size
  "\<lambda>pb. int (pb_avail pb)"
proof unfold_locales
  fix pb i j
  assume "pipe_inv pb" "int (pb_done pb) \<le> i" "i \<le> j" "j \<le> int (length (pipe_stream pb))"
    "j \<le> int (pb_done pb) + int (pb_size pb)"
  from pipe_map_range_spec [OF this] show "\<exists>cs s'. map_range pipe_vt pb i j = (Inr cs, s') \<and> cs \<noteq> [] \<and>
      two_chunks cs \<and> (length cs = 2 \<longrightarrow> [] \<notin> set cs) \<and>
      (length cs = 2 \<longrightarrow> pb_size pb dvd nat i + length (hd cs)) \<and>
      concat cs = slice (nat i) (nat (j - i)) (pipe_stream pb) \<and> pipe_inv s' \<and>
      pipe_stream s' = pipe_stream pb \<and> int (pb_done s') = int (pb_done pb) \<and> pb_size s' = pb_size pb \<and>
      int (pb_avail pb) \<le> int (pb_avail s') \<and> j \<le> int (pb_avail s')"
    by (auto simp: pipe_vt_def)
next
  fix pb i j
  assume "pipe_inv pb" "int (length (pipe_stream pb)) < j" "j \<le> int (pb_done pb) + int (pb_size pb)"
  from pipe_map_range_eof [OF this, of i] show "\<exists>s'. map_range pipe_vt pb i j = (Inr [], s') \<and>
      pipe_inv s' \<and> pipe_stream s' = pipe_stream pb \<and> int (pb_done s') = int (pb_done pb) \<and>
      pb_size s' = pb_size pb \<and> int (pb_avail pb) \<le> int (pb_avail s')"
    by (auto simp: pipe_vt_def)
next
  fix pb i j
  assume "pipe_inv pb" "int (pb_done pb) + int (pb_size pb) < j"
  from pipe_map_range_outside [OF this, of i] show "\<exists>r s'. map_range pipe_vt pb i j = (r, s') \<and>
      (r = Inr [] \<and> int (length (pipe_stream pb)) < j \<or> (\<exists>m. r = Inl (Err m))) \<and> pipe_inv s' \<and>
      pipe_stream s' = pipe_stream pb \<and> int (pb_done s') = int (pb_done pb) \<and>
      pb_size s' = pb_size pb \<and> int (pb_avail pb) \<le> int (pb_avail s')"
    by (auto simp: pipe_vt_def)
next
  fix pb i
  assume "pipe_inv pb" "int (pb_done pb) \<le> i" "i \<le> int (pb_avail pb)"
  from pipe_release_to_spec [OF this] show "pipe_inv (release_to pipe_vt pb i) \<and>
      pipe_stream (release_to pipe_vt pb i) = pipe_stream pb \<and>
      int (pb_done (release_to pipe_vt pb i)) = i \<and> pb_size (release_to pipe_vt pb i) = pb_size pb \<and>
      int (pb_avail (release_to pipe_vt pb i)) = int (pb_avail pb)"
    by (simp add: pipe_vt_def pipe_release_to_def pipe_stream_def)
qed (auto simp: pipe_vt_def pipe_max_item_length_def pipe_inv_def)

text \<open>A reader that starts on an input, with a buffer of \<open>2 ^ k\<close> bytes.\<close>

definition pipe_on :: "nat \<Rightarrow> bytes \<Rightarrow> pipe_buffer" where
  "pipe_on k data =
     pipe_init \<lparr>fd_data = data, fd_pos = 0, fd_sched = []\<rparr> [] (replicate (2 ^ k) 0) pipe_new"

lemma pipe_on_inv:
  assumes "k < 61" and "length data < 2 ^ 62"
  shows "pipe_inv (pipe_on k data)"
proof -
  have "(2 :: nat) ^ k < 2 ^ 61" using assms(1) by (rule power_strict_increasing) simp
  then show ?thesis
    using assms(2)
    by (auto simp: pipe_inv_def pipe_on_def pipe_init_def pipe_new_def buf_write_def pipe_stream_def)
qed

lemma pipe_on_simps [simp]:
  "pipe_stream (pipe_on k data) = data" "pb_done (pipe_on k data) = 0" "pb_size (pipe_on k data) = 2 ^ k"
  "pb_avail (pipe_on k data) = 0"
  by (simp_all add: pipe_on_def pipe_init_def pipe_new_def pipe_stream_def)

section \<open>Operations between two uses of a chunk\<close>

text \<open>
  \<open>pipe_keeps i\<close> is any sequence of calls that maps ranges inside the window and gives back
  memory only up to position \<open>i\<close>.
\<close>

inductive pipe_keeps :: "nat \<Rightarrow> pipe_buffer \<Rightarrow> pipe_buffer \<Rightarrow> bool" for i where
  keeps_refl: "pipe_keeps i pb pb"
| keeps_map: "pipe_keeps i pb pb1 \<Longrightarrow> j \<le> int (pb_done pb1) + int (pb_size pb1) \<Longrightarrow>
    int (pb_done pb1) \<le> start \<Longrightarrow> start \<le> j \<Longrightarrow> pipe_map_range pb1 start j = (r, pb2) \<Longrightarrow> pipe_keeps i pb pb2"
| keeps_release: "pipe_keeps i pb pb1 \<Longrightarrow> int (pb_done pb1) \<le> m \<Longrightarrow> m \<le> int (pb_avail pb1) \<Longrightarrow> m \<le> int i \<Longrightarrow>
    pipe_keeps i pb (pipe_release_to pb1 m)"

inductive_simps pipe_keeps_iff: "pipe_keeps i pb pb'"

lemma pipe_map_range_inv:
  assumes "pipe_inv pb" and "int (pb_done pb) \<le> i" and "i \<le> j"
    and "j \<le> int (pb_done pb) + int (pb_size pb)" and "pipe_map_range pb i j = (r, pb')"
  shows "pipe_inv pb' \<and> pipe_stream pb' = pipe_stream pb \<and> pb_done pb' = pb_done pb \<and>
         pb_size pb' = pb_size pb \<and> pb_avail pb \<le> pb_avail pb'"
proof (cases "j \<le> int (length (pipe_stream pb))")
  case True
  from pipe_map_range_spec [OF assms(1-3) True assms(4)] assms(5) show ?thesis by auto
next
  case False
  with pipe_map_range_eof [OF assms(1) _ assms(4), of i] assms(5) show ?thesis by auto
qed

lemma pipe_keeps_inv:
  assumes "pipe_keeps i pb pb'" and "pipe_inv pb" and "pb_done pb \<le> i"
  shows "pipe_inv pb' \<and> pipe_stream pb' = pipe_stream pb \<and> pb_done pb' \<le> i \<and>
         pb_size pb' = pb_size pb \<and> pb_avail pb \<le> pb_avail pb'"
  using assms
proof (induction rule: pipe_keeps.induct)
  case (keeps_refl pb)
  then show ?case by simp
next
  case (keeps_map pb pb1 j start r pb2)
  then have IH: "pipe_inv pb1" "pipe_stream pb1 = pipe_stream pb" "pb_done pb1 \<le> i"
    "pb_size pb1 = pb_size pb" "pb_avail pb \<le> pb_avail pb1" by auto
  from pipe_map_range_inv [OF IH(1) keeps_map.hyps(3,4,2,5)] IH show ?case by auto
next
  case (keeps_release pb pb1 m)
  then have IH: "pipe_inv pb1" "pipe_stream pb1 = pipe_stream pb" "pb_size pb1 = pb_size pb"
    "pb_avail pb \<le> pb_avail pb1" by auto
  from pipe_release_to_spec [OF IH(1) keeps_release.hyps(2,3)] IH keeps_release.hyps(4) show ?case
    by (auto simp: pipe_release_to_def pipe_stream_def)
qed

section \<open>Properties\<close>

text \<open>C31. Whatever amounts the operating system's reads deliver and however often they are
  interrupted, mapping a range of the input inside the buffer's window returns one or two
  chunks with exactly the bytes of that range, and keeps the buffer's invariant.\<close>

theorem pipe_map_range_exact:
  assumes "pipe_inv pb" and "int (pb_done pb) \<le> i" and "i \<le> j"
    and "j \<le> int (length (pipe_stream pb))" and "j \<le> int (pb_done pb) + int (pb_size pb)"
  shows "\<exists>cs pb'. pipe_map_range pb i j = (Inr cs, pb') \<and> 1 \<le> length cs \<and> length cs \<le> 2 \<and>
           concat cs = slice (nat i) (nat (j - i)) (pipe_stream pb) \<and> pipe_inv pb' \<and>
           pipe_stream pb' = pipe_stream pb"
  using pipe.map_range_mapped [OF assms] by (auto simp: pipe_vt_def Suc_le_eq)

text \<open>A buffer of four cells at stream position 3, one byte of which is not yet released.\<close>

definition pipe_example :: pipe_buffer where
  "pipe_example =
     \<lparr>pb_buffer = [10, 11, 12, 13], pb_size = 4, pb_avail = 3, pb_done = 2, pb_front = 2,
      pb_reached_eof = False,
      pb_fd = \<lparr>fd_data = [10, 11, 12, 13, 14, 15, 16], fd_pos = 3, fd_sched = [Read_eintr, Read_some 1]\<rparr>\<rparr>"

lemma pipe_example_inv: "pipe_inv pipe_example"
proof -
  have "\<exists>k. (4 :: nat) = 2 ^ k" by (rule exI [of _ 2]) simp
  moreover have "i = 2" if "(2 :: nat) \<le> i" "i < 3" for i using that by simp
  ultimately show ?thesis by (auto simp: pipe_inv_def pipe_example_def pipe_stream_def)
qed

theorem pipe_map_range_exact_witness:
  "\<exists>cs pb'. pipe_map_range pipe_example 2 6 = (Inr cs, pb') \<and> concat cs = [12, 13, 14, 15]"
  using pipe_map_range_exact [OF pipe_example_inv, of 2 6]
  by (auto simp: pipe_example_def pipe_stream_def slice_def numeral_eq_Suc)

text \<open>C32. A mapped range stays valid: as long as memory is only given back up to its start, no
  later mapping, reading or releasing changes the buffer cells that hold it. The readers
  keep pointers into the buffer, so this is what makes those pointers safe to use.\<close>

theorem mapped_chunks_stay_valid:
  assumes "pipe_inv pb" and "pb_done pb \<le> i" and "j \<le> pb_avail pb" and "pipe_keeps i pb pb'"
    and "i \<le> p" and "p < j"
  shows "pb_size pb' = pb_size pb \<and>
         pb_buffer pb' ! (p mod pb_size pb) = pb_buffer pb ! (p mod pb_size pb)"
proof -
  note keeps = pipe_keeps_inv [OF assms(4,1,2)]
  have "pb_buffer pb ! (p mod pb_size pb) = pipe_stream pb ! p"
    by (rule pipe_cell [OF assms(1)]) (use assms in auto)
  moreover have "pb_buffer pb' ! (p mod pb_size pb') = pipe_stream pb' ! p"
    by (rule pipe_cell) (use assms keeps in auto)
  ultimately show ?thesis using keeps by simp
qed

theorem mapped_chunks_stay_valid_witness:
  "\<exists>pb'. pipe_keeps 2 pipe_example pb' \<and> pb_avail pb' = 6 \<and> pb_buffer pb' ! 2 = 12"
proof -
  obtain cs pb' where map: "pipe_map_range pipe_example 3 6 = (Inr cs, pb')" and
    av: "6 \<le> int (pb_avail pb')" and inv: "pipe_inv pb'" and d: "pb_done pb' = pb_done pipe_example"
    and sz: "pb_size pb' = pb_size pipe_example"
    using pipe_map_range_spec [OF pipe_example_inv, of 3 6]
    by (auto simp: pipe_example_def pipe_stream_def)
  have keeps: "pipe_keeps 2 pipe_example pb'"
    by (rule keeps_map [OF keeps_refl _ _ _ map]) (simp_all add: pipe_example_def)
  have "pb_avail pb' \<le> 6" using inv d sz by (simp add: pipe_inv_def pipe_example_def)
  then have "pb_avail pb' = 6" using av by simp
  moreover have "pb_buffer pb' ! 2 = 12"
    using mapped_chunks_stay_valid [OF pipe_example_inv, of 2 3 pb' 2] keeps
    by (simp add: pipe_example_def)
  ultimately show ?thesis using keeps by blast
qed

end
