(* ===== verification/Lmd_Format.thy ===== *)
theory Lmd_Format
  imports Prelude
begin

text \<open>
  The LMD file format: the headers of \<^verbatim>\<open>file_input/lmd_struct/*.h\<close> and the size macros and
  byte swaps of \<^verbatim>\<open>file_input/lmd_event.hh\<close>, \<^verbatim>\<open>lmd_event.cc\<close>.

  Every header is a sequence of 32-bit words. A header in memory is modelled by its words in host
  order, and its members are the bit fields of those words. The declarations for the two byte orders
  place the 16-bit and 8-bit members differently, such that a header written on one kind of machine is
  read on the other by swapping each 32-bit word; this is proved from the declarations.
\<close>

section \<open>Headers\<close>

record s_bufhe =
  bh_dlen :: u32
  bh_type :: u16
  bh_subtype :: u16
  bh_used :: u16
  bh_end :: u8
  bh_begin :: u8
  bh_buf :: u32
  bh_evt :: u32
  bh_current_i :: u32
  bh_time0 :: u32
  bh_time1 :: u32
  bh_free0 :: u32
  bh_free1 :: u32
  bh_free2 :: u32
  bh_free3 :: u32

record lmd_event_header =
  eh_dlen :: u32
  eh_type :: u16
  eh_subtype :: u16

record lmd_event_info =
  ei_dummy :: u16
  ei_trigger :: u16
  ei_count :: u32

record lmd_subevent_header =
  sh_dlen :: u32
  sh_type :: u16
  sh_subtype :: u16
  sh_procid :: u16
  sh_subcrate :: u8
  sh_control :: u8

abbreviation (input) sizeof_s_bufhe :: nat where "sizeof_s_bufhe \<equiv> 48"
abbreviation (input) sizeof_event_header :: nat where "sizeof_event_header \<equiv> 8"
abbreviation (input) sizeof_event_info :: nat where "sizeof_event_info \<equiv> 8"
abbreviation (input) sizeof_event_10_1 :: nat where "sizeof_event_10_1 \<equiv> 16"
abbreviation (input) sizeof_subevent_header :: nat where "sizeof_subevent_header \<equiv> 12"

definition LMD_BUF_HEADER_MAX_IUSED_DLEN :: nat where
  "LMD_BUF_HEADER_MAX_IUSED_DLEN = 16360"

definition is_type :: "u16 \<Rightarrow> u16 \<Rightarrow> s_bufhe \<Rightarrow> bool" where
  "is_type t st h \<longleftrightarrow> bh_type h = t \<and> bh_subtype h = st"

abbreviation LMD_BUF_HEADER_10_1 :: "s_bufhe \<Rightarrow> bool" where
  "LMD_BUF_HEADER_10_1 \<equiv> is_type 10 1"
abbreviation LMD_BUF_HEADER_100_1 :: "s_bufhe \<Rightarrow> bool" where
  "LMD_BUF_HEADER_100_1 \<equiv> is_type 100 1"
abbreviation LMD_BUF_HEADER_HAS_STICKY :: "s_bufhe \<Rightarrow> bool" where
  "LMD_BUF_HEADER_HAS_STICKY \<equiv> is_type 0x4b59 0x5354"
abbreviation LMD_BUF_HEADER_HAS_STICKY_VARSZ :: "s_bufhe \<Rightarrow> bool" where
  "LMD_BUF_HEADER_HAS_STICKY_VARSZ \<equiv> is_type 0x4bb3 0x5354"
abbreviation LMD_FILE_HEADER_2000_1 :: "s_bufhe \<Rightarrow> bool" where
  "LMD_FILE_HEADER_2000_1 \<equiv> is_type 2000 1"

definition is_dummy_buffer :: "s_bufhe \<Rightarrow> bool" where
  "is_dummy_buffer h \<longleftrightarrow>
     bh_buf h = 0 \<and> bh_used h = 0 \<and> bh_free2 h = 0 \<and> bh_evt h = 0 \<and>
     is_type 0x2c7a 0x28ae h \<and> bh_free3 h = 0x2faea5a9"

definition is_event_10_1 :: "lmd_event_header \<Rightarrow> bool" where
  "is_event_10_1 h \<longleftrightarrow> eh_type h = 10 \<and> eh_subtype h = 1"

definition is_event_sticky :: "lmd_event_header \<Rightarrow> bool" where
  "is_event_sticky h \<longleftrightarrow> eh_type h = 0x4b59 \<and> eh_subtype h = 0x5354"

definition LMD_SUBEVENT_STICKY_DLEN_REVOKE :: u32 where
  "LMD_SUBEVENT_STICKY_DLEN_REVOKE = - 1"

section \<open>Layout\<close>

definition lo16 :: "u32 \<Rightarrow> u16" where "lo16 w = ucast w"
definition hi16 :: "u32 \<Rightarrow> u16" where "hi16 w = ucast (drop_bit 16 w)"
definition byte2 :: "u32 \<Rightarrow> u8" where "byte2 w = ucast (drop_bit 16 w)"
definition byte3 :: "u32 \<Rightarrow> u8" where "byte3 w = ucast (drop_bit 24 w)"

definition join16 :: "u16 \<Rightarrow> u16 \<Rightarrow> u32" where
  "join16 lo hi = ucast lo OR push_bit 16 (ucast hi)"

definition join16_8 :: "u16 \<Rightarrow> u8 \<Rightarrow> u8 \<Rightarrow> u32" where
  "join16_8 lo b2 b3 = ucast lo OR push_bit 16 (ucast b2) OR push_bit 24 (ucast b3)"

definition words_of_bufhe :: "s_bufhe \<Rightarrow> u32 list" where
  "words_of_bufhe h =
     [bh_dlen h, join16 (bh_type h) (bh_subtype h), join16_8 (bh_used h) (bh_end h) (bh_begin h),
      bh_buf h, bh_evt h, bh_current_i h, bh_time0 h, bh_time1 h,
      bh_free0 h, bh_free1 h, bh_free2 h, bh_free3 h]"

definition bufhe_of_words :: "u32 list \<Rightarrow> s_bufhe" where
  "bufhe_of_words ws =
     \<lparr>bh_dlen = ws ! 0, bh_type = lo16 (ws ! 1), bh_subtype = hi16 (ws ! 1),
      bh_used = lo16 (ws ! 2), bh_end = byte2 (ws ! 2), bh_begin = byte3 (ws ! 2),
      bh_buf = ws ! 3, bh_evt = ws ! 4, bh_current_i = ws ! 5, bh_time0 = ws ! 6, bh_time1 = ws ! 7,
      bh_free0 = ws ! 8, bh_free1 = ws ! 9, bh_free2 = ws ! 10, bh_free3 = ws ! 11\<rparr>"

definition words_of_event_header :: "lmd_event_header \<Rightarrow> u32 list" where
  "words_of_event_header h = [eh_dlen h, join16 (eh_type h) (eh_subtype h)]"

definition event_header_of_words :: "u32 list \<Rightarrow> lmd_event_header" where
  "event_header_of_words ws =
     \<lparr>eh_dlen = ws ! 0, eh_type = lo16 (ws ! 1), eh_subtype = hi16 (ws ! 1)\<rparr>"

definition words_of_event_info :: "lmd_event_info \<Rightarrow> u32 list" where
  "words_of_event_info i = [join16 (ei_dummy i) (ei_trigger i), ei_count i]"

definition event_info_of_words :: "u32 list \<Rightarrow> lmd_event_info" where
  "event_info_of_words ws =
     \<lparr>ei_dummy = lo16 (ws ! 0), ei_trigger = hi16 (ws ! 0), ei_count = ws ! 1\<rparr>"

definition words_of_subevent_header :: "lmd_subevent_header \<Rightarrow> u32 list" where
  "words_of_subevent_header h =
     [sh_dlen h, join16 (sh_type h) (sh_subtype h),
      join16_8 (sh_procid h) (sh_subcrate h) (sh_control h)]"

definition subevent_header_of_words :: "u32 list \<Rightarrow> lmd_subevent_header" where
  "subevent_header_of_words ws =
     \<lparr>sh_dlen = ws ! 0, sh_type = lo16 (ws ! 1), sh_subtype = hi16 (ws ! 1),
      sh_procid = lo16 (ws ! 2), sh_subcrate = byte2 (ws ! 2), sh_control = byte3 (ws ! 2)\<rparr>"

text \<open>The memory of a header, and a header read from memory (in host byte order).\<close>

definition mem :: "u32 list \<Rightarrow> bytes" where
  "mem ws = concat (map bytes32 ws)"

text \<open>
  The structures as they are declared for machines of either byte order, member by member: a machine stores each
  member in its own byte order, and the order of the members differs.
\<close>

definition big16 :: "u16 \<Rightarrow> bytes" where "big16 w = rev (bytes16 w)"
definition big32 :: "u32 \<Rightarrow> bytes" where "big32 w = rev (bytes32 w)"

definition s_bufhe_little_endian :: "s_bufhe \<Rightarrow> bytes" where
  "s_bufhe_little_endian h =
     bytes32 (bh_dlen h) @ bytes16 (bh_type h) @ bytes16 (bh_subtype h) @ bytes16 (bh_used h) @ [bh_end h] @ [bh_begin h] @
     bytes32 (bh_buf h) @ bytes32 (bh_evt h) @ bytes32 (bh_current_i h) @ bytes32 (bh_time0 h) @ bytes32 (bh_time1 h) @
     bytes32 (bh_free0 h) @ bytes32 (bh_free1 h) @ bytes32 (bh_free2 h) @ bytes32 (bh_free3 h)"

definition s_bufhe_big_endian :: "s_bufhe \<Rightarrow> bytes" where
  "s_bufhe_big_endian h =
     big32 (bh_dlen h) @ big16 (bh_subtype h) @ big16 (bh_type h) @ [bh_begin h] @ [bh_end h] @ big16 (bh_used h) @
     big32 (bh_buf h) @ big32 (bh_evt h) @ big32 (bh_current_i h) @ big32 (bh_time0 h) @ big32 (bh_time1 h) @
     big32 (bh_free0 h) @ big32 (bh_free1 h) @ big32 (bh_free2 h) @ big32 (bh_free3 h)"

definition lmd_event_header_little_endian :: "lmd_event_header \<Rightarrow> bytes" where
  "lmd_event_header_little_endian h = bytes32 (eh_dlen h) @ bytes16 (eh_type h) @ bytes16 (eh_subtype h)"

definition lmd_event_header_big_endian :: "lmd_event_header \<Rightarrow> bytes" where
  "lmd_event_header_big_endian h = big32 (eh_dlen h) @ big16 (eh_subtype h) @ big16 (eh_type h)"

definition lmd_event_info_little_endian :: "lmd_event_info \<Rightarrow> bytes" where
  "lmd_event_info_little_endian i = bytes16 (ei_dummy i) @ bytes16 (ei_trigger i) @ bytes32 (ei_count i)"

definition lmd_event_info_big_endian :: "lmd_event_info \<Rightarrow> bytes" where
  "lmd_event_info_big_endian i = big16 (ei_trigger i) @ big16 (ei_dummy i) @ big32 (ei_count i)"

definition lmd_subevent_10_1_little_endian :: "lmd_subevent_header \<Rightarrow> bytes" where
  "lmd_subevent_10_1_little_endian h =
     lmd_event_header_little_endian \<lparr>eh_dlen = sh_dlen h, eh_type = sh_type h, eh_subtype = sh_subtype h\<rparr> @
     bytes16 (sh_procid h) @ [sh_subcrate h] @ [sh_control h]"

definition lmd_subevent_10_1_big_endian :: "lmd_subevent_header \<Rightarrow> bytes" where
  "lmd_subevent_10_1_big_endian h =
     lmd_event_header_big_endian \<lparr>eh_dlen = sh_dlen h, eh_type = sh_type h, eh_subtype = sh_subtype h\<rparr> @
     [sh_control h] @ [sh_subcrate h] @ big16 (sh_procid h)"

text \<open>
  \<^verbatim>\<open>byteswap ((uint32*) &header, sizeof header)\<close>: swap every 32-bit word of a header.
\<close>

definition byteswap_bufhe :: "s_bufhe \<Rightarrow> s_bufhe" where
  "byteswap_bufhe h = bufhe_of_words (map bswap_32 (words_of_bufhe h))"

definition read_event_header :: "bool \<Rightarrow> bytes \<Rightarrow> lmd_event_header" where
  "read_event_header swapping b = event_header_of_words (words32 (if swapping then swap32 b else b))"

definition read_event_info :: "bool \<Rightarrow> bytes \<Rightarrow> lmd_event_info" where
  "read_event_info swapping b = event_info_of_words (words32 (if swapping then swap32 b else b))"

definition read_subevent_header :: "bool \<Rightarrow> bytes \<Rightarrow> lmd_subevent_header" where
  "read_subevent_header swapping b =
     subevent_header_of_words (words32 (if swapping then swap32 b else b))"

section \<open>Sizes\<close>

text \<open>
  The macros are used on operands of different width: \<^verbatim>\<open>BUFFER_SIZE_FROM_DLEN\<close> on
  \<^verbatim>\<open>size_t\<close>, \<^verbatim>\<open>EVENT_DATA_LENGTH_FROM_DLEN\<close> on \<^verbatim>\<open>uint32_t\<close> (the product wraps before it is
  converted), \<^verbatim>\<open>SUBEVENT_DATA_LENGTH_FROM_DLEN\<close> on both.
\<close>

definition BUFFER_SIZE_FROM_DLEN :: "nat \<Rightarrow> nat" where
  "BUFFER_SIZE_FROM_DLEN dlen = dlen * 2 + sizeof_s_bufhe"

definition BUFFER_SIZE_FROM_DLEN_BROKEN :: "u32 \<Rightarrow> nat" where
  "BUFFER_SIZE_FROM_DLEN_BROKEN dlen = wrap32 (unat dlen * 2)"

definition BUFFER_USED_FROM_IUSED :: "nat \<Rightarrow> nat" where
  "BUFFER_USED_FROM_IUSED iused = wrap32 (iused * 2)"

definition EVENT_DATA_LENGTH_FROM_DLEN :: "u32 \<Rightarrow> nat" where
  "EVENT_DATA_LENGTH_FROM_DLEN dlen = wrap32 (unat dlen * 2)"

definition SUBEVENT_DATA_LENGTH_FROM_DLEN :: "u32 \<Rightarrow> nat" where
  "SUBEVENT_DATA_LENGTH_FROM_DLEN dlen = wrap64 (sub64 (unat dlen) 2 * 2)"

definition SUBEVENT_DATA_LENGTH_FROM_DLEN_32 :: "u32 \<Rightarrow> nat" where
  "SUBEVENT_DATA_LENGTH_FROM_DLEN_32 dlen = unat ((dlen - 2) * 2)"

definition DLEN_FROM_BUFFER_SIZE :: "nat \<Rightarrow> nat" where
  "DLEN_FROM_BUFFER_SIZE sz = sub64 sz sizeof_s_bufhe div 2"

definition IUSED_FROM_BUFFER_USED :: "nat \<Rightarrow> nat" where
  "IUSED_FROM_BUFFER_USED used = used div 2"

definition DLEN_FROM_EVENT_DATA_LENGTH :: "nat \<Rightarrow> nat" where
  "DLEN_FROM_EVENT_DATA_LENGTH n = n div 2"

definition SUBEVENT_DLEN_FROM_DATA_LENGTH :: "nat \<Rightarrow> nat" where
  "SUBEVENT_DLEN_FROM_DATA_LENGTH n = n div 2 + 2"

section \<open>Laws\<close>

lemma u16_bit_high: "16 \<le> n \<Longrightarrow> \<not> bit (a :: u16) n"
  using bit_imp_le_length [of a n] by auto

lemma join16_lo16 [simp]: "lo16 (join16 a b) = a"
  and join16_hi16 [simp]: "hi16 (join16 a b) = b"
  by (auto intro!: bit_word_eqI simp: lo16_def hi16_def join16_def bit_simps u16_bit_high)

lemma join16_8_lo16 [simp]: "lo16 (join16_8 a b c) = a"
  and join16_8_byte2 [simp]: "byte2 (join16_8 a b c) = b"
  and join16_8_byte3 [simp]: "byte3 (join16_8 a b c) = c"
  by (auto intro!: bit_word_eqI simp: lo16_def byte2_def byte3_def join16_8_def bit_simps
      u8_bit_high u16_bit_high)

lemma join16_split [simp]: "join16 (lo16 w) (hi16 w) = w"
proof (rule bit_word_eqI)
  fix n assume "n < LENGTH(32)"
  then show "bit (join16 (lo16 w) (hi16 w)) n = bit w n"
    by (cases "n < 16") (auto simp: lo16_def hi16_def join16_def bit_simps)
qed

lemma join16_8_split [simp]: "join16_8 (lo16 w) (byte2 w) (byte3 w) = w"
proof (rule bit_word_eqI)
  fix n assume "n < LENGTH(32)"
  then consider "n < 16" | "16 \<le> n" "n < 24" | "24 \<le> n" "n < 32" by fastforce
  then show "bit (join16_8 (lo16 w) (byte2 w) (byte3 w)) n = bit w n"
    by cases (auto simp: lo16_def byte2_def byte3_def join16_8_def bit_simps)
qed

lemma words_bufhe: "length ws = 12 \<Longrightarrow> words_of_bufhe (bufhe_of_words ws) = ws"
  by (rule nth_equalityI)
    (auto simp: words_of_bufhe_def bufhe_of_words_def less_Suc_eq numeral_eq_Suc)

lemma bufhe_words [simp]: "bufhe_of_words (words_of_bufhe h) = h"
  by (simp add: bufhe_of_words_def words_of_bufhe_def)

lemma event_header_words [simp]: "event_header_of_words (words_of_event_header h) = h"
  by (simp add: event_header_of_words_def words_of_event_header_def)

lemma event_info_words [simp]: "event_info_of_words (words_of_event_info h) = h"
  by (simp add: event_info_of_words_def words_of_event_info_def)

lemma subevent_header_words [simp]: "subevent_header_of_words (words_of_subevent_header h) = h"
  by (simp add: subevent_header_of_words_def words_of_subevent_header_def)

lemma length_words [simp]:
  "length (words_of_bufhe h) = 12" "length (words_of_event_header eh) = 2"
  "length (words_of_event_info ei) = 2" "length (words_of_subevent_header sh) = 3"
  by (simp_all add: words_of_bufhe_def words_of_event_header_def words_of_event_info_def
      words_of_subevent_header_def)

lemma length_mem [simp]: "length (mem ws) = 4 * length ws"
  by (induction ws) (auto simp: mem_def)

lemma words32_mem [simp]: "words32 (mem ws) = ws"
  by (simp add: mem_def)

lemma swap32_mem: "swap32 (mem ws) = mem (map bswap_32 ws)"
  by (induction ws) (auto simp: mem_def swap32_bytes32)

lemma words32_swap32_mem [simp]: "words32 (swap32 (mem ws)) = map bswap_32 ws"
  by (simp add: swap32_mem)

lemma map_bswap_32_twice [simp]: "map (bswap_32 \<circ> bswap_32) ws = ws"
  by (simp add: comp_def)

lemma event_data_length_dlen:
  "even n \<Longrightarrow> n < 2 ^ 32 \<Longrightarrow>
   EVENT_DATA_LENGTH_FROM_DLEN (of_nat (DLEN_FROM_EVENT_DATA_LENGTH n)) = n"
  by (simp add: EVENT_DATA_LENGTH_FROM_DLEN_def DLEN_FROM_EVENT_DATA_LENGTH_def unat_of_nat
      wrap32_def take_bit_eq_mod)

section \<open>The file header\<close>

text \<open>
  \<^verbatim>\<open>s_filhe_extra\<close>: counted strings in arrays of fixed size, and up to 30 comment lines.
\<close>

record filhe_string =
  fs_l :: u16
  fs_str :: bytes

record s_filhe_extra =
  fh_label :: filhe_string
  fh_file :: filhe_string
  fh_user :: filhe_string
  fh_time :: bytes
  fh_run :: filhe_string
  fh_exp :: filhe_string
  fh_lines :: u32
  fh_strings :: "filhe_string list"

abbreviation (input) sizeof_filhe_extra :: nat where "sizeof_filhe_extra \<equiv> 2716"
abbreviation (input) sizeof_filhe_string :: nat where "sizeof_filhe_string \<equiv> 80"

definition string_mem :: "filhe_string \<Rightarrow> bytes" where
  "string_mem s = bytes16 (fs_l s) @ fs_str s"

definition string_of_mem :: "nat \<Rightarrow> bytes \<Rightarrow> filhe_string" where
  "string_of_mem n b = \<lparr>fs_l = u16_of (b ! 0) (b ! 1), fs_str = slice 2 n b\<rparr>"

definition filhe_mem :: "s_filhe_extra \<Rightarrow> bytes" where
  "filhe_mem f =
     string_mem (fh_label f) @ string_mem (fh_file f) @ string_mem (fh_user f) @ fh_time f @
     string_mem (fh_run f) @ string_mem (fh_exp f) @ bytes32 (fh_lines f) @
     concat (map string_mem (fh_strings f))"

definition filhe_of_mem :: "bytes \<Rightarrow> s_filhe_extra" where
  "filhe_of_mem b =
     \<lparr>fh_label = string_of_mem 30 b, fh_file = string_of_mem 86 (drop 32 b),
      fh_user = string_of_mem 30 (drop 120 b), fh_time = slice 152 24 b,
      fh_run = string_of_mem 66 (drop 176 b), fh_exp = string_of_mem 66 (drop 244 b),
      fh_lines = u32_of (b ! 312) (b ! 313) (b ! 314) (b ! 315),
      fh_strings = map (\<lambda>i. string_of_mem 78 (drop (316 + 80 * i) b)) [0..<30]\<rparr>"

text \<open>
  \<^verbatim>\<open>byteswap_32(s_filhe_extra_host &)\<close> evaluates \<^verbatim>\<open>bswap_16\<close> and \<^verbatim>\<open>bswap_32\<close> of the
  members and does not use the values: no member is assigned.
\<close>

definition byteswap_filhe :: "s_filhe_extra \<Rightarrow> s_filhe_extra" where
  "byteswap_filhe f =
     (let _ = bswap_16 (fs_l (fh_label f)); _ = bswap_16 (fs_l (fh_file f));
          _ = bswap_16 (fs_l (fh_user f)); _ = bswap_16 (fs_l (fh_run f));
          _ = bswap_16 (fs_l (fh_exp f)); _ = bswap_32 (fh_lines f);
          _ = map (\<lambda>s. bswap_16 (fs_l s)) (take (unat (fh_lines f)) (fh_strings f))
      in f)"

definition ZERO_PADDING :: "nat \<Rightarrow> filhe_string \<Rightarrow> filhe_string" where
  "ZERO_PADDING n s =
     (let l = (if unat (fs_l s) > n then of_nat n else fs_l s)
      in s\<lparr>fs_l := l, fs_str := take (unat l) (fs_str s) @ replicate (n - unat l) 0\<rparr>)"

definition zero_padding :: "s_filhe_extra \<Rightarrow> s_filhe_extra" where
  "zero_padding f =
     (let lines = (if unat (fh_lines f) > 30 then 30 else fh_lines f);
          strings = map (ZERO_PADDING 78) (fh_strings f)
      in f\<lparr>fh_label := ZERO_PADDING 30 (fh_label f), fh_file := ZERO_PADDING 86 (fh_file f),
           fh_user := ZERO_PADDING 30 (fh_user f), fh_run := ZERO_PADDING 66 (fh_run f),
           fh_exp := ZERO_PADDING 66 (fh_exp f), fh_lines := lines,
           fh_strings := take (unat lines) strings @
             replicate (30 - unat lines) \<lparr>fs_l = 0, fs_str = replicate 78 0\<rparr>\<rparr>)"

definition filhe_used_size :: "s_filhe_extra \<Rightarrow> nat" where
  "filhe_used_size f =
     sizeof_filhe_extra - 30 * sizeof_filhe_string + min 30 (unat (fh_lines f)) * sizeof_filhe_string"

text \<open>The arrays of a file header have their declared sizes.\<close>

definition string_wf :: "nat \<Rightarrow> filhe_string \<Rightarrow> bool" where
  "string_wf n s \<longleftrightarrow> length (fs_str s) = n"

definition filhe_wf :: "s_filhe_extra \<Rightarrow> bool" where
  "filhe_wf f \<longleftrightarrow>
     string_wf 30 (fh_label f) \<and> string_wf 86 (fh_file f) \<and> string_wf 30 (fh_user f) \<and>
     length (fh_time f) = 24 \<and> string_wf 66 (fh_run f) \<and> string_wf 66 (fh_exp f) \<and>
     length (fh_strings f) = 30 \<and> list_all (string_wf 78) (fh_strings f)"

text \<open>A string is clean when its count fits its array and only zeros follow its characters.\<close>

definition string_clean :: "nat \<Rightarrow> filhe_string \<Rightarrow> bool" where
  "string_clean n s \<longleftrightarrow>
     length (fs_str s) = n \<and> unat (fs_l s) \<le> n \<and> (\<forall>i < n. unat (fs_l s) \<le> i \<longrightarrow> fs_str s ! i = 0)"

lemma ZERO_PADDING_clean:
  assumes "string_wf n s" and "n < 2 ^ 16"
  shows "string_clean n (ZERO_PADDING n s)"
proof -
  have "unat (of_nat n :: u16) = n" using assms(2) by (simp add: unat_of_nat)
  then show ?thesis using assms(1)
    by (auto simp: string_clean_def ZERO_PADDING_def string_wf_def Let_def nth_append)
qed

lemma string_of_mem_string_mem:
  "string_wf n s \<Longrightarrow> string_of_mem n (string_mem s @ r) = s"
  by (simp add: string_of_mem_def string_mem_def string_wf_def bytes16_def slice_def)

lemma length_string_mem [simp]: "length (string_mem s) = 2 + length (fs_str s)"
  by (simp add: string_mem_def)

lemma length_concat_string_mem:
  "list_all (string_wf 78) ss \<Longrightarrow> length (concat (map string_mem ss)) = 80 * length ss"
  by (induction ss) (auto simp: string_wf_def)

lemma length_filhe_mem: "filhe_wf f \<Longrightarrow> length (filhe_mem f) = sizeof_filhe_extra"
  by (simp add: filhe_mem_def filhe_wf_def length_concat_string_mem) (simp add: string_wf_def)

lemma drop_concat_string_mem:
  "list_all (string_wf 78) ss \<Longrightarrow> i < length ss \<Longrightarrow>
   string_of_mem 78 (drop (80 * i) (concat (map string_mem ss))) = ss ! i"
proof (induction ss arbitrary: i)
  case Nil
  then show ?case by simp
next
  case (Cons s ss)
  show ?case
  proof (cases i)
    case 0
    then show ?thesis using Cons.prems by (simp add: string_of_mem_string_mem)
  next
    case (Suc j)
    then have "drop (80 * i) (concat (map string_mem (s # ss))) = drop (80 * j) (concat (map string_mem ss))"
      using Cons.prems by (simp add: string_wf_def)
    then show ?thesis using Cons Suc by simp
  qed
qed

lemma filhe_of_mem_filhe_mem:
  assumes "filhe_wf f"
  shows "filhe_of_mem (filhe_mem f) = f"
proof -
  note wf = assms [unfolded filhe_wf_def string_wf_def]
  let ?ss = "concat (map string_mem (fh_strings f))"
  have lens: "length (string_mem (fh_label f)) = 32" "length (string_mem (fh_file f)) = 88"
    "length (string_mem (fh_user f)) = 32" "length (fh_time f) = 24"
    "length (string_mem (fh_run f)) = 68" "length (string_mem (fh_exp f)) = 68"
    using wf by simp_all
  have drops: "drop 32 (filhe_mem f) = drop 32 (string_mem (fh_label f)) @ string_mem (fh_file f) @
      string_mem (fh_user f) @ fh_time f @ string_mem (fh_run f) @ string_mem (fh_exp f) @
      bytes32 (fh_lines f) @ ?ss"
    "drop 120 (filhe_mem f) = string_mem (fh_user f) @ fh_time f @ string_mem (fh_run f) @
      string_mem (fh_exp f) @ bytes32 (fh_lines f) @ ?ss"
    "drop 152 (filhe_mem f) = fh_time f @ string_mem (fh_run f) @ string_mem (fh_exp f) @
      bytes32 (fh_lines f) @ ?ss"
    "drop 176 (filhe_mem f) = string_mem (fh_run f) @ string_mem (fh_exp f) @ bytes32 (fh_lines f) @ ?ss"
    "drop 244 (filhe_mem f) = string_mem (fh_exp f) @ bytes32 (fh_lines f) @ ?ss"
    "drop 312 (filhe_mem f) = bytes32 (fh_lines f) @ ?ss"
    using lens by (simp_all add: filhe_mem_def)
  have head: "string_of_mem 30 (filhe_mem f) = fh_label f"
    unfolding filhe_mem_def by (rule string_of_mem_string_mem) (simp add: string_wf_def wf)
  have lines: "u32_of (filhe_mem f ! 312) (filhe_mem f ! 313) (filhe_mem f ! 314) (filhe_mem f ! 315) = fh_lines f"
  proof -
    have len: "length (filhe_mem f) = 2716" using length_filhe_mem [OF assms] .
    have "filhe_mem f ! (312 + i) = (bytes32 (fh_lines f) @ ?ss) ! i" if "i < 4" for i
      using nth_drop [of 312 "filhe_mem f" i] len that unfolding drops(6) by simp
    from this [of 0] this [of 1] this [of 2] this [of 3] show ?thesis
      by (simp add: bytes32_def)
  qed
  have strings: "map (\<lambda>i. string_of_mem 78 (drop (316 + 80 * i) (filhe_mem f))) [0..<30] = fh_strings f"
  proof (rule nth_equalityI)
    fix i assume "i < length (map (\<lambda>i. string_of_mem 78 (drop (316 + 80 * i) (filhe_mem f))) [0..<30])"
    then have i: "i < 30" by simp
    have "drop (316 + 80 * i) (filhe_mem f) = drop (4 + 80 * i) (drop 312 (filhe_mem f))"
      by (simp add: add.commute)
    also have "\<dots> = drop (80 * i) ?ss" unfolding drops(6) by simp
    finally show "map (\<lambda>i. string_of_mem 78 (drop (316 + 80 * i) (filhe_mem f))) [0..<30] ! i =
        fh_strings f ! i"
      using drop_concat_string_mem [of "fh_strings f" i] i assms by (simp add: filhe_wf_def)
  qed (use wf in simp)
  show ?thesis
    using drops lens head lines strings wf
    by (simp add: filhe_of_mem_def string_of_mem_string_mem string_wf_def slice_def)
qed

section \<open>Properties\<close>

lemma bytes_join16: "bytes16 a @ bytes16 b = bytes32 (join16 a b)"
  by (auto intro!: bit_word_eqI simp: bytes16_def bytes32_def join16_def bit_simps u16_bit_high)

lemma bytes_join16_8: "bytes16 a @ [b] @ [c] = bytes32 (join16_8 a b c)"
  by (auto intro!: bit_word_eqI simp: bytes16_def bytes32_def join16_8_def bit_simps u16_bit_high u8_bit_high)

lemma rev_bytes32: "rev (bytes32 w) = bytes32 (bswap_32 w)"
  unfolding bswap_32_def bytes32_u32_of by (simp add: bytes32_def)

lemma big_join16: "big16 b @ big16 a = bytes32 (bswap_32 (join16 a b))"
  unfolding rev_bytes32 [symmetric] bytes_join16 [symmetric] by (simp add: big16_def)

lemma big_join16_8: "[c] @ [b] @ big16 a = bytes32 (bswap_32 (join16_8 a b c))"
  unfolding rev_bytes32 [symmetric] bytes_join16_8 [symmetric] by (simp add: big16_def)

lemmas joined = bytes_join16 bytes_join16_8 big_join16 big_join16_8
lemmas joined_more = joined [THEN arg_cong [where f = "\<lambda>x. x @ r" for r], unfolded append_assoc]

text \<open>The structures of the host are the words of the model, those of the other byte order the swapped words.\<close>

lemma host_layout:
  "s_bufhe_little_endian bh = mem (words_of_bufhe bh)"
  "lmd_event_header_little_endian eh = mem (words_of_event_header eh)"
  "lmd_event_info_little_endian ei = mem (words_of_event_info ei)"
  "lmd_subevent_10_1_little_endian sh = mem (words_of_subevent_header sh)"
  by (simp_all only: s_bufhe_little_endian_def lmd_event_header_little_endian_def lmd_event_info_little_endian_def lmd_subevent_10_1_little_endian_def
      joined joined_more append_assoc lmd_event_header.select_convs)
    (simp_all add: mem_def words_of_bufhe_def words_of_event_header_def words_of_event_info_def words_of_subevent_header_def)

lemma foreign_layout:
  "s_bufhe_big_endian bh = swap32 (mem (words_of_bufhe bh))"
  "lmd_event_header_big_endian eh = swap32 (mem (words_of_event_header eh))"
  "lmd_event_info_big_endian ei = swap32 (mem (words_of_event_info ei))"
  "lmd_subevent_10_1_big_endian sh = swap32 (mem (words_of_subevent_header sh))"
  unfolding swap32_mem
  by (simp_all only: s_bufhe_big_endian_def lmd_event_header_big_endian_def lmd_event_info_big_endian_def lmd_subevent_10_1_big_endian_def
      big32_def rev_bytes32 joined joined_more append_assoc lmd_event_header.select_convs)
    (simp_all add: mem_def words_of_bufhe_def words_of_event_header_def words_of_event_info_def words_of_subevent_header_def)

text \<open>C33. The declarations of the headers for the two byte orders fit together: a header that a big-endian machine puts into
  memory member by member, by the big-endian declaration, has after the swap of its 32-bit words on the little-endian host, by the
  little-endian declaration, the same members, although its 16-bit and 8-bit members share those words; and without a
  swap where a little-endian machine wrote it. This holds for buffer headers, event headers, event infos and subevent headers.\<close>

theorem headers_roundtrip:
  "bufhe_of_words (words32 (s_bufhe_little_endian bh)) = bh \<and>
   byteswap_bufhe (bufhe_of_words (words32 (s_bufhe_big_endian bh))) = bh \<and>
   read_event_header False (lmd_event_header_little_endian eh) = eh \<and> read_event_header True (lmd_event_header_big_endian eh) = eh \<and>
   read_event_info False (lmd_event_info_little_endian ei) = ei \<and> read_event_info True (lmd_event_info_big_endian ei) = ei \<and>
   read_subevent_header False (lmd_subevent_10_1_little_endian sh) = sh \<and> read_subevent_header True (lmd_subevent_10_1_big_endian sh) = sh"
  unfolding host_layout foreign_layout
  by (simp add: byteswap_bufhe_def words_bufhe read_event_header_def read_event_info_def read_subevent_header_def)

text \<open>The size macros are inverse to each other where sizes are even and fit 32 bits: reading
  back the length member computed from a data size gives the size, for events, for subevents
  (in the 32-bit and in the 64-bit evaluation of the macro), for the used part of a buffer and
  for a buffer.\<close>

lemma size_macros_inverse:
  assumes "even n" and "n + 4 < 2 ^ 32"
  shows "EVENT_DATA_LENGTH_FROM_DLEN (of_nat (DLEN_FROM_EVENT_DATA_LENGTH n)) = n \<and>
         SUBEVENT_DATA_LENGTH_FROM_DLEN (of_nat (SUBEVENT_DLEN_FROM_DATA_LENGTH n)) = n \<and>
         SUBEVENT_DATA_LENGTH_FROM_DLEN_32 (of_nat (SUBEVENT_DLEN_FROM_DATA_LENGTH n)) = n \<and>
         BUFFER_USED_FROM_IUSED (IUSED_FROM_BUFFER_USED n) = n \<and>
         BUFFER_SIZE_FROM_DLEN (DLEN_FROM_BUFFER_SIZE (n + 48)) = n + 48"
proof -
  obtain m where m: "n = 2 * m" using assms(1) by blast
  have u: "unat (of_nat (m + 2) :: u32) = m + 2"
    by (subst unat_of_nat) (use assms(2) m in simp)
  have "of_nat (m + 2) - 2 = (of_nat m :: u32)" by simp
  moreover have "unat (of_nat m * 2 :: u32) = 2 * m"
    using assms(2) m by (simp add: unat_word_ariths unat_of_nat)
  ultimately have "unat ((of_nat (m + 2) - 2) * 2 :: u32) = 2 * m" by (simp only:)
  moreover have "sub64 (m + 2) 2 = m" using assms(2) m by (simp add: sub64_le)
  moreover have "sub64 (2 * m + 48) 48 = 2 * m" using assms(2) m by (simp add: sub64_le)
  ultimately show ?thesis
    using assms(2) m u event_data_length_dlen [of n]
    by (simp add: SUBEVENT_DATA_LENGTH_FROM_DLEN_def SUBEVENT_DATA_LENGTH_FROM_DLEN_32_def
        SUBEVENT_DLEN_FROM_DATA_LENGTH_def BUFFER_USED_FROM_IUSED_def IUSED_FROM_BUFFER_USED_def
        BUFFER_SIZE_FROM_DLEN_def DLEN_FROM_BUFFER_SIZE_def)
qed

lemma size_macros_inverse_witness:
  "SUBEVENT_DATA_LENGTH_FROM_DLEN (of_nat (SUBEVENT_DLEN_FROM_DATA_LENGTH 20)) = 20"
  using size_macros_inverse [of 20] by simp

text \<open>C34. \<^verbatim>\<open>zero_padding\<close> leaves a file header with arrays of their declared sizes, counts that fit
  their arrays, nothing but zeros after the characters of a string, at most 30 comment lines
  and empty comment strings after those; and a header put into memory is read back unchanged.\<close>

theorem file_header_clean:
  assumes "filhe_wf f"
  shows "string_clean 30 (fh_label (zero_padding f)) \<and> string_clean 86 (fh_file (zero_padding f)) \<and>
         string_clean 30 (fh_user (zero_padding f)) \<and> string_clean 66 (fh_run (zero_padding f)) \<and>
         string_clean 66 (fh_exp (zero_padding f)) \<and> unat (fh_lines (zero_padding f)) \<le> 30 \<and>
         list_all (string_clean 78) (fh_strings (zero_padding f)) \<and>
         (\<forall>i < 30. unat (fh_lines (zero_padding f)) \<le> i \<longrightarrow> fs_l (fh_strings (zero_padding f) ! i) = 0) \<and>
         filhe_wf (zero_padding f) \<and> filhe_of_mem (filhe_mem (zero_padding f)) = zero_padding f"
proof -
  have clean: "string_clean n s \<Longrightarrow> string_wf n s" for n s by (simp add: string_clean_def string_wf_def)
  have empty: "string_clean 78 \<lparr>fs_l = 0, fs_str = replicate 78 0\<rparr>" by (simp add: string_clean_def)
  have pads: "list_all (string_clean 78) (map (ZERO_PADDING 78) (fh_strings f))"
    using assms by (auto simp: filhe_wf_def list_all_iff intro!: ZERO_PADDING_clean)
  have all: "list_all (string_clean 78) (fh_strings (zero_padding f))"
    using pads empty by (auto simp: zero_padding_def Let_def list_all_iff take_map dest: in_set_takeD)
  have lines: "unat (fh_lines (zero_padding f)) \<le> 30"
    by (simp add: zero_padding_def Let_def)
  have len: "length (fh_strings (zero_padding f)) = 30"
    using assms by (auto simp: zero_padding_def Let_def filhe_wf_def)
  have tail: "\<forall>i < 30. unat (fh_lines (zero_padding f)) \<le> i \<longrightarrow> fs_l (fh_strings (zero_padding f) ! i) = 0"
    using assms by (auto simp: zero_padding_def Let_def filhe_wf_def nth_append)
  have strings: "string_clean 30 (fh_label (zero_padding f))"
    "string_clean 86 (fh_file (zero_padding f))" "string_clean 30 (fh_user (zero_padding f))"
    "string_clean 66 (fh_run (zero_padding f))" "string_clean 66 (fh_exp (zero_padding f))"
    using assms by (auto simp: zero_padding_def Let_def filhe_wf_def intro!: ZERO_PADDING_clean)
  have "fh_time (zero_padding f) = fh_time f" by (simp add: zero_padding_def Let_def)
  then have wf: "filhe_wf (zero_padding f)"
    using assms clean all len strings by (auto simp: filhe_wf_def list_all_iff)
  show ?thesis
    using all lines tail strings wf filhe_of_mem_filhe_mem [OF wf] by blast
qed

definition filhe_example :: s_filhe_extra where
  "filhe_example =
     \<lparr>fh_label = \<lparr>fs_l = 2, fs_str = replicate 30 65\<rparr>, fh_file = \<lparr>fs_l = 99, fs_str = replicate 86 66\<rparr>,
      fh_user = \<lparr>fs_l = 0, fs_str = replicate 30 67\<rparr>, fh_time = replicate 24 48,
      fh_run = \<lparr>fs_l = 3, fs_str = replicate 66 68\<rparr>, fh_exp = \<lparr>fs_l = 4, fs_str = replicate 66 69\<rparr>,
      fh_lines = 1, fh_strings = replicate 30 \<lparr>fs_l = 5, fs_str = replicate 78 70\<rparr>\<rparr>"

lemma filhe_example_wf: "filhe_wf filhe_example"
  by (simp add: filhe_wf_def filhe_example_def string_wf_def list_all_iff)

theorem file_header_clean_witness:
  "filhe_wf filhe_example \<and> filhe_of_mem (filhe_mem (zero_padding filhe_example)) = zero_padding filhe_example"
  using file_header_clean [OF filhe_example_wf] filhe_example_wf by simp

text \<open>The byte swap of a file header changes nothing: a header written by a machine of the other
  byte order keeps its counts in foreign byte order, so a reader that computes the used size
  from one comment line finds the maximum of 30 lines instead.\<close>

lemma byteswap_filhe_has_no_effect:
  "byteswap_filhe f = f \<and>
   filhe_used_size (f\<lparr>fh_lines := 1\<rparr>) = 396 \<and>
   filhe_used_size (byteswap_filhe (f\<lparr>fh_lines := bswap_32 1\<rparr>)) = 2716"
  by (simp add: byteswap_filhe_def Let_def filhe_used_size_def bswap_32_def u32_of_def)

end
