(* ===== verification/Lmd_Input.thy ===== *)
theory Lmd_Input
  imports Lmd_Format Input_Buffer
begin

text \<open>
  The LMD file reader, \<^verbatim>\<open>lmd_source\<close> of \<^verbatim>\<open>file_input/lmd_input.cc\<close>: \<^verbatim>\<open>new_file\<close>,
  \<^verbatim>\<open>read_record\<close> (which finds and checks the next buffer of the file and maps its data),
  \<^verbatim>\<open>skip_record\<close>, \<^verbatim>\<open>release_events\<close> and \<^verbatim>\<open>get_event\<close> (which takes the next event out of
  the buffers, putting the fragments of an event together). The modelled build has no
  threading and no merging: there is one event object, \<^verbatim>\<open>_file_event\<close>.

  \<^verbatim>\<open>read_record\<close> is cut into the steps that its comments name, each a definition of its own.
  The loops over the buffers of the file take a bound on the number of rounds; the result
  \<open>Fuel\<close> means that the bound was reached.
\<close>

section \<open>State\<close>

record lmd_subevent =
  se_header :: lmd_subevent_header
  se_data :: "bytes option"
  se_frag :: "buf_chunk list"
  se_offset :: nat

record lmd_event =
  ev_header :: lmd_event_header
  ev_info :: lmd_event_info
  ev_status :: u32
  ev_swapping :: bool
  ev_subevents :: "lmd_subevent list option"
  ev_chunks :: "buf_chunk list"
  ev_chunk_alloc :: nat
  ev_chunk_cur :: "buf_chunk list"
  ev_offset_cur :: nat
  ev_warnings :: "string list"

abbreviation (input) LMD_EVENT_GET_10_1_INFO_ATTEMPT :: u32 where "LMD_EVENT_GET_10_1_INFO_ATTEMPT \<equiv> 0x0001"
abbreviation (input) LMD_EVENT_HAS_10_1_INFO :: u32 where "LMD_EVENT_HAS_10_1_INFO \<equiv> 0x0002"
abbreviation (input) LMD_EVENT_IS_STICKY :: u32 where "LMD_EVENT_IS_STICKY \<equiv> 0x0004"
abbreviation (input) LMD_EVENT_LOCATE_SUBEVENTS_ATTEMPT :: u32 where
  "LMD_EVENT_LOCATE_SUBEVENTS_ATTEMPT \<equiv> 0x0008"
abbreviation (input) LMD_EVENT_FIRST_BUFFER_HAS_STICKY :: u32 where
  "LMD_EVENT_FIRST_BUFFER_HAS_STICKY \<equiv> 0x0020"

record 's lmd_source =
  ls_input :: "'s input_buffer_cont"
  ls_buffer_header :: s_bufhe
  ls_swapping :: bool
  ls_last_buffer_no :: u32
  ls_expect_file_header :: bool
  ls_events_left :: u32
  ls_skip_record_try_again :: bool
  ls_prev_record_release_to :: int
  ls_prev_record_release_to2 :: int
  ls_buffers_maybe_missing :: bool
  ls_close_is_error :: bool
  ls_file_header :: s_filhe_extra
  ls_file_header_seen :: bool
  ls_first_buf_status :: u32
  ls_chunks :: "buf_chunk list"
  ls_chunk_end :: nat
  ls_file_event :: lmd_event
  ls_warnings :: "string list"

text \<open>
  \<open>ls_chunks\<close> are the chunks from \<^verbatim>\<open>_chunk_cur\<close> to \<^verbatim>\<open>_chunk_end\<close>, \<open>ls_chunk_end\<close> the index of
  \<^verbatim>\<open>_chunk_end\<close> in the array \<^verbatim>\<open>_chunks\<close>; \<open>ev_chunks\<close> those from
  \<^verbatim>\<open>_chunks_ptr\<close> to \<^verbatim>\<open>_chunk_end\<close> of the event, \<open>ev_chunk_alloc\<close> how many were allocated;
  \<open>ls_warnings\<close> the warnings issued so far.
\<close>

definition warning :: "string \<Rightarrow> 's lmd_source \<Rightarrow> 's lmd_source" where
  "warning msg src = src\<lparr>ls_warnings := ls_warnings src @ [msg]\<rparr>"

definition src_read_range :: "'s input_buffer \<Rightarrow> nat \<Rightarrow> 's lmd_source \<Rightarrow> (bytes option, 's lmd_source) result" where
  "src_read_range vt n src =
     (case cont_read_range vt (ls_input src) n of (r, ic) \<Rightarrow> (r, src\<lparr>ls_input := ic\<rparr>))"

definition src_map_range :: "'s input_buffer \<Rightarrow> nat \<Rightarrow> 's lmd_source \<Rightarrow> (buf_chunk list, 's lmd_source) result" where
  "src_map_range vt n src =
     (case cont_map_range vt (ls_input src) n of (r, ic) \<Rightarrow> (r, src\<lparr>ls_input := ic\<rparr>))"

lemma src_read_range_as_map:
  "src_read_range vt n src = andthen (src_map_range vt n src)
     (\<lambda>chunks s. (Inr (if chunks = [] then None else Some (concat chunks)), s))"
  by (auto simp: src_read_range_def src_map_range_def cont_read_range_def cont_map_range_def
      read_range_def andthen_def Let_def split: prod.splits sum.splits)

definition lmd_source_init :: "lmd_event \<Rightarrow> lmd_event" where
  "lmd_source_init ev = ev\<lparr>ev_chunk_alloc := 4\<rparr>"

definition new_file :: "'s lmd_source \<Rightarrow> 's lmd_source" where
  "new_file src =
     src\<lparr>ls_last_buffer_no := 0, ls_expect_file_header := True, ls_skip_record_try_again := False,
         ls_chunks := [], ls_chunk_end := 0, ls_events_left := 0, ls_prev_record_release_to := 0,
         ls_prev_record_release_to2 := 0, ls_buffers_maybe_missing := False,
         ls_close_is_error := False, ls_file_header_seen := False\<rparr>"

section \<open>Reading a record\<close>

text \<open>
  Mapping a range into the array \<^verbatim>\<open>_chunks\<close> while \<^verbatim>\<open>_chunk_cur\<close> and \<^verbatim>\<open>_chunk_end\<close> stay where
  they are: entries of the array between them are replaced.
\<close>

definition overwrite_chunks :: "buf_chunk list \<Rightarrow> 's lmd_source \<Rightarrow> 's lmd_source" where
  "overwrite_chunks cs src =
     (let cur = ls_chunk_end src - length (ls_chunks src)
      in src\<lparr>ls_chunks := map (\<lambda>i. if cur + i < length cs then cs ! (cur + i) else ls_chunks src ! i)
                            [0..<length (ls_chunks src)]\<rparr>)"

subsection \<open>The buffer header\<close>

definition swap_buffer_header :: "bytes \<Rightarrow> 's lmd_source \<Rightarrow> (unit, 's lmd_source) result" where
  "swap_buffer_header b src =
     (let header = bufhe_of_words (words32 b);
          endian_free0 = bh_free0 header;
          src = src\<lparr>ls_buffer_header := header\<rparr>
      in if endian_free0 = 1 then (Inr (), src\<lparr>ls_swapping := False\<rparr>)
         else if endian_free0 = bswap_32 1 then
           (Inr (), src\<lparr>ls_swapping := True, ls_buffer_header := byteswap_bufhe header\<rparr>)
         else (Inl (Err ''Buffer header endian marker broken (l_free[0])''), src))"

fun read_buffer_header :: "'s input_buffer \<Rightarrow> nat \<Rightarrow> 's lmd_source \<Rightarrow> (bool, 's lmd_source) result" where
  "read_buffer_header vt 0 src = (Inl Fuel, src)"
| "read_buffer_header vt (Suc fuel) src =
     andthen
       (src_read_range vt sizeof_s_bufhe
          (src\<lparr>ls_prev_record_release_to := ic_cur (ls_input src), ls_first_buf_status := 0\<rparr>))
       (\<lambda>b src. case b of
          None \<Rightarrow> (Inr False, src)
        | Some b \<Rightarrow>
            andthen (swap_buffer_header b src) (\<lambda>_ src.
              let header = ls_buffer_header src in
              if is_dummy_buffer header then
                let buffer_size_dlen = BUFFER_SIZE_FROM_DLEN (unat (bh_dlen header));
                    data_size = sub64 buffer_size_dlen sizeof_s_bufhe
                in andthen (src_map_range vt data_size src) (\<lambda>cs src.
                     read_buffer_header vt fuel (overwrite_chunks cs src))
              else (Inr True, src)))"

definition varsize :: "s_bufhe \<Rightarrow> bool" where
  "varsize h \<longleftrightarrow> LMD_BUF_HEADER_100_1 h \<or> LMD_BUF_HEADER_HAS_STICKY_VARSZ h"

definition get_buffer_size_dlen :: "s_bufhe \<Rightarrow> cxx_error + nat" where
  "get_buffer_size_dlen h =
     (if bh_dlen h = 0 then Inl (Err ''Buffer size l_dlen header zero.  Cannot be.'')
      else if bh_dlen h > 0x20000000 then
        Inl (Err ''Buffer size l_dlen header negative or very large, refusing.'')
      else
        let buffer_size_dlen = BUFFER_SIZE_FROM_DLEN (unat (bh_dlen h)) in
        if \<not> varsize h \<and> (buffer_size_dlen = 0 \<or> buffer_size_dlen mod 1024 \<noteq> 0) then
          let broken = BUFFER_SIZE_FROM_DLEN_BROKEN (bh_dlen h) in
          if LMD_FILE_HEADER_2000_1 h \<and> broken \<noteq> 0 \<and> broken mod 1024 = 0 then Inr broken
          else Inl (Err ''l_dlen of buffer header does not result in blocksize % 1024 bytes'')
        else Inr buffer_size_dlen)"

definition check_item_length :: "'s input_buffer \<Rightarrow> 's lmd_source \<Rightarrow> nat \<Rightarrow> cxx_error + unit" where
  "check_item_length vt src buffer_size_dlen =
     (let max_length = max_item_length vt (ic_input (ls_input src));
          last_ev_size = EVENT_DATA_LENGTH_FROM_DLEN (bh_free1 (ls_buffer_header src))
      in if buffer_size_dlen > max_length then Inl (Err ''LMD buffer size too large for input buffer'')
         else if last_ev_size > max_length then
           Inl (Err ''Last event size too large for for input buffer.'')
         else Inr ())"

subsection \<open>The file header\<close>

text \<open>The size of the extra file header, and the size of the buffer that holds it.\<close>

definition get_file_header_size :: "s_bufhe \<Rightarrow> nat \<Rightarrow> nat \<times> nat" where
  "get_file_header_size h buffer_size_dlen =
     (if unat (bh_dlen h) > LMD_BUF_HEADER_MAX_IUSED_DLEN then
        if bh_evt h \<noteq> 0 then (sizeof_filhe_extra, buffer_size_dlen)
        else if bh_used h = 0 then (sizeof_filhe_extra, buffer_size_dlen)
        else let file_header_size = BUFFER_USED_FROM_IUSED (unat (bh_used h))
             in (file_header_size, sizeof_s_bufhe + file_header_size)
      else (sizeof_filhe_extra, buffer_size_dlen))"

text \<open>
  Returns the size of the file header, the buffer size and the used size of the file header
  (\<^verbatim>\<open>-1\<close> for a buffer that is not a file header). The file header is read over the object
  \<^verbatim>\<open>_file_header\<close>: a size larger than the object writes outside it.
\<close>

definition read_file_header ::
  "'s input_buffer \<Rightarrow> nat \<Rightarrow> 's lmd_source \<Rightarrow> (nat \<times> nat \<times> int, 's lmd_source) result" where
  "read_file_header vt buffer_size_dlen src =
     (let h = ls_buffer_header src in
      if LMD_FILE_HEADER_2000_1 h then
        let src = (if ls_expect_file_header src then src else warning ''Unexpected file header.'' src);
            (file_header_size, buffer_size_dlen) = get_file_header_size h buffer_size_dlen
        in andthen (src_read_range vt file_header_size src)
             (\<lambda>b src. case b of
                None \<Rightarrow> (Inl (Err ''Failed to read file header (extras after buffer header).''), src)
              | Some b \<Rightarrow>
                  if length b > sizeof_filhe_extra then
                    (Inl (Undef ''file header larger than _file_header''), src)
                  else
                    let file_header = filhe_of_mem (b @ drop (length b) (filhe_mem (ls_file_header src)));
                        file_header = (if ls_swapping src then byteswap_filhe file_header else file_header);
                        src = src\<lparr>ls_file_header := file_header, ls_file_header_seen := True,
                                  ls_expect_file_header := False\<rparr>
                    in (Inr (file_header_size, buffer_size_dlen, int (filhe_used_size file_header)), src))
      else if LMD_BUF_HEADER_10_1 h \<or> LMD_BUF_HEADER_HAS_STICKY h \<or> LMD_BUF_HEADER_100_1 h \<or>
              LMD_BUF_HEADER_HAS_STICKY_VARSZ h then
        let src = (if LMD_BUF_HEADER_HAS_STICKY h \<or> LMD_BUF_HEADER_HAS_STICKY_VARSZ h
                   then src\<lparr>ls_first_buf_status := LMD_EVENT_FIRST_BUFFER_HAS_STICKY\<rparr> else src);
            src = (if ls_expect_file_header src
                   then (warning ''Expected file header but got buffer header.'' src)
                          \<lparr>ls_expect_file_header := False\<rparr>
                   else src)
        in (Inr (0, buffer_size_dlen, - 1), src)
      else (Inl (Err ''Buffer header neither buffer header nor file header.''), src))"

subsection \<open>The used part of the buffer\<close>

definition get_buf_used :: "s_bufhe \<Rightarrow> int \<Rightarrow> cxx_error + nat" where
  "get_buf_used h file_header_used_size =
     (if unat (bh_dlen h) \<le> LMD_BUF_HEADER_MAX_IUSED_DLEN \<and> \<not> varsize h then
        if bh_free2 h \<noteq> 0 \<and> bh_free2 h \<noteq> ucast (bh_used h) then
          Inl (Err ''Used buffer space double defined differently (small buffer)'')
        else Inr (BUFFER_USED_FROM_IUSED (unat (bh_used h)))
      else
        if bh_used h \<noteq> 0 \<and>
           \<not> (LMD_FILE_HEADER_2000_1 h \<and>
              int (BUFFER_USED_FROM_IUSED (unat (bh_used h))) = file_header_used_size) then
          Inl (Err ''Used buffer space double defined differently (large buffer)'')
        else Inr (BUFFER_USED_FROM_IUSED (unat (bh_free2 h))))"

text \<open>Returns the size of what has been read so far and the used size of the data after it.\<close>

definition check_buf_used ::
  "nat \<Rightarrow> nat \<Rightarrow> int \<Rightarrow> 's lmd_source \<Rightarrow> (nat \<times> nat, 's lmd_source) result" where
  "check_buf_used file_header_size buffer_size_dlen file_header_used_size src =
     (let h = ls_buffer_header src in
      case get_buf_used h file_header_used_size of
        Inl e \<Rightarrow> (Inl e, src)
      | Inr buf_used \<Rightarrow>
          let (header_size, buf_used, src) =
                (if LMD_FILE_HEADER_2000_1 h then
                   if buf_used \<noteq> 0 \<and> int buf_used = file_header_used_size then
                     (sizeof_s_bufhe + file_header_size, 0, src)
                   else if buf_used \<noteq> 0 \<and> bh_evt h = 0 then
                     (sizeof_s_bufhe + file_header_size, buf_used,
                      warning ''Header with no events has used size'' src)
                   else (sizeof_s_bufhe + file_header_size, buf_used, src)
                 else (sizeof_s_bufhe, buf_used, src))
          in if header_size + buf_used > buffer_size_dlen then
               (Inl (Err ''Header says that more bytes than length of buffer are used.''), src)
             else (Inr (header_size, buf_used), src))"

definition check_buffer_no :: "bool \<Rightarrow> 's lmd_source \<Rightarrow> (unit, 's lmd_source) result" where
  "check_buffer_no expect_fragment src =
     (let l_buf = bh_buf (ls_buffer_header src); last = ls_last_buffer_no src in
      if last + 1 \<noteq> l_buf \<and> last \<noteq> 0 then
        if l_buf \<le> last \<or> expect_fragment then
          (Inl (Err ''Buffer numbers not increasing in steps of 1''), src)
        else if \<not> ls_buffers_maybe_missing src then
          (Inr (), warning ''Buffer numbers not increasing in steps of 1'' src)
        else (Inr (), src)
      else (Inr (), src))"

subsection \<open>The data of the buffer\<close>

text \<open>
  Cutting \<open>unused\<close> bytes off the end of the mapped chunks; the last chunk goes away entirely
  when it is unused.
\<close>

definition cut_unused :: "nat \<Rightarrow> buf_chunk list \<Rightarrow> cxx_error + buf_chunk list" where
  "cut_unused unused chunks =
     (let l = last chunks in
      if unused \<ge> length l then
        if \<not> length chunks > 1 then Inl (Assert ''chunks > 1'')
        else
          let unused = unused - length l; chunks = butlast chunks; l = last chunks
          in if unused > length l then Inl (Undef ''chunk length below zero'')
             else Inr (butlast chunks @ [take (length l - unused) l])
      else Inr (butlast chunks @ [take (length l - unused) l]))"

text \<open>Returns whether the buffer has data; an empty buffer is done with.\<close>

definition map_buffer_data ::
  "'s input_buffer \<Rightarrow> nat \<Rightarrow> nat \<Rightarrow> nat \<Rightarrow> 's lmd_source \<Rightarrow> (bool, 's lmd_source) result" where
  "map_buffer_data vt buffer_size_dlen header_size buf_used src =
     (let h = ls_buffer_header src;
          src = src\<lparr>ls_chunks := [], ls_chunk_end := 0\<rparr>;
          data_size = (if varsize h then buf_used else sub64 buffer_size_dlen header_size)
      in if data_size \<ge> 2 ^ 63 then (Inl (Err ''Buffer has < 0 bytes for data after header''), src)
         else andthen (src_map_range vt data_size src) (\<lambda>chunks src.
           if chunks = [] then (Inl (Err ''Error while reading record data.''), src)
           else
             let unused = (if varsize h then 0 else sub64 buffer_size_dlen (header_size + buf_used));
                 src = src\<lparr>ls_chunks := chunks, ls_chunk_end := length chunks\<rparr>
             in if unused = data_size then
                  if bh_end h \<noteq> 0 \<or> bh_begin h \<noteq> 0 \<or> bh_evt h \<noteq> 0 then
                    (Inl (Err ''Empty buffer claims to have fragments or events.''), src)
                  else (Inr False, src\<lparr>ls_events_left := 0, ls_chunks := []\<rparr>)
                else if bh_evt h = 0 \<and> data_size \<noteq> 0 then
                  (Inl (Err ''Non-empty buffer has no events.''), src)
                else
                  let src = src\<lparr>ls_last_buffer_no := bh_buf h\<rparr> in
                  if \<not> unused < data_size then (Inl (Assert ''unused < data_size''), src)
                  else case cut_unused unused chunks of
                      Inl e \<Rightarrow> (Inl e, src)
                    | Inr chunks \<Rightarrow>
                        (Inr True, src\<lparr>ls_chunks := chunks, ls_chunk_end := length chunks,
                                         ls_events_left := bh_evt h\<rparr>)))"

definition check_fragment ::
  "bool \<Rightarrow> nat \<Rightarrow> 's lmd_source \<Rightarrow> (unit, 's lmd_source) result" where
  "check_fragment expect_fragment buf_used src =
     (if (bh_end (ls_buffer_header src) = 1) \<noteq> expect_fragment then
        if expect_fragment then
          (Inl (Err ''Expected fragment at beginning of new record.''),
           src\<lparr>ls_skip_record_try_again := True\<rparr>)
        else
          let src = warning ''Buffer header had unexpected fragment at start.'' src;
              (frag, chunks) = get_range (ls_chunks src) sizeof_event_header;
              src = src\<lparr>ls_chunks := chunks\<rparr>
          in case frag of
               None \<Rightarrow> (Inl (Err ''Failure reading fragment event header.''), src)
             | Some b \<Rightarrow>
                 let frag_header = read_event_header (ls_swapping src) b;
                     frag_size = EVENT_DATA_LENGTH_FROM_DLEN (eh_dlen frag_header)
                 in if frag_size > buf_used then (Inl (Err ''Fragment larger than buffer''), src)
                    else
                      let (ok, chunks) = skip_range (ls_chunks src) frag_size;
                          src = src\<lparr>ls_chunks := chunks\<rparr>
                      in if \<not> ok then (Inl (Err ''Internal error.''), src)
                         else (Inr (), src\<lparr>ls_events_left := ls_events_left src - 1\<rparr>)
      else (Inr (), src))"

text \<open>The record after its buffer header: the steps above in the order of the code.\<close>

definition read_buffer_data ::
  "'s input_buffer \<Rightarrow> bool \<Rightarrow> nat \<Rightarrow> nat \<Rightarrow> nat \<Rightarrow> 's lmd_source \<Rightarrow> (bool, 's lmd_source) result" where
  "read_buffer_data vt expect_fragment buffer_size_dlen header_size buf_used src =
     andthen (check_buffer_no expect_fragment src) (\<lambda>_ src.
     andthen (map_buffer_data vt buffer_size_dlen header_size buf_used src) (\<lambda>data src.
       if \<not> data then (Inr True, src)
       else andthen (check_fragment expect_fragment buf_used src) (\<lambda>_ src. (Inr True, src))))"

definition read_buffer ::
  "'s input_buffer \<Rightarrow> bool \<Rightarrow> nat \<Rightarrow> 's lmd_source \<Rightarrow> (bool, 's lmd_source) result" where
  "read_buffer vt expect_fragment buffer_size_dlen src =
     andthen (read_file_header vt buffer_size_dlen src)
       (\<lambda>(file_header_size, buffer_size_dlen, file_header_used_size) src.
     andthen (check_buf_used file_header_size buffer_size_dlen file_header_used_size src)
       (\<lambda>(header_size, buf_used) src.
     read_buffer_data vt expect_fragment buffer_size_dlen header_size buf_used src))"

definition read_record ::
  "'s input_buffer \<Rightarrow> nat \<Rightarrow> bool \<Rightarrow> 's lmd_source \<Rightarrow> (bool, 's lmd_source) result" where
  "read_record vt fuel expect_fragment src =
     andthen (read_buffer_header vt fuel src) (\<lambda>got src.
       if \<not> got then (Inr False, src)
       else case get_buffer_size_dlen (ls_buffer_header src) of
           Inl e \<Rightarrow> (Inl e, src)
         | Inr buffer_size_dlen \<Rightarrow>
             (case check_item_length vt src buffer_size_dlen of
                Inl e \<Rightarrow> (Inl e, src)
              | Inr _ \<Rightarrow> read_buffer vt expect_fragment buffer_size_dlen src))"

definition skip_record :: "'s lmd_source \<Rightarrow> bool \<times> 's lmd_source" where
  "skip_record src =
     (if ls_skip_record_try_again src then (True, src\<lparr>ls_skip_record_try_again := False\<rparr>)
      else (False, src))"

definition release_events :: "'s input_buffer \<Rightarrow> 's lmd_source \<Rightarrow> 's lmd_source" where
  "release_events vt src =
     (if ls_prev_record_release_to2 src \<noteq> 0 then
        src\<lparr>ls_input := cont_release_to vt (ls_input src) (ls_prev_record_release_to2 src),
            ls_prev_record_release_to2 := 0\<rparr>
      else src)"

section \<open>Getting an event\<close>

definition set_event :: "lmd_event \<Rightarrow> 's lmd_source \<Rightarrow> 's lmd_source" where
  "set_event ev src = src\<lparr>ls_file_event := ev\<rparr>"

text \<open>An event that is not fragmented: it ends in the current buffer.\<close>

definition get_whole_event :: "nat \<Rightarrow> 's lmd_source \<Rightarrow> (lmd_event option, 's lmd_source) result" where
  "get_whole_event event_size src =
     (let dest = ls_file_event src in
      if \<not> length (ls_chunks src) \<le> 2 then (Inl (Assert ''_chunk_end - _chunk_cur <= 2''), src)
      else if \<not> ev_chunk_alloc dest \<ge> 2 then
        (Inl (Assert ''dest->_chunk_alloc - dest->_chunks_ptr >= 2''), src)
      else
        let (got, chunks) = get_range_chunks (ls_chunks src) event_size;
            src = src\<lparr>ls_chunks := chunks\<rparr>
        in case got of
             None \<Rightarrow> (Inl (Err ''Event larger than record.''), src)
           | Some cs \<Rightarrow>
               let dest = dest\<lparr>ev_chunks := cs\<rparr> in (Inr (Some dest), set_event dest src))"

text \<open>Room for the chunks of one more fragment, and of the final one.\<close>

definition reserve_chunks :: "lmd_event \<Rightarrow> lmd_event" where
  "reserve_chunks dest =
     (if ev_chunk_alloc dest < length (ev_chunks dest) + 4
      then dest\<lparr>ev_chunk_alloc := 2 * ev_chunk_alloc dest\<rparr> else dest)"

definition add_chunks :: "buf_chunk list \<Rightarrow> lmd_event \<Rightarrow> cxx_error + lmd_event" where
  "add_chunks cs dest =
     (if length (ev_chunks dest @ cs) > ev_chunk_alloc dest
      then Inl (Undef ''chunk outside the allocated array'')
      else Inr (dest\<lparr>ev_chunks := ev_chunks dest @ cs\<rparr>))"

text \<open>The data of one fragment: all that is left in the current buffer, which stays there.\<close>

definition take_fragment :: "nat \<Rightarrow> nat \<Rightarrow> 's lmd_source \<Rightarrow> (unit, 's lmd_source) result" where
  "take_fragment event_size total_size src =
     (if event_size > total_size then
        (Inl (Err ''Fragment larger than total remaining event size''), src)
      else
        let dest = reserve_chunks (ls_file_event src) in
        case copy_range [] (ls_chunks src) of
          Inl e \<Rightarrow> (Inl e, set_event dest src)
        | Inr (cs, retrieved) \<Rightarrow>
            (case add_chunks cs dest of
               Inl e \<Rightarrow> (Inl e, set_event dest src)
             | Inr dest \<Rightarrow>
                 let src = set_event dest src
                 in if retrieved \<noteq> event_size then
                      (Inl (Err ''Fragmented event larger or smaller than record''), src)
                    else (Inr (), src)))"

text \<open>The header of the next fragment, from the next record.\<close>

definition next_fragment ::
  "'s input_buffer \<Rightarrow> nat \<Rightarrow> 's lmd_source \<Rightarrow> (lmd_event_header, 's lmd_source) result" where
  "next_fragment vt fuel src =
     andthen (read_record vt fuel True src) (\<lambda>ok src.
       if \<not> ok then (Inl (Err ''Could not get next record for fragmented event''), src)
       else if ls_swapping src \<noteq> ev_swapping (ls_file_event src) then
         (Inl (Err ''Swapping changed within fragmented event.''), src)
       else
         let (got, chunks) = get_range (ls_chunks src) sizeof_event_header;
             src = src\<lparr>ls_chunks := chunks\<rparr>
         in case got of
              None \<Rightarrow> (Inl (Err ''Failure reading fragment event header.''), src)
            | Some b \<Rightarrow>
                let frag_header = read_event_header (ls_swapping src) b;
                    header = ev_header (ls_file_event src)
                in if eh_type frag_header \<noteq> eh_type header \<or> eh_subtype frag_header \<noteq> eh_subtype header then
                     (Inl (Err ''Fragment event type/subtype mismatch from original.''), src)
                   else (Inr frag_header, src))"

fun get_fragments ::
  "'s input_buffer \<Rightarrow> nat \<Rightarrow> nat \<Rightarrow> nat \<Rightarrow> nat \<Rightarrow> 's lmd_source \<Rightarrow> (nat, 's lmd_source) result" where
  "get_fragments vt fuel 0 event_size total_size src = (Inl Fuel, src)"
| "get_fragments vt fuel (Suc n) event_size total_size src =
     andthen (take_fragment event_size total_size src) (\<lambda>_ src.
       let total_size = total_size - event_size in
       andthen (next_fragment vt fuel src) (\<lambda>frag_header src.
         let event_size = EVENT_DATA_LENGTH_FROM_DLEN (eh_dlen frag_header) in
         if event_size = total_size then (Inr event_size, src)
         else if bh_begin (ls_buffer_header src) = 0 then
           if event_size > total_size then
             (Inl (Err ''Final fragment larger than total remaining event size''), src)
           else (Inr event_size, src)
         else if ls_events_left src \<noteq> 1 then
           (Inl (Err ''Buffer with only partial fragment wrong event count.''), src)
         else get_fragments vt fuel n event_size total_size src))"

definition get_fragmented_event ::
  "'s input_buffer \<Rightarrow> nat \<Rightarrow> nat \<Rightarrow> 's lmd_source \<Rightarrow> (lmd_event option, 's lmd_source) result" where
  "get_fragmented_event vt fuel event_size src =
     (if bh_begin (ls_buffer_header src) = 0 then
        (Inl (Err ''Too many events were found in buffer.''), src)
      else if ls_events_left src \<noteq> 0 then (Inl (Assert ''_events_left == 0''), src)
      else
        let l_free1 = bh_free1 (ls_buffer_header src);
            dest = ls_file_event src;
            dest = dest\<lparr>ev_header := (ev_header dest)\<lparr>eh_dlen := l_free1\<rparr>, ev_chunks := []\<rparr>;
            total_size = EVENT_DATA_LENGTH_FROM_DLEN l_free1
        in andthen (get_fragments vt fuel fuel event_size total_size (set_event dest src))
             (\<lambda>event_size src.
                let src = src\<lparr>ls_events_left := ls_events_left src - 1\<rparr>;
                    (got, chunks) = get_range_chunks (ls_chunks src) event_size;
                    src = src\<lparr>ls_chunks := chunks\<rparr>
                in case got of
                     None \<Rightarrow> (Inl (Err ''Final fragment larger than record.''), src)
                   | Some cs \<Rightarrow>
                       (case add_chunks cs (ls_file_event src) of
                          Inl e \<Rightarrow> (Inl e, src)
                        | Inr dest \<Rightarrow> (Inr (Some dest), set_event dest src))))"

text \<open>The event that starts at the current position of the current buffer.\<close>

definition take_event ::
  "'s input_buffer \<Rightarrow> nat \<Rightarrow> 's lmd_source \<Rightarrow> (lmd_event option, 's lmd_source) result" where
  "take_event vt fuel src =
     (let (got, chunks) = get_range (ls_chunks src) sizeof_event_header;
          src = src\<lparr>ls_chunks := chunks\<rparr>
      in case got of
           None \<Rightarrow> (Inl (Err ''Failure reading event header.''), src)
         | Some b \<Rightarrow>
             let header = read_event_header (ls_swapping src) b;
                 dest = ls_file_event src;
                 src = src\<lparr>ls_events_left := ls_events_left src - 1\<rparr>;
                 event_size = EVENT_DATA_LENGTH_FROM_DLEN (eh_dlen header);
                 dest = dest\<lparr>ev_header := header, ev_swapping := ls_swapping src,
                             ev_status := ev_status dest OR ls_first_buf_status src\<rparr>;
                 src = set_event dest src
             in if ls_events_left src > 0 \<or> bh_begin (ls_buffer_header src) = 0
                then get_whole_event event_size src
                else get_fragmented_event vt fuel event_size src)"

fun get_event_loop ::
  "'s input_buffer \<Rightarrow> nat \<Rightarrow> nat \<Rightarrow> 's lmd_source \<Rightarrow> (lmd_event option, 's lmd_source) result" where
  "get_event_loop vt fuel 0 src = (Inl Fuel, src)"
| "get_event_loop vt fuel (Suc n) src =
     (if ls_chunks src = [] then
        let src = (if ls_events_left src \<noteq> 0
                   then warning ''Too few events were found in record'' src else src)
        in andthen (read_record vt fuel False src) (\<lambda>ok src.
             if \<not> ok then
               if ls_close_is_error src then (Inl (Err ''Out of data considered an error.''), src)
               else (Inr None, src)
             else get_event_loop vt fuel n src)
      else take_event vt fuel src)"

definition get_event ::
  "'s input_buffer \<Rightarrow> nat \<Rightarrow> 's lmd_source \<Rightarrow> (lmd_event option, 's lmd_source) result" where
  "get_event vt fuel src =
     (let dest = (ls_file_event src)\<lparr>ev_status := 0, ev_subevents := None\<rparr>
      in get_event_loop vt fuel fuel
           ((set_event dest src)\<lparr>ls_prev_record_release_to2 := ls_prev_record_release_to src\<rparr>))"

end
