(* ===== verification/Lmd_Reader_Safety.thy ===== *)
theory Lmd_Reader_Safety
  imports Lmd_Input Pipe_Buffer
begin

text \<open>
  The LMD reader on arbitrary input. Whatever bytes a file has, \<^verbatim>\<open>read_record\<close> and
  \<^verbatim>\<open>get_event\<close> end, fail no assertion and stay inside the arrays they use, with the one
  exception that the model shows: a file header that claims to be larger than the object it
  is read into. The lemmas are proved once for every \<^verbatim>\<open>input_buffer\<close> that keeps the contract
  \<^verbatim>\<open>input_source\<close>; the property is their instance for the pipe reader.
\<close>

section \<open>Errors that a file can cause\<close>

definition ok_error :: "cxx_error \<Rightarrow> bool" where
  "ok_error e \<longleftrightarrow>
     (\<exists>m. e = Err m) \<or> e = Undef ''file header larger than _file_header''"

lemma ok_error_simps [simp]: "ok_error (Err m)" "\<not> ok_error Fuel" "\<not> ok_error (Assert m)"
  "ok_error (Undef m) \<longleftrightarrow> m = ''file header larger than _file_header''"
  by (auto simp: ok_error_def)

definition moved :: "nat \<Rightarrow> 's lmd_source \<Rightarrow> 's lmd_source \<Rightarrow> bool" where
  "moved n src src' \<longleftrightarrow>
     src' = src\<lparr>ls_input := ls_input src'\<rparr> \<and> ic_cur (ls_input src') = ic_cur (ls_input src) + int n"

lemma moved_update [simp]:
  "moved n src (src\<lparr>ls_input := ic\<rparr>) \<longleftrightarrow> ic_cur ic = ic_cur (ls_input src) + int n"
  by (simp add: moved_def)

lemma movedE:
  assumes "moved n src src'"
  obtains ic where "src' = src\<lparr>ls_input := ic\<rparr>" and "ic_cur ic = ic_cur (ls_input src) + int n"
  using assms unfolding moved_def by blast

lemma filhe_wf_of_mem: "length b = sizeof_filhe_extra \<Longrightarrow> filhe_wf (filhe_of_mem b)"
  by (auto simp: filhe_wf_def filhe_of_mem_def string_of_mem_def string_wf_def list_all_iff)

context input_source
begin

definition within :: "bytes \<Rightarrow> int \<Rightarrow> nat \<Rightarrow> 's lmd_source \<Rightarrow> bool" where
  "within S R k src \<longleftrightarrow>
     invar (ic_input (ls_input src)) \<and> stream (ic_input (ls_input src)) = S \<and>
     released (ic_input (ls_input src)) = R \<and> R \<le> ic_cur (ls_input src) \<and>
     ic_cur (ls_input src) \<le> int (length S) + int k \<and>
     two_chunks (ls_chunks src) \<and> filhe_wf (ls_file_header src) \<and>
     4 \<le> ev_chunk_alloc (ls_file_event src)"

definition fails :: "bytes \<Rightarrow> int \<Rightarrow> cxx_error \<Rightarrow> 's lmd_source \<Rightarrow> bool" where
  "fails S R e src \<longleftrightarrow> ok_error e \<and> within S R (2 ^ 35) src"

lemma within_mono: "within S R k src \<Longrightarrow> k \<le> k' \<Longrightarrow> within S R k' src"
  by (auto simp: within_def)

lemma within_0: "within S R 0 src \<Longrightarrow> within S R k src"
  by (erule within_mono) simp

lemma src_map_range_any:
  assumes "within S R (2 ^ 34) src" and "n \<le> 2 ^ 33"
  shows "outcome (\<lambda>cs src'. moved n src src' \<and> within S R (2 ^ 35) src' \<and> two_chunks cs \<and>
             (cs \<noteq> [] \<longrightarrow> within S R 0 src' \<and> length (concat cs) = n \<and> (length cs = 2 \<longrightarrow> [] \<notin> set cs)))
           (fails S R) (src_map_range vt n src)"
proof -
  let ?s = "ic_input (ls_input src)" and ?i = "ic_cur (ls_input src)"
  have inv: "invar ?s" "released ?s \<le> ?i" "0 \<le> released ?s" "int (length (stream ?s)) < 2 ^ 62"
    "?i \<le> int (length (stream ?s)) + 2 ^ 34"
    using assms(1) released_nonneg stream_length by (auto simp: within_def)
  have off: "off_add ?i n = ?i + int n"
    using inv assms(2) by (intro off_add_small) auto
  consider "released ?s + int (window ?s) < ?i + int n"
    | "?i + int n \<le> released ?s + int (window ?s)" "int (length (stream ?s)) < ?i + int n"
    | "?i + int n \<le> released ?s + int (window ?s)" "?i + int n \<le> int (length (stream ?s))"
    by linarith
  then show ?thesis
  proof cases
    case 1
    from map_range_outside [OF inv(1,2) _ 1] assms show ?thesis
      by (auto simp: src_map_range_def cont_map_range_def off within_def fails_def)
  next
    case 2
    from map_range_eof [OF inv(1,2) _ 2(2,1)] assms show ?thesis
      by (auto simp: src_map_range_def cont_map_range_def off within_def)
  next
    case 3
    from map_range_mapped [OF inv(1,2) _ 3(2,1)] inv 3 assms show ?thesis
      by (auto simp: src_map_range_def cont_map_range_def off within_def)
  qed
qed

lemma src_read_range_any:
  assumes "within S R (2 ^ 34) src" and "n \<le> 2 ^ 33"
  shows "outcome (\<lambda>b src'. moved n src src' \<and> within S R (2 ^ 35) src' \<and>
             (\<forall>d. b = Some d \<longrightarrow> within S R 0 src' \<and> length d = n))
           (fails S R) (src_read_range vt n src)"
  unfolding src_read_range_as_map by (auto intro!: outcome_andthen [OF src_map_range_any [OF assms]])

definition remaining :: "'s lmd_source \<Rightarrow> nat" where
  "remaining src = nat (int (length (stream (ic_input (ls_input src)))) - ic_cur (ls_input src))"

definition after_read :: "bytes \<Rightarrow> int \<Rightarrow> 's lmd_source \<Rightarrow> bool \<Rightarrow> 's lmd_source \<Rightarrow> bool" where
  "after_read S R src got src' \<longleftrightarrow>
     within S R (2 ^ 35) src' \<and> ls_file_event src' = ls_file_event src \<and>
     (got \<longrightarrow> within S R 0 src' \<and> ic_cur (ls_input src) + 48 \<le> ic_cur (ls_input src'))"

lemma within_overwrite_chunks [simp]: "within S R k (overwrite_chunks cs src) = within S R k src"
  by (simp add: within_def overwrite_chunks_def Let_def)

lemma overwrite_chunks_simps [simp]:
  "ls_input (overwrite_chunks cs src) = ls_input src"
  "ls_file_event (overwrite_chunks cs src) = ls_file_event src"
  "ls_file_header (overwrite_chunks cs src) = ls_file_header src"
  "length (ls_chunks (overwrite_chunks cs src)) = length (ls_chunks src)"
  by (simp_all add: overwrite_chunks_def Let_def)

lemma dummy_data_size: "sub64 (BUFFER_SIZE_FROM_DLEN (unat d)) 48 = 2 * unat (d :: u32)"
  using unat_u32 [of d] by (simp add: BUFFER_SIZE_FROM_DLEN_def sub64_le)

lemma dummy_data_size_le: "2 * unat (d :: u32) \<le> 2 ^ 33"
  using unat_u32 [of d] by simp

lemma after_read_trans:
  assumes "ls_file_event src1 = ls_file_event src" and "ic_cur (ls_input src) \<le> ic_cur (ls_input src1)"
    and "outcome (after_read S R src1) (fails S R) r"
  shows "outcome (after_read S R src) (fails S R) r"
  by (rule outcome_mono [OF assms(3)]) (use assms(1,2) in \<open>auto simp: after_read_def\<close>)

lemma read_buffer_header_any:
  assumes "within S R (2 ^ 34) src" and "remaining src < fuel"
  shows "outcome (after_read S R src) (fails S R) (read_buffer_header vt fuel src)"
  using assms
proof (induction fuel arbitrary: src)
  case 0
  then show ?case by simp
next
  case (Suc fuel)
  let ?src = "src\<lparr>ls_prev_record_release_to := ic_cur (ls_input src), ls_first_buf_status := 0\<rparr>"
  have pre: "within S R (2 ^ 34) ?src" using Suc.prems by (simp add: within_def)
  have dummy: "outcome (after_read S R src) (fails S R)
      (andthen (src_map_range vt (n) src1)
        (\<lambda>cs src. read_buffer_header vt fuel (overwrite_chunks cs src)))"
    if src1: "within S R 0 src1" "ic_cur (ls_input src1) = ic_cur (ls_input src) + 48"
      "ls_file_event src1 = ls_file_event src" "n \<le> 2 ^ 33" for src1 n
  proof (rule outcome_andthen [OF src_map_range_any])
    show "within S R (2 ^ 34) src1" using src1(1) by (rule within_mono) simp
    show "n \<le> 2 ^ 33" by (rule src1(4))
    fix cs src2
    assume *: "moved (n) src1 src2 \<and> within S R (2 ^ 35) src2 \<and> two_chunks cs \<and>
      (cs \<noteq> [] \<longrightarrow> within S R 0 src2 \<and> length (concat cs) = n \<and> (length cs = 2 \<longrightarrow> [] \<notin> set cs))"
    let ?src2 = "overwrite_chunks cs src2"
    have w: "within S R (2 ^ 34) ?src2"
      using * src1(1,4) by (auto simp: within_def elim!: movedE)
    have "remaining ?src2 < fuel"
      using * src1 Suc.prems by (auto simp: within_def remaining_def elim!: movedE)
    from Suc.IH [OF w this] show "outcome (after_read S R src) (fails S R) (read_buffer_header vt fuel ?src2)"
      by (rule after_read_trans [rotated 2]) (use * src1 in \<open>auto elim!: movedE\<close>)
  qed
  have swap: "outcome (\<lambda>_ src2. within S R 0 src2 \<and> ls_input src2 = ls_input src1 \<and>
      ls_file_event src2 = ls_file_event src1) (fails S R) (swap_buffer_header b src1)"
    if "within S R 0 src1" for b src1
    using that by (auto simp: swap_buffer_header_def Let_def within_def fails_def)
  show ?case
    unfolding read_buffer_header.simps
  proof (rule outcome_andthen [OF src_read_range_any [OF pre]], goal_cases)
    case (2 b src1)
    show ?case
    proof (cases b)
      case None
      with 2 show ?thesis by (auto simp: after_read_def within_def elim!: movedE)
    next
      case (Some d)
      with 2 have w: "within S R 0 src1" "ic_cur (ls_input src1) = ic_cur (ls_input src) + 48"
        "ls_file_event src1 = ls_file_event src"
        by (auto elim!: movedE)
      have here: "within S R 0 src2 \<Longrightarrow> ic_cur (ls_input src2) = ic_cur (ls_input src) + 48 \<Longrightarrow>
          ls_file_event src2 = ls_file_event src \<Longrightarrow> after_read S R src True src2" for src2
        by (auto simp: after_read_def intro: within_0)
      show ?thesis
        unfolding Some option.simps
        by (rule outcome_andthen [OF swap [OF w(1)]])
          (use dummy_data_size_le in \<open>auto simp: Let_def dummy_data_size w intro!: dummy here\<close>)
    qed
  qed simp
qed

definition kept :: "bytes \<Rightarrow> int \<Rightarrow> 's lmd_source \<Rightarrow> 's lmd_source \<Rightarrow> bool" where
  "kept S R src src' \<longleftrightarrow>
     within S R 0 src' \<and> ls_file_event src' = ls_file_event src \<and>
     ls_buffer_header src' = ls_buffer_header src \<and> ic_cur (ls_input src) \<le> ic_cur (ls_input src')"

lemma kept_trans: "kept S R a b \<Longrightarrow> kept S R b c \<Longrightarrow> kept S R a c"
  by (auto simp: kept_def)

lemma within_ignores [simp]:
  "within S R k (warning m src) = within S R k src"
  "within S R k (src\<lparr>ls_buffer_header := h\<rparr>) = within S R k src"
  "within S R k (src\<lparr>ls_swapping := b\<rparr>) = within S R k src"
  "within S R k (src\<lparr>ls_expect_file_header := b\<rparr>) = within S R k src"
  "within S R k (src\<lparr>ls_file_header_seen := b\<rparr>) = within S R k src"
  "within S R k (src\<lparr>ls_first_buf_status := st\<rparr>) = within S R k src"
  "within S R k (src\<lparr>ls_events_left := n\<rparr>) = within S R k src"
  "within S R k (src\<lparr>ls_last_buffer_no := n\<rparr>) = within S R k src"
  "within S R k (src\<lparr>ls_chunk_end := m'\<rparr>) = within S R k src"
  "within S R k (src\<lparr>ls_skip_record_try_again := b\<rparr>) = within S R k src"
  "within S R k (src\<lparr>ls_prev_record_release_to2 := i\<rparr>) = within S R k src"
  by (simp_all add: within_def warning_def)

lemma within_set_event: "within S R k src \<Longrightarrow> 4 \<le> ev_chunk_alloc ev \<Longrightarrow> within S R k (set_event ev src)"
  by (simp add: within_def set_event_def)

lemma within_chunks: "within S R k src \<Longrightarrow> two_chunks cs \<Longrightarrow> within S R k (src\<lparr>ls_chunks := cs\<rparr>)"
  by (simp add: within_def)

lemma within_file_header: "within S R k src \<Longrightarrow> filhe_wf f \<Longrightarrow> within S R k (src\<lparr>ls_file_header := f\<rparr>)"
  by (simp add: within_def)

lemma fails_within_0: "within S R 0 src \<Longrightarrow> ok_error e \<Longrightarrow> fails S R e src"
  by (auto simp: fails_def intro: within_0)

lemma warning_simps [simp]:
  "ls_input (warning m src) = ls_input src" "ls_file_event (warning m src) = ls_file_event src"
  "ls_buffer_header (warning m src) = ls_buffer_header src" "ls_chunks (warning m src) = ls_chunks src"
  "ls_swapping (warning m src) = ls_swapping src" "ls_file_header (warning m src) = ls_file_header src"
  "ls_events_left (warning m src) = ls_events_left src"
  by (simp_all add: warning_def)

lemma file_header_size_le:
  "get_file_header_size h n = (fhs, n') \<Longrightarrow> n \<le> 2 ^ 31 \<Longrightarrow> fhs \<le> 2 ^ 17 \<and> n' \<le> 2 ^ 31"
  using unat_u16 [of "bh_used h"]
  by (auto simp: get_file_header_size_def BUFFER_USED_FROM_IUSED_def wrap32_def Let_def split: if_splits)

lemma read_file_header_any:
  assumes "within S R 0 src" and "n \<le> 2 ^ 31"
  shows "outcome (\<lambda>(fhs, n', used) src'. kept S R src src' \<and> fhs \<le> 2 ^ 17 \<and> n' \<le> 2 ^ 31) (fails S R)
           (read_file_header vt n src)"
proof (cases "LMD_FILE_HEADER_2000_1 (ls_buffer_header src)")
  case True
  let ?src = "if ls_expect_file_header src then src else warning ''Unexpected file header.'' src"
  obtain fhs n' where sz: "get_file_header_size (ls_buffer_header src) n = (fhs, n')" by fastforce
  note le = file_header_size_le [OF sz assms(2)]
  have w: "within S R (2 ^ 34) ?src" using assms(1) by (auto intro: within_0)
  have small: "fhs \<le> 2 ^ 33" using le by simp
  show ?thesis
    unfolding read_file_header_def Let_def if_P [OF True] sz prod.case
  proof (rule outcome_andthen [OF src_read_range_any [OF w small]], goal_cases)
    case (1 b src1)
    show ?case
    proof (cases b)
      case None
      with 1 show ?thesis by (simp add: fails_def)
    next
      case (Some d)
      with 1 have src1: "within S R 0 src1" "moved fhs ?src src1" by auto
      have "length (filhe_mem (ls_file_header src1)) = sizeof_filhe_extra"
        using src1(1) by (simp add: within_def length_filhe_mem)
      then have "length d \<le> sizeof_filhe_extra \<Longrightarrow>
          filhe_wf (filhe_of_mem (d @ drop (length d) (filhe_mem (ls_file_header src1))))"
        by (intro filhe_wf_of_mem) simp
      then show ?thesis
        using Some src1 le
        by (auto simp: kept_def byteswap_filhe_def Let_def elim!: movedE
            intro!: fails_within_0 within_file_header split: if_splits)
    qed
  qed
next
  case False
  then show ?thesis
    using assms by (auto simp: read_file_header_def Let_def kept_def fails_within_0)
qed

lemma get_buf_used_error: "get_buf_used h fused = Inl e \<Longrightarrow> ok_error e"
  by (auto simp: get_buf_used_def split: if_splits)

lemma check_buf_used_any:
  assumes "within S R 0 src"
  shows "outcome (\<lambda>(hs, used) src'. kept S R src src' \<and> hs + used \<le> n) (fails S R)
           (check_buf_used fhs n fused src)"
proof (cases "get_buf_used (ls_buffer_header src) fused")
  case (Inl e)
  then show ?thesis
    using assms by (simp add: check_buf_used_def fails_within_0 get_buf_used_error)
next
  case (Inr u)
  have kept: "kept S R src src" "kept S R src (warning m src)" for m using assms by (simp_all add: kept_def)
  have fails: "fails S R (Err e) src" "fails S R (Err e) (warning m src)" for e m
    using assms by (simp_all add: fails_within_0)
  show ?thesis
    using Inr kept fails
    by (cases "LMD_FILE_HEADER_2000_1 (ls_buffer_header src)"; cases "u = 0"; cases "int u = fused")
      (simp_all add: check_buf_used_def Let_def not_less)
qed

lemma check_buffer_no_any:
  assumes "within S R 0 src"
  shows "outcome (\<lambda>_. kept S R src) (fails S R) (check_buffer_no f src)"
  using assms by (auto simp: check_buffer_no_def Let_def kept_def fails_within_0)

lemma length_snd_get_range:
  "two_chunks cs \<Longrightarrow> two_chunks (snd (get_range cs n))"
  "two_chunks cs \<Longrightarrow> two_chunks (snd (skip_range cs n))"
  "two_chunks cs \<Longrightarrow> two_chunks (snd (get_range_chunks cs n))"
  by (auto simp: get_range_def skip_range_def get_range_chunks_def Let_def split: list.splits if_splits)

lemma cut_unused_ok:
  assumes "two_chunks cs" and "cs \<noteq> []" and "unused < length (concat cs)"
  shows "\<exists>cs'. cut_unused unused cs = Inr cs' \<and> two_chunks cs' \<and> cs' \<noteq> [] \<and>
           concat cs' = take (length (concat cs) - unused) (concat cs)"
  using assms by (elim two_chunks_cases) (auto simp: cut_unused_def Let_def)

lemma map_buffer_data_any:
  assumes "within S R 0 src" and "n \<le> 2 ^ 31" and "hs + used \<le> n"
  shows "outcome (\<lambda>_. kept S R src) (fails S R) (map_buffer_data vt n hs used src)"
proof -
  let ?h = "ls_buffer_header src" and ?src = "src\<lparr>ls_chunks := [], ls_chunk_end := 0\<rparr>"
  define ds where "ds = (if varsize ?h then used else n - hs)"
  define unused where "unused = (if varsize ?h then 0 else n - (hs + used))"
  have sizes: "(if varsize ?h then used else sub64 n hs) = ds"
      "(if varsize ?h then 0 else sub64 n (hs + used)) = unused" "ds \<le> 2 ^ 33" "unused \<le> ds"
    using assms(2,3) by (auto simp: ds_def unused_def sub64_le)
  have w: "within S R (2 ^ 34) ?src" using assms(1) by (auto intro: within_0 within_chunks)
  show ?thesis
    unfolding map_buffer_data_def Let_def sizes
    using sizes(3)
  proof (simp, intro outcome_andthen [OF src_map_range_any [OF w sizes(3)]], goal_cases)
    case (1 cs src1)
    show ?case
    proof (cases "cs = [] \<or> unused = ds")
      case True
      with 1 assms(1) show ?thesis
        by (auto simp: fails_def kept_def within_chunks elim!: movedE intro: within_0)
    next
      case False
      with 1 have src1: "within S R 0 src1" "moved ds ?src src1" "length (concat cs) = ds" "two_chunks cs"
        by auto
      have "unused < length (concat cs)" using False sizes(4) src1(3) by simp
      from cut_unused_ok [OF src1(4) _ this] False obtain cs' where
        "cut_unused unused cs = Inr cs'" "two_chunks cs'" by auto
      then show ?thesis using False src1 sizes(4)
        by (auto simp: kept_def within_chunks fails_within_0 elim!: movedE)
    qed
  qed
qed

lemma check_fragment_any:
  assumes "within S R 0 src"
  shows "outcome (\<lambda>_. kept S R src) (fails S R) (check_fragment f used src)"
proof -
  have cs: "two_chunks (ls_chunks src)" using assms by (simp add: within_def)
  obtain g cs1 where g: "get_range (ls_chunks src) 8 = (g, cs1)" by fastforce
  have cs1: "two_chunks cs1" using length_snd_get_range(1) [OF cs, of 8] g by simp
  have skip: "skip_range cs1 k = (b, cs2) \<Longrightarrow> two_chunks cs2" for k b cs2
    using length_snd_get_range(2) [OF cs1, of k] by simp
  show ?thesis
    using assms cs1 g
    by (auto simp: check_fragment_def Let_def kept_def within_chunks
        split: option.splits prod.splits intro!: fails_within_0 within_chunks dest: skip)
qed

lemma buffer_size_le:
  assumes "get_buffer_size_dlen h = Inr n"
  shows "n \<le> 2 ^ 31"
proof -
  have "unat (bh_dlen h) \<le> 0x20000000"
    using assms by (auto simp: get_buffer_size_dlen_def not_less word_le_nat_alt split: if_splits)
  then show ?thesis
    using assms by (auto simp: get_buffer_size_dlen_def Let_def BUFFER_SIZE_FROM_DLEN_def
        BUFFER_SIZE_FROM_DLEN_BROKEN_def wrap32_def split: if_splits)
qed

lemma buffer_size_error: "get_buffer_size_dlen h = Inl e \<Longrightarrow> ok_error e"
  by (auto simp: get_buffer_size_dlen_def Let_def split: if_splits)

lemma item_length_error: "check_item_length vt src n = Inl e \<Longrightarrow> ok_error e"
  by (auto simp: check_item_length_def Let_def split: if_splits)

lemma after_read_kept:
  "after_read S R src True src1 \<Longrightarrow> kept S R src1 src2 \<Longrightarrow> after_read S R src True src2"
  by (auto simp: after_read_def kept_def intro: within_0)

lemma kept_outcome:
  assumes "kept S R src src1" and "outcome (\<lambda>x src2. kept S R src1 src2 \<and> P x) (fails S R) r"
  shows "outcome (\<lambda>x src2. kept S R src src2 \<and> P x) (fails S R) r"
  by (rule outcome_mono [OF assms(2)]) (use kept_trans [OF assms(1)] in auto)

lemma kept_within: "kept S R src src1 \<Longrightarrow> within S R 0 src1"
  by (simp add: kept_def)

lemma read_buffer_data_any:
  assumes "within S R 0 src" and "n \<le> 2 ^ 31" and "hs + used \<le> n"
  shows "outcome (\<lambda>ok src1. kept S R src src1 \<and> ok) (fails S R) (read_buffer_data vt f n hs used src)"
  unfolding read_buffer_data_def
proof (rule outcome_andthen [OF check_buffer_no_any [OF assms(1)]], goal_cases)
  case (1 _ src1)
  note k1 = this
  show ?case
  proof (rule outcome_andthen [OF map_buffer_data_any [OF kept_within [OF k1] assms(2,3)]], goal_cases)
    case (1 data src2)
    note k2 = kept_trans [OF k1 1]
    show ?case
    proof (cases data)
      case False
      with k2 show ?thesis by simp
    next
      case True
      have "outcome (\<lambda>ok src3. kept S R src2 src3 \<and> ok) (fails S R)
          (andthen (check_fragment f used src2) (\<lambda>_ src. (Inr True, src)))"
        by (rule outcome_andthen [OF check_fragment_any [OF kept_within [OF k2]]]) simp
      with True kept_outcome [OF k2] show ?thesis by simp
    qed
  qed
qed

lemma read_buffer_any:
  assumes "within S R 0 src" and "n \<le> 2 ^ 31"
  shows "outcome (\<lambda>ok src1. kept S R src src1 \<and> ok) (fails S R) (read_buffer vt f n src)"
  unfolding read_buffer_def
proof (rule outcome_andthen [OF read_file_header_any [OF assms]], clarify, goal_cases)
  case (1 fhs n' fused src1)
  note k1 = this
  show ?case
  proof (rule outcome_andthen [OF check_buf_used_any [OF kept_within [OF k1(1)], where n = n']],
      clarify, goal_cases)
    case (1 hs used src2)
    from read_buffer_data_any [OF kept_within [OF 1(1)] k1(3) 1(2)]
    show ?case by (rule kept_outcome [OF kept_trans [OF k1(1) 1(1)]])
  qed
qed

lemma read_record_any:
  assumes "within S R (2 ^ 34) src" and "remaining src < fuel"
  shows "outcome (after_read S R src) (fails S R) (read_record vt fuel f src)"
  unfolding read_record_def
proof (rule outcome_andthen [OF read_buffer_header_any [OF assms]], goal_cases)
  case (1 got src1)
  note a1 = this
  show ?case
  proof (cases got)
    case False
    with a1 show ?thesis by simp
  next
    case True
    with a1 have w1: "within S R 0 src1" by (simp add: after_read_def)
    have "outcome (after_read S R src) (fails S R) (read_buffer vt f n src1)" if "n \<le> 2 ^ 31" for n
      by (rule outcome_mono [OF read_buffer_any [OF w1 that]]) (use a1 True in \<open>auto dest: after_read_kept\<close>)
    then show ?thesis
      using True w1 by (auto split: sum.split dest: buffer_size_le
          buffer_size_error item_length_error intro!: fails_within_0)
  qed
qed

lemma set_event_simps [simp]:
  "ls_file_event (set_event ev src) = ev" "ls_input (set_event ev src) = ls_input src"
  "ls_chunks (set_event ev src) = ls_chunks src" "ls_events_left (set_event ev src) = ls_events_left src"
  "ls_buffer_header (set_event ev src) = ls_buffer_header src" "ls_swapping (set_event ev src) = ls_swapping src"
  by (simp_all add: set_event_def)

lemma remaining_simps [simp]:
  "remaining (set_event ev src) = remaining src"
  "remaining (src\<lparr>ls_chunks := cs\<rparr>) = remaining src"
  "remaining (src\<lparr>ls_events_left := n\<rparr>) = remaining src"
  "remaining (src\<lparr>ls_prev_record_release_to2 := i\<rparr>) = remaining src"
  "remaining (warning m src) = remaining src"
  by (simp_all add: remaining_def)

definition room :: "lmd_event \<Rightarrow> bool" where
  "room ev \<longleftrightarrow> 4 \<le> ev_chunk_alloc ev \<and> length (ev_chunks ev) + 2 \<le> ev_chunk_alloc ev"

lemma take_fragment_any:
  assumes "within S R (2 ^ 34) src" and "room (ls_file_event src)"
  shows "outcome (\<lambda>_ src1. within S R (2 ^ 34) src1 \<and> remaining src1 = remaining src \<and> room (ls_file_event src1) \<and>
             ev_header (ls_file_event src1) = ev_header (ls_file_event src) \<and> es \<le> tot \<and>
             length (concat (ev_chunks (ls_file_event src1))) = length (concat (ev_chunks (ls_file_event src))) + es)
           (fails S R) (take_fragment es tot src)"
proof (cases "tot < es")
  case True
  then show ?thesis
    using within_mono [OF assms(1)] by (simp add: take_fragment_def fails_def)
next
  case False
  have "two_chunks (ls_chunks src)" using assms(1) by (simp add: within_def)
  then have cp: "copy_range [] (ls_chunks src) = Inr (ls_chunks src, length (concat (ls_chunks src)))"
    by (rule two_chunks_cases) (simp_all add: copy_range_def)
  show ?thesis
    using False assms within_mono [OF assms(1), of "2 ^ 35"] cp
    by (auto simp: take_fragment_def reserve_chunks_def add_chunks_def room_def within_def fails_def Let_def
        set_event_def remaining_def)
qed

lemma next_fragment_any:
  assumes "within S R (2 ^ 34) src" and "remaining src < fuel"
  shows "outcome (\<lambda>_ src1. within S R 0 src1 \<and> remaining src1 < remaining src \<and>
             ls_file_event src1 = ls_file_event src) (fails S R) (next_fragment vt fuel src)"
  unfolding next_fragment_def
proof (rule outcome_andthen [OF read_record_any [OF assms]], goal_cases)
  case (1 ok src1)
  show ?case
  proof (cases ok)
    case False
    with 1 show ?thesis by (simp add: after_read_def fails_def)
  next
    case True
    with 1 have w: "within S R 0 src1" and ev: "ls_file_event src1 = ls_file_event src"
      by (simp_all add: after_read_def)
    have less: "remaining src1 < remaining src"
      using 1 True assms(1) by (auto simp: after_read_def within_def remaining_def)
    obtain g cs where g: "get_range (ls_chunks src1) 8 = (g, cs)" by fastforce
    have "two_chunks cs" using length_snd_get_range(1) [of "ls_chunks src1" 8] w g by (simp add: within_def)
    then have "within S R 0 (src1\<lparr>ls_chunks := cs\<rparr>)" using w by (simp add: within_chunks)
    then show ?thesis
      using True w ev less g by (auto simp: fails_within_0 Let_def split: option.split)
  qed
qed

lemma get_fragments_any:
  assumes "within S R (2 ^ 34) src" and "room (ls_file_event src)" and "remaining src < fuel"
    and "remaining src < n" and "length (concat (ev_chunks (ls_file_event src))) + tot = T"
  shows "outcome (\<lambda>es src1. within S R 0 src1 \<and> room (ls_file_event src1) \<and>
             ev_header (ls_file_event src1) = ev_header (ls_file_event src) \<and>
             length (concat (ev_chunks (ls_file_event src1))) + es \<le> T)
           (fails S R) (get_fragments vt fuel n es tot src)"
  using assms
proof (induction n arbitrary: es tot src)
  case 0
  then show ?case by simp
next
  case (Suc n)
  show ?case
    unfolding get_fragments.simps Let_def
  proof (rule outcome_andthen [OF take_fragment_any [OF Suc.prems(1,2)]], goal_cases)
    case (1 _ src1)
    note t = this
    have rem: "remaining src1 < fuel" using t Suc.prems(3) by simp
    show ?case
    proof (rule outcome_andthen [OF next_fragment_any [OF _ rem]], goal_cases)
      case 1
      from t show ?case by simp
    next
      case (2 fh src2)
      have "outcome (\<lambda>es src1. within S R 0 src1 \<and> room (ls_file_event src1) \<and>
             ev_header (ls_file_event src1) = ev_header (ls_file_event src2) \<and>
             length (concat (ev_chunks (ls_file_event src1))) + es \<le> T)
           (fails S R) (get_fragments vt fuel n es' (tot - es) src2)" for es'
        by (rule Suc.IH) (use 2 t Suc.prems in \<open>auto intro: within_0\<close>)
      then show ?case
        using 2 t Suc.prems(5) by (auto simp: fails_within_0)
    qed
  qed
qed

definition after_event :: "bytes \<Rightarrow> int \<Rightarrow> lmd_event option \<Rightarrow> 's lmd_source \<Rightarrow> bool" where
  "after_event S R r src \<longleftrightarrow>
     (case r of
        None \<Rightarrow> within S R (2 ^ 35) src
      | Some ev \<Rightarrow>
          within S R (2 ^ 34) src \<and> ls_file_event src = ev \<and>
          length (ev_chunks ev) \<le> ev_chunk_alloc ev \<and>
          length (concat (ev_chunks ev)) \<le> EVENT_DATA_LENGTH_FROM_DLEN (eh_dlen (ev_header ev)))"

lemma get_range_chunks_two:
  assumes "within S R k src" and "get_range_chunks (ls_chunks src) n = (g, cs)"
  shows "two_chunks cs" and "g = Some ds \<Longrightarrow> two_chunks ds \<and> length (concat ds) = n"
proof -
  have two: "two_chunks (ls_chunks src)" using assms(1) by (simp add: within_def)
  show "two_chunks cs" using length_snd_get_range(3) [OF two, of n] assms(2) by simp
  show "g = Some ds \<Longrightarrow> two_chunks ds \<and> length (concat ds) = n"
    using get_range_chunks_SomeD [OF two, of n ds cs] assms(2) by simp
qed

lemma get_whole_event_any:
  assumes "within S R (2 ^ 34) src"
    and "es = EVENT_DATA_LENGTH_FROM_DLEN (eh_dlen (ev_header (ls_file_event src)))"
  shows "outcome (after_event S R) (fails S R) (get_whole_event es src)"
proof -
  have pre: "two_chunks (ls_chunks src)" "4 \<le> ev_chunk_alloc (ls_file_event src)"
    using assms(1) by (simp_all add: within_def)
  obtain g cs where g: "get_range_chunks (ls_chunks src) es = (g, cs)" by fastforce
  note two = get_range_chunks_two [OF assms(1) g]
  have w: "within S R k src \<Longrightarrow> within S R k (src\<lparr>ls_chunks := cs\<rparr>)" for k using two(1) by (simp add: within_chunks)
  have w35: "within S R (2 ^ 35) src" using assms(1) by (rule within_mono) simp
  show ?thesis
    using g pre assms w w35 two(2)
    by (auto simp: get_whole_event_def fails_def after_event_def Let_def split: option.split
        intro!: within_set_event)
qed

lemma get_fragmented_event_any:
  assumes "within S R (2 ^ 34) src" and "remaining src < fuel"
    and "bh_begin (ls_buffer_header src) \<noteq> 0" and "ls_events_left src = 0"
  shows "outcome (after_event S R) (fails S R) (get_fragmented_event vt fuel es src)"
proof -
  let ?free1 = "bh_free1 (ls_buffer_header src)"
  let ?dest = "(ls_file_event src)\<lparr>ev_header := (ev_header (ls_file_event src))\<lparr>eh_dlen := ?free1\<rparr>, ev_chunks := []\<rparr>"
  have w: "within S R (2 ^ 34) (set_event ?dest src)" and room: "room ?dest"
    using assms(1) by (auto simp: within_def set_event_def room_def)
  show ?thesis
    unfolding get_fragmented_event_def Let_def
    using assms(3,4)
  proof (simp, intro outcome_andthen [OF get_fragments_any
          [OF w, where T = "EVENT_DATA_LENGTH_FROM_DLEN ?free1"]], goal_cases)
    case (5 es1 src1)
    then have src1: "within S R 0 (src1\<lparr>ls_events_left := n\<rparr>)" for n by simp
    obtain g cs where g: "get_range_chunks (ls_chunks src1) es1 = (g, cs)" by fastforce
    note two = get_range_chunks_two [OF src1, simplified, OF g]
    have w: "within S R k src1 \<Longrightarrow> within S R k (src1\<lparr>ls_events_left := n, ls_chunks := cs\<rparr>)" for k n
      using two(1) by (simp add: within_chunks)
    show ?case
      using g 5 w two(2)
      by (auto simp: add_chunks_def room_def after_event_def split: option.split
          intro!: within_set_event fails_within_0 intro: within_0)
  qed (use assms(2) room in simp_all)
qed

lemma take_event_any:
  assumes "within S R (2 ^ 34) src" and "remaining src < fuel"
  shows "outcome (after_event S R) (fails S R) (take_event vt fuel src)"
proof -
  obtain g cs where g: "get_range (ls_chunks src) 8 = (g, cs)" by fastforce
  have two: "two_chunks cs"
    using length_snd_get_range(1) [of "ls_chunks src" 8] assms(1) g by (simp add: within_def)
  have w: "within S R k (set_event ev (src\<lparr>ls_chunks := cs, ls_events_left := n\<rparr>))"
    if "within S R k src" "ev_chunk_alloc ev = ev_chunk_alloc (ls_file_event src)" for k ev n
    using that two by (auto simp: within_def set_event_def)
  have w35: "within S R (2 ^ 35) (src\<lparr>ls_chunks := cs\<rparr>)"
    using within_mono [OF assms(1)] two by (simp add: within_chunks)
  show ?thesis
    using g w35 assms
    by (auto simp: take_event_def Let_def fails_def word_gt_0 split: option.split
        intro!: get_whole_event_any get_fragmented_event_any w)
qed

lemma get_event_loop_any:
  assumes "within S R (2 ^ 34) src" and "remaining src < fuel" and "remaining src < n"
  shows "outcome (after_event S R) (fails S R) (get_event_loop vt fuel (Suc n) src)"
  using assms
proof (induction n arbitrary: src)
  case 0
  then show ?case by simp
next
  case (Suc n)
  show ?case
  proof (cases "ls_chunks src = []")
    case False
    with take_event_any [OF Suc.prems(1,2)] show ?thesis by simp
  next
    case True
    let ?src = "if ls_events_left src \<noteq> 0 then warning ''Too few events were found in record'' src else src"
    have w: "within S R (2 ^ 34) ?src" and rem: "remaining ?src < fuel" and same: "ls_input ?src = ls_input src"
      using Suc.prems by auto
    show ?thesis
      unfolding get_event_loop.simps(2) [of vt fuel "Suc n"] Let_def if_P [OF True]
    proof (rule outcome_andthen [OF read_record_any [OF w rem]], goal_cases)
      case (1 ok src1)
      show ?case
      proof (cases ok)
        case False
        with 1 show ?thesis by (simp add: after_read_def after_event_def fails_def)
      next
        case True
        have "within S R (2 ^ 34) src1" using 1 True by (auto simp: after_read_def intro: within_0)
        moreover have "remaining src1 < remaining src"
          using 1 True Suc.prems(1) by (simp add: after_read_def within_def remaining_def same)
        ultimately show ?thesis using Suc True by simp
      qed
    qed
  qed
qed

lemma get_event_any:
  assumes "within S R (2 ^ 34) src" and "remaining src + 1 < fuel"
  shows "outcome (after_event S R) (fails S R) (get_event vt fuel src)"
proof -
  obtain n where n: "fuel = Suc n" using assms(2) by (cases fuel) auto
  let ?src = "(set_event ((ls_file_event src)\<lparr>ev_status := 0, ev_subevents := None\<rparr>) src)
      \<lparr>ls_prev_record_release_to2 := ls_prev_record_release_to src\<rparr>"
  have "within S R (2 ^ 34) ?src" using assms(1) by (simp add: within_def set_event_def)
  then show ?thesis
    using get_event_loop_any [of S R ?src fuel n] assms(2) n by (simp add: get_event_def Let_def)
qed

end

section \<open>Properties\<close>

text \<open>
  A reader between two calls of \<^verbatim>\<open>get_event\<close>: the position is not before the memory given back
  and at most a bounded distance past the end of the input.
\<close>

definition reader_ready :: "pipe_buffer lmd_source \<Rightarrow> bool" where
  "reader_ready src \<longleftrightarrow>
     (let pb = ic_input (ls_input src); cur = ic_cur (ls_input src)
      in pipe_inv pb \<and> int (pb_done pb) \<le> cur \<and> cur \<le> int (length (pipe_stream pb)) + 2 ^ 34 \<and>
         two_chunks (ls_chunks src) \<and> filhe_wf (ls_file_header src) \<and>
         4 \<le> ev_chunk_alloc (ls_file_event src))"

lemma reader_ready_within:
  "reader_ready src \<longleftrightarrow>
   pipe.within (pipe_stream (ic_input (ls_input src))) (int (pb_done (ic_input (ls_input src)))) (2 ^ 34) src"
  by (simp add: reader_ready_def pipe.within_def Let_def)

text \<open>C35. Whatever the input holds, \<^verbatim>\<open>get_event\<close> ends after at most as many rounds as the input has
  bytes (and two more), and fails no assertion: it returns an event, reports the end of the
  input, or throws an error; the only undefined step is a file header larger than
  \<^verbatim>\<open>_file_header\<close>. An event's chunks fit the array allocated for them and hold no more bytes
  than the event's header says; the reader is ready for the next call, and neither the
  buffer's invariant nor the memory still in use is lost in any case.\<close>

theorem lmd_get_event_safe:
  assumes "reader_ready src" and "length (pipe_stream (ic_input (ls_input src))) + 2 \<le> fuel"
    and "get_event pipe_vt fuel src = (r, src')"
  shows "pipe_inv (ic_input (ls_input src')) \<and>
         pb_done (ic_input (ls_input src')) = pb_done (ic_input (ls_input src)) \<and>
         (case r of
            Inl e \<Rightarrow> (\<exists>m. e = Err m) \<or> e = Undef ''file header larger than _file_header''
          | Inr None \<Rightarrow> True
          | Inr (Some ev) \<Rightarrow>
              reader_ready src' \<and> ls_file_event src' = ev \<and> length (ev_chunks ev) \<le> ev_chunk_alloc ev \<and>
              length (concat (ev_chunks ev)) \<le> EVENT_DATA_LENGTH_FROM_DLEN (eh_dlen (ev_header ev)))"
proof -
  have "0 \<le> ic_cur (ls_input src)" using assms(1) by (auto simp: reader_ready_def Let_def)
  then have "pipe.remaining src + 1 < fuel" using assms(2) by (simp add: pipe.remaining_def)
  from pipe.get_event_any [OF assms(1) [unfolded reader_ready_within] this] show ?thesis
    unfolding assms(3) outcome_def
    by (auto simp: pipe.fails_def pipe.after_event_def pipe.within_def ok_error_def reader_ready_within
        split: sum.splits option.splits)
qed

definition lmd_source_new :: "'s \<Rightarrow> 's lmd_source" where
  "lmd_source_new s =
     (let h = bufhe_of_words (replicate 12 0);
          ev = \<lparr>ev_header = event_header_of_words [0, 0], ev_info = event_info_of_words [0, 0],
                ev_status = 0, ev_swapping = False, ev_subevents = None, ev_chunks = [],
                ev_chunk_alloc = 4, ev_chunk_cur = [], ev_offset_cur = 0, ev_warnings = []\<rparr>
      in new_file
           \<lparr>ls_input = \<lparr>ic_input = s, ic_cur = 0\<rparr>, ls_buffer_header = h, ls_swapping = False,
            ls_last_buffer_no = 0, ls_expect_file_header = True, ls_events_left = 0,
            ls_skip_record_try_again = False, ls_prev_record_release_to = 0,
            ls_prev_record_release_to2 = 0, ls_buffers_maybe_missing = False,
            ls_close_is_error = False, ls_file_header = filhe_of_mem (replicate 2716 0),
            ls_file_header_seen = False, ls_first_buf_status = 0, ls_chunks = [], ls_chunk_end = 0,
            ls_file_event = ev, ls_warnings = []\<rparr>)"

lemma lmd_source_new_ready:
  assumes "pipe_inv pb" and "pb_done pb = 0"
  shows "reader_ready (lmd_source_new pb)"
  using assms by (simp add: reader_ready_def lmd_source_new_def new_file_def Let_def filhe_wf_of_mem)

theorem lmd_get_event_safe_witness:
  "reader_ready (lmd_source_new (pipe_on 4 [1, 2, 3])) \<and>
   fst (get_event pipe_vt 5 (lmd_source_new (pipe_on 4 [1, 2, 3]))) \<noteq> Inl Fuel"
proof -
  let ?src = "lmd_source_new (pipe_on 4 [1, 2, 3])"
  have ready: "reader_ready ?src"
    by (rule lmd_source_new_ready [OF pipe_on_inv]) simp_all
  obtain r src' where res: "get_event pipe_vt 5 ?src = (r, src')" by fastforce
  have "length (pipe_stream (ic_input (ls_input ?src))) + 2 \<le> 5"
    by (simp add: lmd_source_new_def new_file_def Let_def)
  from lmd_get_event_safe [OF ready this res] have "r \<noteq> Inl Fuel" by auto
  then show ?thesis using ready res by simp
qed

end
