(* ===== verification/Lmd_Event.thy ===== *)
theory Lmd_Event
  imports Lmd_Input
begin

text \<open>
  The subevents of an LMD event, \<^verbatim>\<open>lmd_event\<close> of \<^verbatim>\<open>file_input/lmd_input.cc\<close>:
  \<^verbatim>\<open>get_10_1_info\<close> reads the second part of the event header, \<^verbatim>\<open>locate_subevents\<close> finds the
  headers and the data of all subevents in the chunks of the event, and
  \<^verbatim>\<open>get_subevent_data_src\<close> delivers the data of one of them in contiguous memory.

  The theory shows that, however the data of an event is cut into chunks, these operations
  implement a parser of the contiguous data.
\<close>

section \<open>Operations\<close>

definition ev_warning :: "string \<Rightarrow> lmd_event \<Rightarrow> lmd_event" where
  "ev_warning msg ev = ev\<lparr>ev_warnings := ev_warnings ev @ [msg]\<rparr>"

definition ev_set_status :: "u32 \<Rightarrow> lmd_event \<Rightarrow> lmd_event" where
  "ev_set_status f ev = ev\<lparr>ev_status := ev_status ev OR f\<rparr>"

definition ev_has_status :: "u32 \<Rightarrow> lmd_event \<Rightarrow> bool" where
  "ev_has_status f ev \<longleftrightarrow> ev_status ev AND f \<noteq> 0"

text \<open>Reading the event information from the start of the event's data.\<close>

definition read_info :: "lmd_event \<Rightarrow> (unit, lmd_event) result" where
  "read_info ev =
     (let (got, cur, offset) = get_range_many (ev_chunks ev) 0 sizeof_event_info;
          ev = ev\<lparr>ev_chunk_cur := cur, ev_offset_cur := offset\<rparr>
      in case got of
           None \<Rightarrow> (Inl (Err ''Event header (second part) not complete before end of event.''), ev)
         | Some b \<Rightarrow>
             (Inr (), ev_set_status LMD_EVENT_HAS_10_1_INFO
                        (ev\<lparr>ev_info := read_event_info (ev_swapping ev) b\<rparr>)))"

definition get_10_1_info :: "lmd_event \<Rightarrow> (unit, lmd_event) result" where
  "get_10_1_info ev =
     (if ev_has_status LMD_EVENT_GET_10_1_INFO_ATTEMPT ev then (Inr (), ev)
      else
        let ev = ev_set_status LMD_EVENT_GET_10_1_INFO_ATTEMPT ev in
        if is_event_10_1 (ev_header ev) then read_info ev
        else if is_event_sticky (ev_header ev) then
          let ev = (if ev_has_status LMD_EVENT_FIRST_BUFFER_HAS_STICKY ev then ev
                    else ev_warning ''Sticky event starts in buffer not marked to contain sticky events.'' ev)
          in read_info (ev_set_status LMD_EVENT_IS_STICKY ev)
        else (Inl (Err ''Event header type/subtype unsupported''), ev))"

definition subevent_data_length :: "bool \<Rightarrow> lmd_subevent_header \<Rightarrow> nat" where
  "subevent_data_length sticky h =
     (if sticky \<and> sh_dlen h = LMD_SUBEVENT_STICKY_DLEN_REVOKE then 0
      else SUBEVENT_DATA_LENGTH_FROM_DLEN (sh_dlen h))"

text \<open>
  The search for the chunk in which fragmented data ends: \<open>chunk_left\<close> bytes are in the first
  chunk. Returns the chunks from there on, the part of the data in it and its length.
\<close>

fun skip_chunks :: "buf_chunk list \<Rightarrow> nat \<Rightarrow> nat \<Rightarrow> (buf_chunk list \<times> nat \<times> nat) option" where
  "skip_chunks (c # d # cs) data_length chunk_left =
     (let data_length = data_length - chunk_left in
      if data_length \<le> length d then Some (d # cs, data_length, length d)
      else skip_chunks (d # cs) data_length (length d))"
| "skip_chunks _ data_length chunk_left = None"

text \<open>One subevent, and the position after it.\<close>

definition locate_subevent ::
  "bool \<Rightarrow> bool \<Rightarrow> buf_chunk list \<Rightarrow> nat \<Rightarrow> cxx_error + lmd_subevent \<times> buf_chunk list \<times> nat" where
  "locate_subevent sticky swapping chunk_cur offset_cur =
     (let (got, chunk_cur, offset_cur) = get_range_many chunk_cur offset_cur sizeof_subevent_header in
      case got of
        None \<Rightarrow> Inl (Err ''Subevent header not complete before end of event.'')
      | Some b \<Rightarrow>
          let header = read_subevent_header swapping b;
              data_length = subevent_data_length sticky header;
              chunk_left = (case chunk_cur of [] \<Rightarrow> 0 | c # _ \<Rightarrow> length c - offset_cur)
          in if data_length \<le> chunk_left then
               let data = (case chunk_cur of [] \<Rightarrow> [] | c # _ \<Rightarrow> slice offset_cur data_length c);
                   sub = \<lparr>se_header = header, se_data = Some data, se_frag = [], se_offset = 0\<rparr>;
                   offset_cur = offset_cur + data_length
               in if chunk_left = data_length then Inr (sub, tl chunk_cur, 0)
                  else Inr (sub, chunk_cur, offset_cur)
             else
               let sub = \<lparr>se_header = header, se_data = None, se_frag = chunk_cur, se_offset = offset_cur\<rparr>
               in case skip_chunks chunk_cur data_length chunk_left of
                    None \<Rightarrow> Inl (Err ''Subevent not complete before end of event'')
                  | Some (chunk_cur, data_length, chunk_left) \<Rightarrow>
                      if chunk_left = data_length then Inr (sub, tl chunk_cur, 0)
                      else Inr (sub, chunk_cur, data_length))"

record lmd_event_hint =
  hi_max_subevents :: nat
  hi_hist_req_realloc :: u32

definition lmd_event_hint_new :: lmd_event_hint where
  "lmd_event_hint_new = \<lparr>hi_max_subevents = 1, hi_hist_req_realloc = 0\<rparr>"

text \<open>Space for one more subevent.\<close>

definition reserve_subevent :: "nat \<Rightarrow> lmd_event_hint \<Rightarrow> lmd_event_hint" where
  "reserve_subevent nsubevents hints =
     (if nsubevents \<ge> hi_max_subevents hints
      then hints\<lparr>hi_max_subevents := hi_max_subevents hints * 2,
                 hi_hist_req_realloc := hi_hist_req_realloc hints OR 1\<rparr>
      else hints)"

lemma skip_chunks_left:
  "skip_chunks cs n l = Some (cs', m, l') \<Longrightarrow>
   cs' \<noteq> [] \<and> left_in cs' 0 \<le> left_in cs k \<and> m \<le> l' \<and> l' = length (hd cs')"
proof (induction cs n l arbitrary: k rule: skip_chunks.induct)
  case (1 c d cs n l)
  then show ?case
    using "1.IH" [OF refl, of 0] by (auto simp: Let_def left_in_def split: if_splits)
qed auto

lemma locate_subevent_left:
  assumes "locate_subevent sticky swapping cs off = Inr (sub, cs', off')"
  shows "left_in cs' off' < left_in cs off"
proof -
  obtain g cs1 off1 where g: "get_range_many cs off 12 = (g, cs1, off1)" by (metis prod_cases3)
  then obtain b where b: "g = Some b" using assms by (cases g) (auto simp: locate_subevent_def)
  have "left_in cs1 off1 + 12 \<le> left_in cs off" using get_range_many_left [of cs off 12] g b by simp
  moreover have "left_in cs' off' \<le> left_in cs1 off1"
    using assms g b left_in_tl [of cs1 off1] left_in_offset [of off1 "off1 + m" cs1 for m]
    by (auto simp: locate_subevent_def Let_def split: if_splits option.splits prod.splits
        dest!: skip_chunks_left [of _ _ _ _ _ _ off1] intro: order_trans [OF left_in_tl] order_trans [OF left_in_offset])
  ultimately show ?thesis by linarith
qed

function locate_loop :: "lmd_event_hint \<Rightarrow> lmd_event \<Rightarrow> (unit, lmd_event \<times> lmd_event_hint) result" where
  "locate_loop hints ev =
     (if ev_chunk_cur ev = [] then (Inr (), ev, hints)
      else
        let subevents = (case ev_subevents ev of None \<Rightarrow> [] | Some ss \<Rightarrow> ss);
            hints = reserve_subevent (length subevents) hints
        in if \<not> length subevents < hi_max_subevents hints
           then (Inl (Undef ''subevent outside the allocated array''), ev, hints)
           else case locate_subevent (ev_has_status LMD_EVENT_IS_STICKY ev) (ev_swapping ev)
                       (ev_chunk_cur ev) (ev_offset_cur ev) of
               Inl e \<Rightarrow> (Inl e, ev, hints)
             | Inr (sub, chunk_cur, offset_cur) \<Rightarrow>
                 locate_loop hints
                   (ev\<lparr>ev_subevents := Some (subevents @ [sub]), ev_chunk_cur := chunk_cur,
                       ev_offset_cur := offset_cur\<rparr>))"
  by pat_completeness auto

termination locate_loop
  by (relation "measure (\<lambda>(_, ev). left_in (ev_chunk_cur ev) (ev_offset_cur ev))")
    (auto intro: locate_subevent_left)

declare locate_loop.simps [simp del]

definition locate_subevents :: "lmd_event_hint \<Rightarrow> lmd_event \<Rightarrow> (unit, lmd_event \<times> lmd_event_hint) result" where
  "locate_subevents hints ev =
     (if ev_has_status LMD_EVENT_LOCATE_SUBEVENTS_ATTEMPT ev then (Inr (), ev, hints)
      else
        let ev = ev_set_status LMD_EVENT_LOCATE_SUBEVENTS_ATTEMPT ev in
        if ev_subevents ev \<noteq> None then (Inl (Assert ''!_subevents''), ev, hints)
        else locate_loop hints (ev\<lparr>ev_subevents := Some []\<rparr>))"

definition is_subevent_sticky_revoke :: "lmd_event \<Rightarrow> lmd_subevent \<Rightarrow> bool" where
  "is_subevent_sticky_revoke ev sub \<longleftrightarrow>
     ev_has_status LMD_EVENT_IS_STICKY ev \<and> sh_dlen (se_header sub) = LMD_SUBEVENT_STICKY_DLEN_REVOKE"

text \<open>Copying \<open>n\<close> bytes from the fragments after the first; memory after the last is not ours.\<close>

fun copy_frags :: "buf_chunk list \<Rightarrow> nat \<Rightarrow> bytes option" where
  "copy_frags [] n = None"
| "copy_frags (c # cs) n =
     (if length c < n then map_option (\<lambda>d. c @ d) (copy_frags cs (n - length c)) else Some (take n c))"

definition get_subevent_data_src ::
  "lmd_event \<Rightarrow> lmd_subevent \<Rightarrow> (bytes option, lmd_subevent) result" where
  "get_subevent_data_src ev sub =
     (if is_subevent_sticky_revoke ev sub then (Inr None, sub)
      else
        let data_length = SUBEVENT_DATA_LENGTH_FROM_DLEN_32 (sh_dlen (se_header sub)) in
        case se_data sub of
          Some data \<Rightarrow>
            if data_length \<le> length data then (Inr (Some (take data_length data)), sub)
            else (Inl (Undef ''data after the end of the subevent''), sub)
        | None \<Rightarrow>
            (case se_frag sub of
               [] \<Rightarrow> (Inl (Undef ''no fragment''), sub)
             | frag # frags \<Rightarrow>
                 let size0 = length frag - se_offset sub in
                 if se_offset sub > length frag \<or> size0 > data_length then
                   (Inl (Undef ''copy outside the defragment buffer''), sub)
                 else case copy_frags frags (data_length - size0) of
                     None \<Rightarrow> (Inl (Undef ''fragment after the last''), sub)
                   | Some d \<Rightarrow>
                       let data = drop (se_offset sub) frag @ d
                       in (Inr (Some data), sub\<lparr>se_data := Some data\<rparr>)))"

section \<open>The parser of contiguous data\<close>

text \<open>What the operations promise: the subevents of the event's data, or that it is not complete.\<close>

function parse_subevents :: "bool \<Rightarrow> bool \<Rightarrow> bytes \<Rightarrow> (lmd_subevent_header \<times> bytes) list option" where
  "parse_subevents sticky swapping bs =
     (if bs = [] then Some []
      else if length bs < sizeof_subevent_header then None
      else
        let h = read_subevent_header swapping (take sizeof_subevent_header bs);
            n = subevent_data_length sticky h
        in if length bs < sizeof_subevent_header + n then None
           else map_option (\<lambda>r. (h, slice sizeof_subevent_header n bs) # r)
                  (parse_subevents sticky swapping (drop (sizeof_subevent_header + n) bs)))"
  by pat_completeness auto

termination parse_subevents
  by (relation "measure (\<lambda>(_, _, bs). length bs)") auto

declare parse_subevents.simps [simp del]

lemma copy_frags_eq: "0 < k \<Longrightarrow> k \<le> length (concat ds) \<Longrightarrow> copy_frags ds k = Some (take k (concat ds))"
  by (induction ds k rule: copy_frags.induct) auto

lemma skip_chunks_None:
  "l < n \<Longrightarrow> length (concat ds) < n - l \<Longrightarrow> skip_chunks (c # ds) n l = None"
proof (induction ds arbitrary: c n l)
  case (Cons d ds)
  then show ?case by (auto simp: Let_def)
qed simp

lemma skip_chunks_Some:
  "l < n \<Longrightarrow> n - l \<le> length (concat ds) \<Longrightarrow>
   \<exists>cs' m. skip_chunks (c # ds) n l = Some (cs', m, length (hd cs')) \<and> cs' \<noteq> [] \<and> set cs' \<subseteq> set ds \<and>
     m \<le> length (hd cs') \<and> drop m (concat cs') = drop (n - l) (concat ds)"
proof (induction ds arbitrary: c n l)
  case (Cons d ds)
  show ?case
  proof (cases "n - l \<le> length d")
    case True
    with Cons.prems show ?thesis by (intro exI [of _ "d # ds"] exI [of _ "n - l"]) auto
  next
    case False
    with Cons.prems have "length d < n - l" "n - l - length d \<le> length (concat ds)" by auto
    from Cons.IH [OF this, of d] False show ?thesis by (auto simp: Let_def)
  qed
qed simp

text \<open>The data that was remembered for a subevent, independent of where it is.\<close>

definition subevent_holds :: "lmd_subevent \<Rightarrow> nat \<Rightarrow> bytes \<Rightarrow> bool" where
  "subevent_holds sub n d \<longleftrightarrow>
     length d = n \<and>
     (case se_data sub of
        Some data \<Rightarrow> data = d
      | None \<Rightarrow>
          (case se_frag sub of
             [] \<Rightarrow> False
           | c # cs \<Rightarrow>
               se_offset sub \<le> length c \<and> length c - se_offset sub < n \<and>
               copy_frags cs (n - (length c - se_offset sub)) = Some (drop (length c - se_offset sub) d) \<and>
               drop (se_offset sub) c = take (length c - se_offset sub) d))"

lemma skip_chunks_position:
  assumes p: "position (c # ds) off bs" and l: "length c - off < n" and n: "n \<le> length bs"
  shows "\<exists>cs' m. skip_chunks (c # ds) n (length c - off) = Some (cs', m, length (hd cs')) \<and>
           (if length (hd cs') = m then position (tl cs') 0 (drop n bs) else position cs' m (drop n bs))"
proof -
  have c: "off < length c" "bs = drop off c @ concat ds" "[] \<notin> set ds"
    using p by (auto simp: position_def)
  then have le: "n - (length c - off) \<le> length (concat ds)" using n by simp
  from skip_chunks_Some [OF l le, of c] obtain cs' m where
    sk: "skip_chunks (c # ds) n (length c - off) = Some (cs', m, length (hd cs'))" "cs' \<noteq> []"
      "set cs' \<subseteq> set ds" "m \<le> length (hd cs')" "drop m (concat cs') = drop (n - (length c - off)) (concat ds)"
    by blast
  have rest: "drop n bs = drop m (concat cs')" using sk(5) c l by simp
  have "position (tl cs') 0 (drop n bs)" if "length (hd cs') = m"
    unfolding rest using that sk(2,3) c(3) by (cases cs'; cases "tl cs'") (auto simp: position_def)
  moreover have "position cs' m (drop n bs)" if "length (hd cs') \<noteq> m"
    unfolding rest using that sk(2-4) c(3) by (cases cs') (auto simp: position_def)
  ultimately show ?thesis using sk(1) by auto
qed

lemma frag_holds:
  assumes "position (c # ds) off bs" and "length c - off < n" and "n \<le> length bs"
  shows "subevent_holds \<lparr>se_header = h, se_data = None, se_frag = c # ds, se_offset = off\<rparr> n (take n bs)"
  using assms by (auto simp: position_def subevent_holds_def copy_frags_eq)

lemma position_advance:
  assumes "position cs off bs" and "n \<le> (case cs of [] \<Rightarrow> 0 | c # _ \<Rightarrow> length c - off)"
  shows "if (case cs of [] \<Rightarrow> 0 | c # _ \<Rightarrow> length c - off) = n then position (tl cs) 0 (drop n bs)
         else position cs (off + n) (drop n bs)"
    and "(case cs of [] \<Rightarrow> [] | c # _ \<Rightarrow> slice off n c) = take n bs" and "n \<le> length bs"
  using assms by (cases cs; cases "tl cs"; auto simp: position_def slice_def add.commute)+

lemma locate_subevent_spec:
  assumes "position cs off bs" and "12 \<le> length bs"
    and h: "h = read_subevent_header swapping (take 12 bs)" and n: "n = subevent_data_length sticky h"
  shows "if 12 + n \<le> length bs
         then \<exists>sub cs' off'. locate_subevent sticky swapping cs off = Inr (sub, cs', off') \<and> se_header sub = h \<and>
                position cs' off' (drop (12 + n) bs) \<and> subevent_holds sub n (slice 12 n bs)
         else \<exists>m. locate_subevent sticky swapping cs off = Inl (Err m)"
proof -
  obtain b cs1 off1 where g: "get_range_many cs off 12 = (Some b, cs1, off1)"
    using position_read_None [OF assms(1), of 12] assms(2) by (cases "get_range_many cs off 12") auto
  have b: "b = take 12 bs" and p: "position cs1 off1 (drop 12 bs)"
    using position_read [OF assms(1) _ g] by simp_all
  define bs1 where "bs1 = drop 12 bs"
  note p = p [folded bs1_def]
  have sl: "slice 12 n bs = take n bs1" and dr: "drop (12 + n) bs = drop n bs1"
    and le: "12 + n \<le> length bs \<longleftrightarrow> n \<le> length bs1"
    using assms(2) by (auto simp: bs1_def slice_def add.commute)
  define l where "l = (case cs1 of [] \<Rightarrow> 0 | c # _ \<Rightarrow> length c - off1)"
  note loc = locate_subevent_def [of sticky swapping cs off, unfolded g Let_def prod.case option.case b,
      folded h n l_def]
  consider "n \<le> l" | "cs1 = []" "l < n" | c ds where "cs1 = c # ds" "l < n" by (cases cs1) fastforce+
  then show ?thesis
  proof cases
    case 1
    note adv = position_advance [OF p 1 [unfolded l_def], folded l_def]
    show ?thesis
      unfolding loc sl dr le using 1 adv by (auto simp: subevent_holds_def)
  next
    case 2
    then show ?thesis
      unfolding loc le using p by (auto simp: position_def)
  next
    case (3 c ds)
    note p = p [unfolded 3(1)]
    have l: "l = length c - off1" using 3(1) by (simp add: l_def)
    show ?thesis
    proof (cases "n \<le> length bs1")
      case False
      have "skip_chunks cs1 n l = None"
        unfolding 3(1) by (rule skip_chunks_None) (use False 3 l p in \<open>auto simp: position_def\<close>)
      then show ?thesis unfolding loc le using 3 False by simp
    next
      case True
      from skip_chunks_position [OF p 3(2) [unfolded l] True] frag_holds [OF p 3(2) [unfolded l] True, of h]
      show ?thesis
        unfolding loc sl dr le using 3 True l by auto
    qed
  qed
qed

text \<open>The loop over all subevents.\<close>

definition holds_all :: "bool \<Rightarrow> lmd_subevent list \<Rightarrow> (lmd_subevent_header \<times> bytes) list \<Rightarrow> bool" where
  "holds_all sticky subs ps \<longleftrightarrow>
     list_all2 (\<lambda>sub (h, d). se_header sub = h \<and> subevent_holds sub (subevent_data_length sticky h) d) subs ps"

lemma locate_loop_spec:
  assumes "position (ev_chunk_cur ev) (ev_offset_cur ev) bs" and "ev_subevents ev = Some subs"
    and "sticky = ev_has_status LMD_EVENT_IS_STICKY ev" and "0 < hi_max_subevents hints"
    and "length subs \<le> hi_max_subevents hints"
  shows "\<exists>r ev' hints'. locate_loop hints ev = (r, ev', hints') \<and> ev_status ev' = ev_status ev \<and>
           (case parse_subevents sticky (ev_swapping ev) bs of
              None \<Rightarrow> \<exists>m. r = Inl (Err m)
            | Some ps \<Rightarrow> r = Inr () \<and> (\<exists>subs'. ev_subevents ev' = Some (subs @ subs') \<and> holds_all sticky subs' ps))"
  using assms
proof (induction "length bs" arbitrary: ev bs subs hints rule: less_induct)
  case less
  note pos = less.prems(1) and subs = less.prems(2) and sticky = less.prems(3)
  let ?hints = "reserve_subevent (length subs) hints"
  have room: "length subs < hi_max_subevents ?hints"
    using less.prems(4,5) by (auto simp: reserve_subevent_def)
  show ?case
  proof (cases "bs = []")
    case True
    then have "ev_chunk_cur ev = []" using position_Nil [OF pos] by simp
    then show ?thesis
      using True subs by (simp add: locate_loop.simps [of hints ev] parse_subevents.simps holds_all_def)
  next
    case False
    then have ne: "ev_chunk_cur ev \<noteq> []" using position_Nil [OF pos] by simp
    note loop = locate_loop.simps [of hints ev, folded sticky, unfolded Let_def subs option.case]
    note parse = parse_subevents.simps [of sticky "ev_swapping ev" bs]
    show ?thesis
    proof (cases "length bs < 12")
      case True
      have "fst (get_range_many (ev_chunk_cur ev) (ev_offset_cur ev) 12) = None"
        using position_read_None [OF pos] True by simp
      then have "\<exists>m. locate_subevent sticky (ev_swapping ev) (ev_chunk_cur ev) (ev_offset_cur ev) = Inl (Err m)"
        by (auto simp: locate_subevent_def split: prod.splits)
      then show ?thesis unfolding loop parse using False True ne room by auto
    next
      case enough: False
      define h where "h = read_subevent_header (ev_swapping ev) (take 12 bs)"
      define n where "n = subevent_data_length sticky h"
      note spec = locate_subevent_spec [OF pos _ h_def n_def]
      show ?thesis
      proof (cases "12 + n \<le> length bs")
        case no: False
        with spec enough obtain m where
          "locate_subevent sticky (ev_swapping ev) (ev_chunk_cur ev) (ev_offset_cur ev) = Inl (Err m)" by auto
        then show ?thesis
          unfolding loop parse using False enough no ne room by (simp add: Let_def h_def n_def)
      next
        case True
        with spec enough obtain sub cs' off' where
          loc: "locate_subevent sticky (ev_swapping ev) (ev_chunk_cur ev) (ev_offset_cur ev) = Inr (sub, cs', off')"
            "se_header sub = h" "position cs' off' (drop (12 + n) bs)" "subevent_holds sub n (slice 12 n bs)"
          by auto
        let ?ev = "ev\<lparr>ev_subevents := Some (subs @ [sub]), ev_chunk_cur := cs', ev_offset_cur := off'\<rparr>"
        have "length (drop (12 + n) bs) < length bs" using False by simp
        from less.hyps [OF this, of ?ev "subs @ [sub]" ?hints] loc(3) room sticky
        obtain r ev' hints' where ih: "locate_loop ?hints ?ev = (r, ev', hints')" "ev_status ev' = ev_status ev"
          "case parse_subevents sticky (ev_swapping ev) (drop (12 + n) bs) of
             None \<Rightarrow> \<exists>m. r = Inl (Err m)
           | Some ps \<Rightarrow> r = Inr () \<and>
               (\<exists>subs'. ev_subevents ev' = Some ((subs @ [sub]) @ subs') \<and> holds_all sticky subs' ps)"
          by (auto simp: ev_has_status_def)
        have "holds_all sticky (sub # ss) ((h, slice 12 n bs) # ps) \<longleftrightarrow> holds_all sticky ss ps" for ss ps
          using loc(2,4) by (simp add: holds_all_def n_def)
        then show ?thesis
          unfolding loop parse Let_def using False enough True ne room loc(1) ih
          by (fastforce simp flip: h_def n_def split: option.splits)
      qed
    qed
  qed
qed

section \<open>The data of a located subevent\<close>

lemma data_length_32:
  assumes "SUBEVENT_DATA_LENGTH_FROM_DLEN d < 2 ^ 32"
  shows "SUBEVENT_DATA_LENGTH_FROM_DLEN_32 d = SUBEVENT_DATA_LENGTH_FROM_DLEN d"
proof (cases "unat d < 2")
  case True
  then have "unat d = 0 \<or> unat d = 1" by linarith
  then show ?thesis
    using assms by (auto simp: SUBEVENT_DATA_LENGTH_FROM_DLEN_def sub64_gr wrap64_def)
next
  case False
  have bound: "unat d < 2 ^ 32" by (rule unat_u32)
  have l64: "SUBEVENT_DATA_LENGTH_FROM_DLEN d = (unat d - 2) * 2"
    using False bound by (simp add: SUBEVENT_DATA_LENGTH_FROM_DLEN_def sub64_le)
  have "unat (d - 2) = unat d - 2" using False by (subst unat_sub) (auto simp: word_le_nat_alt)
  moreover have "unat ((d - 2) * 2) = unat (d - 2) * unat (2 :: u32) mod 2 ^ LENGTH(32)"
    by (rule unat_word_ariths(2))
  ultimately have "unat ((d - 2) * 2) = (unat d - 2) * 2" using assms l64 by simp
  then show ?thesis using l64 by (simp add: SUBEVENT_DATA_LENGTH_FROM_DLEN_32_def)
qed

lemma get_subevent_data_src_holds:
  assumes "subevent_holds sub (subevent_data_length sticky (se_header sub)) d" and "length d < 2 ^ 32"
    and "sticky = ev_has_status LMD_EVENT_IS_STICKY ev"
  shows "fst (get_subevent_data_src ev sub) = Inr (if is_subevent_sticky_revoke ev sub then None else Some d)"
proof (cases "is_subevent_sticky_revoke ev sub")
  case True
  then show ?thesis by (simp add: get_subevent_data_src_def)
next
  case False
  then have n: "subevent_data_length sticky (se_header sub) = SUBEVENT_DATA_LENGTH_FROM_DLEN (sh_dlen (se_header sub))"
    using assms(3) by (auto simp: subevent_data_length_def is_subevent_sticky_revoke_def)
  have len: "length d = SUBEVENT_DATA_LENGTH_FROM_DLEN (sh_dlen (se_header sub))"
    using assms(1) n by (simp add: subevent_holds_def)
  have n32: "SUBEVENT_DATA_LENGTH_FROM_DLEN_32 (sh_dlen (se_header sub)) = length d"
    using data_length_32 [of "sh_dlen (se_header sub)"] assms(2) len by simp
  show ?thesis
    using assms(1) False n len [symmetric]
    by (auto simp: get_subevent_data_src_def n32 subevent_holds_def Let_def split: option.splits list.splits)
qed

lemma parse_subevents_length:
  "parse_subevents sticky swapping bs = Some ps \<Longrightarrow> (h, d) \<in> set ps \<Longrightarrow> length d \<le> length bs"
proof (induction sticky swapping bs arbitrary: ps rule: parse_subevents.induct)
  case (1 sticky swapping bs)
  from "1.prems" show ?case
    by (subst (asm) parse_subevents.simps)
      (fastforce simp: Let_def split: if_splits dest: "1.IH" [OF _ _ refl refl])
qed

section \<open>Encoding\<close>

definition encode_subevent :: "bool \<Rightarrow> lmd_subevent_header \<times> bytes \<Rightarrow> bytes" where
  "encode_subevent swapping = (\<lambda>(h, d).
     (if swapping then swap32 else id) (mem (words_of_subevent_header h)) @ d)"

lemma parse_encode:
  assumes "\<forall>(h, d) \<in> set ps. length d = subevent_data_length sticky h"
  shows "parse_subevents sticky swapping (concat (map (encode_subevent swapping) ps)) = Some ps"
  using assms
proof (induction ps)
  case Nil
  then show ?case by (simp add: parse_subevents.simps)
next
  case (Cons p ps)
  obtain h d where p: "p = (h, d)" by fastforce
  let ?m = "(if swapping then swap32 else id) (mem (words_of_subevent_header h))"
  have len: "length ?m = 12" by simp
  have h: "read_subevent_header swapping ?m = h" by (simp add: read_subevent_header_def)
  show ?case
    using Cons len h p
    by (subst parse_subevents.simps) (auto simp: encode_subevent_def slice_def Let_def)
qed

section \<open>Properties\<close>

lemma and_or_flags: "(s OR f) AND g = (s AND g) OR (f AND g)" for s f g :: u32
  by (rule bit_word_eqI) (auto simp: bit_simps)

lemma has_status_set [simp]:
  "f AND g = 0 \<Longrightarrow> ev_has_status g (ev_set_status f ev) = ev_has_status g ev"
  "g \<noteq> 0 \<Longrightarrow> ev_has_status g (ev_set_status g ev)"
  by (simp_all add: ev_has_status_def ev_set_status_def and_or_flags)

lemma status_fields [simp]:
  "ev_has_status f (ev\<lparr>ev_info := i\<rparr>) = ev_has_status f ev"
  "ev_has_status f (ev\<lparr>ev_chunk_cur := cs\<rparr>) = ev_has_status f ev"
  "ev_has_status f (ev\<lparr>ev_offset_cur := n\<rparr>) = ev_has_status f ev"
  "ev_has_status f (ev\<lparr>ev_subevents := ss\<rparr>) = ev_has_status f ev"
  "ev_has_status f (ev_warning m ev) = ev_has_status f ev"
  by (simp_all add: ev_has_status_def ev_warning_def)

lemma ev_fields [simp]:
  "ev_chunks (ev_set_status f ev) = ev_chunks ev" "ev_header (ev_set_status f ev) = ev_header ev"
  "ev_swapping (ev_set_status f ev) = ev_swapping ev" "ev_subevents (ev_set_status f ev) = ev_subevents ev"
  "ev_info (ev_set_status f ev) = ev_info ev" "ev_chunk_cur (ev_set_status f ev) = ev_chunk_cur ev"
  "ev_offset_cur (ev_set_status f ev) = ev_offset_cur ev"
  "ev_chunks (ev_warning m ev) = ev_chunks ev" "ev_header (ev_warning m ev) = ev_header ev"
  "ev_swapping (ev_warning m ev) = ev_swapping ev" "ev_subevents (ev_warning m ev) = ev_subevents ev"
  by (simp_all add: ev_set_status_def ev_warning_def)

lemma read_info_spec:
  assumes "[] \<notin> set (ev_chunks ev)" and "8 \<le> length (concat (ev_chunks ev))"
  shows "\<exists>ev'. read_info ev = (Inr (), ev') \<and>
           ev_info ev' = read_event_info (ev_swapping ev) (take 8 (concat (ev_chunks ev))) \<and>
           position (ev_chunk_cur ev') (ev_offset_cur ev') (drop 8 (concat (ev_chunks ev))) \<and>
           ev_swapping ev' = ev_swapping ev \<and> ev_subevents ev' = ev_subevents ev \<and>
           ev_has_status 4 ev' = ev_has_status 4 ev \<and> ev_has_status 8 ev' = ev_has_status 8 ev"
proof -
  have pos: "position (ev_chunks ev) 0 (concat (ev_chunks ev))"
    using assms by (cases "ev_chunks ev") (auto simp: position_def)
  obtain b cs off where g: "get_range_many (ev_chunks ev) 0 8 = (Some b, cs, off)"
    using position_read_None [OF pos, of 8] assms(2) by (cases "get_range_many (ev_chunks ev) 0 8") auto
  from position_read [OF pos _ g] show ?thesis
    by (simp add: read_info_def g)
qed

text \<open>An event as \<^verbatim>\<open>get_event\<close> delivers it: nothing has been looked for yet.\<close>

definition fresh_event :: "lmd_event \<Rightarrow> bool" where
  "fresh_event ev \<longleftrightarrow>
     ev_status ev \<in> {0, LMD_EVENT_FIRST_BUFFER_HAS_STICKY} \<and> ev_subevents ev = None \<and>
     (is_event_10_1 (ev_header ev) \<or> is_event_sticky (ev_header ev)) \<and> [] \<notin> set (ev_chunks ev) \<and>
     8 \<le> length (concat (ev_chunks ev)) \<and> length (concat (ev_chunks ev)) < 2 ^ 32"

lemma get_10_1_info_spec:
  assumes "fresh_event ev"
  shows "\<exists>ev'. get_10_1_info ev = (Inr (), ev') \<and>
           ev_info ev' = read_event_info (ev_swapping ev) (take 8 (concat (ev_chunks ev))) \<and>
           position (ev_chunk_cur ev') (ev_offset_cur ev') (drop 8 (concat (ev_chunks ev))) \<and>
           ev_swapping ev' = ev_swapping ev \<and> ev_subevents ev' = None \<and>
           ev_has_status 4 ev' = is_event_sticky (ev_header ev) \<and> \<not> ev_has_status 8 ev'"
proof -
  have st: "\<not> ev_has_status 1 ev" "\<not> ev_has_status 4 ev" "\<not> ev_has_status 8 ev"
    using assms by (auto simp: fresh_event_def ev_has_status_def)
  have excl: "is_event_10_1 h \<Longrightarrow> \<not> is_event_sticky h" for h
    by (simp add: is_event_10_1_def is_event_sticky_def)
  have info: "\<exists>ev'. read_info ev0 = (Inr (), ev') \<and>
      ev_info ev' = read_event_info (ev_swapping ev) (take 8 (concat (ev_chunks ev))) \<and>
      position (ev_chunk_cur ev') (ev_offset_cur ev') (drop 8 (concat (ev_chunks ev))) \<and>
      ev_swapping ev' = ev_swapping ev \<and> ev_subevents ev' = None \<and>
      ev_has_status 4 ev' = ev_has_status 4 ev0 \<and> ev_has_status 8 ev' = ev_has_status 8 ev0"
    if "ev_chunks ev0 = ev_chunks ev" "ev_swapping ev0 = ev_swapping ev" "ev_subevents ev0 = None" for ev0
    using read_info_spec [of ev0] that assms by (simp add: fresh_event_def)
  have none: "ev_subevents ev = None" using assms by (simp add: fresh_event_def)
  consider "is_event_10_1 (ev_header ev)" | "is_event_sticky (ev_header ev)" "\<not> is_event_10_1 (ev_header ev)"
    using assms by (auto simp: fresh_event_def)
  then show ?thesis
  proof cases
    case 1
    then show ?thesis
      using info [of "ev_set_status 1 ev"] st excl none by (simp add: get_10_1_info_def)
  next
    case 2
    then show ?thesis
      using info [of "ev_set_status 4 (ev_set_status 1 ev)"]
        info [of "ev_set_status 4 (ev_warning m (ev_set_status 1 ev))" for m] st none
      by (simp add: get_10_1_info_def Let_def)
  qed
qed

lemma locate_subevents_spec:
  assumes "position (ev_chunk_cur ev) (ev_offset_cur ev) bs" and "ev_subevents ev = None"
    and "\<not> ev_has_status 8 ev" and "0 < hi_max_subevents hints" and "length bs < 2 ^ 32"
  shows "\<exists>r ev' hints'. locate_subevents hints ev = (r, ev', hints') \<and>
           (case parse_subevents (ev_has_status 4 ev) (ev_swapping ev) bs of
              None \<Rightarrow> \<exists>m. r = Inl (Err m)
            | Some ps \<Rightarrow> r = Inr () \<and> (\<exists>subs. ev_subevents ev' = Some subs \<and>
                map (\<lambda>s. (se_header s, fst (get_subevent_data_src ev' s))) subs =
                map (\<lambda>(h, d). (h, Inr (if ev_has_status 4 ev \<and> sh_dlen h = LMD_SUBEVENT_STICKY_DLEN_REVOKE
                                     then None else Some d))) ps))"
proof -
  let ?ev = "(ev_set_status 8 ev)\<lparr>ev_subevents := Some []\<rparr>"
  from locate_loop_spec [of ?ev bs "[]" "ev_has_status 4 ev" hints, unfolded append_Nil] assms
  obtain r ev' hints' where res: "locate_loop hints ?ev = (r, ev', hints')" "ev_status ev' = ev_status ?ev"
    "case parse_subevents (ev_has_status 4 ev) (ev_swapping ev) bs of
       None \<Rightarrow> \<exists>m. r = Inl (Err m)
     | Some ps \<Rightarrow> r = Inr () \<and> (\<exists>subs'. ev_subevents ev' = Some subs' \<and> holds_all (ev_has_status 4 ev) subs' ps)"
    by auto
  have st: "ev_has_status 4 ev' = ev_has_status 4 ev"
    using res(2) has_status_set(1) [of 8 4 ev] by (simp add: ev_has_status_def)
  have data: "map (\<lambda>s. (se_header s, fst (get_subevent_data_src ev' s))) subs =
      map (\<lambda>(h, d). (h, Inr (if ev_has_status 4 ev \<and> sh_dlen h = LMD_SUBEVENT_STICKY_DLEN_REVOKE
                           then None else Some d))) ps"
    if "holds_all (ev_has_status 4 ev) subs ps" "\<forall>(h, d) \<in> set ps. length d < 2 ^ 32" for subs ps
    using that unfolding holds_all_def
    by (induction rule: list_all2_induct)
      (auto simp: get_subevent_data_src_holds [where ev = ev'] st is_subevent_sticky_revoke_def)
  have "locate_subevents hints ev = (r, ev', hints')"
    using res(1) assms(2,3) by (simp add: locate_subevents_def)
  moreover have "\<forall>(h, d) \<in> set ps. length d < 2 ^ 32"
    if "parse_subevents (ev_has_status 4 ev) (ev_swapping ev) bs = Some ps" for ps
    using parse_subevents_length [OF that] assms(5) by fastforce
  ultimately show ?thesis using res(3) data by (auto split: option.splits)
qed

lemma locate_subevents_parses:
  assumes "fresh_event ev" and "0 < hi_max_subevents hints"
  shows "\<exists>ev1 r ev2 hints'.
           get_10_1_info ev = (Inr (), ev1) \<and> locate_subevents hints ev1 = (r, ev2, hints') \<and>
           ev_info ev1 = read_event_info (ev_swapping ev) (take 8 (concat (ev_chunks ev))) \<and>
           (case parse_subevents (is_event_sticky (ev_header ev)) (ev_swapping ev) (drop 8 (concat (ev_chunks ev))) of
              None \<Rightarrow> \<exists>m. r = Inl (Err m)
            | Some ps \<Rightarrow> r = Inr () \<and> (\<exists>subs. ev_subevents ev2 = Some subs \<and>
                map (\<lambda>s. (se_header s, fst (get_subevent_data_src ev2 s))) subs =
                map (\<lambda>(h, d). (h, Inr (if is_event_sticky (ev_header ev) \<and>
                                        sh_dlen h = LMD_SUBEVENT_STICKY_DLEN_REVOKE
                                     then None else Some d))) ps))"
proof -
  from get_10_1_info_spec [OF assms(1)] obtain ev1 where ev1: "get_10_1_info ev = (Inr (), ev1)"
    "ev_info ev1 = read_event_info (ev_swapping ev) (take 8 (concat (ev_chunks ev)))"
    "position (ev_chunk_cur ev1) (ev_offset_cur ev1) (drop 8 (concat (ev_chunks ev)))"
    "ev_swapping ev1 = ev_swapping ev" "ev_subevents ev1 = None"
    "ev_has_status 4 ev1 = is_event_sticky (ev_header ev)" "\<not> ev_has_status 8 ev1" by blast
  have "length (drop 8 (concat (ev_chunks ev))) < 2 ^ 32"
    using assms(1) unfolding fresh_event_def length_drop by linarith
  from locate_subevents_spec [OF ev1(3,5,7) assms(2) this] ev1(1,2) show ?thesis
    unfolding ev1(4,6) by blast
qed

text \<open>C36. However the data of an event is cut into chunks (buffers of the file, the end of the
  circular buffer), \<^verbatim>\<open>get_10_1_info\<close> and \<^verbatim>\<open>locate_subevents\<close> followed by
  \<^verbatim>\<open>get_subevent_data_src\<close> give exactly what a parser of the contiguous data gives: the event
  information, and the headers and data of all subevents in order (no data for a revoked
  sticky subevent), or an error when the data is not complete.\<close>

theorem locate_subevents_refines:
  assumes "fresh_event ev" and "0 < hi_max_subevents hints"
  shows "\<exists>ev1 r ev2 hints'.
           get_10_1_info ev = (Inr (), ev1) \<and> locate_subevents hints ev1 = (r, ev2, hints') \<and>
           ev_info ev1 = read_event_info (ev_swapping ev) (take 8 (concat (ev_chunks ev))) \<and>
           (case parse_subevents (is_event_sticky (ev_header ev)) (ev_swapping ev) (drop 8 (concat (ev_chunks ev))) of
              None \<Rightarrow> \<exists>m. r = Inl (Err m)
            | Some ps \<Rightarrow> r = Inr () \<and> (\<exists>subs. ev_subevents ev2 = Some subs \<and>
                map (\<lambda>s. (se_header s, fst (get_subevent_data_src ev2 s))) subs =
                map (\<lambda>(h, d). (h, Inr (if is_event_sticky (ev_header ev) \<and>
                                        sh_dlen h = LMD_SUBEVENT_STICKY_DLEN_REVOKE
                                     then None else Some d))) ps))"
  using assms by (rule locate_subevents_parses)

definition sub_example :: lmd_subevent_header where
  "sub_example = \<lparr>sh_dlen = 4, sh_type = 10, sh_subtype = 1, sh_procid = 7, sh_subcrate = 1, sh_control = 2\<rparr>"

text \<open>An event with one subevent of four bytes, cut in its header and in its data.\<close>

definition event_example :: lmd_event where
  "event_example =
     (let data = replicate 8 0 @ encode_subevent False (sub_example, [1, 2, 3, 4])
      in \<lparr>ev_header = \<lparr>eh_dlen = 12, eh_type = 10, eh_subtype = 1\<rparr>, ev_info = event_info_of_words [0, 0],
          ev_status = 0, ev_swapping = False, ev_subevents = None,
          ev_chunks = [take 10 data, slice 10 12 data, drop 22 data], ev_chunk_alloc = 4,
          ev_chunk_cur = [], ev_offset_cur = 0, ev_warnings = []\<rparr>)"

lemma event_example_facts:
  "fresh_event event_example" "concat (ev_chunks event_example) = replicate 8 0 @ encode_subevent False (sub_example, [1, 2, 3, 4])"
  "ev_header event_example = \<lparr>eh_dlen = 12, eh_type = 10, eh_subtype = 1\<rparr>" "ev_swapping event_example = False"
proof -
  let ?data = "replicate 8 0 @ encode_subevent False (sub_example, [1, 2, 3, 4])"
  have len: "length ?data = 24" by (simp add: encode_subevent_def)
  have cat: "take 10 ?data @ slice 10 12 ?data @ drop 22 ?data = ?data"
    using take_slice_drop [of 10 ?data 12] unfolding add_num_simps numeral_plus_numeral .
  show ev: "concat (ev_chunks event_example) = ?data"
    using cat by (simp add: event_example_def Let_def)
  have "[] \<notin> set (ev_chunks event_example)"
    using len by (auto simp: event_example_def Let_def slice_def simp flip: length_0_conv)
  then show "fresh_event event_example"
    using ev len by (simp add: fresh_event_def) (simp add: event_example_def Let_def is_event_10_1_def)
qed (simp_all add: event_example_def Let_def)

lemma parse_example:
  "parse_subevents False False (encode_subevent False (sub_example, [1, 2, 3, 4])) = Some [(sub_example, [1, 2, 3, 4])]"
  using parse_encode [of "[(sub_example, [1, 2, 3, 4])]" False False]
  by (simp add: sub_example_def subevent_data_length_def SUBEVENT_DATA_LENGTH_FROM_DLEN_def sub64_le)

theorem locate_subevents_refines_witness:
  "\<exists>ev1 ev2 hints' sub.
     get_10_1_info event_example = (Inr (), ev1) \<and> locate_subevents lmd_event_hint_new ev1 = (Inr (), ev2, hints') \<and>
     ev_subevents ev2 = Some [sub] \<and> fst (get_subevent_data_src ev2 sub) = Inr (Some [1, 2, 3, 4])"
proof -
  have "parse_subevents (is_event_sticky (ev_header event_example)) (ev_swapping event_example)
      (drop 8 (concat (ev_chunks event_example))) = Some [(sub_example, [1, 2, 3, 4])]"
    using parse_example by (simp add: event_example_facts is_event_sticky_def)
  with locate_subevents_refines [OF event_example_facts(1), of lmd_event_hint_new] show ?thesis
    by (auto simp: lmd_event_hint_new_def event_example_facts(3) is_event_sticky_def)
qed

text \<open>C37. An event whose data is the event information followed by encoded subevents, of any number
  and content, written by a machine of either byte order and cut into chunks anywhere, gives
  back exactly that information and those subevents, provided that each subevent header's
  length member states the length of its data.\<close>

theorem subevents_roundtrip:
  assumes "fresh_event ev" and "0 < hi_max_subevents hints" and "is_event_10_1 (ev_header ev)"
    and "concat (ev_chunks ev) =
           (if ev_swapping ev then swap32 else id) (mem (words_of_event_info info)) @
           concat (map (encode_subevent (ev_swapping ev)) ps)"
    and "\<forall>(h, d) \<in> set ps. length d = SUBEVENT_DATA_LENGTH_FROM_DLEN (sh_dlen h)"
  shows "\<exists>ev1 ev2 hints' subs.
           get_10_1_info ev = (Inr (), ev1) \<and> ev_info ev1 = info \<and>
           locate_subevents hints ev1 = (Inr (), ev2, hints') \<and> ev_subevents ev2 = Some subs \<and>
           map (\<lambda>s. (se_header s, fst (get_subevent_data_src ev2 s))) subs = map (\<lambda>(h, d). (h, Inr (Some d))) ps"
proof -
  have sticky: "\<not> is_event_sticky (ev_header ev)"
    using assms(3) by (simp add: is_event_10_1_def is_event_sticky_def)
  have take: "take 8 (concat (ev_chunks ev)) = (if ev_swapping ev then swap32 else id) (mem (words_of_event_info info))"
    and drop: "drop 8 (concat (ev_chunks ev)) = concat (map (encode_subevent (ev_swapping ev)) ps)"
    by (simp_all add: assms(4))
  have "read_event_info (ev_swapping ev) (take 8 (concat (ev_chunks ev))) = info"
    unfolding take by (simp add: read_event_info_def)
  moreover have "parse_subevents False (ev_swapping ev) (drop 8 (concat (ev_chunks ev))) = Some ps"
    unfolding drop by (rule parse_encode) (use assms(5) in \<open>simp add: subevent_data_length_def\<close>)
  ultimately show ?thesis
    using locate_subevents_parses [OF assms(1,2)] sticky by fastforce
qed

theorem subevents_roundtrip_witness:
  "\<exists>ev1 ev2 hints' sub.
     get_10_1_info event_example = (Inr (), ev1) \<and> locate_subevents lmd_event_hint_new ev1 = (Inr (), ev2, hints') \<and>
     ev_subevents ev2 = Some [sub] \<and> se_header sub = sub_example"
proof -
  have info: "replicate 8 0 = mem (words_of_event_info \<lparr>ei_dummy = 0, ei_trigger = 0, ei_count = 0\<rparr>)"
    by (simp add: mem_def words_of_event_info_def join16_def bytes32_def numeral_eq_Suc)
  show ?thesis
    using subevents_roundtrip [OF event_example_facts(1), of lmd_event_hint_new
        "\<lparr>ei_dummy = 0, ei_trigger = 0, ei_count = 0\<rparr>" "[(sub_example, [1, 2, 3, 4])]"]
    by (fastforce simp: event_example_facts lmd_event_hint_new_def is_event_10_1_def info
        sub_example_def SUBEVENT_DATA_LENGTH_FROM_DLEN_def sub64_le)
qed

end
