(* ===== verification/Lmd_Layout.thy ===== *)
theory Lmd_Layout
  imports Lmd_Format
begin

text \<open>
  What an LMD file is: events, each cut into one or more fragments (\<^emph>\<open>pieces\<close>), distributed
  over numbered buffers of one size. This is the specification that the writer establishes and
  the reader takes apart; it does not mention either of them.
\<close>

section \<open>Pieces and buffers\<close>

text \<open>
  \<open>pc_in\<close>: the piece continues an event of the buffer before; \<open>pc_out\<close>: the event goes on in
  the next buffer, and its total data length. The data of a piece is as it stands in the file.
\<close>

record piece =
  pc_header :: lmd_event_header
  pc_data :: bytes
  pc_in :: bool
  pc_out :: "nat option"

record layout_buffer =
  lb_no :: u32
  lb_time0 :: u32
  lb_time1 :: u32
  lb_pieces :: "piece list"

text \<open>An event and the data of its fragments; the pieces that it consists of.\<close>

type_synonym segment = "lmd_event_header \<times> bytes list"

fun frags :: "lmd_event_header \<Rightarrow> nat \<Rightarrow> bool \<Rightarrow> bytes list \<Rightarrow> piece list" where
  "frags h n i [] = []"
| "frags h n i [d] = [\<lparr>pc_header = h, pc_data = d, pc_in = i, pc_out = None\<rparr>]"
| "frags h n i (d # ds) = \<lparr>pc_header = h, pc_data = d, pc_in = i, pc_out = Some n\<rparr> # frags h n True ds"

definition segment_pieces :: "segment \<Rightarrow> piece list" where
  "segment_pieces = (\<lambda>(h, ds). frags h (length (concat ds)) False ds)"

definition piece_header :: "piece \<Rightarrow> lmd_event_header" where
  "piece_header p = (pc_header p)\<lparr>eh_dlen := of_nat (length (pc_data p) div 2)\<rparr>"

definition order :: "bool \<Rightarrow> bytes \<Rightarrow> bytes" where
  "order native b = (if native then b else swap32 b)"

definition piece_bytes :: "bool \<Rightarrow> piece \<Rightarrow> bytes" where
  "piece_bytes native p = order native (mem (words_of_event_header (piece_header p))) @ pc_data p"

definition pieces_bytes :: "bool \<Rightarrow> piece list \<Rightarrow> bytes" where
  "pieces_bytes native ps = concat (map (piece_bytes native) ps)"

definition used_of :: "piece list \<Rightarrow> nat" where
  "used_of ps = sum_list (map (\<lambda>p. 8 + length (pc_data p)) ps)"

definition has_sticky :: "piece list \<Rightarrow> bool" where
  "has_sticky ps \<longleftrightarrow> (\<exists>p \<in> set ps. is_event_sticky (pc_header p))"

definition begins :: "piece list \<Rightarrow> nat option" where
  "begins ps = (if ps = [] then None else pc_out (last ps))"

definition ends :: "piece list \<Rightarrow> bool" where
  "ends ps \<longleftrightarrow> ps \<noteq> [] \<and> pc_in (hd ps)"

definition layout_header :: "nat \<Rightarrow> layout_buffer \<Rightarrow> s_bufhe" where
  "layout_header B lb =
     (let ps = lb_pieces lb
      in \<lparr>bh_dlen = of_nat (DLEN_FROM_BUFFER_SIZE B),
          bh_type = (if has_sticky ps then 0x4b59 else 10),
          bh_subtype = (if has_sticky ps then 0x5354 else 1),
          bh_used = (if B \<le> 32768 then of_nat (used_of ps div 2) else 0),
          bh_end = (if ends ps then 1 else 0),
          bh_begin = (if begins ps \<noteq> None then 1 else 0),
          bh_buf = lb_no lb, bh_evt = of_nat (length ps), bh_current_i = 0,
          bh_time0 = lb_time0 lb, bh_time1 = lb_time1 lb, bh_free0 = 1,
          bh_free1 = (case begins ps of None \<Rightarrow> 0 | Some n \<Rightarrow> of_nat (n div 2)),
          bh_free2 = of_nat (used_of ps div 2), bh_free3 = 0\<rparr>)"

definition buffer_bytes :: "bool \<Rightarrow> nat \<Rightarrow> layout_buffer \<Rightarrow> bytes" where
  "buffer_bytes native B lb =
     order native (mem (words_of_bufhe (layout_header B lb))) @
     pieces_bytes native (lb_pieces lb) @ replicate (B - 48 - used_of (lb_pieces lb)) 0"

section \<open>Well-formed files\<close>

text \<open>Buffer sizes that the writer accepts and the reader does not refuse.\<close>

definition good_size :: "nat \<Rightarrow> bool" where
  "good_size B \<longleftrightarrow> B mod 1024 = 0 \<and> 0 < B \<and> B \<le> 2 ^ 30"

definition good_piece :: "piece \<Rightarrow> bool" where
  "good_piece p \<longleftrightarrow>
     pc_data p \<noteq> [] \<and> even (length (pc_data p)) \<and>
     (case pc_out p of None \<Rightarrow> True | Some n \<Rightarrow> even n \<and> n < 2 ^ 32)"

definition good_buffer :: "nat \<Rightarrow> layout_buffer \<Rightarrow> bool" where
  "good_buffer B lb \<longleftrightarrow>
     lb_pieces lb \<noteq> [] \<and> list_all good_piece (lb_pieces lb) \<and> used_of (lb_pieces lb) + 48 \<le> B \<and>
     list_all (\<lambda>p. pc_out p = None) (butlast (lb_pieces lb)) \<and>
     list_all (\<lambda>p. \<not> pc_in p) (tl (lb_pieces lb))"

fun numbered :: "layout_buffer list \<Rightarrow> bool" where
  "numbered (a # b # bs) \<longleftrightarrow> lb_no b = lb_no a + 1 \<and> numbered (b # bs)"
| "numbered _ \<longleftrightarrow> True"

definition good_segment :: "segment \<Rightarrow> bool" where
  "good_segment = (\<lambda>(h, ds). ds \<noteq> [])"

text \<open>Pieces \<open>ps\<close> left in the current buffer and the buffers after it hold the events \<open>segs\<close>.\<close>

definition lays_out :: "nat \<Rightarrow> segment list \<Rightarrow> piece list \<Rightarrow> layout_buffer list \<Rightarrow> bool" where
  "lays_out B segs ps bufs \<longleftrightarrow>
     ps @ concat (map lb_pieces bufs) = concat (map segment_pieces segs) \<and>
     list_all good_segment segs \<and> list_all (good_buffer B) bufs \<and> list_all good_piece ps \<and>
     used_of ps \<le> B \<and> list_all (\<lambda>p. pc_out p = None) (butlast ps) \<and> list_all (\<lambda>p. \<not> pc_in p) (tl ps)"

section \<open>Laws\<close>

lemma length_order [simp]: "length (order native b) = length b"
  by (simp add: order_def)

lemma order_mod4: "length b mod 4 = 0 \<Longrightarrow> order native (b @ c) = order native b @ order native c"
  by (simp add: order_def swap32_append)

lemma length_piece_bytes [simp]: "length (piece_bytes native p) = 8 + length (pc_data p)"
  by (simp add: piece_bytes_def)

lemma length_pieces_bytes: "length (pieces_bytes native ps) = used_of ps"
  by (induction ps) (simp_all add: pieces_bytes_def used_of_def)

lemma pieces_bytes_simps [simp]:
  "pieces_bytes native [] = []"
  "pieces_bytes native (p # ps) = piece_bytes native p @ pieces_bytes native ps"
  "pieces_bytes native (ps @ qs) = pieces_bytes native ps @ pieces_bytes native qs"
  by (simp_all add: pieces_bytes_def)

lemma used_of_simps [simp]:
  "used_of [] = 0" "used_of (p # ps) = 8 + length (pc_data p) + used_of ps"
  "used_of (ps @ qs) = used_of ps + used_of qs"
  by (simp_all add: used_of_def)

lemma length_buffer_bytes:
  "good_buffer B lb \<Longrightarrow> length (buffer_bytes native B lb) = B"
  by (auto simp: buffer_bytes_def good_buffer_def length_pieces_bytes)

lemma length_buffers:
  "list_all (good_buffer B) bufs \<Longrightarrow> length (concat (map (buffer_bytes native B) bufs)) = B * length bufs"
  by (induction bufs) (auto simp: length_buffer_bytes)

lemma used_even: "list_all good_piece ps \<Longrightarrow> even (used_of ps)"
  by (induction ps) (auto simp: good_piece_def)

lemma used_pieces: "8 * length ps \<le> used_of ps"
  by (induction ps) auto

lemma frags_Nil [simp]: "frags h n i ds = [] \<longleftrightarrow> ds = []"
  by (cases "(h, n, i, ds)" rule: frags.cases) auto

lemma frags_Cons:
  "frags h n i (d # ds) =
     \<lparr>pc_header = h, pc_data = d, pc_in = i, pc_out = (if ds = [] then None else Some n)\<rparr> # frags h n True ds"
  by (cases ds) auto

text \<open>What a header tells the reader, in the two byte orders.\<close>

lemma read_piece_header [simp]:
  "read_event_header (\<not> native) (order native (mem (words_of_event_header h))) = h"
  by (simp add: read_event_header_def order_def)

end
