(* ===== verification/Lmd_Records.thy ===== *)
theory Lmd_Records
  imports Lmd_Input Lmd_Layout Lmd_Reader_Safety
begin

text \<open>
  The reader on the buffers of a layout: what \<^verbatim>\<open>read_record\<close> does at a buffer that
  \<open>Lmd_Layout\<close> describes. \<open>standing\<close> says which buffers come next in the input, \<open>holding\<close>
  which pieces of the current buffer are left in the chunks.
\<close>

section \<open>Headers that a layout has\<close>

lemma layout_header_simps [simp]:
  "bh_free0 (layout_header B lb) = 1" "bh_buf (layout_header B lb) = lb_no lb"
  "bh_evt (layout_header B lb) = of_nat (length (lb_pieces lb))"
  "bh_free3 (layout_header B lb) = 0"
  "bh_end (layout_header B lb) = (if ends (lb_pieces lb) then 1 else 0)"
  "bh_begin (layout_header B lb) = (if begins (lb_pieces lb) \<noteq> None then 1 else 0)"
  by (simp_all add: layout_header_def Let_def)

lemma layout_types:
  "\<not> is_dummy_buffer (layout_header B lb)" "\<not> varsize (layout_header B lb)"
  "\<not> LMD_FILE_HEADER_2000_1 (layout_header B lb)"
  "LMD_BUF_HEADER_10_1 (layout_header B lb) \<or> LMD_BUF_HEADER_HAS_STICKY (layout_header B lb)"
  "LMD_BUF_HEADER_HAS_STICKY (layout_header B lb) \<longleftrightarrow> has_sticky (lb_pieces lb)"
  "\<not> LMD_BUF_HEADER_HAS_STICKY_VARSZ (layout_header B lb)"
  by (auto simp: layout_header_def Let_def is_type_def is_dummy_buffer_def varsize_def)

lemma of_nat_u32: "n < 2 ^ 32 \<Longrightarrow> unat (of_nat n :: u32) = n"
  by (simp add: unat_of_nat take_bit_nat_eq_self)

lemma of_nat_u16: "n < 2 ^ 16 \<Longrightarrow> unat (of_nat n :: u16) = n"
  by (simp add: unat_of_nat take_bit_nat_eq_self)

lemma good_sizeD:
  assumes "good_size B"
  shows "1024 \<le> B" and "B \<le> 2 ^ 30" and "even B" and "B mod 1024 = 0"
proof -
  obtain k where k: "B = 1024 * k" "0 < k" using assms by (auto simp: good_size_def)
  then show "1024 \<le> B" "even B" "B mod 1024 = 0" by auto
  show "B \<le> 2 ^ 30" using assms by (simp add: good_size_def)
qed

lemma layout_dlen:
  assumes "good_size B"
  shows "unat (bh_dlen (layout_header B lb)) = (B - 48) div 2"
proof -
  note B = good_sizeD [OF assms]
  have "sub64 B 48 = B - 48" using B by (simp add: sub64_le)
  moreover have "unat (of_nat ((B - 48) div 2) :: u32) = (B - 48) div 2"
    by (rule of_nat_u32) (use B(2) in simp)
  ultimately show ?thesis by (simp add: layout_header_def Let_def DLEN_FROM_BUFFER_SIZE_def)
qed

lemma layout_size:
  assumes "good_size B"
  shows "get_buffer_size_dlen (layout_header B lb) = Inr B"
proof -
  note B = good_sizeD [OF assms] and dlen = layout_dlen [OF assms, of lb]
  have "(B - 48) div 2 \<noteq> 0" using B(1) by linarith
  then have "bh_dlen (layout_header B lb) \<noteq> 0" using dlen by (metis unat_0)
  moreover have "(B - 48) div 2 \<le> 0x20000000" using B(2) by simp
  then have "\<not> bh_dlen (layout_header B lb) > 0x20000000"
    using dlen by (simp add: word_less_nat_alt)
  moreover have "BUFFER_SIZE_FROM_DLEN (unat (bh_dlen (layout_header B lb))) = B"
    using dlen B(1,3) by (simp add: BUFFER_SIZE_FROM_DLEN_def)
  ultimately show ?thesis
    using B by (simp add: get_buffer_size_dlen_def layout_types)
qed

lemma layout_used:
  assumes "good_size B" and "good_buffer B lb"
  shows "get_buf_used (layout_header B lb) f = Inr (used_of (lb_pieces lb))"
proof -
  let ?u = "used_of (lb_pieces lb)"
  have u: "?u + 48 \<le> B" "even ?u" using assms(2) used_even by (auto simp: good_buffer_def)
  have wrap: "wrap32 ?u = ?u" using u(1) good_sizeD(2) [OF assms(1)] by simp
  have free2: "bh_free2 (layout_header B lb) = of_nat (?u div 2)" by (simp add: layout_header_def Let_def)
  show ?thesis
  proof (cases "B \<le> 32768")
    case True
    then have "bh_used (layout_header B lb) = of_nat (?u div 2)" by (simp add: layout_header_def Let_def)
    moreover have "unat (of_nat (?u div 2) :: u16) = ?u div 2" by (rule of_nat_u16) (use u True in simp)
    moreover have "(ucast (of_nat (?u div 2) :: u16) :: u32) = of_nat (?u div 2)"
      using calculation(2) of_nat_unat by metis
    moreover have "unat (bh_dlen (layout_header B lb)) \<le> LMD_BUF_HEADER_MAX_IUSED_DLEN"
      using True layout_dlen [OF assms(1), of lb] by (simp add: LMD_BUF_HEADER_MAX_IUSED_DLEN_def)
    ultimately show ?thesis
      using u wrap by (simp add: get_buf_used_def layout_types free2 BUFFER_USED_FROM_IUSED_def)
  next
    case False
    then have "bh_used (layout_header B lb) = 0" by (simp add: layout_header_def Let_def)
    moreover have "unat (of_nat (?u div 2) :: u32) = ?u div 2"
      by (rule of_nat_u32) (use u good_sizeD(2) [OF assms(1)] in simp)
    moreover have "\<not> unat (bh_dlen (layout_header B lb)) \<le> LMD_BUF_HEADER_MAX_IUSED_DLEN"
      using False layout_dlen [OF assms(1), of lb] good_sizeD(3) [OF assms(1)]
      by (auto simp: LMD_BUF_HEADER_MAX_IUSED_DLEN_def elim!: evenE)
    ultimately show ?thesis
      using u good_sizeD(2) [OF assms(1)] by (simp add: get_buf_used_def free2 BUFFER_USED_FROM_IUSED_def)
  qed
qed

lemma layout_free1:
  assumes "good_buffer B lb" and "begins (lb_pieces lb) = Some n"
  shows "EVENT_DATA_LENGTH_FROM_DLEN (bh_free1 (layout_header B lb)) = n" and "even n" and "n < 2 ^ 32"
proof -
  have "good_piece (last (lb_pieces lb))" and "pc_out (last (lb_pieces lb)) = Some n"
    using assms by (auto simp: good_buffer_def begins_def list_all_iff split: if_splits)
  then show n: "even n" "n < 2 ^ 32" by (auto simp: good_piece_def)
  show "EVENT_DATA_LENGTH_FROM_DLEN (bh_free1 (layout_header B lb)) = n"
    using event_data_length_dlen [OF n] assms(2)
    by (simp add: layout_header_def Let_def DLEN_FROM_EVENT_DATA_LENGTH_def)
qed

lemma swap_layout_header:
  "swap_buffer_header (order native (mem (words_of_bufhe (layout_header B lb)))) src =
     (Inr (), src\<lparr>ls_buffer_header := layout_header B lb, ls_swapping := \<not> native\<rparr>)"
proof (cases native)
  case True
  then show ?thesis by (simp add: swap_buffer_header_def order_def)
next
  case False
  have "bswap_32 1 \<noteq> 1" by (simp add: bswap_32_def u32_of_def)
  moreover have "bh_free0 (bufhe_of_words (map bswap_32 (words_of_bufhe (layout_header B lb)))) = bswap_32 1"
    by (simp add: bufhe_of_words_def words_of_bufhe_def)
  ultimately show ?thesis
    using False by (simp add: swap_buffer_header_def order_def Let_def byteswap_bufhe_def words_bufhe)
qed

context input_source
begin

text \<open>The range is in the input and in the window.\<close>

lemma src_map_range_ok:
  assumes "invar (ic_input (ls_input src))" and "released (ic_input (ls_input src)) \<le> ic_cur (ls_input src)"
    and "ic_cur (ls_input src) + int n \<le> int (length (stream (ic_input (ls_input src))))"
    and "ic_cur (ls_input src) + int n \<le>
           released (ic_input (ls_input src)) + int (window (ic_input (ls_input src)))"
  shows "\<exists>cs s'. src_map_range vt n src =
             (Inr cs, src\<lparr>ls_input := \<lparr>ic_input = s', ic_cur = ic_cur (ls_input src) + int n\<rparr>\<rparr>) \<and>
           same_input (ic_input (ls_input src)) s' \<and> ic_cur (ls_input src) + int n \<le> mapped s' \<and>
           cs \<noteq> [] \<and> two_chunks cs \<and> (length cs = 2 \<longrightarrow> [] \<notin> set cs) \<and>
           concat cs = slice (nat (ic_cur (ls_input src))) n (stream (ic_input (ls_input src)))"
proof -
  let ?s = "ic_input (ls_input src)" and ?i = "ic_cur (ls_input src)"
  have "0 \<le> ?i" using released_nonneg [OF assms(1)] assms(2) by linarith
  moreover have "?i + int n < 2 ^ 63" using stream_length [OF assms(1)] assms(3) by simp
  ultimately have off: "off_add ?i n = ?i + int n" by (rule off_add_small)
  from map_range_mapped [OF assms(1,2) _ assms(3,4)] show ?thesis
    by (auto simp: src_map_range_def cont_map_range_def off same_input_def)
qed

lemma src_read_range_ok:
  assumes "invar (ic_input (ls_input src))" and "released (ic_input (ls_input src)) \<le> ic_cur (ls_input src)"
    and "ic_cur (ls_input src) + int n \<le> int (length (stream (ic_input (ls_input src))))"
    and "ic_cur (ls_input src) + int n \<le>
           released (ic_input (ls_input src)) + int (window (ic_input (ls_input src)))"
  shows "\<exists>s'. src_read_range vt n src =
             (Inr (Some (slice (nat (ic_cur (ls_input src))) n (stream (ic_input (ls_input src))))),
              src\<lparr>ls_input := \<lparr>ic_input = s', ic_cur = ic_cur (ls_input src) + int n\<rparr>\<rparr>) \<and>
           same_input (ic_input (ls_input src)) s' \<and> ic_cur (ls_input src) + int n \<le> mapped s'"
proof -
  from src_map_range_ok [OF assms] obtain cs s' where
    "src_map_range vt n src = (Inr cs, src\<lparr>ls_input := \<lparr>ic_input = s', ic_cur = ic_cur (ls_input src) + int n\<rparr>\<rparr>)"
    "cs \<noteq> []" "concat cs = slice (nat (ic_cur (ls_input src))) n (stream (ic_input (ls_input src)))"
    "same_input (ic_input (ls_input src)) s'" "ic_cur (ls_input src) + int n \<le> mapped s'" by blast
  then show ?thesis
    by (auto simp: src_read_range_as_map)
qed

text \<open>
  The reader stands at a buffer of a layout: \<open>bufs\<close> is the rest of the input, \<open>ahead\<close> bytes of it
  are inside the window.
\<close>

definition standing :: "bool \<Rightarrow> nat \<Rightarrow> layout_buffer list \<Rightarrow> 's lmd_source \<Rightarrow> bool" where
  "standing native B bufs src \<longleftrightarrow>
     (let s = ic_input (ls_input src); cur = ic_cur (ls_input src)
      in invar s \<and> released s \<le> cur \<and> cur \<le> int (length (stream s)) \<and>
         drop (nat cur) (stream s) = concat (map (buffer_bytes native B) bufs) \<and>
         list_all (good_buffer B) bufs \<and> numbered bufs \<and> good_size B \<and>
         (bufs = [] \<or> ls_last_buffer_no src = 0 \<or> lb_no (hd bufs) = ls_last_buffer_no src + 1))"

definition ahead :: "nat \<Rightarrow> 's lmd_source \<Rightarrow> bool" where
  "ahead n src \<longleftrightarrow>
     ic_cur (ls_input src) + int n \<le>
       released (ic_input (ls_input src)) + int (window (ic_input (ls_input src)))"

lemma standing_bytes:
  assumes "standing native B (lb # bufs) src" and "i + n \<le> B"
  shows "slice (nat (ic_cur (ls_input src)) + i) n (stream (ic_input (ls_input src))) =
           slice i n (buffer_bytes native B lb)"
    and "ic_cur (ls_input src) + int (i + n) \<le> int (length (stream (ic_input (ls_input src))))"
proof -
  let ?S = "stream (ic_input (ls_input src))" and ?c = "ic_cur (ls_input src)"
  have *: "drop (nat ?c) ?S = buffer_bytes native B lb @ concat (map (buffer_bytes native B) bufs)"
    "length (buffer_bytes native B lb) = B" "0 \<le> ?c"
    "?c \<le> int (length ?S)"
    using assms(1) released_nonneg [of "ic_input (ls_input src)"]
    by (auto simp: standing_def Let_def length_buffer_bytes)
  have "drop (nat ?c + i) ?S = drop i (drop (nat ?c) ?S)" by (simp add: add.commute)
  then show "slice (nat ?c + i) n ?S = slice i n (buffer_bytes native B lb)"
    using *(1,2) assms(2) by (simp add: slice_def)
  have "B \<le> length (drop (nat ?c) ?S)" unfolding *(1) using *(2) by simp
  then show "?c + int (i + n) \<le> int (length ?S)" using *(3,4) assms(2) by auto
qed

lemma read_layout_header:
  assumes "standing native B (lb # bufs) src" and "ahead B src"
  shows "\<exists>s'. read_buffer_header vt (Suc fuel) src =
           (Inr True, src\<lparr>ls_prev_record_release_to := ic_cur (ls_input src), ls_first_buf_status := 0,
              ls_input := \<lparr>ic_input = s', ic_cur = ic_cur (ls_input src) + 48\<rparr>,
              ls_buffer_header := layout_header B lb, ls_swapping := \<not> native\<rparr>) \<and>
           same_input (ic_input (ls_input src)) s'"
proof -
  let ?src = "src\<lparr>ls_prev_record_release_to := ic_cur (ls_input src), ls_first_buf_status := 0\<rparr>"
  have B: "48 \<le> B" using assms(1) good_sizeD(1) [of B] by (auto simp: standing_def Let_def)
  have b: "slice (nat (ic_cur (ls_input src))) 48 (stream (ic_input (ls_input src))) =
      order native (mem (words_of_bufhe (layout_header B lb)))"
    using standing_bytes(1) [OF assms(1), of 0 48] B by (simp add: buffer_bytes_def slice_def)
  have "\<exists>s'. src_read_range vt 48 ?src =
      (Inr (Some (order native (mem (words_of_bufhe (layout_header B lb))))),
       ?src\<lparr>ls_input := \<lparr>ic_input = s', ic_cur = ic_cur (ls_input src) + 48\<rparr>\<rparr>) \<and>
      same_input (ic_input (ls_input src)) s'"
    using src_read_range_ok [of ?src 48] standing_bytes(2) [OF assms(1), of 0 48] B assms b
    by (fastforce simp: standing_def ahead_def Let_def)
  then show ?thesis
    by (auto simp: swap_layout_header layout_types)
qed

text \<open>
  The chunks hold the data of the current piece that is left and the pieces after it; the
  buffer header says whether the last of them goes on in the next buffer.
\<close>

definition marked :: "bool \<Rightarrow> nat option \<Rightarrow> 's lmd_source \<Rightarrow> bool" where
  "marked native out src \<longleftrightarrow>
     ls_swapping src = (\<not> native) \<and> bh_begin (ls_buffer_header src) = (if out \<noteq> None then 1 else 0) \<and>
     (\<forall>n. out = Some n \<longrightarrow>
        EVENT_DATA_LENGTH_FROM_DLEN (bh_free1 (ls_buffer_header src)) = n \<and>
        bh_free1 (ls_buffer_header src) = of_nat (n div 2))"

definition chunks_hold :: "bytes \<Rightarrow> 's lmd_source \<Rightarrow> bool" where
  "chunks_hold b src \<longleftrightarrow>
     two_chunks (ls_chunks src) \<and> [] \<notin> set (ls_chunks src) \<and> concat (ls_chunks src) = b"

definition holding :: "bool \<Rightarrow> piece list \<Rightarrow> 's lmd_source \<Rightarrow> bool" where
  "holding native ps src \<longleftrightarrow>
     chunks_hold (pieces_bytes native ps) src \<and>
     (ps \<noteq> [] \<longrightarrow> marked native (begins ps) src \<and> unat (ls_events_left src) = length ps)"

lemma cut_layout:
  assumes "two_chunks cs" and "cs \<noteq> []" and "length cs = 2 \<longrightarrow> [] \<notin> set cs" and "unused < length (concat cs)"
  shows "\<exists>cs'. cut_unused unused cs = Inr cs' \<and> two_chunks cs' \<and> [] \<notin> set cs' \<and>
           concat cs' = take (length (concat cs) - unused) (concat cs)"
  using assms by (elim two_chunks_cases) (auto simp: cut_unused_def Let_def)

lemma map_layout_data:
  assumes st: "standing native B (lb # bufs) src0" and "ahead B src0"
    and src: "ls_buffer_header src = layout_header B lb" "ic_cur (ls_input src) = ic_cur (ls_input src0) + 48"
      "same_input (ic_input (ls_input src0)) (ic_input (ls_input src))"
  shows "\<exists>cs s'. map_buffer_data vt B 48 (used_of (lb_pieces lb)) src =
           (Inr True, src\<lparr>ls_input := \<lparr>ic_input = s', ic_cur = ic_cur (ls_input src0) + int B\<rparr>,
              ls_last_buffer_no := lb_no lb, ls_chunks := cs, ls_chunk_end := length cs,
              ls_events_left := of_nat (length (lb_pieces lb))\<rparr>) \<and>
           same_input (ic_input (ls_input src0)) s' \<and> ic_cur (ls_input src0) + int B \<le> mapped s' \<and>
           two_chunks cs \<and> [] \<notin> set cs \<and> concat cs = pieces_bytes native (lb_pieces lb)"
proof -
  let ?u = "used_of (lb_pieces lb)" and ?src = "src\<lparr>ls_chunks := [], ls_chunk_end := 0\<rparr>"
  let ?s0 = "ic_input (ls_input src0)" and ?c = "ic_cur (ls_input src0)"
  have lb: "good_buffer B lb" "good_size B" using st by (simp_all add: standing_def Let_def)
  note B = good_sizeD [OF lb(2)]
  have u: "?u + 48 \<le> B" "lb_pieces lb \<noteq> []" using lb(1) by (simp_all add: good_buffer_def)
  have u0: "0 < ?u" using u(2) used_pieces [of "lb_pieces lb"] by (cases "lb_pieces lb") auto
  have len: "length (lb_pieces lb) < 2 ^ 32" "0 < length (lb_pieces lb)"
    using used_pieces [of "lb_pieces lb"] u B(2) by auto
  have evt: "(of_nat (length (lb_pieces lb)) :: u32) \<noteq> 0"
    using of_nat_u32 [OF len(1)] len(2) by (metis less_irrefl unat_0)
  have s: "invar (ic_input (ls_input src))" "released (ic_input (ls_input src)) = released ?s0"
    "stream (ic_input (ls_input src)) = stream ?s0" "window (ic_input (ls_input src)) = window ?s0"
    using src(3) by (simp_all add: same_input_def)
  have "released ?s0 \<le> ?c" using st by (simp add: standing_def Let_def)
  then have "\<exists>cs s'. src_map_range vt (B - 48) ?src =
      (Inr cs, ?src\<lparr>ls_input := \<lparr>ic_input = s', ic_cur = ?c + int B\<rparr>\<rparr>) \<and>
      same_input (ic_input (ls_input src)) s' \<and> ?c + int B \<le> mapped s' \<and> cs \<noteq> [] \<and> two_chunks cs \<and>
      (length cs = 2 \<longrightarrow> [] \<notin> set cs) \<and>
      concat cs = slice (nat (?c + 48)) (B - 48) (stream ?s0)"
    using src_map_range_ok [of ?src "B - 48"] s src(2) B(1) standing_bytes(2) [OF st, of 48 "B - 48"]
      assms(2) by (simp add: ahead_def)
  then obtain cs s' where mp: "src_map_range vt (B - 48) ?src =
      (Inr cs, ?src\<lparr>ls_input := \<lparr>ic_input = s', ic_cur = ?c + int B\<rparr>\<rparr>)"
      "same_input (ic_input (ls_input src)) s'" "?c + int B \<le> mapped s'" "cs \<noteq> []" "two_chunks cs"
      "length cs = 2 \<longrightarrow> [] \<notin> set cs" "concat cs = slice (nat (?c + 48)) (B - 48) (stream ?s0)" by blast
  have "0 \<le> ?c" using st released_nonneg [of ?s0] by (auto simp: standing_def Let_def)
  then have "concat cs = slice 48 (B - 48) (buffer_bytes native B lb)"
    using mp(7) standing_bytes(1) [OF st, of 48 "B - 48"] B(1) by (simp add: nat_add_distrib)
  also have "\<dots> = pieces_bytes native (lb_pieces lb) @ replicate (B - 48 - ?u) 0"
    using u(1) by (simp add: slice_def buffer_bytes_def length_pieces_bytes)
  finally have bytes: "concat cs = pieces_bytes native (lb_pieces lb) @ replicate (B - 48 - ?u) 0" .
  have len_cs: "length (concat cs) = B - 48" unfolding bytes using u(1) by (simp add: length_pieces_bytes)
  have "B - (48 + ?u) < length (concat cs)" using len_cs u u0 by simp
  from cut_layout [OF mp(5,4,6) this] obtain cs' where cut: "cut_unused (B - (48 + ?u)) cs = Inr cs'"
    "two_chunks cs'" "[] \<notin> set cs'" "concat cs' = take (length (concat cs) - (B - (48 + ?u))) (concat cs)"
    by blast
  have res: "concat cs' = pieces_bytes native (lb_pieces lb)"
    using cut(4) u(1) unfolding len_cs unfolding bytes by (simp add: length_pieces_bytes)
  have "sub64 B 48 = B - 48" "sub64 B (48 + ?u) = B - (48 + ?u)" "B - 48 < 2 ^ 63"
    "B - (48 + ?u) \<noteq> B - 48" "B - (48 + ?u) < B - 48"
    using B u u0 by (simp_all add: sub64_le)
  then have "map_buffer_data vt B 48 ?u src =
      (Inr True, src\<lparr>ls_input := \<lparr>ic_input = s', ic_cur = ?c + int B\<rparr>,
         ls_last_buffer_no := lb_no lb, ls_chunks := cs', ls_chunk_end := length cs',
         ls_events_left := of_nat (length (lb_pieces lb))\<rparr>)"
    using cut(1) mp(1,4) evt src(1) by (simp add: map_buffer_data_def Let_def layout_types)
  moreover have "same_input ?s0 s'" using src(3) mp(2) by (rule same_input_trans)
  ultimately show ?thesis using res cut(2,3) mp(3) by blast
qed

lemma standing_next:
  assumes st: "standing native B (lb # bufs) src" and "same_input (ic_input (ls_input src)) (ic_input (ls_input src'))"
    and "ic_cur (ls_input src') = ic_cur (ls_input src) + int B" and "ls_last_buffer_no src' = lb_no lb"
  shows "standing native B bufs src'"
proof -
  let ?s = "ic_input (ls_input src)" and ?c = "ic_cur (ls_input src)"
  have s': "invar (ic_input (ls_input src'))" "stream (ic_input (ls_input src')) = stream ?s"
    "released (ic_input (ls_input src')) = released ?s"
    using assms(2) by (simp_all add: same_input_def)
  have c: "0 \<le> ?c" using st released_nonneg [of ?s] by (auto simp: standing_def Let_def)
  have lb: "good_buffer B lb" using st by (simp add: standing_def Let_def)
  have "nat (?c + int B) = B + nat ?c" using c by (simp add: nat_add_distrib)
  then have "drop (nat (?c + int B)) (stream ?s) = drop B (drop (nat ?c) (stream ?s))" by simp
  also have "\<dots> = concat (map (buffer_bytes native B) bufs)"
    using st length_buffer_bytes [OF lb, of native] by (simp add: standing_def Let_def)
  finally have "drop (nat (?c + int B)) (stream ?s) = concat (map (buffer_bytes native B) bufs)" .
  moreover have "?c + int B \<le> int (length (stream ?s))"
    using standing_bytes(2) [OF st, of 0 B] by simp
  moreover have "numbered bufs" "bufs = [] \<or> lb_no (hd bufs) = lb_no lb + 1"
    using st by (cases bufs; simp add: standing_def Let_def)+
  ultimately show ?thesis
    using st s' assms(3,4) by (auto simp: standing_def Let_def)
qed

lemma holding_layout:
  assumes lb: "good_buffer B lb" "good_size B" and "two_chunks (ls_chunks src)" and "[] \<notin> set (ls_chunks src)"
    and "concat (ls_chunks src) = pieces_bytes native (lb_pieces lb)" and "ls_swapping src = (\<not> native)"
    and "ls_events_left src = of_nat (length (lb_pieces lb))" and "ls_buffer_header src = layout_header B lb"
  shows "holding native (lb_pieces lb) src"
proof -
  have "length (lb_pieces lb) < 2 ^ 32"
    using used_pieces [of "lb_pieces lb"] lb(1) good_sizeD(2) [OF lb(2)] by (auto simp: good_buffer_def)
  then have "unat (ls_events_left src) = length (lb_pieces lb)" using assms(7) by (simp add: of_nat_u32)
  moreover have "bh_free1 (layout_header B lb) = of_nat (n div 2)" if "begins (lb_pieces lb) = Some n" for n
    using that by (simp add: layout_header_def Let_def)
  ultimately show ?thesis
    using assms layout_free1(1) [OF lb(1)] by (simp add: holding_def marked_def chunks_hold_def)
qed

lemma read_layout_record:
  assumes st: "standing native B (lb # bufs) src" and ah: "ahead B src"
    and item: "B \<le> window (ic_input (ls_input src)) div 3"
      "\<forall>n. begins (lb_pieces lb) = Some n \<longrightarrow> n \<le> window (ic_input (ls_input src)) div 3"
    and ex: "expect = ends (lb_pieces lb)"
  shows "\<exists>src'. read_record vt (Suc fuel) expect src = (Inr True, src') \<and> standing native B bufs src' \<and>
           holding native (lb_pieces lb) src' \<and> same_input (ic_input (ls_input src)) (ic_input (ls_input src')) \<and>
           ic_cur (ls_input src') = ic_cur (ls_input src) + int B \<and> ls_file_event src' = ls_file_event src \<and>
           ls_prev_record_release_to src' = ic_cur (ls_input src) \<and>
           ic_cur (ls_input src') \<le> mapped (ic_input (ls_input src')) \<and>
           ls_first_buf_status src' = (if has_sticky (lb_pieces lb) then 0x20 else 0) \<and>
           ls_prev_record_release_to2 src' = ls_prev_record_release_to2 src \<and>
           ls_close_is_error src' = ls_close_is_error src"
proof -
  let ?c = "ic_cur (ls_input src)" and ?h = "layout_header B lb"
  have lb: "good_buffer B lb" "good_size B" using st by (simp_all add: standing_def Let_def)
  from read_layout_header [OF st ah, of fuel] obtain s1 where hd: "read_buffer_header vt (Suc fuel) src =
      (Inr True, src\<lparr>ls_prev_record_release_to := ?c, ls_first_buf_status := 0,
         ls_input := \<lparr>ic_input = s1, ic_cur = ?c + 48\<rparr>,
         ls_buffer_header := ?h, ls_swapping := \<not> native\<rparr>)" (is "_ = (_, ?src1)")
    and s1: "same_input (ic_input (ls_input src)) s1" by blast
  have max: "max_item_length vt s1 = window (ic_input (ls_input src)) div 3"
    using max_item [of s1] s1 by (simp add: same_input_def)
  have free1: "EVENT_DATA_LENGTH_FROM_DLEN (bh_free1 ?h) \<le> window (ic_input (ls_input src)) div 3"
  proof (cases "begins (lb_pieces lb)")
    case None
    then show ?thesis by (simp add: layout_header_def Let_def EVENT_DATA_LENGTH_FROM_DLEN_def)
  next
    case (Some n)
    then show ?thesis using layout_free1(1) [OF lb(1) Some] item(2) by simp
  qed
  then have items: "check_item_length vt ?src1 B = Inr ()"
    using max item(1) by (simp add: check_item_length_def Let_def)
  obtain src2 where fh: "read_file_header vt B ?src1 = (Inr (0, B, - 1), src2)" "ls_input src2 = ls_input ?src1"
    "ls_buffer_header src2 = ?h" "ls_swapping src2 = (\<not> native)" "ls_file_event src2 = ls_file_event src"
    "ls_last_buffer_no src2 = ls_last_buffer_no src" "ls_prev_record_release_to src2 = ?c"
    "ls_first_buf_status src2 = (if has_sticky (lb_pieces lb) then 0x20 else 0)"
    "ls_prev_record_release_to2 src2 = ls_prev_record_release_to2 src"
    "ls_close_is_error src2 = ls_close_is_error src"
    using layout_types [of B lb] by (auto simp: read_file_header_def Let_def warning_def)
  have used: "check_buf_used 0 B (- 1) src2 = (Inr (48, used_of (lb_pieces lb)), src2)"
    using layout_used [OF lb(2,1)] lb(1) by (simp add: check_buf_used_def Let_def fh(3) layout_types good_buffer_def)
  have no: "check_buffer_no expect src2 = (Inr (), src2)"
    using st by (auto simp: check_buffer_no_def Let_def fh standing_def)
  have inp: "ic_cur (ls_input src2) = ?c + 48" "same_input (ic_input (ls_input src)) (ic_input (ls_input src2))"
    using fh(2) s1 by simp_all
  from map_layout_data [OF st ah fh(3) inp] obtain cs s3 where mp:
    "map_buffer_data vt B 48 (used_of (lb_pieces lb)) src2 =
       (Inr True, src2\<lparr>ls_input := \<lparr>ic_input = s3, ic_cur = ?c + int B\<rparr>,
          ls_last_buffer_no := lb_no lb, ls_chunks := cs, ls_chunk_end := length cs,
          ls_events_left := of_nat (length (lb_pieces lb))\<rparr>)" (is "_ = (_, ?src3)")
    "same_input (ic_input (ls_input src)) s3" "?c + int B \<le> mapped s3"
    "two_chunks cs" "[] \<notin> set cs" "concat cs = pieces_bytes native (lb_pieces lb)" by blast
  have frag: "check_fragment expect (used_of (lb_pieces lb)) ?src3 = (Inr (), ?src3)"
    by (simp add: check_fragment_def fh(3) ex)
  have res: "read_record vt (Suc fuel) expect src = (Inr True, ?src3)"
    using hd items fh(1) used no mp(1) frag
    by (simp add: read_record_def read_buffer_def read_buffer_data_def layout_size [OF lb(2)])
  have st3: "standing native B bufs ?src3"
    by (rule standing_next [OF st]) (use mp(2) in simp_all)
  have ho3: "holding native (lb_pieces lb) ?src3"
    by (rule holding_layout [OF lb(1,2)]) (use mp(4-6) fh(3,4) in simp_all)
  show ?thesis using res st3 ho3 mp(2,3) fh by (intro exI [of _ ?src3]) simp
qed

lemma get_range_nonempty:
  assumes "two_chunks cs" and "[] \<notin> set cs" and "n < length (concat cs)"
  shows "\<exists>cs'. get_range cs n = (Some (take n (concat cs)), cs') \<and> two_chunks cs' \<and> [] \<notin> set cs' \<and>
           concat cs' = drop n (concat cs)"
  using assms by (elim two_chunks_cases) (auto simp: get_range_def Let_def)

lemma get_range_chunks_nonempty:
  assumes "two_chunks cs" and "[] \<notin> set cs" and "n \<le> length (concat cs)" and "0 < n"
  shows "\<exists>ds cs'. get_range_chunks cs n = (Some ds, cs') \<and> two_chunks cs' \<and> [] \<notin> set cs' \<and>
           concat cs' = drop n (concat cs) \<and> two_chunks ds \<and> [] \<notin> set ds \<and> concat ds = take n (concat cs)"
  using assms by (elim two_chunks_cases) (auto simp: get_range_chunks_def Let_def)

lemma take_piece_header:
  assumes "chunks_hold (pieces_bytes native (p # ps)) src" and "good_piece p"
  shows "\<exists>cs. get_range (ls_chunks src) 8 = (Some (order native (mem (words_of_event_header (piece_header p)))), cs) \<and>
           chunks_hold (pc_data p @ pieces_bytes native ps) (src\<lparr>ls_chunks := cs\<rparr>)"
proof -
  have "8 < length (concat (ls_chunks src))"
    using assms by (simp add: chunks_hold_def piece_bytes_def good_piece_def)
  from get_range_nonempty [OF _ _ this] assms show ?thesis
    by (auto simp: chunks_hold_def piece_bytes_def)
qed

lemma take_piece_data:
  assumes "chunks_hold (d @ b) src" and "d \<noteq> []"
  shows "\<exists>ds cs. get_range_chunks (ls_chunks src) (length d) = (Some ds, cs) \<and>
           chunks_hold b (src\<lparr>ls_chunks := cs\<rparr>) \<and> two_chunks ds \<and> [] \<notin> set ds \<and> concat ds = d"
  using get_range_chunks_nonempty [of "ls_chunks src" "length d"] assms by (auto simp: chunks_hold_def)

lemma piece_length:
  assumes "good_piece p" and "length (pc_data p) < 2 ^ 32"
  shows "EVENT_DATA_LENGTH_FROM_DLEN (eh_dlen (piece_header p)) = length (pc_data p)"
  using event_data_length_dlen [of "length (pc_data p)"] assms
  by (simp add: good_piece_def piece_header_def DLEN_FROM_EVENT_DATA_LENGTH_def)

lemma begins_Cons: "begins (p # ps) = (if ps = [] then pc_out p else begins ps)"
  by (simp add: begins_def)

lemma piece_header_type [simp]:
  "eh_type (piece_header p) = eh_type (pc_header p)" "eh_subtype (piece_header p) = eh_subtype (pc_header p)"
  by (simp_all add: piece_header_def)

lemma marked_fields [simp]:
  "marked native out (src\<lparr>ls_chunks := cs\<rparr>) = marked native out src"
  "marked native out (src\<lparr>ls_events_left := n\<rparr>) = marked native out src"
  "marked native out (set_event ev src) = marked native out src"
  by (simp_all add: marked_def)

lemma chunks_hold_fields [simp]:
  "chunks_hold b (src\<lparr>ls_events_left := n\<rparr>) = chunks_hold b src"
  "chunks_hold b (set_event ev src) = chunks_hold b src"
  by (simp_all add: chunks_hold_def)

lemma standing_fields [simp]:
  "standing native B bufs (src\<lparr>ls_chunks := cs\<rparr>) = standing native B bufs src"
  "standing native B bufs (src\<lparr>ls_events_left := n\<rparr>) = standing native B bufs src"
  "standing native B bufs (set_event ev src) = standing native B bufs src"
  "standing native B bufs (warning m src) = standing native B bufs src"
  "standing native B bufs (src\<lparr>ls_prev_record_release_to2 := i\<rparr>) = standing native B bufs src"
  by (simp_all add: standing_def set_event_def warning_def)

lemma ahead_fields [simp]:
  "ahead n (src\<lparr>ls_chunks := cs\<rparr>) = ahead n src"
  "ahead n (src\<lparr>ls_events_left := k\<rparr>) = ahead n src"
  "ahead n (set_event ev src) = ahead n src"
  "ahead n (warning m src) = ahead n src"
  "ahead n (src\<lparr>ls_prev_record_release_to2 := i\<rparr>) = ahead n src"
  by (simp_all add: ahead_def)

end

end
