(* ===== verification/Lmd_Reader.thy ===== *)
theory Lmd_Reader
  imports Lmd_Records Pipe_Buffer
begin

text \<open>
  The reader on a whole file: \<^verbatim>\<open>get_event\<close> delivers the events of a layout one after the other,
  fragments put together, and then reports the end of the input; the parts of the input that
  it releases in between are never needed again.
\<close>

section \<open>The event loop\<close>

text \<open>
  The loop over the events of a file, without the treatment of the events: the parts of the
  buffer that earlier events used are released, then the next event is taken.
\<close>

fun read_events :: "'s input_buffer \<Rightarrow> nat \<Rightarrow> nat \<Rightarrow> 's lmd_source \<Rightarrow> (lmd_event list, 's lmd_source) result" where
  "read_events vt fuel 0 src = (Inl Fuel, src)"
| "read_events vt fuel (Suc n) src =
     andthen (get_event vt fuel (release_events vt src)) (\<lambda>ev src.
       case ev of
         None \<Rightarrow> (Inr [], src)
       | Some ev \<Rightarrow> andthen (read_events vt fuel n src) (\<lambda>evs src. (Inr (ev # evs), src)))"

text \<open>The event that a segment stands for.\<close>

definition gives_event :: "bool \<Rightarrow> segment \<Rightarrow> lmd_event \<Rightarrow> bool" where
  "gives_event native = (\<lambda>(h, ds) ev.
     ev_header ev = h\<lparr>eh_dlen := of_nat (length (concat ds) div 2)\<rparr> \<and> ev_swapping ev = (\<not> native) \<and>
     concat (ev_chunks ev) = concat ds \<and> [] \<notin> set (ev_chunks ev) \<and> ev_subevents ev = None)"

lemma set_event_event [simp]: "ls_file_event (set_event ev src) = ev"
  by (simp add: set_event_def)

section \<open>Events of a layout\<close>

context input_source
begin

text \<open>An event that is not fragmented.\<close>

lemma take_whole_event:
  assumes ho: "holding native (p # ps) src" and p: "good_piece p" "length (pc_data p) < 2 ^ 32" "pc_out p = None"
    and alloc: "4 \<le> ev_chunk_alloc (ls_file_event src)"
  shows "\<exists>cs ds. take_event vt fuel src =
           (let ev = (ls_file_event src)\<lparr>ev_header := piece_header p, ev_swapping := \<not> native,
                       ev_status := ev_status (ls_file_event src) OR ls_first_buf_status src, ev_chunks := ds\<rparr>
            in (Inr (Some ev), (set_event ev src)\<lparr>ls_chunks := cs, ls_events_left := ls_events_left src - 1\<rparr>)) \<and>
           holding native ps (src\<lparr>ls_chunks := cs, ls_events_left := ls_events_left src - 1\<rparr>) \<and>
           [] \<notin> set ds \<and> concat ds = pc_data p"
proof -
  have m: "marked native (begins (p # ps)) src" "unat (ls_events_left src) = Suc (length ps)"
    "chunks_hold (pieces_bytes native (p # ps)) src"
    using ho by (simp_all add: holding_def)
  from take_piece_header [OF m(3) p(1)] obtain cs1 where
    g1: "get_range (ls_chunks src) 8 = (Some (order native (mem (words_of_event_header (piece_header p)))), cs1)"
      "chunks_hold (pc_data p @ pieces_bytes native ps) (src\<lparr>ls_chunks := cs1\<rparr>)" by blast
  from take_piece_data [OF g1(2)] p(1) obtain ds cs2 where
    g2: "get_range_chunks cs1 (length (pc_data p)) = (Some ds, cs2)"
      "chunks_hold (pieces_bytes native ps) (src\<lparr>ls_chunks := cs1, ls_chunks := cs2\<rparr>)"
      "two_chunks ds" "[] \<notin> set ds" "concat ds = pc_data p"
    by (auto simp: good_piece_def)
  have left: "unat (ls_events_left src - 1) = length ps"
    using m(2) by (subst unat_sub) (auto simp: word_le_nat_alt)
  have whole: "ls_events_left src - 1 > 0 \<or> bh_begin (ls_buffer_header src) = 0"
  proof (cases "ps = []")
    case True
    then show ?thesis using m(1) p(3) by (simp add: marked_def begins_Cons)
  next
    case False
    then have "unat (ls_events_left src - 1) > 0" using left by simp
    then show ?thesis by (simp add: unat_gt_0 word_gt_0)
  qed
  have two: "two_chunks cs1" using g1(2) by (simp add: chunks_hold_def)
  have "take_event vt fuel src =
      (let ev = (ls_file_event src)\<lparr>ev_header := piece_header p, ev_swapping := \<not> native,
                  ev_status := ev_status (ls_file_event src) OR ls_first_buf_status src, ev_chunks := ds\<rparr>
       in (Inr (Some ev), (set_event ev src)\<lparr>ls_chunks := cs2, ls_events_left := ls_events_left src - 1\<rparr>))"
    using g1(1) g2(1) whole m(1) two alloc piece_length [OF p(1,2)]
    by (simp add: take_event_def Let_def marked_def get_whole_event_def set_event_def)
  moreover have "holding native ps (src\<lparr>ls_chunks := cs2, ls_events_left := ls_events_left src - 1\<rparr>)"
    using g2(2) m(1) left by (cases "ps = []") (simp_all add: holding_def begins_Cons chunks_hold_def)
  ultimately show ?thesis using g2(4,5) by blast
qed

text \<open>The reader has gone on by \<open>k\<close> buffers.\<close>

definition advance :: "nat \<Rightarrow> nat \<Rightarrow> 's lmd_source \<Rightarrow> 's lmd_source \<Rightarrow> bool" where
  "advance B k src src' \<longleftrightarrow>
     same_input (ic_input (ls_input src)) (ic_input (ls_input src')) \<and>
     ic_cur (ls_input src') = ic_cur (ls_input src) + int (k * B) \<and>
     (if k = 0 then ls_prev_record_release_to src' = ls_prev_record_release_to src
      else ls_prev_record_release_to src' = ic_cur (ls_input src') - int B \<and>
           ic_cur (ls_input src') \<le> mapped (ic_input (ls_input src'))) \<and>
     ls_prev_record_release_to2 src' = ls_prev_record_release_to2 src \<and>
     ls_close_is_error src' = ls_close_is_error src"

lemma advance_trans:
  "advance B j a b \<Longrightarrow> advance B k b c \<Longrightarrow> advance B (j + k) a c"
  by (auto simp: advance_def same_input_def algebra_simps split: if_splits)

lemma advance_fields [simp]:
  "advance B k src (src'\<lparr>ls_chunks := cs\<rparr>) = advance B k src src'"
  "advance B k src (src'\<lparr>ls_events_left := n\<rparr>) = advance B k src src'"
  "advance B k src (set_event ev src') = advance B k src src'"
  "advance B k (src\<lparr>ls_chunks := cs\<rparr>) src' = advance B k src src'"
  "advance B k (src\<lparr>ls_events_left := n\<rparr>) src' = advance B k src src'"
  "advance B k (set_event ev src) src' = advance B k src src'"
  "advance B k (warning m src) src' = advance B k src src'"
  by (simp_all add: advance_def set_event_def warning_def)

lemma ahead_mono: "ahead n src \<Longrightarrow> m \<le> n \<Longrightarrow> ahead m src"
  by (auto simp: ahead_def)

lemma ahead_advance: "advance B k src src' \<Longrightarrow> ahead (n + k * B) src \<Longrightarrow> ahead n src'"
  by (auto simp: advance_def ahead_def same_input_def)

text \<open>The sizes that the reader checks against the input buffer.\<close>

definition fitting :: "nat \<Rightarrow> layout_buffer list \<Rightarrow> 's lmd_source \<Rightarrow> bool" where
  "fitting B bufs src \<longleftrightarrow>
     B \<le> window (ic_input (ls_input src)) div 3 \<and>
     (\<forall>lb \<in> set bufs. \<forall>n. begins (lb_pieces lb) = Some n \<longrightarrow> n \<le> window (ic_input (ls_input src)) div 3)"

lemma fitting_fields [simp]:
  "fitting B bufs (src\<lparr>ls_chunks := cs\<rparr>) = fitting B bufs src"
  "fitting B bufs (src\<lparr>ls_events_left := n\<rparr>) = fitting B bufs src"
  "fitting B bufs (set_event ev src) = fitting B bufs src"
  "fitting B bufs (warning m src) = fitting B bufs src"
  "fitting B bufs (src\<lparr>ls_prev_record_release_to2 := i\<rparr>) = fitting B bufs src"
  by (simp_all add: fitting_def)

lemma fitting_advance: "fitting B (lb # bufs) src \<Longrightarrow> advance B k src src' \<Longrightarrow> fitting B bufs src'"
  by (auto simp: fitting_def advance_def same_input_def)

lemma read_next_record:
  assumes "standing native B (lb # bufs) src" and "ahead B src" and "fitting B (lb # bufs) src"
    and "expect = ends (lb_pieces lb)"
  shows "\<exists>src'. read_record vt (Suc fuel) expect src = (Inr True, src') \<and> standing native B bufs src' \<and>
           holding native (lb_pieces lb) src' \<and> advance B 1 src src' \<and> ls_file_event src' = ls_file_event src \<and>
           ls_first_buf_status src' = (if has_sticky (lb_pieces lb) then 0x20 else 0)"
  using read_layout_record [OF assms(1,2) _ _ assms(4), of fuel] assms(3)
  by (auto simp: fitting_def advance_def)

lemma next_layout_fragment:
  assumes st: "standing native B (lb # bufs) src" and "ahead B src" and "fitting B (lb # bufs) src"
    and lb: "lb_pieces lb = q # qs" "pc_in q"
    and ev: "ev_swapping (ls_file_event src) = (\<not> native)"
      "eh_type (pc_header q) = eh_type (ev_header (ls_file_event src))"
      "eh_subtype (pc_header q) = eh_subtype (ev_header (ls_file_event src))"
  shows "\<exists>src'. next_fragment vt (Suc fuel) src = (Inr (piece_header q), src') \<and> standing native B bufs src' \<and>
           chunks_hold (pc_data q @ pieces_bytes native qs) src' \<and> marked native (begins (q # qs)) src' \<and>
           unat (ls_events_left src') = Suc (length qs) \<and> advance B 1 src src' \<and>
           ls_file_event src' = ls_file_event src"
proof -
  have "ends (lb_pieces lb)" using lb by (simp add: ends_def)
  from read_next_record [OF assms(1-3), of True fuel] this obtain src1 where
    rr: "read_record vt (Suc fuel) True src = (Inr True, src1)" "standing native B bufs src1"
      "holding native (q # qs) src1" "advance B 1 src src1" "ls_file_event src1 = ls_file_event src"
    using lb(1) by auto
  have "good_piece q" using st lb(1) by (simp add: standing_def Let_def good_buffer_def)
  with take_piece_header [of native q qs src1] rr(3) obtain cs where
    "get_range (ls_chunks src1) 8 = (Some (order native (mem (words_of_event_header (piece_header q)))), cs)"
    "chunks_hold (pc_data q @ pieces_bytes native qs) (src1\<lparr>ls_chunks := cs\<rparr>)"
    by (auto simp: holding_def)
  then show ?thesis
    using rr ev by (auto simp: next_fragment_def holding_def marked_def)
qed

lemma take_layout_fragment:
  assumes "chunks_hold d src" and "length d \<le> tot" and "room (ls_file_event src)"
  shows "\<exists>a. take_fragment (length d) tot src =
           (Inr (), set_event ((ls_file_event src)\<lparr>ev_chunk_alloc := a,
              ev_chunks := ev_chunks (ls_file_event src) @ ls_chunks src\<rparr>) src) \<and>
           room ((ls_file_event src)\<lparr>ev_chunk_alloc := a, ev_chunks := ev_chunks (ls_file_event src) @ ls_chunks src\<rparr>)"
proof -
  have two: "two_chunks (ls_chunks src)" and len: "length (concat (ls_chunks src)) = length d"
    using assms(1) by (auto simp: chunks_hold_def)
  from two have cp: "copy_range [] (ls_chunks src) = Inr (ls_chunks src, length (concat (ls_chunks src)))"
    by (rule two_chunks_cases) (simp_all add: copy_range_def)
  have "\<exists>a. reserve_chunks (ls_file_event src) = (ls_file_event src)\<lparr>ev_chunk_alloc := a\<rparr> \<and>
      length (ev_chunks (ls_file_event src)) + 4 \<le> a \<and> 4 \<le> a"
  proof (cases "ev_chunk_alloc (ls_file_event src) < length (ev_chunks (ls_file_event src)) + 4")
    case True
    then show ?thesis using assms(3)
      by (intro exI [of _ "2 * ev_chunk_alloc (ls_file_event src)"]) (auto simp: reserve_chunks_def room_def)
  next
    case False
    then show ?thesis using assms(3)
      by (intro exI [of _ "ev_chunk_alloc (ls_file_event src)"]) (auto simp: reserve_chunks_def room_def)
  qed
  then obtain a where a: "reserve_chunks (ls_file_event src) = (ls_file_event src)\<lparr>ev_chunk_alloc := a\<rparr>"
    "length (ev_chunks (ls_file_event src)) + 4 \<le> a" "4 \<le> a" by blast
  show ?thesis
    using assms(2) cp len two a(2,3)
    by (intro exI [of _ a]) (simp add: take_fragment_def add_chunks_def room_def Let_def a(1))
qed

lemma frags_nonempty: "list_all good_piece (frags h n i ds @ rest) \<Longrightarrow> ds \<noteq> [] \<Longrightarrow> concat ds \<noteq> []"
  by (cases ds) (auto simp: frags_Cons good_piece_def)

lemma standing_pieces: "standing native B bufs src \<Longrightarrow> list_all good_piece (concat (map lb_pieces bufs))"
  by (auto simp: standing_def Let_def good_buffer_def list_all_iff)

text \<open>All fragments of an event but the last are collected, and the header of the last is read.\<close>

lemma get_layout_fragments:
  assumes "chunks_hold d src" and "standing native B bufs src" and "ahead (length ds * B) src" and "fitting B bufs src"
    and "concat (map lb_pieces bufs) = frags h n True ds @ rest" and "ds \<noteq> []" and "length ds \<le> k"
    and "room (ls_file_event src)" and "ev_swapping (ls_file_event src) = (\<not> native)"
    and "eh_type h = eh_type (ev_header (ls_file_event src))" and "eh_subtype h = eh_subtype (ev_header (ls_file_event src))"
  shows "\<exists>src' ps' bufs' cs a.
           get_fragments vt (Suc fuel) k (length d) (length d + length (concat ds)) src = (Inr (length (last ds)), src') \<and>
           chunks_hold (last ds @ pieces_bytes native ps') src' \<and> (ps' \<noteq> [] \<longrightarrow> marked native (begins ps') src') \<and>
           unat (ls_events_left src') = Suc (length ps') \<and> standing native B bufs' src' \<and> fitting B bufs' src' \<and>
           rest = ps' @ concat (map lb_pieces bufs') \<and> advance B (length ds) src src' \<and>
           ls_file_event src' = (ls_file_event src)\<lparr>ev_chunk_alloc := a, ev_chunks := ev_chunks (ls_file_event src) @ cs\<rparr> \<and>
           room (ls_file_event src') \<and> [] \<notin> set cs \<and> concat cs = d @ concat (butlast ds) \<and>
           last ds \<noteq> [] \<and> (\<exists>q lb. lb_pieces lb = q # ps' \<and> good_buffer B lb)"
  using assms
proof (induction ds arbitrary: d src bufs k)
  case Nil
  then show ?case by simp
next
  case (Cons e ds)
  let ?ev = "ls_file_event src"
  let ?q = "\<lparr>pc_header = h, pc_data = e, pc_in = True, pc_out = (if ds = [] then None else Some n)\<rparr>"
  obtain k' where k: "k = Suc k'" "length ds \<le> k'" using Cons.prems(7) by (cases k) auto
  have "\<forall>lb \<in> set bufs. lb_pieces lb \<noteq> []"
    using Cons.prems(2) by (auto simp: standing_def Let_def good_buffer_def list_all_iff)
  then obtain lb bufs1 qs where bufs: "bufs = lb # bufs1" "lb_pieces lb = ?q # qs"
    and rest: "qs @ concat (map lb_pieces bufs1) = frags h n True ds @ rest"
    using Cons.prems(5) by (cases bufs; cases "lb_pieces (hd bufs)") (auto simp: frags_Cons)
  have lb: "good_buffer B lb" "good_size B" using Cons.prems(2) bufs(1) by (simp_all add: standing_def Let_def)
  have e: "good_piece ?q" "e \<noteq> []" "length e < 2 ^ 32"
    using lb good_sizeD(2) [OF lb(2)] bufs(2) by (auto simp: good_buffer_def good_piece_def)
  from take_layout_fragment [OF Cons.prems(1) _ Cons.prems(8), of "length d + length (concat (e # ds))"]
  obtain a where tf: "take_fragment (length d) (length d + length (concat (e # ds))) src =
      (Inr (), set_event (?ev\<lparr>ev_chunk_alloc := a, ev_chunks := ev_chunks ?ev @ ls_chunks src\<rparr>) src)"
    "room (?ev\<lparr>ev_chunk_alloc := a, ev_chunks := ev_chunks ?ev @ ls_chunks src\<rparr>)" by auto
  let ?src1 = "set_event (?ev\<lparr>ev_chunk_alloc := a, ev_chunks := ev_chunks ?ev @ ls_chunks src\<rparr>) src"
  have st1: "standing native B (lb # bufs1) ?src1" "ahead B ?src1" "fitting B (lb # bufs1) ?src1"
    using Cons.prems(2-4) bufs(1) by (auto elim: ahead_mono)
  from next_layout_fragment [OF st1 bufs(2), of fuel] Cons.prems(9-11) obtain src2 where
    nf: "next_fragment vt (Suc fuel) ?src1 = (Inr (piece_header ?q), src2)" "standing native B bufs1 src2"
      "chunks_hold (e @ pieces_bytes native qs) src2" "marked native (begins (?q # qs)) src2"
      "unat (ls_events_left src2) = Suc (length qs)" "advance B 1 src src2"
      "ls_file_event src2 = ls_file_event ?src1" by auto
  have es: "EVENT_DATA_LENGTH_FROM_DLEN (eh_dlen (piece_header ?q)) = length e"
    using piece_length [OF e(1)] e(3) by simp
  have fit2: "fitting B bufs1 src2" using fitting_advance [OF _ nf(6)] Cons.prems(4) bufs(1) by simp
  have d: "concat (ls_chunks src) = d" "[] \<notin> set (ls_chunks src)" using Cons.prems(1) by (simp_all add: chunks_hold_def)
  show ?case
  proof (cases "ds = []")
    case True
    have "get_fragments vt (Suc fuel) k (length d) (length d + length (concat (e # ds))) src = (Inr (length e), src2)"
      using tf(1) nf(1) es k(1) True by simp
    moreover have "qs \<noteq> [] \<longrightarrow> marked native (begins qs) src2"
      using nf(4) by (cases "qs = []") (simp_all add: begins_Cons)
    ultimately show ?thesis
      using True nf fit2 tf(2) rest d e(2) bufs(2) lb(1)
      by (intro exI [of _ src2] exI [of _ qs] exI [of _ bufs1] exI [of _ "ls_chunks src"] exI [of _ a]) auto
  next
    case False
    then have qs: "qs = []" using lb(1) bufs(2) by (cases qs) (auto simp: good_buffer_def)
    have ne: "length (concat ds) \<noteq> 0"
      using frags_nonempty [of h n True ds rest] standing_pieces [OF nf(2)] rest qs False by simp
    have "bh_begin (ls_buffer_header src2) = 1" using nf(4) qs False by (simp add: marked_def begins_Cons)
    moreover have "ls_events_left src2 = 1" using nf(5) qs by (simp add: word_unat_eq_iff)
    ultimately have step: "get_fragments vt (Suc fuel) k (length d) (length d + length (concat (e # ds))) src =
        get_fragments vt (Suc fuel) k' (length e) (length e + length (concat ds)) src2"
      using tf(1) nf(1) es k(1) ne by (auto simp: Let_def)
    have hold: "chunks_hold e src2" using nf(3) qs by simp
    have ah: "ahead (length ds * B) src2" using ahead_advance [OF nf(6)] Cons.prems(3) by (simp add: add.commute)
    have rest2: "concat (map lb_pieces bufs1) = frags h n True ds @ rest" using rest qs by simp
    have ev2: "room (ls_file_event src2)" "ev_swapping (ls_file_event src2) = (\<not> native)"
      "eh_type h = eh_type (ev_header (ls_file_event src2))" "eh_subtype h = eh_subtype (ev_header (ls_file_event src2))"
      using tf(2) nf(7) Cons.prems(9-11) by simp_all
    from Cons.IH [OF hold nf(2) ah fit2 rest2 False k(2) ev2] obtain src' ps' bufs' cs a' where
      ih: "get_fragments vt (Suc fuel) k' (length e) (length e + length (concat ds)) src2 = (Inr (length (last ds)), src')"
        "chunks_hold (last ds @ pieces_bytes native ps') src'" "ps' \<noteq> [] \<longrightarrow> marked native (begins ps') src'"
        "unat (ls_events_left src') = Suc (length ps')" "standing native B bufs' src'" "fitting B bufs' src'"
        "rest = ps' @ concat (map lb_pieces bufs')" "advance B (length ds) src2 src'"
        "ls_file_event src' = (ls_file_event src2)\<lparr>ev_chunk_alloc := a', ev_chunks := ev_chunks (ls_file_event src2) @ cs\<rparr>"
        "room (ls_file_event src')" "[] \<notin> set cs" "concat cs = e @ concat (butlast ds)" "last ds \<noteq> []"
        "\<exists>q lb. lb_pieces lb = q # ps' \<and> good_buffer B lb"
      by blast
    have "advance B (length (e # ds)) src src'" using advance_trans [OF nf(6) ih(8)] by simp
    moreover have "ls_file_event src' =
        ?ev\<lparr>ev_chunk_alloc := a', ev_chunks := ev_chunks ?ev @ (ls_chunks src @ cs)\<rparr>"
      using ih(9) nf(7) by simp
    moreover have "[] \<notin> set (ls_chunks src @ cs)" "concat (ls_chunks src @ cs) = d @ concat (butlast (e # ds))"
      "last (e # ds) = last ds"
      using d ih(11,12) False by simp_all
    ultimately show ?thesis
      unfolding step using ih(1-7,10,13,14) by metis
  qed
qed

text \<open>A fragmented event: its first fragment is the last piece of the current buffer.\<close>

lemma take_fragmented_event:
  assumes ho: "holding native [p] src" and st: "standing native B bufs src" and ah: "ahead (length ds * B) src"
    and fit: "fitting B bufs src" and p: "good_piece p" "length (pc_data p) < 2 ^ 32"
    and out: "pc_out p = Some (length (concat (pc_data p # ds)))"
    and ds: "concat (map lb_pieces bufs) = frags (pc_header p) n True ds @ rest" "ds \<noteq> []" "length ds \<le> fuel"
    and alloc: "4 \<le> ev_chunk_alloc (ls_file_event src)" and sub: "ev_subevents (ls_file_event src) = None"
  shows "\<exists>ev src' ps' bufs'. take_event vt (Suc fuel) src = (Inr (Some ev), src') \<and>
           gives_event native (pc_header p, pc_data p # ds) ev \<and> ls_file_event src' = ev \<and>
           4 \<le> ev_chunk_alloc ev \<and> holding native ps' src' \<and> standing native B bufs' src' \<and> fitting B bufs' src' \<and>
           rest = ps' @ concat (map lb_pieces bufs') \<and> advance B (length ds) src src' \<and>
           (\<exists>q lb. lb_pieces lb = q # ps' \<and> good_buffer B lb)"
proof -
  let ?n = "length (pc_data p) + length (concat ds)" and ?ev = "ls_file_event src"
  have m: "marked native (Some ?n) src" "ls_events_left src = 1"
    "chunks_hold (pieces_bytes native [p]) src"
    using ho out by (simp_all add: holding_def begins_Cons word_unat_eq_iff)
  from take_piece_header [OF m(3) p(1)] obtain cs1 where
    g1: "get_range (ls_chunks src) 8 = (Some (order native (mem (words_of_event_header (piece_header p)))), cs1)"
      "chunks_hold (pc_data p) (src\<lparr>ls_chunks := cs1\<rparr>)" by auto
  define src1 where "src1 = set_event (?ev\<lparr>ev_swapping := \<not> native, ev_status := ev_status ?ev OR ls_first_buf_status src,
      ev_header := (piece_header p)\<lparr>eh_dlen := of_nat (?n div 2)\<rparr>, ev_chunks := []\<rparr>)
      (src\<lparr>ls_chunks := cs1, ls_events_left := 0\<rparr>)"
  have n: "EVENT_DATA_LENGTH_FROM_DLEN (of_nat (?n div 2)) = ?n" using m(1) by (auto simp: marked_def)
  have step: "take_event vt (Suc fuel) src = andthen (get_fragments vt (Suc fuel) (Suc fuel) (length (pc_data p)) ?n src1)
      (\<lambda>event_size src.
                let src = src\<lparr>ls_events_left := ls_events_left src - 1\<rparr>;
                    (got, chunks) = get_range_chunks (ls_chunks src) event_size;
                    src = src\<lparr>ls_chunks := chunks\<rparr>
                in case got of
                     None \<Rightarrow> (Inl (Err ''Final fragment larger than record.''), src)
                   | Some cs \<Rightarrow>
                       (case add_chunks cs (ls_file_event src) of
                          Inl e \<Rightarrow> (Inl e, src)
                        | Inr dest \<Rightarrow> (Inr (Some dest), set_event dest src)))"
    using g1(1) m(1,2) piece_length [OF p] n
    by (simp add: take_event_def get_fragmented_event_def marked_def Let_def src1_def set_event_def
        del: get_fragments.simps)
  have src1: "chunks_hold (pc_data p) src1" "standing native B bufs src1" "ahead (length ds * B) src1"
    "fitting B bufs src1" "room (ls_file_event src1)" "ev_swapping (ls_file_event src1) = (\<not> native)"
    "eh_type (pc_header p) = eh_type (ev_header (ls_file_event src1))"
    "eh_subtype (pc_header p) = eh_subtype (ev_header (ls_file_event src1))"
    using g1(2) st ah fit alloc by (simp_all add: src1_def room_def)
  from get_layout_fragments [OF src1(1-4) ds(1,2) _ src1(5-8), of "Suc fuel" fuel, OF le_SucI [OF ds(3)]]
  obtain src2 ps' bufs' cs a where
    gf: "get_fragments vt (Suc fuel) (Suc fuel) (length (pc_data p)) ?n src1 = (Inr (length (last ds)), src2)"
      "chunks_hold (last ds @ pieces_bytes native ps') src2" "ps' \<noteq> [] \<longrightarrow> marked native (begins ps') src2"
      "unat (ls_events_left src2) = Suc (length ps')" "standing native B bufs' src2" "fitting B bufs' src2"
      "rest = ps' @ concat (map lb_pieces bufs')" "advance B (length ds) src1 src2"
      "ls_file_event src2 = (ls_file_event src1)\<lparr>ev_chunk_alloc := a, ev_chunks := ev_chunks (ls_file_event src1) @ cs\<rparr>"
      "room (ls_file_event src2)" "[] \<notin> set cs" "concat cs = pc_data p @ concat (butlast ds)"
      "last ds \<noteq> []" "\<exists>q lb. lb_pieces lb = q # ps' \<and> good_buffer B lb"
    by blast
  from take_piece_data [OF gf(2,13)] obtain es cs2 where
    g2: "get_range_chunks (ls_chunks src2) (length (last ds)) = (Some es, cs2)"
      "chunks_hold (pieces_bytes native ps') (src2\<lparr>ls_chunks := cs2\<rparr>)" "two_chunks es" "[] \<notin> set es" "concat es = last ds"
    by blast
  let ?ev2 = "(ls_file_event src2)\<lparr>ev_chunks := ev_chunks (ls_file_event src2) @ es\<rparr>"
  let ?src2 = "set_event ?ev2 (src2\<lparr>ls_events_left := ls_events_left src2 - 1, ls_chunks := cs2\<rparr>)"
  have add: "add_chunks es (ls_file_event src2) = Inr ?ev2"
    using gf(10) g2(3) by (auto simp: add_chunks_def room_def elim!: two_chunks_cases)
  have "take_event vt (Suc fuel) src = (Inr (Some ?ev2), ?src2)"
    using step gf(1) g2(1) add by (simp add: Let_def del: get_fragments.simps)
  moreover have "concat (butlast ds) @ last ds = concat ds"
    using ds(2) by (metis append_butlast_last_id concat.simps concat_append append_Nil2)
  then have "gives_event native (pc_header p, pc_data p # ds) ?ev2"
    using gf(9,11,12) g2(4,5) sub by (simp add: gives_event_def src1_def piece_header_def set_event_def)
  moreover have "unat (ls_events_left src2 - 1) = length ps'"
    using gf(4) by (subst unat_sub) (auto simp: word_le_nat_alt)
  then have "holding native ps' ?src2" using g2(2) gf(3) by (simp add: holding_def chunks_hold_def)
  moreover have "4 \<le> ev_chunk_alloc ?ev2" using gf(10) by (simp add: room_def)
  moreover have "advance B (length ds) src ?src2" using gf(8) by (simp add: src1_def)
  ultimately show ?thesis using gf(5-7,14)
    by (intro exI [of _ ?ev2] exI [of _ ?src2] exI [of _ ps'] exI [of _ bufs']) simp
qed

text \<open>
  The reader is between two events: \<open>ps\<close> are in the current buffer, \<open>bufs\<close> come after it, and
  together they hold the events \<open>segs\<close>.
\<close>

definition between :: "bool \<Rightarrow> nat \<Rightarrow> segment list \<Rightarrow> 's lmd_source \<Rightarrow> bool" where
  "between native B segs src \<longleftrightarrow>
     (\<exists>ps bufs. lays_out B segs ps bufs \<and> holding native ps src \<and> standing native B bufs src \<and> fitting B bufs src) \<and>
     4 \<le> ev_chunk_alloc (ls_file_event src)"

lemma holding_fields [simp]:
  "holding native ps (set_event ev src) = holding native ps src"
  "holding native ps (src\<lparr>ls_prev_record_release_to2 := i\<rparr>) = holding native ps src"
  "holding native ps (src\<lparr>ls_input := ic\<rparr>) = holding native ps src"
  by (simp_all add: holding_def marked_def chunks_hold_def set_event_def)

lemma lays_out_Cons:
  assumes "lays_out B ((h, ds) # segs) (p # ps) bufs"
  shows "\<exists>d ds'. ds = d # ds' \<and> p = \<lparr>pc_header = h, pc_data = d, pc_in = False,
           pc_out = (if ds' = [] then None else Some (length (concat ds)))\<rparr> \<and> good_piece p \<and> length d < B \<and>
           ps @ concat (map lb_pieces bufs) =
             frags h (length (concat ds)) True ds' @ concat (map segment_pieces segs) \<and>
           (ds' \<noteq> [] \<longrightarrow> ps = [])"
proof -
  obtain d ds' where ds: "ds = d # ds'" using assms by (cases ds) (auto simp: lays_out_def good_segment_def)
  have "p # ps @ concat (map lb_pieces bufs) = frags h (length (concat ds)) False ds @ concat (map segment_pieces segs)"
    using assms by (simp add: lays_out_def segment_pieces_def)
  then show ?thesis using assms ds
    by (cases ps) (auto simp: lays_out_def frags_Cons split: if_splits)
qed

lemma lays_out_rest:
  assumes "lays_out B (seg # segs) (p # ps) bufs" and "ps @ concat (map lb_pieces bufs) = concat (map segment_pieces segs)"
  shows "lays_out B segs ps bufs"
  using assms by (cases ps) (auto simp: lays_out_def)

lemma take_layout_event:
  assumes lo: "lays_out B ((h, ds) # segs) (p # ps) bufs" and ho: "holding native (p # ps) src"
    and st: "standing native B bufs src" and fit: "fitting B bufs src" and ah: "ahead (length (tl ds) * B) src"
    and fuel: "length ds \<le> fuel"
    and ev: "4 \<le> ev_chunk_alloc (ls_file_event src)" "ev_subevents (ls_file_event src) = None"
  shows "\<exists>ev src'. take_event vt fuel src = (Inr (Some ev), src') \<and> gives_event native (h, ds) ev \<and>
           between native B segs src' \<and> advance B (length (tl ds)) src src'"
proof -
  from lays_out_Cons [OF lo] obtain d ds' where ds: "ds = d # ds'"
    "p = \<lparr>pc_header = h, pc_data = d, pc_in = False, pc_out = (if ds' = [] then None else Some (length (concat ds)))\<rparr>"
    "good_piece p" "length d < B" "ds' \<noteq> [] \<longrightarrow> ps = []"
    "ps @ concat (map lb_pieces bufs) = frags h (length (concat ds)) True ds' @ concat (map segment_pieces segs)"
    by blast
  have len: "length (pc_data p) < 2 ^ 32"
    using ds(2,4) good_sizeD(2) [of B] st by (auto simp: standing_def Let_def)
  show ?thesis
  proof (cases "ds' = []")
    case True
    with ds(2) have "pc_out p = None" by simp
    from take_whole_event [OF ho ds(3) len this ev(1), of fuel] obtain cs es where
      t: "take_event vt fuel src =
           (let ev = (ls_file_event src)\<lparr>ev_header := piece_header p, ev_swapping := \<not> native,
                       ev_status := ev_status (ls_file_event src) OR ls_first_buf_status src, ev_chunks := es\<rparr>
            in (Inr (Some ev), (set_event ev src)\<lparr>ls_chunks := cs, ls_events_left := ls_events_left src - 1\<rparr>))"
        "holding native ps (src\<lparr>ls_chunks := cs, ls_events_left := ls_events_left src - 1\<rparr>)"
        "[] \<notin> set es" "concat es = pc_data p" by blast
    have "lays_out B segs ps bufs" using lays_out_rest [OF lo] ds(6) True by simp
    then have "between native B segs (set_event ev (src\<lparr>ls_chunks := cs, ls_events_left := ls_events_left src - 1\<rparr>))"
      if "4 \<le> ev_chunk_alloc ev" for ev
      using t(2) st fit that unfolding between_def
      by (intro conjI exI [of _ ps] exI [of _ bufs]) simp_all
    moreover have "advance B 0 src src" using st by (simp add: advance_def same_input_def standing_def Let_def)
    moreover have "(set_event ev src)\<lparr>ls_chunks := cs, ls_events_left := n\<rparr> =
        set_event ev (src\<lparr>ls_chunks := cs, ls_events_left := n\<rparr>)" for ev n by (simp add: set_event_def)
    ultimately show ?thesis
      using t(1,3,4) ds(1,2) True ev by (auto simp: gives_event_def Let_def piece_header_def)
  next
    case False
    then have ps: "ps = []" and out: "pc_out p = Some (length (concat (pc_data p # ds')))" "h = pc_header p"
      using ds(1,2,5) by simp_all
    then have bufs: "concat (map lb_pieces bufs) =
        frags (pc_header p) (length (concat ds)) True ds' @ concat (map segment_pieces segs)" using ds(6) by simp
    have e: "pc_header p = h" "pc_data p # ds' = ds" using ds(1,2) by simp_all
    obtain fuel' where f: "fuel = Suc fuel'" "length ds' \<le> fuel'" using fuel ds(1) by (cases fuel) auto
    have ho': "holding native [p] src" "ahead (length ds' * B) src" using ho ps ah ds(1) by simp_all
    from take_fragmented_event [OF ho'(1) st ho'(2) fit ds(3) len out(1) bufs False f(2) ev]
    obtain ev src' ps' bufs' where t: "take_event vt fuel src = (Inr (Some ev), src')"
      "gives_event native (h, ds) ev" "ls_file_event src' = ev" "4 \<le> ev_chunk_alloc ev" "holding native ps' src'"
      "standing native B bufs' src'" "fitting B bufs' src'" "advance B (length ds') src src'"
      "concat (map segment_pieces segs) = ps' @ concat (map lb_pieces bufs')"
      "\<exists>q lb. lb_pieces lb = q # ps' \<and> good_buffer B lb"
      unfolding e f(1) by blast
    have "lays_out B segs ps' bufs'"
      using t(9,10) lo t(6) by (cases ps') (auto simp: lays_out_def standing_def Let_def good_buffer_def split: if_splits)
    then have "between native B segs src'" using t(3-7) by (auto simp: between_def)
    then show ?thesis using t(1,2,8) ds(1) by auto
  qed
qed

lemma holding_Nil: "holding native [] src \<Longrightarrow> ls_chunks src = []"
  by (cases "ls_chunks src") (auto simp: holding_def chunks_hold_def)

lemma holding_Cons: "holding native (p # ps) src \<Longrightarrow> ls_chunks src \<noteq> []"
  using length_pieces_bytes [of native "p # ps"] by (auto simp: holding_def chunks_hold_def simp del: pieces_bytes_simps)

lemma warning_event [simp]: "ls_file_event (warning m src) = ls_file_event src"
  by (simp add: warning_def)

lemma enter_layout_buffer:
  assumes "lays_out B (seg # segs) [] bufs"
  shows "\<exists>lb bufs' p ps. bufs = lb # bufs' \<and> lb_pieces lb = p # ps \<and> lays_out B (seg # segs) (p # ps) bufs' \<and>
           \<not> ends (lb_pieces lb)"
proof -
  obtain h d ds where seg: "seg = (h, d # ds)"
    using assms by (cases seg; cases "snd seg") (auto simp: lays_out_def good_segment_def)
  then obtain lb bufs' where bufs: "bufs = lb # bufs'" "good_buffer B lb"
    using assms by (cases bufs) (auto simp: lays_out_def segment_pieces_def)
  then obtain p ps where p: "lb_pieces lb = p # ps" by (cases "lb_pieces lb") (auto simp: good_buffer_def)
  have "lays_out B (seg # segs) (p # ps) bufs'"
    using assms bufs p by (auto simp: lays_out_def good_buffer_def)
  moreover from this have "\<not> ends (lb_pieces lb)" using lays_out_Cons [of B h "d # ds" segs p ps bufs'] p seg
    by (auto simp: ends_def)
  ultimately show ?thesis using bufs p by blast
qed

lemma get_layout_event:
  assumes bw: "between native B ((h, ds) # segs) src" and ah: "ahead (length ds * B) src" and fuel: "length ds < fuel"
  shows "\<exists>ev src' k. get_event vt fuel src = (Inr (Some ev), src') \<and> gives_event native (h, ds) ev \<and>
           between native B segs src' \<and> k \<le> length ds \<and>
           advance B k (src\<lparr>ls_prev_record_release_to2 := ls_prev_record_release_to src\<rparr>) src'"
proof -
  let ?dest = "(ls_file_event src)\<lparr>ev_status := 0, ev_subevents := None\<rparr>"
  define src0 where "src0 = (set_event ?dest src)\<lparr>ls_prev_record_release_to2 := ls_prev_record_release_to src\<rparr>"
  have get: "get_event vt fuel src = get_event_loop vt fuel fuel src0" by (simp add: get_event_def src0_def)
  from bw obtain ps bufs where b: "lays_out B ((h, ds) # segs) ps bufs" "holding native ps src"
    "standing native B bufs src" "fitting B bufs src" "4 \<le> ev_chunk_alloc (ls_file_event src)"
    by (auto simp: between_def)
  then have b0: "holding native ps src0" "standing native B bufs src0" "fitting B bufs src0"
    "4 \<le> ev_chunk_alloc (ls_file_event src0)" "ev_subevents (ls_file_event src0) = None" "ahead (length ds * B) src0"
    using ah by (simp_all add: src0_def)
  have adv: "advance B k src0 src' \<longleftrightarrow> advance B k (src\<lparr>ls_prev_record_release_to2 := ls_prev_record_release_to src\<rparr>) src'"
    for k src' by (simp add: src0_def advance_def set_event_def)
  have ds: "ds \<noteq> []" using b(1) by (auto simp: lays_out_def good_segment_def)
  obtain f where f: "fuel = Suc (Suc f)" using fuel ds by (cases fuel; cases "fuel - 1") auto
  show ?thesis
  proof (cases ps)
    case (Cons p ps')
    have "ahead (length (tl ds) * B) src0" by (rule ahead_mono [OF b0(6)]) simp
    from take_layout_event [OF b(1) [unfolded Cons] b0(1) [unfolded Cons] b0(2,3) this less_imp_le [OF fuel] b0(4,5)]
    obtain ev src' where t: "take_event vt fuel src0 = (Inr (Some ev), src')" "gives_event native (h, ds) ev"
      "between native B segs src'" "advance B (length (tl ds)) src0 src'" by blast
    have "get_event_loop vt fuel fuel src0 = take_event vt fuel src0"
      using holding_Cons [OF b0(1) [unfolded Cons]] f by simp
    then show ?thesis using t get adv by (intro exI [of _ ev] exI [of _ src'] exI [of _ "length (tl ds)"]) simp
  next
    case Nil
    from enter_layout_buffer [OF b(1) [unfolded Nil]] obtain lb bufs' p ps' where
      lb: "bufs = lb # bufs'" "lb_pieces lb = p # ps'" "lays_out B ((h, ds) # segs) (p # ps') bufs'"
        "\<not> ends (lb_pieces lb)" by blast
    define src1 where "src1 = (if ls_events_left src0 \<noteq> 0 then warning ''Too few events were found in record'' src0 else src0)"
    have "1 * B \<le> length ds * B" using ds by (intro mult_right_mono) (simp_all add: Suc_leI)
    then have ahB: "ahead B src0" using ahead_mono [OF b0(6), of B] by simp
    have s1: "standing native B (lb # bufs') src1" "ahead B src1" "fitting B (lb # bufs') src1"
      "ls_file_event src1 = ls_file_event src0"
      "advance B k src1 src' = advance B k src0 src'" for k src'
      using b0 lb(1) ahB by (auto simp: src1_def)
    from read_next_record [OF s1(1-3), of False "Suc f"] lb(2,4) obtain src2 where
      r: "read_record vt fuel False src1 = (Inr True, src2)" "standing native B bufs' src2" "holding native (p # ps') src2"
        "advance B 1 src1 src2" "ls_file_event src2 = ls_file_event src1" by (auto simp: f)
    have fit: "fitting B bufs' src2" using fitting_advance [OF s1(3) r(4)] .
    have "length (tl ds) * B + 1 * B = length ds * B" using ds by (cases ds) simp_all
    then have ah2: "ahead (length (tl ds) * B) src2"
      using ahead_advance [OF r(4), of "length (tl ds) * B"] b0(6) by (simp add: src1_def)
    have ev2: "4 \<le> ev_chunk_alloc (ls_file_event src2)" "ev_subevents (ls_file_event src2) = None"
      using r(5) s1(4) b0(4,5) by simp_all
    from take_layout_event [OF lb(3) r(3,2) fit ah2 less_imp_le [OF fuel] ev2] obtain ev src' where
      t: "take_event vt fuel src2 = (Inr (Some ev), src')" "gives_event native (h, ds) ev"
        "between native B segs src'" "advance B (length (tl ds)) src2 src'" by blast
    have "get_event_loop vt fuel fuel src0 = take_event vt fuel src2"
      using holding_Nil [OF b0(1) [unfolded Nil]] holding_Cons [OF r(3)] r(1) by (simp add: f Let_def src1_def)
    moreover have "advance B (1 + length (tl ds)) src0 src'" using advance_trans [OF r(4) t(4)] s1(5) by simp
    moreover have "1 + length (tl ds) = length ds" using ds by (cases ds) simp_all
    ultimately show ?thesis using t get adv by (intro exI [of _ ev] exI [of _ src'] exI [of _ "length ds"]) simp
  qed
qed

text \<open>After the last buffer there is no event.\<close>

lemma get_layout_end:
  assumes bw: "between native B [] src" and ah: "ahead 48 src" and close: "\<not> ls_close_is_error src"
  shows "\<exists>src'. get_event vt (Suc fuel) src = (Inr None, src')"
proof -
  let ?dest = "(ls_file_event src)\<lparr>ev_status := 0, ev_subevents := None\<rparr>"
  define src0 where "src0 = (set_event ?dest src)\<lparr>ls_prev_record_release_to2 := ls_prev_record_release_to src\<rparr>"
  define src1 where "src1 = (if ls_events_left src0 \<noteq> 0 then warning ''Too few events were found in record'' src0 else src0)"
  let ?src2 = "src1\<lparr>ls_prev_record_release_to := ic_cur (ls_input src1), ls_first_buf_status := 0\<rparr>"
  from bw obtain ps bufs where b: "lays_out B [] ps bufs" "holding native ps src" "standing native B bufs src"
    by (auto simp: between_def)
  from b(1) have nil: "ps = []" "bufs = []"
    by (auto simp: lays_out_def good_buffer_def list_all_iff neq_Nil_conv)
  have inp: "ls_input ?src2 = ls_input src" "ls_close_is_error ?src2 = ls_close_is_error src"
    by (simp_all add: src1_def src0_def warning_def set_event_def)
  have at_end: "ic_cur (ls_input src) = int (length (stream (ic_input (ls_input src))))"
    "invar (ic_input (ls_input src))" "released (ic_input (ls_input src)) \<le> ic_cur (ls_input src)"
    using b(3) nil(2) released_nonneg [of "ic_input (ls_input src)"] by (auto simp: standing_def Let_def)
  have "0 \<le> ic_cur (ls_input src)" "ic_cur (ls_input src) + int 48 < 2 ^ 63"
    using at_end stream_length [OF at_end(2)] by simp_all
  then have off: "off_add (ic_cur (ls_input src)) 48 = ic_cur (ls_input src) + 48"
    using off_add_small [of "ic_cur (ls_input src)" 48] by simp
  have "\<exists>s'. map_range vt (ic_input (ls_input src)) (ic_cur (ls_input src)) (ic_cur (ls_input src) + 48) = (Inr [], s')"
    using map_range_eof [OF at_end(2,3), of "ic_cur (ls_input src) + 48"] at_end(1) ah by (auto simp: ahead_def)
  then have "\<exists>src3. src_read_range vt 48 ?src2 = (Inr None, src3) \<and> ls_close_is_error src3 = ls_close_is_error src"
    using inp off by (auto simp: src_read_range_as_map src_map_range_def cont_map_range_def)
  then obtain src3 where "read_record vt (Suc fuel) False src1 = (Inr False, src3)" "\<not> ls_close_is_error src3"
    using close by (auto simp: read_record_def)
  moreover have "ls_chunks src0 = []" using holding_Nil [of native src0] b(2) nil(1) by (simp add: src0_def)
  ultimately have "get_event vt (Suc fuel) src = (Inr None, src3)"
    unfolding get_event_def src0_def [symmetric] Let_def by (simp add: src1_def Let_def)
  then show ?thesis by blast
qed

text \<open>What is released follows the reader with a distance of at most two events.\<close>

definition paced :: "nat \<Rightarrow> nat \<Rightarrow> 's lmd_source \<Rightarrow> bool" where
  "paced k B src \<longleftrightarrow>
     (let s = ic_input (ls_input src); cur = ic_cur (ls_input src); prev = ls_prev_record_release_to src
      in released s \<le> prev \<and> prev \<le> mapped s \<and> prev \<le> cur \<and> cur \<le> prev + int B \<and>
         cur \<le> released s + int (k + 1) * int B \<and> (2 * k + 1) * B \<le> window s \<and> \<not> ls_close_is_error src)"

lemma paced_ahead:
  assumes "paced k B src" and "n \<le> k"
  shows "ahead (n * B) src"
proof -
  have "n * B \<le> k * B" using assms(2) by (rule mult_right_mono) simp
  moreover have "(2 * k + 1) * B = (k + 1) * B + k * B" by (simp add: algebra_simps)
  moreover have "int ((2 * k + 1) * B) \<le> int (window (ic_input (ls_input src)))"
    using assms(1) unfolding paced_def Let_def of_nat_le_iff by blast
  ultimately have "int (k + 1) * int B + int (n * B) \<le> int (window (ic_input (ls_input src)))"
    unfolding of_nat_mult [symmetric] of_nat_add [symmetric] of_nat_le_iff by linarith
  then show ?thesis using assms(1) by (simp add: paced_def Let_def ahead_def del: of_nat_mult)
qed

lemma release_layout:
  assumes pc: "paced k B src" and bw: "between native B segs src'" and "m \<le> k"
    and adv: "advance B m (src\<lparr>ls_prev_record_release_to2 := ls_prev_record_release_to src\<rparr>) src'"
  shows "between native B segs (release_events vt src') \<and> paced k B (release_events vt src')"
proof -
  let ?s = "ic_input (ls_input src)" and ?s' = "ic_input (ls_input src')" and ?prev = "ls_prev_record_release_to src"
  note adv' = adv [unfolded advance_def same_input_def, simplified]
  have p: "released ?s' \<le> ?prev" "?prev \<le> mapped ?s'" using pc adv' by (simp_all add: paced_def Let_def)
  have inv: "invar ?s'" using adv' by simp
  obtain s'' where rel: "release_events vt src' =
      src'\<lparr>ls_input := (ls_input src')\<lparr>ic_input := s''\<rparr>, ls_prev_record_release_to2 := 0\<rparr>"
    and s'': "invar s''" "stream s'' = stream ?s'" "released s'' = ?prev" "window s'' = window ?s'" "mapped s'' = mapped ?s'"
  proof (cases "?prev = 0")
    case True
    then have "release_events vt src' = src'\<lparr>ls_input := (ls_input src')\<lparr>ic_input := ?s'\<rparr>, ls_prev_record_release_to2 := 0\<rparr>"
      using adv' by (simp add: release_events_def)
    moreover have "released ?s' = ?prev" using released_nonneg [OF inv] p(1) True by simp
    ultimately show ?thesis using that [of ?s'] inv by simp
  next
    case False
    then show ?thesis
      using that [of "release_to vt ?s' ?prev"] release_to_moves [OF inv p] adv'
      by (simp add: release_events_def cont_release_to_def)
  qed
  have mB: "int m * int B \<le> int k * int B" using \<open>m \<le> k\<close> by (intro mult_right_mono) simp_all
  have mB': "int B \<le> int m * int B" if "m \<noteq> 0" using mult_right_mono [of 1 "int m" "int B"] that by simp
  have cur: "ic_cur (ls_input src') = ic_cur (ls_input src) + int m * int B" using adv' by simp
  have c: "?prev \<le> ic_cur (ls_input src)" "ic_cur (ls_input src) \<le> ?prev + int B"
    using pc by (simp_all add: paced_def Let_def)
  have "paced k B (release_events vt src')"
    using pc adv' s'' mB mB' c by (auto simp: paced_def Let_def rel algebra_simps split: if_splits)
  moreover have "between native B segs (release_events vt src')"
  proof -
    from bw obtain ps bufs where b: "lays_out B segs ps bufs" "holding native ps src'" "standing native B bufs src'"
      "fitting B bufs src'" "4 \<le> ev_chunk_alloc (ls_file_event src')" by (auto simp: between_def)
    have "?prev \<le> ic_cur (ls_input src')" using cur c by (simp add: add_increasing2)
    then have "standing native B bufs (release_events vt src')" "fitting B bufs (release_events vt src')"
      using b(3,4) s'' by (auto simp: standing_def fitting_def Let_def rel)
    then show ?thesis using b by (auto simp: between_def rel)
  qed
  ultimately show ?thesis by blast
qed

text \<open>The events of the layout come out in order, and nothing after them.\<close>

lemma read_layout_events:
  assumes "between native B segs (release_events vt src)" and "paced k B (release_events vt src)"
    and "\<forall>(h, ds) \<in> set segs. length ds \<le> k" and "k + 1 \<le> fuel" and "1 \<le> k" and "length segs < n"
  shows "\<exists>evs src'. read_events vt fuel n src = (Inr evs, src') \<and> list_all2 (gives_event native) segs evs"
  using assms
proof (induction segs arbitrary: src n)
  case Nil
  obtain f n' where f: "fuel = Suc f" "n = Suc n'" using Nil.prems(4,6) by (cases fuel; cases n) auto
  have "1024 \<le> B" using Nil.prems(1) good_sizeD(1) [of B] by (auto simp: between_def standing_def Let_def)
  then have "ahead 48 (release_events vt src)"
    using ahead_mono [OF paced_ahead [OF Nil.prems(2,5)], of 48] by simp
  moreover have "\<not> ls_close_is_error (release_events vt src)" using Nil.prems(2) by (simp add: paced_def Let_def)
  ultimately show ?case using get_layout_end [OF Nil.prems(1), of f] f by auto
next
  case (Cons seg segs)
  obtain h ds where seg: "seg = (h, ds)" by (cases seg)
  obtain n' where n: "n = Suc n'" using Cons.prems(6) by (cases n) auto
  let ?src = "release_events vt src"
  have ds: "length ds \<le> k" "length ds < fuel" using Cons.prems(3,4) seg by auto
  from get_layout_event [OF Cons.prems(1) [unfolded seg] paced_ahead [OF Cons.prems(2) ds(1)] ds(2)]
  obtain ev src1 m where g: "get_event vt fuel ?src = (Inr (Some ev), src1)" "gives_event native (h, ds) ev"
    "between native B segs src1" "m \<le> length ds"
    "advance B m (?src\<lparr>ls_prev_record_release_to2 := ls_prev_record_release_to ?src\<rparr>) src1" by blast
  from release_layout [OF Cons.prems(2) g(3) _ g(5)] g(4) ds(1)
  have r: "between native B segs (release_events vt src1)" "paced k B (release_events vt src1)" by auto
  from Cons.IH [OF r _ Cons.prems(4,5), of n'] Cons.prems(3,6) n obtain evs src2 where
    "read_events vt fuel n' src1 = (Inr evs, src2)" "list_all2 (gives_event native) segs evs" by auto
  then show ?case using g(1,2) seg n by auto
qed

end

section \<open>Reading from a pipe\<close>

lemma piece_out_length:
  assumes "lays_out B segs ps bufs" and "lb \<in> set bufs" and "begins (lb_pieces lb) = Some n"
  shows "\<exists>h ds. (h, ds) \<in> set segs \<and> n = length (concat ds)"
proof -
  have frag: "p \<in> set (frags h m i ds) \<Longrightarrow> pc_out p = Some n \<Longrightarrow> n = m" for p h m i ds
    by (induction ds arbitrary: i) (auto simp: frags_Cons split: if_splits)
  have last: "last (lb_pieces lb) \<in> set (lb_pieces lb)" "pc_out (last (lb_pieces lb)) = Some n"
    using assms(3) by (auto simp: begins_def split: if_splits)
  then have "last (lb_pieces lb) \<in> set (ps @ concat (map lb_pieces bufs))" using assms(2) by auto
  then have "last (lb_pieces lb) \<in> set (concat (map segment_pieces segs))"
    using assms(1) unfolding lays_out_def by metis
  then obtain h ds where "(h, ds) \<in> set segs" "last (lb_pieces lb) \<in> set (segment_pieces (h, ds))" by auto
  then show ?thesis using frag last(2) unfolding segment_pieces_def prod.case by blast
qed

lemma read_layout_file:
  assumes "pipe_inv pb" and "pb_done pb = 0" and "pipe_stream pb = concat (map (buffer_bytes native B) bufs)"
    and "lays_out B segs [] bufs" and "good_size B" and "numbered bufs"
    and "\<forall>(h, ds) \<in> set segs. length ds \<le> k \<and> length (concat ds) \<le> pb_size pb div 3"
    and "1 \<le> k" and "(2 * k + 1) * B \<le> pb_size pb" and "k + 1 \<le> fuel" and "length segs < n"
  shows "\<exists>evs src'. read_events pipe_vt fuel n (lmd_source_new pb) = (Inr evs, src') \<and>
           list_all2 (gives_event native) segs evs"
proof -
  let ?src = "lmd_source_new pb"
  have src: "ic_input (ls_input ?src) = pb" "ic_cur (ls_input ?src) = 0" "ls_last_buffer_no ?src = 0" "ls_chunks ?src = []"
    "4 \<le> ev_chunk_alloc (ls_file_event ?src)" "ls_prev_record_release_to ?src = 0" "\<not> ls_close_is_error ?src"
    "ls_prev_record_release_to2 ?src = 0"
    by (simp_all add: lmd_source_new_def new_file_def Let_def)
  then have rel: "release_events pipe_vt ?src = ?src" by (simp add: release_events_def)
  have st: "pipe.standing native B bufs ?src"
    using assms(1-6) src by (simp add: pipe.standing_def Let_def lays_out_def)
  have "3 * B \<le> (2 * k + 1) * B" by (rule mult_right_mono) (use assms(8) in simp_all)
  with assms(9) have "3 * B \<le> pb_size pb" by (rule order_trans [rotated])
  then have "B \<le> pb_size pb div 3" by simp
  then have "pipe.fitting B bufs ?src"
    using piece_out_length [OF assms(4)] assms(7) src(1) by (fastforce simp: pipe.fitting_def)
  then have "pipe.between native B segs ?src"
    using st assms(4) src unfolding pipe.between_def
    by (intro conjI exI [of _ "[]"] exI [of _ bufs]) (simp_all add: pipe.holding_def pipe.chunks_hold_def)
  moreover have "pipe.paced k B ?src"
    using assms(2,9) src by (simp add: pipe.paced_def Let_def)
  moreover have "\<forall>(h, ds) \<in> set segs. length ds \<le> k" using assms(7) by auto
  ultimately show ?thesis
    using pipe.read_layout_events [of native B segs ?src k fuel n] rel assms(8,10,11) by simp
qed

text \<open>C3. A file that consists of the buffers of a layout, in either byte order, is read
  completely: the loop over \<^verbatim>\<open>release_events\<close> and \<^verbatim>\<open>get_event\<close> delivers exactly the events of
  the layout, in order, the fragments of each put together and its header's length set to
  that of all fragments, and then the end of the input. The input buffer has to hold the
  buffers of two consecutive events and one more, since what an event used is only given
  back after the next event was asked for.\<close>

theorem read_events_layout:
  assumes "pipe_inv pb" and "pb_done pb = 0" and "pipe_stream pb = concat (map (buffer_bytes native B) bufs)"
    and "lays_out B segs [] bufs" and "good_size B" and "numbered bufs"
    and "\<forall>(h, ds) \<in> set segs. length ds \<le> k \<and> length (concat ds) \<le> pb_size pb div 3"
    and "1 \<le> k" and "(2 * k + 1) * B \<le> pb_size pb" and "k + 1 \<le> fuel" and "length segs < n"
  shows "\<exists>evs src'. read_events pipe_vt fuel n (lmd_source_new pb) = (Inr evs, src') \<and>
           list_all2 (gives_event native) segs evs"
  using assms by (rule read_layout_file)

definition layout_example :: "bytes \<Rightarrow> bytes \<Rightarrow> layout_buffer list" where
  "layout_example d e =
     (let h = \<lparr>eh_dlen = 0, eh_type = 10, eh_subtype = 1\<rparr>
      in [\<lparr>lb_no = 2, lb_time0 = 0, lb_time1 = 0,
           lb_pieces = [\<lparr>pc_header = h, pc_data = d, pc_in = False, pc_out = Some (length (d @ e))\<rparr>]\<rparr>,
          \<lparr>lb_no = 3, lb_time0 = 0, lb_time1 = 0,
           lb_pieces = [\<lparr>pc_header = h, pc_data = e, pc_in = True, pc_out = None\<rparr>]\<rparr>])"

lemma layout_example_ok:
  assumes "length d = 968" and "length e = 100"
  shows "lays_out 1024 [(\<lparr>eh_dlen = 0, eh_type = 10, eh_subtype = 1\<rparr>, [d, e])] [] (layout_example d e)"
    and "numbered (layout_example d e)"
  using assms
  by (auto simp: layout_example_def Let_def lays_out_def segment_pieces_def good_segment_def good_buffer_def good_piece_def)

theorem read_events_layout_witness:
  "\<exists>ev src'. read_events pipe_vt 3 2 (lmd_source_new (pipe_on 13
       (concat (map (buffer_bytes False 1024) (layout_example (replicate 968 1) (replicate 100 2)))))) = (Inr [ev], src') \<and>
     gives_event False (\<lparr>eh_dlen = 0, eh_type = 10, eh_subtype = 1\<rparr>, [replicate 968 1, replicate 100 2]) ev"
proof -
  define d e :: bytes where "d = replicate 968 1" and "e = replicate 100 2"
  have len: "length d = 968" "length e = 100" by (simp_all add: d_def e_def)
  let ?bufs = "layout_example d e" and ?segs = "[(\<lparr>eh_dlen = 0, eh_type = 10, eh_subtype = 1 :: u16\<rparr> , [d, e])]"
  let ?pb = "pipe_on 13 (concat (map (buffer_bytes False 1024) ?bufs))"
  note ok = layout_example_ok [OF len]
  have "list_all (good_buffer 1024) ?bufs" using ok(1) by (simp add: lays_out_def)
  then have "length (concat (map (buffer_bytes False 1024) ?bufs)) = 1024 * length ?bufs" by (rule length_buffers)
  then have "pipe_inv ?pb" by (intro pipe_on_inv) (simp_all add: layout_example_def Let_def)
  from read_events_layout [OF this _ _ ok(1) _ ok(2), of False 2 3 2] show ?thesis
    unfolding d_def [symmetric] e_def [symmetric] by (auto simp: good_size_def len list_all2_Cons1)
qed

end
