(* ===== verification/Lmd_Event_Out.thy ===== *)
theory Lmd_Event_Out
  imports Lmd_Format Lmd_Input
begin

text \<open>
  \<^verbatim>\<open>lmd_event_out\<close> of \<^verbatim>\<open>file_input/lmd_output.cc\<close>: an event that is to be written, as a
  header and a list of chunks with their byte order, with the operations that collect it from
  an input event.
\<close>

section \<open>Events to write\<close>

text \<open>
  The first chunk of an event is the event information, which is a member of the event and
  can change after the chunk was made (\<open>Info_chunk\<close>); all others are copies of data, with a
  mark when they are not in host byte order.
\<close>

datatype buf_chunk_swap = Info_chunk | Data_chunk bytes bool

record lmd_event_out =
  eo_header :: lmd_event_header
  eo_info :: lmd_event_info
  eo_chunks :: "buf_chunk_swap list"

fun chunk_data :: "lmd_event_info \<Rightarrow> buf_chunk_swap \<Rightarrow> bytes" where
  "chunk_data info Info_chunk = mem (words_of_event_info info)"
| "chunk_data info (Data_chunk d swapping) = d"

fun chunk_swapping :: "buf_chunk_swap \<Rightarrow> bool" where
  "chunk_swapping Info_chunk = False"
| "chunk_swapping (Data_chunk d swapping) = swapping"

definition event_out_new :: lmd_event_out where
  "event_out_new =
     \<lparr>eo_header = event_header_of_words [0, 0], eo_info = event_info_of_words [0, 0], eo_chunks = []\<rparr>"

definition event_out_clear :: "lmd_event_out \<Rightarrow> lmd_event_out" where
  "event_out_clear eo = eo\<lparr>eo_chunks := []\<rparr>"

definition is_clear :: "lmd_event_out \<Rightarrow> bool" where
  "is_clear eo \<longleftrightarrow> eo_chunks eo = []"

definition add_chunk :: "bytes \<Rightarrow> bool \<Rightarrow> lmd_event_out \<Rightarrow> lmd_event_out" where
  "add_chunk d swapping eo = eo\<lparr>eo_chunks := eo_chunks eo @ [Data_chunk d swapping]\<rparr>"

text \<open>\<^verbatim>\<open>ADD_TO_BUF\<close> and \<^verbatim>\<open>ANOTHER_CHUNK\<close>: a chunk with a copy of the data.\<close>

definition add_copy :: "bytes \<Rightarrow> bool \<Rightarrow> lmd_event_out \<Rightarrow> (unit, lmd_event_out) result" where
  "add_copy d swapping eo =
     (if length d mod 4 \<noteq> 0 then (Inl (Assert ''(length & 3) == 0''), eo)
      else (Inr (), add_chunk d swapping eo))"

definition copy_header :: "lmd_event \<Rightarrow> bool \<Rightarrow> lmd_event_out \<Rightarrow> (unit, lmd_event_out) result" where
  "copy_header event combine_event eo =
     (if combine_event then
        if eo_chunks eo = [] then (Inl (Assert ''_chunk_end != _chunk_start''), eo)
        else if ei_trigger (ev_info event) > ei_trigger (eo_info eo) then
          (Inr (), eo\<lparr>eo_info := (eo_info eo)\<lparr>ei_trigger := ei_trigger (ev_info event)\<rparr>\<rparr>)
        else (Inr (), eo)
      else
        if eo_chunks eo \<noteq> [] then (Inl (Assert ''_chunk_end == _chunk_start''), eo)
        else (Inr (), eo\<lparr>eo_header := ev_header event, eo_info := ev_info event,
                         eo_chunks := [Info_chunk]\<rparr>))"

fun copy_all_chunks :: "buf_chunk list \<Rightarrow> nat \<Rightarrow> bool \<Rightarrow> lmd_event_out \<Rightarrow> (unit, lmd_event_out) result" where
  "copy_all_chunks [] to_ignore swapping eo = (Inr (), eo)"
| "copy_all_chunks (c # cs) to_ignore swapping eo =
     andthen (if length c > to_ignore then add_copy (drop to_ignore c) swapping eo else (Inr (), eo))
       (\<lambda>_ eo. copy_all_chunks cs (if length c \<ge> to_ignore then 0 else to_ignore - length c) swapping eo)"

definition copy_all :: "lmd_event \<Rightarrow> bool \<Rightarrow> lmd_event_out \<Rightarrow> (unit, lmd_event_out) result" where
  "copy_all event combine_event eo =
     andthen (copy_header event combine_event eo)
       (\<lambda>_ eo. copy_all_chunks (ev_chunks event) sizeof_event_info (ev_swapping event) eo)"

text \<open>The fragments of a subevent after the first; memory after the last fragment is not ours.\<close>

fun copy_subevent_frags :: "buf_chunk list \<Rightarrow> nat \<Rightarrow> bool \<Rightarrow> lmd_event_out \<Rightarrow> (unit, lmd_event_out) result" where
  "copy_subevent_frags [] n swapping eo = (Inl (Undef ''fragment after the last''), eo)"
| "copy_subevent_frags (frag # frags) n swapping eo =
     (if length frag < n then
        andthen (add_copy frag swapping eo)
          (\<lambda>_ eo. copy_subevent_frags frags (n - length frag) swapping eo)
      else add_copy (take n frag) swapping eo)"

text \<open>
  The first fragment is copied from its start, not from the subevent's offset into it; the
  number of bytes is the number after the offset.
\<close>

definition copy_subevent :: "lmd_event \<Rightarrow> lmd_subevent \<Rightarrow> lmd_event_out \<Rightarrow> (unit, lmd_event_out) result" where
  "copy_subevent event sub eo =
     (let sticky = (ev_status event AND LMD_EVENT_IS_STICKY \<noteq> 0);
          n = (if sticky \<and> sh_dlen (se_header sub) = LMD_SUBEVENT_STICKY_DLEN_REVOKE then 0
               else SUBEVENT_DATA_LENGTH_FROM_DLEN (sh_dlen (se_header sub)))
      in andthen (add_copy (mem (words_of_subevent_header (se_header sub))) False eo) (\<lambda>_ eo.
           case se_data sub of
             Some data \<Rightarrow>
               if n = 0 then (Inr (), eo)
               else if length data < n then (Inl (Undef ''data after the end of the subevent''), eo)
               else add_copy (take n data) (ev_swapping event) eo
           | None \<Rightarrow>
               (case se_frag sub of
                  [] \<Rightarrow> (Inl (Undef ''no fragment''), eo)
                | frag # frags \<Rightarrow>
                    let size0 = length frag - se_offset sub;
                        n = sub64 (SUBEVENT_DATA_LENGTH_FROM_DLEN (sh_dlen (se_header sub))) size0
                    in andthen (add_copy (take size0 frag) (ev_swapping event) eo)
                         (\<lambda>_ eo. copy_subevent_frags frags n (ev_swapping event) eo))))"

fun copy_subevents ::
  "(lmd_subevent_header \<Rightarrow> bool) \<Rightarrow> lmd_event \<Rightarrow> lmd_subevent list \<Rightarrow> lmd_event_out \<Rightarrow> (unit, lmd_event_out) result" where
  "copy_subevents accept event [] eo = (Inr (), eo)"
| "copy_subevents accept event (sub # subs) eo =
     (if ev_status event AND LMD_EVENT_IS_STICKY = 0 \<and> \<not> accept (se_header sub)
      then copy_subevents accept event subs eo
      else andthen (copy_subevent event sub eo) (\<lambda>_ eo. copy_subevents accept event subs eo))"

definition copy ::
  "lmd_event \<Rightarrow> (lmd_subevent_header \<Rightarrow> bool) \<Rightarrow> bool \<Rightarrow> bool \<Rightarrow> lmd_event_out \<Rightarrow> (unit, lmd_event_out) result" where
  "copy event accept combine_event emit_header eo =
     (if ev_status event AND LMD_EVENT_LOCATE_SUBEVENTS_ATTEMPT = 0
      then (Inl (Assert ''event->_status & LMD_EVENT_LOCATE_SUBEVENTS_ATTEMPT''), eo)
      else andthen (if emit_header then copy_header event combine_event eo else (Inr (), eo))
             (\<lambda>_ eo. copy_subevents accept event
                (case ev_subevents event of None \<Rightarrow> [] | Some subs \<Rightarrow> subs) eo))"

definition has_subevents :: "lmd_event_out \<Rightarrow> cxx_error + bool" where
  "has_subevents eo =
     (let lens = map (\<lambda>c. length (chunk_data (eo_info eo) c)) (eo_chunks eo) in
      if lens \<noteq> [] \<and> hd lens \<noteq> sizeof_event_info then
        Inl (Assert ''_chunk_start[0]._length == sizeof(lmd_event_info_host)'')
      else if length lens > 1 \<and> lens ! 1 = 0 then Inl (Assert ''_chunk_start[1]._length > 0'')
      else Inr (length lens > 1))"

definition get_length :: "lmd_event_out \<Rightarrow> nat" where
  "get_length eo = sum_list (map (\<lambda>c. length (chunk_data (eo_info eo) c)) (eo_chunks eo))"

text \<open>\<^verbatim>\<open>::copy_to_buffer\<close>\<close>

definition copy_bytes :: "bytes \<Rightarrow> bool \<Rightarrow> cxx_error + bytes" where
  "copy_bytes d swap_32 =
     (if swap_32 then
        if length d mod 4 \<noteq> 0 then Inl (Assert ''!(length & 3)'') else Inr (swap32 d)
      else Inr d)"

text \<open>The event in contiguous memory and in host byte order, as the sticky store keeps it.\<close>

fun write_chunks :: "lmd_event_info \<Rightarrow> buf_chunk_swap list \<Rightarrow> cxx_error + bytes" where
  "write_chunks info [] = Inr []"
| "write_chunks info (c # cs) =
     (case copy_bytes (chunk_data info c) (chunk_swapping c) of
        Inl e \<Rightarrow> Inl e
      | Inr d \<Rightarrow> (case write_chunks info cs of Inl e \<Rightarrow> Inl e | Inr ds \<Rightarrow> Inr (d @ ds)))"

definition event_out_write :: "lmd_event_out \<Rightarrow> cxx_error + bytes" where
  "event_out_write eo =
     (case write_chunks (eo_info eo) (eo_chunks eo) of
        Inl e \<Rightarrow> Inl e
      | Inr d \<Rightarrow>
          let header = (eo_header eo)\<lparr>eh_dlen := of_nat (DLEN_FROM_EVENT_DATA_LENGTH (length d))\<rparr>
          in Inr (mem (words_of_event_header header) @ d))"

end
