(* ===== verification/Lmd_Sticky_Store.thy ===== *)
theory Lmd_Sticky_Store
  imports Lmd_Event_Out
begin

text \<open>
  The sticky store, \<^verbatim>\<open>file_input/lmd_sticky_store.cc\<close>: the subevents of sticky events that are
  still valid, kept for replay. Event data is appended to one array, meta-data about events
  and subevents to another; a hash table with open addressing finds the valid subevent with a
  given identifier; subevents that a later one replaces are marked, and both arrays are
  compacted when more than half of them is dead.

  The modelled build has \<^verbatim>\<open>DEBUG_LMD_STICKY_STORE\<close> set, as the source has: the consistency
  check \<^verbatim>\<open>verify_meta\<close> runs at the begin and end of every operation.
\<close>

section \<open>State\<close>

text \<open>
  The meta-data array is a sequence of cells of 24 bytes: an event is followed by its
  \<open>me_num\<close> subevents. \<open>ms_offset\<close> is \<open>- 1\<close> for a subevent that is not live any longer.
\<close>

record meta_event =
  me_offset :: nat
  me_length :: nat
  me_num :: nat
  me_live :: nat

record meta_sub =
  ms_ev_offset :: nat
  ms_offset :: int
  ms_length :: nat

datatype meta_cell = Meta_Ev meta_event | Meta_Sub meta_sub

abbreviation (input) sizeof_meta :: nat where "sizeof_meta \<equiv> 24"

text \<open>
  The arrays up to \<^verbatim>\<open>_data_end\<close> and \<^verbatim>\<open>_meta_end\<close>; an entry of the hash table is the offset
  of a subevent in the meta-data, 0 when it was never used and \<open>- 1\<close> when it was given up.
\<close>

record lmd_sticky_store =
  ss_data :: bytes
  ss_data_alloc :: nat
  ss_data_revoked :: nat
  ss_meta :: "meta_cell list"
  ss_meta_alloc :: nat
  ss_meta_revoked :: nat
  ss_hash :: "int list"
  ss_hash_used :: nat

definition sticky_store_new :: lmd_sticky_store where
  "sticky_store_new =
     \<lparr>ss_data = [], ss_data_alloc = 0, ss_data_revoked = 0, ss_meta = [], ss_meta_alloc = 0,
      ss_meta_revoked = 0, ss_hash = [], ss_hash_used = 0\<rparr>"

text \<open>Decrement of a \<^verbatim>\<open>uint32_t\<close>.\<close>

definition dec32 :: "nat \<Rightarrow> nat" where
  "dec32 n = (if n = 0 then 2 ^ 32 - 1 else n - 1)"

section \<open>Identifiers\<close>

text \<open>Words 1 and 2 of a subevent header: type, subtype, processor, crate and control.\<close>

definition sub_word :: "nat \<Rightarrow> nat \<Rightarrow> bytes \<Rightarrow> u32" where
  "sub_word i off data = hd (words32 (slice (off + 4 * i) 4 data))"

definition hash_round :: "u32 \<Rightarrow> u32" where
  "hash_round hash =
     (let hash = hash XOR push_bit 6 hash; hash = hash XOR push_bit 21 hash
      in hash XOR push_bit 7 hash)"

definition sticky_subevent_hash :: "nat \<Rightarrow> bytes \<Rightarrow> u32" where
  "sticky_subevent_hash off data =
     hash_round (hash_round (sub_word 1 off data) XOR sub_word 2 off data)"

definition sticky_subevent_same_id :: "nat \<Rightarrow> nat \<Rightarrow> bytes \<Rightarrow> bool" where
  "sticky_subevent_same_id a b data \<longleftrightarrow>
     sub_word 1 a data = sub_word 1 b data \<and> sub_word 2 a data = sub_word 2 b data"

section \<open>Walking the meta-data\<close>

text \<open>
  The loops over \<^verbatim>\<open>iter_ev_offset\<close>: every event with the index of its cell and its subevents,
  or nothing when the cells are not events with their subevents.
\<close>

type_synonym meta_group = "meta_event \<times> meta_sub list"

fun the_subs :: "meta_cell list \<Rightarrow> meta_sub list option" where
  "the_subs [] = Some []"
| "the_subs (Meta_Sub s # cells) = map_option (Cons s) (the_subs cells)"
| "the_subs (Meta_Ev e # cells) = None"

function meta_groups :: "nat \<Rightarrow> meta_cell list \<Rightarrow> (nat \<times> meta_group) list option" where
  "meta_groups i [] = Some []"
| "meta_groups i (Meta_Sub s # cells) = None"
| "meta_groups i (Meta_Ev e # cells) =
     (if me_num e > length cells then None
      else case the_subs (take (me_num e) cells) of
          None \<Rightarrow> None
        | Some subs \<Rightarrow>
            map_option (Cons (i, e, subs)) (meta_groups (i + 1 + me_num e) (drop (me_num e) cells)))"
  by pat_completeness auto

termination meta_groups
  by (relation "measure (\<lambda>(_, cells). length cells)") auto

definition group_cells :: "meta_group \<Rightarrow> meta_cell list" where
  "group_cells = (\<lambda>(e, subs). Meta_Ev e # map Meta_Sub subs)"

definition sub_live :: "meta_sub \<Rightarrow> bool" where
  "sub_live s \<longleftrightarrow> ms_offset s \<noteq> - 1"

text \<open>\<^verbatim>\<open>verify_meta\<close>\<close>

definition verify_group :: "nat \<Rightarrow> nat \<times> meta_group \<Rightarrow> bool" where
  "verify_group data_end = (\<lambda>(i, e, subs).
     (me_live e = 0 \<or> me_offset e + me_length e \<le> data_end) \<and>
     list_all (\<lambda>s. sub_live s \<longrightarrow>
       ms_ev_offset s = sizeof_meta * i \<and> ms_offset s > 0 \<and>
       ms_offset s + int (ms_length s) \<le> int data_end) subs \<and>
     length (filter sub_live subs) = me_live e)"

definition verify_meta :: "lmd_sticky_store \<Rightarrow> bool" where
  "verify_meta st =
     (case meta_groups 0 (ss_meta st) of
        None \<Rightarrow> False
      | Some gs \<Rightarrow> list_all (verify_group (length (ss_data st))) gs)"

definition verified :: "lmd_sticky_store \<Rightarrow> (unit, lmd_sticky_store) result" where
  "verified st = (if verify_meta st then (Inr (), st) else (Inl (Assert ''verify_meta''), st))"

section \<open>Compacting\<close>

definition memmove :: "nat \<Rightarrow> nat \<Rightarrow> nat \<Rightarrow> bytes \<Rightarrow> bytes" where
  "memmove dest src n data = take dest data @ slice src n data @ drop (dest + n) data"

text \<open>Moves one region down; the new end of the moved data and the data.\<close>

definition move_down :: "nat \<Rightarrow> nat \<Rightarrow> nat \<times> bytes \<Rightarrow> cxx_error + (nat \<times> bytes)" where
  "move_down src n = (\<lambda>(dest, data).
     if \<not> dest \<le> src then Inl (Assert ''dest_ptr <= src_ptr'')
     else Inr (dest + n, memmove dest src n data))"

fun compact_subs ::
  "meta_sub list \<Rightarrow> nat \<times> bytes \<Rightarrow> cxx_error + (meta_sub list \<times> (nat \<times> bytes))" where
  "compact_subs [] dd = Inr ([], dd)"
| "compact_subs (s # subs) dd =
     (if \<not> sub_live s then
        (case compact_subs subs dd of Inl e \<Rightarrow> Inl e | Inr (subs, dd) \<Rightarrow> Inr (s # subs, dd))
      else
        case move_down (nat (ms_offset s)) (ms_length s) dd of
          Inl e \<Rightarrow> Inl e
        | Inr dd' \<Rightarrow>
            (case compact_subs subs dd' of
               Inl e \<Rightarrow> Inl e
             | Inr (subs, dd'') \<Rightarrow> Inr (s\<lparr>ms_offset := int (fst dd)\<rparr> # subs, dd'')))"

fun compact_groups ::
  "meta_group list \<Rightarrow> nat \<times> bytes \<Rightarrow> cxx_error + (meta_group list \<times> (nat \<times> bytes))" where
  "compact_groups [] dd = Inr ([], dd)"
| "compact_groups ((ev, subs) # gs) dd =
     (if me_live ev = 0 then
        (case compact_groups gs dd of Inl e \<Rightarrow> Inl e | Inr (gs, dd) \<Rightarrow> Inr ((ev, subs) # gs, dd))
      else
        case move_down (me_offset ev) (me_length ev) dd of
          Inl e \<Rightarrow> Inl e
        | Inr dd1 \<Rightarrow>
            (case compact_subs subs dd1 of
               Inl e \<Rightarrow> Inl e
             | Inr (subs, dd2) \<Rightarrow>
                 (case compact_groups gs dd2 of
                    Inl e \<Rightarrow> Inl e
                  | Inr (gs, dd3) \<Rightarrow> Inr ((ev\<lparr>me_offset := fst dd\<rparr>, subs) # gs, dd3))))"

definition compact_data :: "lmd_sticky_store \<Rightarrow> (unit, lmd_sticky_store) result" where
  "compact_data st =
     andthen (verified st) (\<lambda>_ st.
       case meta_groups 0 (ss_meta st) of
         None \<Rightarrow> (Inl (Assert ''iter_ev_offset == _meta_end''), st)
       | Some gs \<Rightarrow>
           (case compact_groups (map snd gs) (0, ss_data st) of
              Inl e \<Rightarrow> (Inl e, st)
            | Inr (gs, dest_offset, data) \<Rightarrow>
                verified
                  (st\<lparr>ss_meta := concat (map group_cells gs), ss_data := take dest_offset data,
                      ss_data_revoked := 0\<rparr>)))"

text \<open>
  Events without live subevents go away, and so do subevents that are not live. The new
  array never grows beyond the part of the old one that has been walked.
\<close>

fun squeeze_groups :: "nat \<Rightarrow> meta_group list \<Rightarrow> meta_group list" where
  "squeeze_groups dest [] = []"
| "squeeze_groups dest ((ev, subs) # gs) =
     (if me_live ev = 0 then squeeze_groups dest gs
      else
        let subs' = map (\<lambda>s. s\<lparr>ms_ev_offset := sizeof_meta * dest\<rparr>) (filter sub_live subs)
        in (ev\<lparr>me_num := me_live ev\<rparr>, subs') # squeeze_groups (dest + 1 + length subs') gs)"

definition compact_meta :: "lmd_sticky_store \<Rightarrow> (unit, lmd_sticky_store) result" where
  "compact_meta st =
     andthen (verified st) (\<lambda>_ st.
       case meta_groups 0 (ss_meta st) of
         None \<Rightarrow> (Inl (Assert ''iter_ev_offset == _meta_end''), st)
       | Some gs \<Rightarrow>
           verified
             (st\<lparr>ss_meta := concat (map group_cells (squeeze_groups 0 (map snd gs))), ss_meta_revoked := 0\<rparr>))"

section \<open>The hash table\<close>

definition first_entry :: "u32 \<Rightarrow> int list \<Rightarrow> nat" where
  "first_entry hash table = unat hash AND (length table - 1)"

definition next_entry :: "nat \<Rightarrow> int list \<Rightarrow> nat" where
  "next_entry entry table = (entry + 1) AND (length table - 1)"

text \<open>The first entry from \<open>entry\<close> on that is free, used never or given up.\<close>

fun free_entry :: "nat \<Rightarrow> int list \<Rightarrow> nat \<Rightarrow> cxx_error + nat" where
  "free_entry 0 table entry = Inl Fuel"
| "free_entry (Suc fuel) table entry =
     (if entry \<ge> length table then Inl (Undef ''entry outside the hash table'')
      else if table ! entry \<noteq> 0 \<and> table ! entry \<noteq> - 1 then free_entry fuel table (next_entry entry table)
      else Inr entry)"

definition insert_hash :: "nat \<Rightarrow> nat \<Rightarrow> lmd_sticky_store \<Rightarrow> (unit, lmd_sticky_store) result" where
  "insert_hash offset_sev data_offset st =
     (let table = ss_hash st;
          hash = sticky_subevent_hash data_offset (ss_data st)
      in case free_entry (length table) table (first_entry hash table) of
           Inl e \<Rightarrow> (Inl e, st)
         | Inr entry \<Rightarrow>
             (Inr (), st\<lparr>ss_hash := table[entry := int offset_sev], ss_hash_used := ss_hash_used st + 1\<rparr>))"

text \<open>The live subevents of events with live subevents, with their offsets.\<close>

definition live_subs :: "(nat \<times> meta_group) list \<Rightarrow> (nat \<times> meta_sub) list" where
  "live_subs gs =
     concat (map (\<lambda>(i, e, subs).
       if me_live e = 0 then []
       else filter (sub_live \<circ> snd) (enumerate (i + 1) subs)) gs)"

fun insert_all :: "(nat \<times> meta_sub) list \<Rightarrow> lmd_sticky_store \<Rightarrow> (unit, lmd_sticky_store) result" where
  "insert_all [] st = (Inr (), st)"
| "insert_all ((i, s) # subs) st =
     andthen (insert_hash (sizeof_meta * i) (nat (ms_offset s)) st) (\<lambda>_ st. insert_all subs st)"

definition populate_hash :: "lmd_sticky_store \<Rightarrow> (unit, lmd_sticky_store) result" where
  "populate_hash st =
     (let st = st\<lparr>ss_hash := replicate (length (ss_hash st)) 0, ss_hash_used := 0\<rparr>
      in case meta_groups 0 (ss_meta st) of
           None \<Rightarrow> (Inl (Assert ''iter_ev_offset == _meta_end''), st)
         | Some gs \<Rightarrow> andthen (insert_all (live_subs gs) st) (\<lambda>_ st. verified st))"

text \<open>The entry of the live subevent that has the identifier of the one at \<open>off\<close>, if any.\<close>

definition meta_sub_at :: "int \<Rightarrow> meta_cell list \<Rightarrow> meta_sub option" where
  "meta_sub_at off cells =
     (if off \<ge> 0 \<and> nat off mod sizeof_meta = 0 \<and> nat off div sizeof_meta < length cells then
        case cells ! (nat off div sizeof_meta) of Meta_Sub s \<Rightarrow> Some s | Meta_Ev _ \<Rightarrow> None
      else None)"

fun find_entry :: "nat \<Rightarrow> nat \<Rightarrow> lmd_sticky_store \<Rightarrow> nat \<Rightarrow> cxx_error + nat option" where
  "find_entry 0 off st entry = Inl Fuel"
| "find_entry (Suc fuel) off st entry =
     (if entry \<ge> length (ss_hash st) then Inl (Undef ''entry outside the hash table'')
      else
        let sub_offset = ss_hash st ! entry in
        if sub_offset = 0 then Inr None
        else if sub_offset = - 1 then find_entry fuel off st (next_entry entry (ss_hash st))
        else case meta_sub_at sub_offset (ss_meta st) of
            None \<Rightarrow> Inl (Undef ''no subevent at the offset'')
          | Some s \<Rightarrow>
              if sub_live s \<and> sticky_subevent_same_id off (nat (ms_offset s)) (ss_data st)
              then Inr (Some entry)
              else find_entry fuel off st (next_entry entry (ss_hash st)))"

section \<open>Inserting an event\<close>

function grow :: "nat \<Rightarrow> nat \<Rightarrow> nat" where
  "grow need sz = (if 0 < sz \<and> need > sz then grow need (2 * sz) else sz)"
  by pat_completeness auto

termination grow
  by (relation "measure (\<lambda>(need, sz). need - sz)") auto

declare grow.simps [simp del]

definition reserve_data :: "nat \<Rightarrow> lmd_sticky_store \<Rightarrow> (unit, lmd_sticky_store) result" where
  "reserve_data ev_len st =
     (if length (ss_data st) + ev_len > ss_data_alloc st then
        andthen (if ss_data_revoked st > length (ss_data st) div 2 then compact_data st else (Inr (), st))
          (\<lambda>_ st.
             let sz = grow (length (ss_data st) + ev_len) (max 1024 (ss_data_alloc st))
             in (Inr (), if sz > ss_data_alloc st then st\<lparr>ss_data_alloc := sz\<rparr> else st))
      else (Inr (), st))"

text \<open>Returns whether the hash table has to be computed again.\<close>

definition reserve_meta :: "nat \<Rightarrow> lmd_sticky_store \<Rightarrow> (bool, lmd_sticky_store) result" where
  "reserve_meta meta_add st =
     (if sizeof_meta * length (ss_meta st) + meta_add > ss_meta_alloc st then
        let due = ss_meta_revoked st > sizeof_meta * length (ss_meta st) div 2
        in andthen (if due then compact_meta st else (Inr (), st)) (\<lambda>_ st.
             let sz = grow (sizeof_meta * length (ss_meta st) + meta_add) (max 256 (ss_meta_alloc st))
             in (Inr due, if sz > ss_meta_alloc st \<or> sz < ss_meta_alloc st div 2
                          then st\<lparr>ss_meta_alloc := sz\<rparr> else st))
      else (Inr False, st))"

function grow_hash :: "nat \<Rightarrow> nat \<Rightarrow> nat" where
  "grow_hash need sz = (if 0 < sz \<and> need > sz div 2 then grow_hash need (2 * sz) else sz)"
  by pat_completeness auto

termination grow_hash
  by (relation "measure (\<lambda>(need, sz). 2 * need + 2 - sz)") auto

declare grow_hash.simps [simp del]

text \<open>The memory of the new table is not initialised; it is filled before it is used.\<close>

definition reserve_hash :: "nat \<Rightarrow> lmd_sticky_store \<Rightarrow> (bool, lmd_sticky_store) result" where
  "reserve_hash hash_add st =
     (let n = length (ss_hash st) in
      if ss_hash_used st + hash_add > n div 2 then
        let sz = grow_hash (ss_hash_used st + hash_add) (max 16 n)
        in if sz > n \<or> sz < n div 4
           then (Inr True, st\<lparr>ss_hash := take sz (ss_hash st) @ replicate (sz - n) 0\<rparr>)
           else (Inr False, st)
      else (Inr False, st))"

text \<open>The size of a subevent in the data, header included, from its length word.\<close>

definition sticky_sub_size :: "u32 \<Rightarrow> nat" where
  "sticky_sub_size dlen =
     wrap64 (sizeof_subevent_header +
       (if dlen = LMD_SUBEVENT_STICKY_DLEN_REVOKE then 0 else SUBEVENT_DATA_LENGTH_FROM_DLEN dlen))"

definition is_sticky_tstamp :: "nat \<Rightarrow> bytes \<Rightarrow> bool" where
  "is_sticky_tstamp off data \<longleftrightarrow> lo16 (sub_word 1 off data) = 10 \<and> hi16 (sub_word 1 off data) = 1"

text \<open>
  The subevents of the event \<open>raw\<close>: the length of the event's own data (header and time stamp
  subevents) and the number of the other subevents.
\<close>

fun count_subs :: "nat \<Rightarrow> bytes \<Rightarrow> nat \<Rightarrow> nat \<Rightarrow> nat \<Rightarrow> cxx_error + (nat \<times> nat)" where
  "count_subs 0 raw off ev_raw_data_len num_sev = Inl Fuel"
| "count_subs (Suc fuel) raw off ev_raw_data_len num_sev =
     (if off = length raw then Inr (ev_raw_data_len, num_sev)
      else if off + sizeof_subevent_header > length raw then
        Inl (Err ''Trying to store sticky event with subevent header overflowing event'')
      else
        let sev_size = sticky_sub_size (sub_word 0 off raw);
            sev_next_off = wrap64 (off + sev_size)
        in if sev_next_off > length raw then Inl (Assert ''false'')
           else if is_sticky_tstamp off raw then
             if num_sev \<noteq> 0 then
               Inl (Err ''Trying to store sticky event with tstamp subevent as non-fist subevent.'')
             else count_subs fuel raw sev_next_off (ev_raw_data_len + sev_size) num_sev
           else count_subs fuel raw sev_next_off ev_raw_data_len (num_sev + 1))"

text \<open>Changes of a cell of the meta-data.\<close>

definition map_event_at :: "nat \<Rightarrow> (meta_event \<Rightarrow> meta_event) \<Rightarrow> meta_cell list \<Rightarrow> cxx_error + meta_cell list" where
  "map_event_at off f cells =
     (if off mod sizeof_meta = 0 \<and> off div sizeof_meta < length cells then
        case cells ! (off div sizeof_meta) of
          Meta_Ev e \<Rightarrow> Inr (cells[off div sizeof_meta := Meta_Ev (f e)])
        | Meta_Sub _ \<Rightarrow> Inl (Undef ''no event at the offset'')
      else Inl (Undef ''no event at the offset''))"

definition event_live_at :: "nat \<Rightarrow> meta_cell list \<Rightarrow> meta_event option" where
  "event_live_at off cells =
     (if off mod sizeof_meta = 0 \<and> off div sizeof_meta < length cells then
        case cells ! (off div sizeof_meta) of Meta_Ev e \<Rightarrow> Some e | Meta_Sub _ \<Rightarrow> None
      else None)"

text \<open>A subevent that is replaced: it and its hash entry are given up.\<close>

definition revoke_sub :: "nat \<Rightarrow> lmd_sticky_store \<Rightarrow> (unit, lmd_sticky_store) result" where
  "revoke_sub entry st =
     (let off = ss_hash st ! entry in
      case meta_sub_at off (ss_meta st) of
        None \<Rightarrow> (Inl (Undef ''no subevent at the offset''), st)
      | Some s \<Rightarrow>
          (let cells = (ss_meta st)[nat off div sizeof_meta := Meta_Sub (s\<lparr>ms_offset := - 1\<rparr>)] in
           case map_event_at (ms_ev_offset s) (\<lambda>e. e\<lparr>me_live := dec32 (me_live e)\<rparr>) cells of
             Inl err \<Rightarrow> (Inl err, st)
           | Inr cells \<Rightarrow>
               (case event_live_at (ms_ev_offset s) cells of
                  None \<Rightarrow> (Inl (Undef ''no event at the offset''), st)
                | Some e \<Rightarrow>
                    let gone = (me_live e = 0)
                    in (Inr (), st\<lparr>ss_meta := cells, ss_hash := (ss_hash st)[entry := - 1],
                          ss_data_revoked := ss_data_revoked st + ms_length s + (if gone then me_length e else 0),
                          ss_meta_revoked := ss_meta_revoked st + sizeof_meta + (if gone then sizeof_meta else 0)\<rparr>))))"

text \<open>One subevent, at \<open>off\<close> in the data, of the event whose meta-data is at \<open>ev_offset\<close>.\<close>

definition add_sub_meta :: "bool \<Rightarrow> nat \<Rightarrow> nat \<Rightarrow> nat \<Rightarrow> lmd_sticky_store \<Rightarrow> (unit, lmd_sticky_store) result" where
  "add_sub_meta keep ev_offset off sev_size st =
     (if keep then
        (Inr (), st\<lparr>ss_meta := ss_meta st @
           [Meta_Sub \<lparr>ms_ev_offset = ev_offset, ms_offset = int off, ms_length = sev_size\<rparr>]\<rparr>)
      else
        case map_event_at ev_offset (\<lambda>e. e\<lparr>me_num := dec32 (me_num e), me_live := dec32 (me_live e)\<rparr>) (ss_meta st) of
          Inl err \<Rightarrow> (Inl err, st)
        | Inr cells \<Rightarrow> (Inr (), st\<lparr>ss_meta := cells\<rparr>))"

definition replace_sub :: "nat \<Rightarrow> lmd_sticky_store \<Rightarrow> (unit, lmd_sticky_store) result" where
  "replace_sub off st =
     (let table = ss_hash st;
          hash = sticky_subevent_hash off (ss_data st)
      in case find_entry (length table) off st (first_entry hash table) of
           Inl err \<Rightarrow> (Inl err, st)
         | Inr (Some entry) \<Rightarrow> revoke_sub entry st
         | Inr None \<Rightarrow> (Inr (), st\<lparr>ss_hash_used := ss_hash_used st + 1\<rparr>))"

definition enter_sub :: "nat \<Rightarrow> nat \<Rightarrow> lmd_sticky_store \<Rightarrow> (unit, lmd_sticky_store) result" where
  "enter_sub off dest_sev_offset st =
     (let table = ss_hash st;
          hash = sticky_subevent_hash off (ss_data st)
      in case free_entry (length table) table (first_entry hash table) of
           Inl err \<Rightarrow> (Inl err, st)
         | Inr entry \<Rightarrow> (Inr (), st\<lparr>ss_hash := table[entry := int dest_sev_offset]\<rparr>))"

definition insert_sub :: "bool \<Rightarrow> nat \<Rightarrow> nat \<Rightarrow> lmd_sticky_store \<Rightarrow> (nat, lmd_sticky_store) result" where
  "insert_sub discard_revoke ev_offset off st =
     (let dlen = sub_word 0 off (ss_data st);
          sev_size = sticky_sub_size dlen;
          keep = (\<not> discard_revoke \<or> dlen \<noteq> LMD_SUBEVENT_STICKY_DLEN_REVOKE);
          dest_sev_offset = sizeof_meta * length (ss_meta st)
      in andthen (add_sub_meta keep ev_offset off sev_size st) (\<lambda>_ st.
         andthen (replace_sub off st) (\<lambda>_ st.
         andthen (if keep then enter_sub off dest_sev_offset st else (Inr (), st)) (\<lambda>_ st.
         (Inr sev_size, st)))))"

fun insert_subs :: "nat \<Rightarrow> bool \<Rightarrow> nat \<Rightarrow> nat \<Rightarrow> nat \<Rightarrow> lmd_sticky_store \<Rightarrow> (unit, lmd_sticky_store) result" where
  "insert_subs 0 discard_revoke ev_offset off ev_end st = (Inl Fuel, st)"
| "insert_subs (Suc fuel) discard_revoke ev_offset off ev_end st =
     (if off = ev_end then (Inr (), st)
      else andthen (insert_sub discard_revoke ev_offset off st)
             (\<lambda>sev_size st. insert_subs fuel discard_revoke ev_offset (wrap64 (off + sev_size)) ev_end st))"

text \<open>The checks of the event header. The product is computed on \<^verbatim>\<open>size_t\<close>.\<close>

definition check_sticky_header :: "bytes \<Rightarrow> cxx_error + unit" where
  "check_sticky_header raw =
     (let header = event_header_of_words (words32 (take 8 raw));
          ev_size = unat (eh_dlen header) * 2
      in if ev_size + sizeof_event_header \<noteq> length raw then
           Inl (Err ''Trying to store sticky event with wrong data size'')
         else if ev_size + sizeof_event_header < sizeof_event_10_1 then
           Inl (Err ''Trying to store sticky event with small size'')
         else if \<not> is_event_sticky header then Inl (Err ''Trying to store sticky event with wrong type'')
         else Inr ())"

definition insert_raw :: "bytes \<Rightarrow> nat \<Rightarrow> nat \<Rightarrow> nat \<Rightarrow> bool \<Rightarrow> lmd_sticky_store \<Rightarrow> (unit, lmd_sticky_store) result" where
  "insert_raw raw ev_data_off ev_raw_data_len num_sev discard_revoke st =
     andthen (reserve_meta (sizeof_meta + num_sev * sizeof_meta) st) (\<lambda>recalc1 st.
     andthen (reserve_hash num_sev st) (\<lambda>recalc2 st.
     andthen (if recalc1 \<or> recalc2 then populate_hash st else (Inr (), st)) (\<lambda>_ st.
       let dest_ev_offset = sizeof_meta * length (ss_meta st);
           st = st\<lparr>ss_meta := ss_meta st @
                  [Meta_Ev \<lparr>me_offset = ev_data_off, me_length = ev_raw_data_len, me_num = num_sev, me_live = num_sev\<rparr>]\<rparr>
       in andthen (insert_subs (length raw + 1) discard_revoke dest_ev_offset (ev_data_off + ev_raw_data_len)
                     (ev_data_off + length raw) st)
            (\<lambda>_ st. verified st))))"

definition sticky_insert :: "lmd_event_out \<Rightarrow> bool \<Rightarrow> lmd_sticky_store \<Rightarrow> (unit, lmd_sticky_store) result" where
  "sticky_insert event discard_revoke st =
     andthen (verified st) (\<lambda>_ st.
     let ev_len = get_length event + sizeof_event_header in
     andthen (reserve_data ev_len st) (\<lambda>_ st.
       case event_out_write event of
         Inl err \<Rightarrow> (Inl err, st)
       | Inr raw \<Rightarrow>
           let ev_data_off = length (ss_data st);
               st = st\<lparr>ss_data := ss_data st @ raw\<rparr>
           in case check_sticky_header raw of
                Inl err \<Rightarrow> (Inl err, st)
              | Inr _ \<Rightarrow>
                  (case count_subs (length raw + 1) raw sizeof_event_10_1 sizeof_event_10_1 0 of
                     Inl err \<Rightarrow> (Inl err, st)
                   | Inr (ev_raw_data_len, num_sev) \<Rightarrow>
                       insert_raw raw ev_data_off ev_raw_data_len num_sev discard_revoke st)))"

section \<open>Replay\<close>

definition stored_event :: "bytes \<Rightarrow> meta_group \<Rightarrow> cxx_error + lmd_event_out" where
  "stored_event data = (\<lambda>(e, subs).
     if \<not> me_length e \<ge> sizeof_event_10_1 then Inl (Assert ''ev->_data_length >= sizeof (lmd_event_10_1_host)'')
     else
       let off = me_offset e;
           more_length = me_length e - sizeof_event_10_1
       in Inr \<lparr>eo_header = event_header_of_words (words32 (slice off 8 data)),
               eo_info = event_info_of_words (words32 (slice (off + 8) 8 data)),
               eo_chunks = Info_chunk #
                 (if more_length \<noteq> 0 then [Data_chunk (slice (off + 16) more_length data) False] else []) @
                 map (\<lambda>s. Data_chunk (slice (nat (ms_offset s)) (ms_length s) data) False) (filter sub_live subs)\<rparr>)"

fun stored_events :: "bytes \<Rightarrow> meta_group list \<Rightarrow> cxx_error + lmd_event_out list" where
  "stored_events data [] = Inr []"
| "stored_events data ((e, subs) # gs) =
     (if me_live e = 0 then stored_events data gs
      else case stored_event data (e, subs) of
          Inl err \<Rightarrow> Inl err
        | Inr ev \<Rightarrow> (case stored_events data gs of Inl err \<Rightarrow> Inl err | Inr evs \<Rightarrow> Inr (ev # evs)))"

text \<open>\<^verbatim>\<open>write_events\<close>: the events that are given to the output, in order.\<close>

definition sticky_write_events :: "lmd_sticky_store \<Rightarrow> cxx_error + lmd_event_out list" where
  "sticky_write_events st =
     (if \<not> verify_meta st then Inl (Assert ''verify_meta'')
      else case meta_groups 0 (ss_meta st) of
          None \<Rightarrow> Inl (Assert ''iter_ev_offset == _meta_end'')
        | Some gs \<Rightarrow> stored_events (ss_data st) (map snd gs))"

end
