(* ===== verification/Lmd_Sticky_Table.thy ===== *)
theory Lmd_Sticky_Table
  imports Lmd_Sticky_Store
begin

text \<open>
  The hash table of the sticky store: the probing loops end at a free entry or at the wanted
  subevent, the meta-data is a sequence of events with their subevents (\<open>groups_ok\<close>), every live
  subevent is found from its hash value (\<open>hash_inv\<close>), and replacing and entering a subevent
  keep this so.
\<close>

section \<open>Probing the hash table\<close>

text \<open>The table has a power of two of entries; \<open>slot\<close> is the entry looked at in step \<open>k\<close>.\<close>

definition table_size :: "int list \<Rightarrow> bool" where
  "table_size table \<longleftrightarrow> (\<exists>k. length table = 2 ^ k)"

definition slot :: "u32 \<Rightarrow> int list \<Rightarrow> nat \<Rightarrow> nat" where
  "slot hash table k = (unat hash + k) mod length table"

definition free :: "int \<Rightarrow> bool" where
  "free x \<longleftrightarrow> x = 0 \<or> x = - 1"

lemma mask_mod: "table_size table \<Longrightarrow> n AND (length table - 1) = n mod length table"
  by (auto simp: table_size_def take_bit_eq_mod [symmetric] take_bit_eq_mask mask_eq_exp_minus_1)

lemma first_slot: "table_size table \<Longrightarrow> first_entry hash table = slot hash table 0"
  by (simp add: first_entry_def slot_def mask_mod del: One_nat_def)

lemma next_slot: "table_size table \<Longrightarrow> next_entry (slot hash table k) table = slot hash table (Suc k)"
  by (simp add: next_entry_def slot_def mask_mod mod_Suc_eq del: One_nat_def) (simp add: mod_Suc_eq)

lemma slot_less: "table_size table \<Longrightarrow> slot hash table k < length table"
  by (auto simp: table_size_def slot_def)

lemma slot_surj:
  assumes "table_size table" and "e < length table"
  shows "\<exists>k<length table. slot hash table k = e"
proof -
  let ?n = "length table"
  let ?k = "(e + (?n - unat hash mod ?n)) mod ?n"
  have n: "0 < ?n" using assms by (auto simp: table_size_def)
  have "(unat hash + ?k) mod ?n = (unat hash mod ?n + (e + (?n - unat hash mod ?n))) mod ?n" by (simp add: mod_simps)
  also have "unat hash mod ?n + (e + (?n - unat hash mod ?n)) = e + ?n" using mod_less_divisor [OF n, of "unat hash"] by linarith
  finally have "slot hash table ?k = e" using assms(2) by (simp add: slot_def)
  moreover have "?k < ?n" using n by simp
  ultimately show ?thesis by blast
qed

text \<open>The first free entry on the way.\<close>

lemma free_entry_steps:
  assumes "table_size table" and "free (table ! slot hash table (k + d))" and "\<forall>i<d. \<not> free (table ! slot hash table (k + i))"
    and "d < fuel"
  shows "free_entry fuel table (slot hash table k) = Inr (slot hash table (k + d))"
  using assms
proof (induction fuel arbitrary: k d)
  case (Suc fuel)
  have s: "slot hash table k < length table" using slot_less [OF Suc.prems(1)] .
  show ?case
  proof (cases d)
    case 0
    then show ?thesis using Suc.prems(2) s by (auto simp: free_def)
  next
    case (Suc d')
    have "\<not> free (table ! slot hash table k)" using Suc.prems(3) [rule_format, of 0] Suc by simp
    moreover have "free_entry fuel table (slot hash table (Suc k)) = Inr (slot hash table (Suc k + d'))"
      by (rule Suc.IH) (use Suc.prems Suc in \<open>auto dest: spec [of _ "Suc _"]\<close>)
    ultimately show ?thesis using s next_slot [OF Suc.prems(1)] Suc by (auto simp: free_def)
  qed
qed simp

lemma free_entry_first:
  assumes "table_size table" and "e < length table" and "free (table ! e)"
  shows "\<exists>d<length table. free_entry (length table) table (first_entry hash table) = Inr (slot hash table d) \<and>
           free (table ! slot hash table d) \<and> (\<forall>i<d. \<not> free (table ! slot hash table i))"
proof -
  from slot_surj [OF assms(1,2), of hash] obtain k where k: "k < length table" "free (table ! slot hash table k)"
    using assms(3) by auto
  define d where "d = (LEAST d. free (table ! slot hash table d))"
  have d: "free (table ! slot hash table d)" unfolding d_def by (rule LeastI [of _ k]) (rule k(2))
  have least: "\<forall>i<d. \<not> free (table ! slot hash table i)" unfolding d_def by (auto dest: not_less_Least)
  have "d \<le> k" unfolding d_def by (rule Least_le) (rule k(2))
  then have "free_entry (length table) table (slot hash table 0) = Inr (slot hash table (0 + d))"
    by (intro free_entry_steps) (use assms(1) d least k(1) in simp_all)
  then show ?thesis using d least \<open>d \<le> k\<close> k(1) first_slot [OF assms(1)] by (intro exI [of _ d]) simp
qed

text \<open>The search for a live subevent with the same identifier.\<close>

definition same_sub :: "nat \<Rightarrow> lmd_sticky_store \<Rightarrow> int \<Rightarrow> bool" where
  "same_sub off st x \<longleftrightarrow>
     (\<exists>s. meta_sub_at x (ss_meta st) = Some s \<and> sub_live s \<and> sticky_subevent_same_id off (nat (ms_offset s)) (ss_data st))"

definition entries_ok :: "int list \<Rightarrow> meta_cell list \<Rightarrow> bool" where
  "entries_ok table cells \<longleftrightarrow> (\<forall>x \<in> set table. free x \<or> meta_sub_at x cells \<noteq> None)"

lemma find_entry_steps:
  assumes "table_size (ss_hash st)" and "entries_ok (ss_hash st) (ss_meta st)"
    and "\<forall>i<d. ss_hash st ! slot hash (ss_hash st) (k + i) \<noteq> 0 \<and> \<not> same_sub off st (ss_hash st ! slot hash (ss_hash st) (k + i))"
    and "ss_hash st ! slot hash (ss_hash st) (k + d) = 0 \<or> same_sub off st (ss_hash st ! slot hash (ss_hash st) (k + d))"
    and "d < fuel"
  shows "find_entry fuel off st (slot hash (ss_hash st) k) =
           Inr (if ss_hash st ! slot hash (ss_hash st) (k + d) = 0 then None else Some (slot hash (ss_hash st) (k + d)))"
  using assms
proof (induction fuel arbitrary: k d)
  case (Suc fuel)
  let ?t = "ss_hash st" and ?s = "slot hash (ss_hash st)"
  have s: "?s k < length ?t" using slot_less [OF Suc.prems(1)] .
  then have "?t ! ?s k \<in> set ?t" by simp
  then have ok: "free (?t ! ?s k) \<or> meta_sub_at (?t ! ?s k) (ss_meta st) \<noteq> None" using Suc.prems(2) by (auto simp: entries_ok_def)
  have no: "\<not> same_sub off st (- 1)" by (simp add: same_sub_def meta_sub_at_def)
  show ?case
  proof (cases d)
    case 0
    then show ?thesis using Suc.prems(4) s no by (auto simp: same_sub_def Let_def meta_sub_at_def)
  next
    case (Suc d')
    have k: "?t ! ?s k \<noteq> 0" "\<not> same_sub off st (?t ! ?s k)" using Suc.prems(3) [rule_format, of 0] Suc by simp_all
    have "find_entry fuel off st (?s (Suc k)) =
        Inr (if ?t ! ?s (Suc k + d') = 0 then None else Some (?s (Suc k + d')))"
      by (rule Suc.IH) (use Suc.prems Suc in \<open>auto dest: spec [of _ "Suc _"]\<close>)
    then show ?thesis using s k ok next_slot [OF Suc.prems(1)] Suc by (auto simp: free_def same_sub_def Let_def)
  qed
qed simp

lemma find_entry_first:
  assumes "table_size (ss_hash st)" and "entries_ok (ss_hash st) (ss_meta st)"
    and "e < length (ss_hash st)" and "ss_hash st ! e = 0"
  shows "\<exists>d<length (ss_hash st). find_entry (length (ss_hash st)) off st (first_entry hash (ss_hash st)) =
             Inr (if ss_hash st ! slot hash (ss_hash st) d = 0 then None else Some (slot hash (ss_hash st) d)) \<and>
           (ss_hash st ! slot hash (ss_hash st) d = 0 \<or> same_sub off st (ss_hash st ! slot hash (ss_hash st) d)) \<and>
           (\<forall>i<d. ss_hash st ! slot hash (ss_hash st) i \<noteq> 0 \<and> \<not> same_sub off st (ss_hash st ! slot hash (ss_hash st) i))"
proof -
  let ?t = "ss_hash st" and ?s = "slot hash (ss_hash st)"
  let ?P = "\<lambda>d. ?t ! ?s d = 0 \<or> same_sub off st (?t ! ?s d)"
  from slot_surj [OF assms(1,3), of hash] obtain k where k: "k < length ?t" "?P k" using assms(4) by auto
  define d where "d = (LEAST d. ?P d)"
  have d: "?P d" unfolding d_def by (rule LeastI [of _ k]) (rule k(2))
  have least: "\<forall>i<d. \<not> ?P i" unfolding d_def by (auto dest: not_less_Least)
  have "d \<le> k" unfolding d_def by (rule Least_le) (rule k(2))
  then have "find_entry (length ?t) off st (?s 0) = Inr (if ?t ! ?s (0 + d) = 0 then None else Some (?s (0 + d)))"
    by (intro find_entry_steps) (use assms(1,2) d least k(1) in simp_all)
  then show ?thesis using d least \<open>d \<le> k\<close> k(1) first_slot [OF assms(1)] by (intro exI [of _ d]) simp
qed

section \<open>Groups of cells\<close>

definition flat :: "meta_group list \<Rightarrow> meta_cell list" where
  "flat gs = concat (map group_cells gs)"

lemma flat_simps [simp]:
  "flat [] = []" "flat ((e, ss) # gs) = Meta_Ev e # map Meta_Sub ss @ flat gs" "flat (gs @ hs) = flat gs @ flat hs"
  by (simp_all add: flat_def group_cells_def)

text \<open>
  Well-formed groups from cell \<open>i\<close> on: the counts are right and live subevents know their
  event. The last event may still wait for \<open>r\<close> subevents.
\<close>

definition sub_ok :: "nat \<Rightarrow> meta_sub \<Rightarrow> bool" where
  "sub_ok i s \<longleftrightarrow> (sub_live s \<longrightarrow> ms_ev_offset s = 24 * i \<and> 12 \<le> ms_length s \<and> 0 < ms_offset s)"

definition group_ok :: "nat \<Rightarrow> nat \<Rightarrow> meta_group \<Rightarrow> bool" where
  "group_ok r i = (\<lambda>(e, ss). me_num e = length ss + r \<and> me_live e = length (filter sub_live ss) + r \<and>
     (me_live e \<noteq> 0 \<longrightarrow> 16 \<le> me_length e) \<and> list_all (sub_ok i) ss)"

fun groups_ok :: "nat \<Rightarrow> nat \<Rightarrow> meta_group list \<Rightarrow> bool" where
  "groups_ok r i [] \<longleftrightarrow> True"
| "groups_ok r i (g # gs) \<longleftrightarrow> group_ok (if gs = [] then r else 0) i g \<and> groups_ok r (i + 1 + length (snd g)) gs"

lemma length_flat_Cons: "length (flat (g # gs)) = 1 + length (snd g) + length (flat gs)"
  by (cases g) simp

lemma groups_ok_append:
  "groups_ok r i (gs @ hs) \<longleftrightarrow> (if hs = [] then groups_ok r i gs else groups_ok 0 i gs \<and> groups_ok r (i + length (flat gs)) hs)"
  by (induction gs arbitrary: i) (auto simp: length_flat_Cons add.assoc)

lemma the_subs_map [simp]: "the_subs (map Meta_Sub ss) = Some ss"
  by (induction ss) auto

fun indexed :: "nat \<Rightarrow> meta_group list \<Rightarrow> (nat \<times> meta_group) list" where
  "indexed i [] = []"
| "indexed i (g # gs) = (i, g) # indexed (i + 1 + length (snd g)) gs"

lemma map_snd_indexed [simp]: "map snd (indexed i gs) = gs"
  by (induction gs arbitrary: i) auto

lemma meta_groups_flat: "groups_ok 0 j gs \<Longrightarrow> meta_groups i (flat gs) = Some (indexed i gs)"
  by (induction gs arbitrary: i j) (auto simp: group_ok_def)

text \<open>Where a subevent is.\<close>

lemma flat_subD:
  assumes "i < length (flat gs)" and "flat gs ! i = Meta_Sub s"
  shows "\<exists>g1 e s1 s2 g2. gs = g1 @ (e, s1 @ s # s2) # g2 \<and> i = length (flat g1) + 1 + length s1"
  using assms
proof (induction gs arbitrary: i)
  case (Cons g gs)
  obtain e ss where g: "g = (e, ss)" by (cases g)
  consider "i = 0" | "0 < i" "i \<le> length ss" | "length ss < i" by linarith
  then show ?case
  proof cases
    case 1
    then show ?thesis using Cons.prems g by simp
  next
    case 2
    then obtain k where k: "i = Suc k" "k < length ss" by (cases i) auto
    then have "ss ! k = s" using Cons.prems(2) g by (simp add: nth_append)
    then have "ss = take k ss @ s # drop (Suc k) ss" using k(2) by (metis id_take_nth_drop)
    then show ?thesis using g k by (intro exI [of _ "[]"] exI [of _ e] exI [of _ "take k ss"] exI [of _ "drop (Suc k) ss"] exI [of _ gs]) simp
  next
    case 3
    define j where "j = i - 1 - length ss"
    have j: "i = 1 + length ss + j" using 3 by (simp add: j_def)
    have "j < length (flat gs)" "flat gs ! j = Meta_Sub s" using Cons.prems g j by (simp_all add: nth_append)
    from Cons.IH [OF this] obtain g1 e' s1 s2 g2 where
      "gs = g1 @ (e', s1 @ s # s2) # g2" "j = length (flat g1) + 1 + length s1" by blast
    then show ?thesis using g j
      by (intro exI [of _ "(e, ss) # g1"] exI [of _ e'] exI [of _ s1] exI [of _ s2] exI [of _ g2]) simp
  qed
qed simp

lemma flat_subI:
  "gs = g1 @ (e, s1 @ s # s2) # g2 \<Longrightarrow> i = length (flat g1) + 1 + length s1 \<Longrightarrow>
   i < length (flat gs) \<and> flat gs ! i = Meta_Sub s"
  by (simp add: nth_append)

lemma meta_sub_at_index:
  "meta_sub_at x cells = Some s \<longleftrightarrow> (\<exists>i<length cells. x = int (24 * i) \<and> cells ! i = Meta_Sub s)"
proof
  assume at: "meta_sub_at x cells = Some s"
  then have x: "0 \<le> x" "nat x mod 24 = 0" "nat x div 24 < length cells"
    by (auto simp: meta_sub_at_def split: if_splits)
  moreover have "24 * (nat x div 24) = nat x" using x(2) mult_div_mod_eq [of 24 "nat x"] by linarith
  moreover have "cells ! (nat x div 24) = Meta_Sub s" using at x by (simp add: meta_sub_at_def split: meta_cell.splits)
  ultimately show "\<exists>i<length cells. x = int (24 * i) \<and> cells ! i = Meta_Sub s"
    by (intro exI [of _ "nat x div 24"]) simp
next
  assume "\<exists>i<length cells. x = int (24 * i) \<and> cells ! i = Meta_Sub s"
  then obtain i where i: "i < length cells" "x = int (24 * i)" "cells ! i = Meta_Sub s" by blast
  have "nat x = 24 * i" using i(2) by simp
  then show "meta_sub_at x cells = Some s" using i by (simp add: meta_sub_at_def)
qed

text \<open>All live subevents, and giving up those with a given identifier.\<close>

definition live_of :: "meta_group list \<Rightarrow> meta_sub list" where
  "live_of gs = concat (map (\<lambda>(e, ss). filter sub_live ss) gs)"

definition data_id :: "bytes \<Rightarrow> nat \<Rightarrow> u32 \<times> u32" where
  "data_id data off = (sub_word 1 off data, sub_word 2 off data)"

abbreviation meta_id :: "bytes \<Rightarrow> meta_sub \<Rightarrow> u32 \<times> u32" where
  "meta_id data s \<equiv> data_id data (nat (ms_offset s))"

definition hits :: "bytes \<Rightarrow> u32 \<times> u32 \<Rightarrow> meta_sub \<Rightarrow> bool" where
  "hits data sid s \<longleftrightarrow> sub_live s \<and> meta_id data s = sid"

definition kill_sub :: "bytes \<Rightarrow> u32 \<times> u32 \<Rightarrow> meta_sub \<Rightarrow> meta_sub" where
  "kill_sub data sid s = (if hits data sid s then s\<lparr>ms_offset := - 1\<rparr> else s)"

definition kill_group :: "bytes \<Rightarrow> u32 \<times> u32 \<Rightarrow> meta_group \<Rightarrow> meta_group" where
  "kill_group data sid = (\<lambda>(e, ss). (e\<lparr>me_live := me_live e - length (filter (hits data sid) ss)\<rparr>, map (kill_sub data sid) ss))"

lemma same_id_data_id: "sticky_subevent_same_id a b data \<longleftrightarrow> data_id data a = data_id data b"
  by (simp add: sticky_subevent_same_id_def data_id_def)

lemma hash_data_id: "data_id data a = data_id data' b \<Longrightarrow> sticky_subevent_hash a data = sticky_subevent_hash b data'"
  by (simp add: sticky_subevent_hash_def data_id_def)

lemma kill_id_noop:
  assumes "\<forall>s \<in> set ss. \<not> hits data sid s"
  shows "map (kill_sub data sid) ss = ss" and "filter (hits data sid) ss = []"
  using assms by (auto simp: kill_sub_def filter_empty_conv intro: map_idI)

lemma kill_groups_noop:
  assumes "\<forall>s \<in> set (live_of gs). meta_id data s \<noteq> sid"
  shows "map (kill_group data sid) gs = gs"
proof (rule map_idI)
  fix g assume g: "g \<in> set gs"
  obtain e ss where [simp]: "g = (e, ss)" by (cases g)
  have "\<forall>s \<in> set ss. \<not> hits data sid s" using assms g by (auto simp: live_of_def hits_def)
  then show "kill_group data sid g = g" using kill_id_noop by (simp add: kill_group_def)
qed

lemma live_of_simps [simp]:
  "live_of [] = []" "live_of ((e, ss) # gs) = filter sub_live ss @ live_of gs" "live_of (gs @ hs) = live_of gs @ live_of hs"
  by (simp_all add: live_of_def)

lemma kill_at:
  assumes "gs = g1 @ (e, s1 @ s # s2) # g2" and "distinct (map (meta_id data) (live_of gs))" and "hits data sid s"
  shows "map (kill_group data sid) gs = g1 @ (e\<lparr>me_live := me_live e - 1\<rparr>, s1 @ s\<lparr>ms_offset := - 1\<rparr> # s2) # g2"
    and "flat (map (kill_group data sid) gs) =
      (flat gs)[length (flat g1) + 1 + length s1 := Meta_Sub (s\<lparr>ms_offset := - 1\<rparr>),
                length (flat g1) := Meta_Ev (e\<lparr>me_live := me_live e - 1\<rparr>)]"
proof -
  have d: "distinct (map (meta_id data) (live_of g1 @ filter sub_live s1 @ s # filter sub_live s2 @ live_of g2))"
    using assms by (simp add: hits_def)
  have sid: "meta_id data s = sid" using assms(3) by (simp add: hits_def)
  have "\<forall>s' \<in> set (live_of g1). meta_id data s' \<noteq> sid" "\<forall>s' \<in> set (live_of g2). meta_id data s' \<noteq> sid"
    "\<forall>s' \<in> set s1. \<not> hits data sid s'" "\<forall>s' \<in> set s2. \<not> hits data sid s'"
    using d sid by (auto simp: hits_def image_iff)
  note n = kill_groups_noop [OF this(1)] kill_groups_noop [OF this(2)] kill_id_noop [OF this(3)] kill_id_noop [OF this(4)]
  show k: "map (kill_group data sid) gs = g1 @ (e\<lparr>me_live := me_live e - 1\<rparr>, s1 @ s\<lparr>ms_offset := - 1\<rparr> # s2) # g2"
    using n assms(3) by (simp add: assms(1) kill_group_def kill_sub_def)
  show "flat (map (kill_group data sid) gs) =
      (flat gs)[length (flat g1) + 1 + length s1 := Meta_Sub (s\<lparr>ms_offset := - 1\<rparr>),
                length (flat g1) := Meta_Ev (e\<lparr>me_live := me_live e - 1\<rparr>)]"
    unfolding k by (simp add: assms(1) list_update_append)
qed

section \<open>The hash table finds the live subevents\<close>

definition finds :: "nat \<Rightarrow> int list \<Rightarrow> bytes \<Rightarrow> meta_cell list \<Rightarrow> bool" where
  "finds n table data cells \<longleftrightarrow>
     (\<forall>i<n. \<forall>s. cells ! i = Meta_Sub s \<and> sub_live s \<longrightarrow>
        (let hash = sticky_subevent_hash (nat (ms_offset s)) data
         in \<exists>k<length table. table ! slot hash table k = int (24 * i) \<and>
              (\<forall>j<k. table ! slot hash table j \<noteq> 0)))"

definition occupied :: "int list \<Rightarrow> nat" where
  "occupied table = length (filter (\<lambda>x. x \<noteq> 0) table)"

text \<open>Every entry in use belongs to one of the first \<open>n\<close> cells.\<close>

definition entries_upto :: "nat \<Rightarrow> int list \<Rightarrow> meta_cell list \<Rightarrow> bool" where
  "entries_upto n table cells \<longleftrightarrow>
     n \<le> length cells \<and> (\<forall>x \<in> set table. free x \<or> (\<exists>i<n. x = int (24 * i) \<and> (\<exists>s. cells ! i = Meta_Sub s)))"

lemma entries_upto_ok: "entries_upto n table cells \<Longrightarrow> entries_ok table cells"
  unfolding entries_upto_def entries_ok_def by (metis meta_sub_at_index not_None_eq order_less_le_trans)

definition hash_inv :: "nat \<Rightarrow> lmd_sticky_store \<Rightarrow> bool" where
  "hash_inv n st \<longleftrightarrow>
     (ss_hash st \<noteq> [] \<longrightarrow> table_size (ss_hash st)) \<and> entries_upto n (ss_hash st) (ss_meta st) \<and>
     finds n (ss_hash st) (ss_data st) (ss_meta st) \<and> occupied (ss_hash st) \<le> ss_hash_used st"

text \<open>At least half of the table is empty, also after \<open>m\<close> more entries.\<close>

definition hash_room :: "nat \<Rightarrow> lmd_sticky_store \<Rightarrow> bool" where
  "hash_room m st \<longleftrightarrow> ss_hash_used st + m \<le> length (ss_hash st) div 2"

lemma occupied_update:
  assumes "e < length table" and "x \<noteq> 0"
  shows "occupied (table[e := x]) = occupied table + (if table ! e = 0 then 1 else 0)"
  using assms by (induction table arbitrary: e) (auto simp: occupied_def nth_Cons split: nat.splits)

lemma empty_slot: "occupied table < length table \<Longrightarrow> \<exists>e<length table. table ! e = 0"
  unfolding occupied_def by (metis (mono_tags, lifting) filter_True in_set_conv_nth less_irrefl)

lemma empty_entry:
  assumes "hash_inv n st" and "hash_room 1 st"
  shows "table_size (ss_hash st)" and "\<exists>e<length (ss_hash st). ss_hash st ! e = 0"
proof -
  have len: "occupied (ss_hash st) < length (ss_hash st)" using assms by (auto simp: hash_inv_def hash_room_def)
  then show "table_size (ss_hash st)" using assms(1) by (auto simp: hash_inv_def)
  show "\<exists>e<length (ss_hash st). ss_hash st ! e = 0" by (rule empty_slot [OF len])
qed

lemma slot_update [simp]: "slot hash (table[e := x]) k = slot hash table k"
  by (simp add: slot_def)

lemma table_size_update [simp]: "table_size (table[e := x]) = table_size table"
  by (simp add: table_size_def)

text \<open>A subevent with the same identifier is given up, if there is one.\<close>

lemma revoke_sub_at:
  assumes m: "ss_meta st = flat gs @ tail" and ok: "groups_ok r 0 gs" and gs: "gs = g1 @ (e, s1 @ s # s2) # g2"
    and d: "distinct (map (meta_id data) (live_of gs))" and h: "hits data sid s"
    and en: "entry < length (ss_hash st)" "ss_hash st ! entry = int (24 * (length (flat g1) + 1 + length s1))"
  shows "\<exists>dr mr. revoke_sub entry st =
           (Inr (), st\<lparr>ss_meta := flat (map (kill_group data sid) gs) @ tail, ss_hash := (ss_hash st)[entry := - 1],
                       ss_data_revoked := dr, ss_meta_revoked := mr\<rparr>)"
proof -
  let ?i = "length (flat g1) + 1 + length s1" and ?j = "length (flat g1)"
  have i: "?i < length (flat gs)" "flat gs ! ?i = Meta_Sub s" using flat_subI [OF gs refl] by simp_all
  then have at: "meta_sub_at (ss_hash st ! entry) (ss_meta st) = Some s"
    unfolding meta_sub_at_index using en(2) m by (intro exI [of _ ?i]) (simp add: nth_append)
  have "group_ok (if g2 = [] then r else 0) ?j (e, s1 @ s # s2)" using ok gs by (simp add: groups_ok_append)
  then have s: "ms_ev_offset s = 24 * ?j" "0 < me_live e" using h by (auto simp: group_ok_def sub_ok_def hits_def)
  have dec: "dec32 (me_live e) = me_live e - 1" using s(2) by (simp add: dec32_def)
  let ?c1 = "(flat gs)[?i := Meta_Sub (s\<lparr>ms_offset := - 1\<rparr>)]"
  have c1: "?c1 ! ?j = Meta_Ev e" "?j < length ?c1" using gs by (simp_all add: nth_append)
  have up: "(ss_meta st)[?i := Meta_Sub (s\<lparr>ms_offset := - 1\<rparr>)] = ?c1 @ tail"
    using m i(1) by (simp add: list_update_append)
  have k: "flat (map (kill_group data sid) gs) = ?c1[?j := Meta_Ev (e\<lparr>me_live := me_live e - 1\<rparr>)]"
    using kill_at(2) [OF gs d h] by simp
  have off: "nat (ss_hash st ! entry) div 24 = ?i" using en(2) by simp
  have "map_event_at (ms_ev_offset s) (\<lambda>e. e\<lparr>me_live := dec32 (me_live e)\<rparr>) (?c1 @ tail) =
      Inr (flat (map (kill_group data sid) gs) @ tail)"
    using c1 by (simp add: map_event_at_def s(1) nth_append list_update_append k dec)
  moreover have "event_live_at (ms_ev_offset s) (flat (map (kill_group data sid) gs) @ tail) =
      Some (e\<lparr>me_live := me_live e - 1\<rparr>)"
    using c1(2) by (simp add: event_live_at_def s(1) nth_append k)
  ultimately show ?thesis
    using at up off by (auto simp: revoke_sub_def Let_def)
qed

text \<open>The way of the hash value to the first free entry uses up at most what \<open>ss_hash_used\<close> allows.\<close>

definition enter_ready :: "u32 \<Rightarrow> lmd_sticky_store \<Rightarrow> bool" where
  "enter_ready hash st \<longleftrightarrow>
     (\<forall>d. free (ss_hash st ! slot hash (ss_hash st) d) \<and> (\<forall>i<d. \<not> free (ss_hash st ! slot hash (ss_hash st) i)) \<longrightarrow>
        occupied (ss_hash st) + (if ss_hash st ! slot hash (ss_hash st) d = 0 then 1 else 0) \<le> ss_hash_used st)"

lemma finds_sub:
  assumes "finds n table data cells" and "i < n" and "cells ! i = Meta_Sub s" and "sub_live s"
    and "hash = sticky_subevent_hash (nat (ms_offset s)) data"
  shows "\<exists>k<length table. table ! slot hash table k = int (24 * i) \<and> (\<forall>j<k. table ! slot hash table j \<noteq> 0)"
  using assms unfolding finds_def Let_def by blast

lemma kill_cell:
  assumes "i < length (flat gs)" and "flat (map (kill_group data sid) gs) ! i = Meta_Sub s" and "sub_live s"
  shows "flat gs ! i = Meta_Sub s \<and> \<not> hits data sid s"
  using assms
proof (induction gs arbitrary: i)
  case (Cons g gs)
  obtain e ss where g: "g = (e, ss)" by (cases g)
  consider "i = 0" | k where "i = Suc k" "k < length ss" | j where "i = 1 + length ss + j" 
    by (metis One_nat_def add_Suc less_imp_Suc_add linorder_neqE_nat not_less_eq plus_1_eq_Suc add.commute add_Suc_right less_Suc_eq_0_disj not_less le_iff_add)
  then show ?case
  proof cases
    case 1
    then show ?thesis using Cons.prems g by (simp add: kill_group_def)
  next
    case 2
    then have "kill_sub data sid (ss ! k) = s" using Cons.prems(2) g by (simp add: kill_group_def nth_append)
    then have "ss ! k = s \<and> \<not> hits data sid s" using Cons.prems(3) by (auto simp: kill_sub_def sub_live_def split: if_splits)
    then show ?thesis using 2 g by (simp add: nth_append)
  next
    case 3
    then have "j < length (flat gs)" "flat (map (kill_group data sid) gs) ! j = Meta_Sub s"
      using Cons.prems g by (simp_all add: kill_group_def nth_append)
    from Cons.IH [OF this Cons.prems(3)] show ?thesis using 3 g by (simp add: nth_append)
  qed
qed simp

lemma length_kill [simp]: "length (flat (map (kill_group data sid) gs)) = length (flat gs)"
  by (induction gs) (auto simp: kill_group_def)

lemma kill_cell_kind:
  "i < length (flat gs) \<Longrightarrow> flat gs ! i = Meta_Sub s \<Longrightarrow> \<exists>s'. flat (map (kill_group data sid) gs) ! i = Meta_Sub s'"
proof (induction gs arbitrary: i)
  case (Cons g gs)
  then show ?case
    by (cases g; cases i) (auto simp: kill_group_def nth_append)
qed simp

lemma live_of_located:
  assumes "s \<in> set (live_of gs)"
  shows "sub_live s \<and> (\<exists>i<length (flat gs). flat gs ! i = Meta_Sub s \<and> 0 < i)"
proof -
  from assms obtain e ss where "(e, ss) \<in> set gs" and s: "s \<in> set ss" "sub_live s" by (auto simp: live_of_def)
  then obtain g1 g2 where gs: "gs = g1 @ (e, ss) # g2" by (meson split_list)
  from s(1) obtain s1 s2 where "ss = s1 @ s # s2" by (meson split_list)
  then have "length (flat g1) + 1 + length s1 < length (flat gs)" "flat gs ! (length (flat g1) + 1 + length s1) = Meta_Sub s"
    using flat_subI [of gs g1 e s1 s s2 g2] gs by blast+
  then show ?thesis using s(2) by (intro conjI exI [of _ "length (flat g1) + 1 + length s1"]) simp_all
qed

lemma same_sub_index:
  assumes "entries_upto n (ss_hash st) (ss_meta st)" and "x \<in> set (ss_hash st)" and "same_sub off st x" and "x \<noteq> 0"
  shows "\<exists>i<n. x = int (24 * i) \<and> (\<exists>s. ss_meta st ! i = Meta_Sub s \<and> sub_live s \<and>
           data_id (ss_data st) off = meta_id (ss_data st) s)"
proof -
  from assms(3) obtain s i where s: "i < length (ss_meta st)" "x = int (24 * i)" "ss_meta st ! i = Meta_Sub s" "sub_live s"
    "data_id (ss_data st) off = meta_id (ss_data st) s"
    by (auto simp: same_sub_def meta_sub_at_index same_id_data_id)
  moreover have "\<not> free x" using assms(4) s(2) by (auto simp: free_def)
  ultimately show ?thesis using assms(1,2) unfolding entries_upto_def
    by (metis mult_cancel_left of_nat_eq_iff zero_neq_numeral)
qed

lemma unfound:
  assumes m: "ss_meta st = flat gs @ tail" and fi: "finds (length (flat gs)) (ss_hash st) (ss_data st) (ss_meta st)"
    and sid: "sid = data_id (ss_data st) off" "hash = sticky_subevent_hash off (ss_data st)"
    and d: "\<forall>i<d. ss_hash st ! slot hash (ss_hash st) i \<noteq> 0 \<and> \<not> same_sub off st (ss_hash st ! slot hash (ss_hash st) i)"
      "ss_hash st ! slot hash (ss_hash st) d = 0"
  shows "\<forall>s \<in> set (live_of gs). meta_id (ss_data st) s \<noteq> sid"
proof (intro ballI notI)
  let ?t = "ss_hash st" and ?s = "slot hash (ss_hash st)"
  fix s assume s: "s \<in> set (live_of gs)" and same: "meta_id (ss_data st) s = sid"
  from live_of_located [OF s] obtain i where i: "sub_live s" "i < length (flat gs)" "flat gs ! i = Meta_Sub s" "0 < i" by blast
  have c: "ss_meta st ! i = Meta_Sub s" using m i by (simp add: nth_append)
  have "hash = sticky_subevent_hash (nat (ms_offset s)) (ss_data st)"
    using hash_data_id [of "ss_data st" off "ss_data st" "nat (ms_offset s)"] same sid by simp
  from finds_sub [OF fi i(2) c i(1) this] obtain k where k: "?t ! ?s k = int (24 * i)" "\<forall>j<k. ?t ! ?s j \<noteq> 0" by blast
  have "same_sub off st (?t ! ?s k)"
    unfolding same_sub_def meta_sub_at_index same_id_data_id using k(1) c i m same sid(1) by (intro exI [of _ s]) auto
  moreover have "?t ! ?s k \<noteq> 0" using k(1) i(4) by simp
  ultimately show False using d k(2) by (metis linorder_neqE_nat)
qed

lemma replace_sub_spec:
  assumes m: "ss_meta st = flat gs @ tail" and ok: "groups_ok r 0 gs"
    and dis: "distinct (map (meta_id (ss_data st)) (live_of gs))"
    and inv: "hash_inv (length (flat gs)) st" "hash_room 1 st"
    and sid: "sid = data_id (ss_data st) off" "hash = sticky_subevent_hash off (ss_data st)"
  shows "\<exists>st'. replace_sub off st = (Inr (), st') \<and> ss_meta st' = flat (map (kill_group (ss_data st) sid) gs) @ tail \<and>
           ss_data st' = ss_data st \<and> length (ss_hash st') = length (ss_hash st) \<and>
           hash_inv (length (flat gs)) st' \<and> ss_hash_used st' \<le> ss_hash_used st + 1 \<and> enter_ready hash st'"
proof -
  let ?t = "ss_hash st" and ?n = "length (flat gs)" and ?s = "slot hash (ss_hash st)"
  have up: "entries_upto ?n ?t (ss_meta st)" and fi: "finds ?n ?t (ss_data st) (ss_meta st)"
    and occ: "occupied ?t \<le> ss_hash_used st" using inv(1) by (simp_all add: hash_inv_def)
  obtain e0 where e0: "table_size ?t" "e0 < length ?t" "?t ! e0 = 0" using empty_entry [OF inv] by blast
  from find_entry_first [OF e0(1) entries_upto_ok [OF up] e0(2,3), of off hash] obtain d where
    d: "find_entry (length ?t) off st (first_entry hash ?t) = Inr (if ?t ! ?s d = 0 then None else Some (?s d))"
      "?t ! ?s d = 0 \<or> same_sub off st (?t ! ?s d)" "\<forall>i<d. ?t ! ?s i \<noteq> 0 \<and> \<not> same_sub off st (?t ! ?s i)" by blast
  have sl: "?s d < length ?t" using slot_less [OF e0(1)] .
  show ?thesis
  proof (cases "?t ! ?s d = 0")
    case True
    have "\<forall>s \<in> set (live_of gs). meta_id (ss_data st) s \<noteq> sid"
      by (rule unfound [OF m fi sid d(3) True])
    then have "map (kill_group (ss_data st) sid) gs = gs" by (rule kill_groups_noop)
    moreover have "replace_sub off st = (Inr (), st\<lparr>ss_hash_used := ss_hash_used st + 1\<rparr>)"
      using d(1) True sid(2) by (simp add: replace_sub_def Let_def)
    ultimately show ?thesis using m inv(1) occ
      by (intro exI [of _ "st\<lparr>ss_hash_used := ss_hash_used st + 1\<rparr>"]) (auto simp: hash_inv_def enter_ready_def)
  next
    case False
    have "?t ! ?s d \<in> set ?t" using sl by simp
    from same_sub_index [OF up this _ False] d(2) False obtain i s where
      "i < ?n" "?t ! ?s d = int (24 * i)" "ss_meta st ! i = Meta_Sub s" "sub_live s"
      "data_id (ss_data st) off = meta_id (ss_data st) s" by blast
    then have i: "i < ?n" "?t ! ?s d = int (24 * i)" "flat gs ! i = Meta_Sub s" "hits (ss_data st) sid s"
      using m sid(1) by (simp_all add: hits_def nth_append)
    from flat_subD [OF i(1,3)] obtain g1 e s1 s2 g2 where
      gs: "gs = g1 @ (e, s1 @ s # s2) # g2" "i = length (flat g1) + 1 + length s1" by blast
    from revoke_sub_at [OF m ok gs(1) dis i(4) sl] i(2) gs(2) obtain dr mr where
      r: "revoke_sub (?s d) st = (Inr (), st\<lparr>ss_meta := flat (map (kill_group (ss_data st) sid) gs) @ tail,
            ss_hash := ?t[?s d := - 1], ss_data_revoked := dr, ss_meta_revoked := mr\<rparr>)" (is "_ = (_, ?st)") by auto
    have res: "replace_sub off st = (Inr (), ?st)" using d(1) False sid(2) r by (simp add: replace_sub_def Let_def)
    have up': "entries_upto ?n (ss_hash ?st) (ss_meta ?st)"
      unfolding entries_upto_def
    proof (intro conjI ballI)
      show "?n \<le> length (ss_meta ?st)" by simp
      fix x assume "x \<in> set (ss_hash ?st)"
      then have "x = - 1 \<or> x \<in> set ?t" using set_update_subset_insert [of ?t "?s d" "- 1"] by auto
      then consider "free x" | i s where "i < ?n" "x = int (24 * i)" "ss_meta st ! i = Meta_Sub s"
        using up unfolding entries_upto_def free_def by blast
      then show "free x \<or> (\<exists>i<?n. x = int (24 * i) \<and> (\<exists>s. ss_meta ?st ! i = Meta_Sub s))"
      proof cases
        case (2 i s)
        then have "flat gs ! i = Meta_Sub s" using m by (simp add: nth_append)
        then show ?thesis using 2 kill_cell_kind [of i gs s "ss_data st" sid] by (auto simp: nth_append)
      qed simp
    qed
    have fi': "finds ?n (ss_hash ?st) (ss_data ?st) (ss_meta ?st)"
      unfolding finds_def Let_def
    proof (intro allI impI, elim conjE)
      fix i' s' assume a: "i' < ?n" "ss_meta ?st ! i' = Meta_Sub s'" "sub_live s'"
      then have c: "flat gs ! i' = Meta_Sub s'" "\<not> hits (ss_data st) sid s'"
        using kill_cell [OF a(1) _ a(3)] by (auto simp: nth_append)
      let ?h = "sticky_subevent_hash (nat (ms_offset s')) (ss_data st)"
      have "ss_meta st ! i' = Meta_Sub s'" using c a(1) m by (simp add: nth_append)
      from finds_sub [OF fi a(1) this a(3) refl] obtain k where
        k: "k < length ?t" "?t ! slot ?h ?t k = int (24 * i')" "\<forall>j<k. ?t ! slot ?h ?t j \<noteq> 0" by blast
      have "i' \<noteq> i" using c i(3,4) by auto
      then have "slot ?h ?t k \<noteq> ?s d" using k(2) i(2) by auto
      then show "\<exists>k<length (ss_hash ?st). ss_hash ?st ! slot (sticky_subevent_hash (nat (ms_offset s')) (ss_data ?st)) (ss_hash ?st) k =
            int (24 * i') \<and>
          (\<forall>j<k. ss_hash ?st ! slot (sticky_subevent_hash (nat (ms_offset s')) (ss_data ?st)) (ss_hash ?st) j \<noteq> 0)"
        using k sl by (intro exI [of _ k]) (auto simp: nth_list_update)
    qed
    have occ': "occupied (?t[?s d := - 1]) = occupied ?t" using occupied_update [OF sl, of "- 1"] False by simp
    have ready: "enter_ready hash ?st"
      unfolding enter_ready_def
    proof (intro allI impI, elim conjE)
      fix d' assume a: "\<forall>i<d'. \<not> free (ss_hash ?st ! slot hash (ss_hash ?st) i)"
      have "ss_hash ?st ! slot hash (ss_hash ?st) d = - 1" using sl by simp
      then have "d' \<le> d" using a by (metis free_def not_less)
      then have "ss_hash ?st ! slot hash (ss_hash ?st) d' \<noteq> 0"
        using d(3) False sl by (cases "d' = d") (auto simp: nth_list_update)
      then show "occupied (ss_hash ?st) + (if ss_hash ?st ! slot hash (ss_hash ?st) d' = 0 then 1 else 0) \<le> ss_hash_used ?st"
        using occ' occ by simp
    qed
    show ?thesis using res up' fi' occ occ' ready e0(1)
      by (intro exI [of _ ?st]) (auto simp: hash_inv_def)
  qed
qed

lemma enter_sub_spec:
  assumes m: "n < length (ss_meta st)" "ss_meta st ! n = Meta_Sub s" and inv: "hash_inv n st"
    and c: "0 < n" "\<nexists>s. ss_meta st ! 0 = Meta_Sub s"
    and room: "hash_room 0 st" "ss_hash st \<noteq> []" and ready: "enter_ready hash st"
    and s: "hash = sticky_subevent_hash off (ss_data st)" "nat (ms_offset s) = off"
  shows "\<exists>t. enter_sub off (24 * n) st = (Inr (), st\<lparr>ss_hash := t\<rparr>) \<and>
           hash_inv (Suc n) (st\<lparr>ss_hash := t\<rparr>) \<and> length t = length (ss_hash st)"
proof -
  let ?t = "ss_hash st" and ?n = n
  have ts: "table_size ?t" using inv room(2) by (simp add: hash_inv_def)
  have up: "entries_upto ?n ?t (ss_meta st)" and fi: "finds ?n ?t (ss_data st) (ss_meta st)"
    and occ: "occupied ?t \<le> ss_hash_used st" using inv by (simp_all add: hash_inv_def)
  have "occupied ?t < length ?t" using occ room by (cases ?t) (auto simp: hash_room_def)
  then have "\<exists>e<length ?t. ?t ! e = 0" by (rule empty_slot)
  then obtain e0 where "e0 < length ?t" "free (?t ! e0)" by (auto simp: free_def)
  from free_entry_first [OF ts this, of hash] obtain d where
    d: "free_entry (length ?t) ?t (first_entry hash ?t) = Inr (slot hash ?t d)" "free (?t ! slot hash ?t d)"
      "\<forall>i<d. \<not> free (?t ! slot hash ?t i)" "d < length ?t" by blast
  have sl: "slot hash ?t d < length ?t" using slot_less [OF ts] .
  let ?x = "int (24 * ?n)"
  let ?t' = "?t[slot hash ?t d := ?x]"
  have x: "?x \<noteq> 0" using c(1) by simp
  have up': "entries_upto (Suc ?n) ?t' (ss_meta st)"
    unfolding entries_upto_def
  proof (intro conjI ballI)
    show "Suc ?n \<le> length (ss_meta st)" using m(1) by simp
    fix y assume "y \<in> set ?t'"
    then have "y = ?x \<or> y \<in> set ?t" using set_update_subset_insert [of ?t "slot hash ?t d" ?x] by auto
    then show "free y \<or> (\<exists>i<Suc ?n. y = int (24 * i) \<and> (\<exists>s. ss_meta st ! i = Meta_Sub s))"
    proof
      assume "y = ?x"
      then show ?thesis using m by (intro disjI2 exI [of _ ?n]) simp
    next
      assume "y \<in> set ?t"
      then show ?thesis using up unfolding entries_upto_def by (meson less_SucI)
    qed
  qed
  have fi': "finds (Suc ?n) ?t' (ss_data st) (ss_meta st)"
    unfolding finds_def Let_def
  proof (intro allI impI, elim conjE)
    fix i s' assume a: "i < Suc ?n" "ss_meta st ! i = Meta_Sub s'" "sub_live s'"
    let ?h = "sticky_subevent_hash (nat (ms_offset s')) (ss_data st)"
    show "\<exists>k<length ?t'. ?t' ! slot ?h ?t' k = int (24 * i) \<and> (\<forall>j<k. ?t' ! slot ?h ?t' j \<noteq> 0)"
    proof (cases "i = ?n")
      case True
      then have "?h = hash" using a(2) m s by simp
      then show ?thesis using d(3,4) sl x True by (intro exI [of _ d]) (auto simp: nth_list_update free_def)
    next
      case False
      then have "i < ?n" using a(1) by simp
      from finds_sub [OF fi this a(2,3) refl] obtain k where
        k: "k < length ?t" "?t ! slot ?h ?t k = int (24 * i)" "\<forall>j<k. ?t ! slot ?h ?t j \<noteq> 0" by blast
      show ?thesis
      proof (cases "slot ?h ?t k = slot hash ?t d")
        case True
        then have "free (int (24 * i))" using k(2) d(2) by simp
        then have "i = 0" by (auto simp: free_def)
        then show ?thesis using c(2) a(2) by blast
      next
        case False
        then show ?thesis using k sl x by (intro exI [of _ k]) (auto simp: nth_list_update)
      qed
    qed
  qed
  have "occupied ?t' \<le> ss_hash_used st"
    using ready d(2,3) occupied_update [OF sl x] unfolding enter_ready_def by metis
  then show ?thesis using d(1) s(1) up' fi' ts
    by (intro exI [of _ ?t']) (simp add: enter_sub_def Let_def hash_inv_def)
qed

text \<open>Cells without live subevents need no entry.\<close>

lemma hash_inv_extend:
  assumes "hash_inv n st" and "n \<le> m" and "m \<le> length (ss_meta st)"
    and "\<forall>i. n \<le> i \<and> i < m \<longrightarrow> (\<forall>s. ss_meta st ! i = Meta_Sub s \<longrightarrow> \<not> sub_live s)"
  shows "hash_inv m st"
proof -
  have "entries_upto m (ss_hash st) (ss_meta st)"
    using assms(1-3) unfolding hash_inv_def entries_upto_def by (meson order_less_le_trans)
  moreover have "finds m (ss_hash st) (ss_data st) (ss_meta st)"
    using assms(1,4) unfolding hash_inv_def finds_def by (meson not_less)
  ultimately show ?thesis using assms(1) by (simp add: hash_inv_def)
qed

text \<open>Only live subevents and their identifiers count.\<close>

definition same_cell :: "bytes \<Rightarrow> bytes \<Rightarrow> meta_cell \<Rightarrow> meta_cell \<Rightarrow> bool" where
  "same_cell data data' c c' \<longleftrightarrow>
     (case c of Meta_Ev _ \<Rightarrow> (\<exists>e. c' = Meta_Ev e)
      | Meta_Sub s \<Rightarrow> (\<exists>s'. c' = Meta_Sub s' \<and> sub_live s' = sub_live s \<and>
          (sub_live s \<longrightarrow> meta_id data' s' = meta_id data s)))"

lemma hash_inv_cells:
  assumes "hash_inv n st" and "list_all2 (same_cell (ss_data st) (ss_data st')) (ss_meta st) (ss_meta st')"
    and "ss_hash st' = ss_hash st" and "ss_hash_used st' = ss_hash_used st"
  shows "hash_inv n st'"
proof -
  have len: "length (ss_meta st') = length (ss_meta st)" and n: "n \<le> length (ss_meta st)"
    using assms(1,2) by (auto simp: hash_inv_def entries_upto_def dest: list_all2_lengthD)
  have cell: "same_cell (ss_data st) (ss_data st') (ss_meta st ! i) (ss_meta st' ! i)" if "i < n" for i
    using list_all2_nthD [OF assms(2), of i] that n by simp
  have "entries_upto n (ss_hash st') (ss_meta st')"
    unfolding entries_upto_def
  proof (intro conjI ballI)
    show "n \<le> length (ss_meta st')" using n len by simp
    fix x assume "x \<in> set (ss_hash st')"
    then have "free x \<or> (\<exists>i<n. x = int (24 * i) \<and> (\<exists>s. ss_meta st ! i = Meta_Sub s))"
      using assms(1,3) by (simp add: hash_inv_def entries_upto_def)
    then show "free x \<or> (\<exists>i<n. x = int (24 * i) \<and> (\<exists>s. ss_meta st' ! i = Meta_Sub s))"
      using cell by (fastforce simp: same_cell_def)
  qed
  moreover have "finds n (ss_hash st') (ss_data st') (ss_meta st')"
    unfolding finds_def
  proof (intro allI impI, elim conjE)
    fix i s' assume a: "i < n" "ss_meta st' ! i = Meta_Sub s'" "sub_live s'"
    from cell [OF a(1)] a(2,3) obtain s where s: "ss_meta st ! i = Meta_Sub s" "sub_live s"
      "meta_id (ss_data st') s' = meta_id (ss_data st) s" by (auto simp: same_cell_def split: meta_cell.splits)
    from hash_data_id [OF s(3)] finds_sub [OF _ a(1) s(1,2) refl] assms(1,3)
    show "let hash = sticky_subevent_hash (nat (ms_offset s')) (ss_data st') in
        \<exists>k<length (ss_hash st'). ss_hash st' ! slot hash (ss_hash st') k = int (24 * i) \<and>
          (\<forall>j<k. ss_hash st' ! slot hash (ss_hash st') j \<noteq> 0)"
      by (simp add: hash_inv_def Let_def)
  qed
  ultimately show ?thesis using assms(1,3,4) by (simp add: hash_inv_def)
qed

text \<open>No more live subevents than entries in use.\<close>

lemma live_count:
  assumes "hash_inv (length (flat gs)) st" and "ss_meta st = flat gs @ tail"
  shows "length (live_of gs) \<le> ss_hash_used st"
proof -
  let ?live = "\<lambda>c. case c of Meta_Sub s \<Rightarrow> sub_live s | Meta_Ev _ \<Rightarrow> False"
  let ?I = "{i. i < length (flat gs) \<and> ?live (flat gs ! i)}"
  have "length (live_of gs) = length (filter ?live (flat gs))"
    by (induction gs) (auto simp: filter_map comp_def)
  also have "\<dots> = card ?I" by (rule length_filter_conv_card)
  also have "\<dots> = card ((\<lambda>i. int (24 * i)) ` ?I)" by (rule card_image [symmetric]) (auto simp: inj_on_def)
  also have "\<dots> \<le> card (set (filter (\<lambda>x. x \<noteq> 0) (ss_hash st)))"
  proof (rule card_mono, simp, rule image_subsetI)
    fix i assume i: "i \<in> ?I"
    then obtain s where s: "ss_meta st ! i = Meta_Sub s" "sub_live s" "i < length (flat gs)"
      using assms(2) by (auto simp: nth_append split: meta_cell.splits)
    from finds_sub [OF _ s(3,1,2) refl] assms(1) obtain k where
      k: "k < length (ss_hash st)" "ss_hash st ! slot (sticky_subevent_hash (nat (ms_offset s)) (ss_data st)) (ss_hash st) k = int (24 * i)"
      unfolding hash_inv_def by blast
    have "i \<noteq> 0"
    proof
      assume "i = 0"
      then show False using i by (cases gs) auto
    qed
    moreover have "table_size (ss_hash st)" using assms(1) k(1) by (auto simp: hash_inv_def)
    then have "int (24 * i) \<in> set (ss_hash st)" using k(2) slot_less nth_mem by metis
    ultimately show "int (24 * i) \<in> set (filter (\<lambda>x. x \<noteq> 0) (ss_hash st))" by simp
  qed
  also have "\<dots> \<le> occupied (ss_hash st)" unfolding occupied_def by (rule card_length)
  also have "\<dots> \<le> ss_hash_used st" using assms(1) by (simp add: hash_inv_def)
  finally show ?thesis .
qed

end
