(* ===== verification/Lmd_Sticky_Insert.thy ===== *)
theory Lmd_Sticky_Insert
  imports Lmd_Sticky_Table "HOL-Library.Sublist"
begin

text \<open>
  The data of the live subevents as disjoint regions in order, the contents of the store as
  events with their subevents, and the loop of \<^verbatim>\<open>lmd_sticky_store::insert\<close> over the subevents
  of a new event.
\<close>

section \<open>The data of the live subevents\<close>

text \<open>Regions of the data array, in order and disjoint, between \<open>lo\<close> and \<open>hi\<close>.\<close>

fun ordered :: "nat \<Rightarrow> (nat \<times> nat) list \<Rightarrow> nat \<Rightarrow> bool" where
  "ordered lo [] hi \<longleftrightarrow> lo \<le> hi"
| "ordered lo ((off, n) # rs) hi \<longleftrightarrow> lo \<le> off \<and> ordered (off + n) rs hi"

definition sub_regions :: "meta_sub list \<Rightarrow> (nat \<times> nat) list" where
  "sub_regions ss = map (\<lambda>s. (nat (ms_offset s), ms_length s)) (filter sub_live ss)"

definition group_regions :: "meta_group \<Rightarrow> (nat \<times> nat) list" where
  "group_regions = (\<lambda>(e, ss). if me_live e = 0 then [] else (me_offset e, me_length e) # sub_regions ss)"

definition regions :: "meta_group list \<Rightarrow> (nat \<times> nat) list" where
  "regions gs = concat (map group_regions gs)"

lemma regions_simps [simp]:
  "regions [] = []" "regions (g # gs) = group_regions g @ regions gs" "regions (gs @ hs) = regions gs @ regions hs"
  by (simp_all add: regions_def)

lemma ordered_le: "ordered lo rs hi \<Longrightarrow> lo \<le> hi"
  by (induction rs arbitrary: lo) fastforce+

lemma ordered_lower: "ordered lo rs hi \<Longrightarrow> lo' \<le> lo \<Longrightarrow> ordered lo' rs hi"
  by (cases rs) auto

lemma ordered_upper: "ordered lo rs hi \<Longrightarrow> hi \<le> hi' \<Longrightarrow> ordered lo rs hi'"
  by (induction rs arbitrary: lo) auto

lemma ordered_append: "ordered lo (rs @ rs') hi \<longleftrightarrow> (\<exists>m. ordered lo rs m \<and> ordered m rs' hi)"
  by (induction rs arbitrary: lo) (auto intro: ordered_lower)

lemma ordered_appendI: "ordered lo rs m \<Longrightarrow> ordered m rs' hi \<Longrightarrow> ordered lo (rs @ rs') hi"
  by (auto simp: ordered_append)

lemma ordered_subseq: "subseq rs' rs \<Longrightarrow> ordered lo rs hi \<Longrightarrow> ordered lo rs' hi"
proof (induction arbitrary: lo rule: list_emb.induct)
  case (list_emb_Nil ys)
  then show ?case by (simp add: ordered_le)
next
  case (list_emb_Cons xs ys y)
  obtain a b where y: "y = (a, b)" by (cases y)
  then have "ordered (a + b) xs hi" using list_emb_Cons by simp
  then show ?case using list_emb_Cons.prems y by (auto intro: ordered_lower)
next
  case (list_emb_Cons2 x y xs ys)
  then show ?case by (cases y) auto
qed

lemma ordered_region: "ordered lo rs hi \<Longrightarrow> (off, n) \<in> set rs \<Longrightarrow> lo \<le> off \<and> off + n \<le> hi"
proof (induction rs arbitrary: lo)
  case (Cons r rs)
  then show ?case using ordered_le [of "fst r + snd r" rs hi] by (cases r) fastforce
qed simp

section \<open>Giving up keeps the order\<close>

lemma live_kill [simp]: "filter sub_live (map (kill_sub data sid) ss) = filter (\<lambda>s. \<not> hits data sid s) (filter sub_live ss)"
  by (induction ss) (auto simp: kill_sub_def sub_live_def hits_def)

lemma live_of_kill: "live_of (map (kill_group data sid) gs) = filter (\<lambda>s. meta_id data s \<noteq> sid) (live_of gs)"
proof (induction gs)
  case (Cons g gs)
  moreover have "filter (\<lambda>s. \<not> hits data sid s) (filter sub_live ss) = filter (\<lambda>s. meta_id data s \<noteq> sid) (filter sub_live ss)" for ss
    by (rule filter_cong) (auto simp: hits_def)
  ultimately show ?case by (cases g) (simp add: kill_group_def)
qed simp

lemma hits_count: "length (filter (\<lambda>s. \<not> hits data sid s) (filter sub_live ss)) = length (filter sub_live ss) - length (filter (hits data sid) ss)"
  "length (filter (hits data sid) ss) \<le> length (filter sub_live ss)"
  by (induction ss) (auto simp: hits_def Suc_diff_le)

lemma group_ok_kill: "group_ok r i g \<Longrightarrow> group_ok r i (kill_group data sid g)"
  using hits_count [of data sid "snd g"]
  by (cases g) (auto simp: group_ok_def kill_group_def list_all_iff sub_ok_def kill_sub_def sub_live_def)

lemma groups_ok_kill: "groups_ok r i gs \<Longrightarrow> groups_ok r i (map (kill_group data sid) gs)"
proof (induction gs arbitrary: i)
  case (Cons g gs)
  then show ?case by (cases g) (auto simp: group_ok_kill kill_group_def dest: group_ok_kill [where data = data and sid = sid])
qed simp

lemma sub_regions_kill: "subseq (sub_regions (map (kill_sub data sid) ss)) (sub_regions ss)"
  unfolding sub_regions_def live_kill by (intro subseq_map subseq_filter_left)

lemma regions_kill: "subseq (regions (map (kill_group data sid) gs)) (regions gs)"
proof (induction gs)
  case (Cons g gs)
  obtain e ss where [simp]: "g = (e, ss)" by (cases g)
  have "subseq (group_regions (kill_group data sid g)) (group_regions g)"
    using sub_regions_kill [of data sid ss] by (auto simp: group_regions_def kill_group_def)
  then show ?case using Cons by (auto intro: list_emb_append_mono)
qed simp

section \<open>What the store holds\<close>

definition bid :: "bytes \<Rightarrow> u32 \<times> u32" where
  "bid b = data_id b 0"

definition sub_bytes :: "bytes \<Rightarrow> meta_sub \<Rightarrow> bytes" where
  "sub_bytes data s = slice (nat (ms_offset s)) (ms_length s) data"

definition group_subs :: "bytes \<Rightarrow> meta_sub list \<Rightarrow> bytes list" where
  "group_subs data ss = map (sub_bytes data) (filter sub_live ss)"

definition group_view :: "bytes \<Rightarrow> meta_group \<Rightarrow> bytes \<times> bytes list" where
  "group_view data = (\<lambda>(e, ss). (slice (me_offset e) (me_length e) data, group_subs data ss))"

definition live_groups :: "meta_group list \<Rightarrow> meta_group list" where
  "live_groups gs = filter (\<lambda>(e, ss). me_live e \<noteq> 0) gs"

definition groups_view :: "bytes \<Rightarrow> meta_group list \<Rightarrow> (bytes \<times> bytes list) list" where
  "groups_view data gs = map (group_view data) (live_groups gs)"

lemma data_id_slice: "off + n \<le> length data \<Longrightarrow> 12 \<le> n \<Longrightarrow> bid (slice off n data) = data_id data off"
  unfolding bid_def data_id_def sub_word_def slice_def
  by (simp add: take_drop drop_drop add.commute min_def)

lemma live_bid:
  assumes "groups_ok r i gs" and "ordered lo (regions gs) hi" and "hi \<le> length data" and "(e, ss) \<in> set gs" and "s \<in> set ss" and "sub_live s"
  shows "bid (sub_bytes data s) = meta_id data s"
proof -
  have "\<exists>r' j. group_ok r' j (e, ss)" using assms(1,4) by (induction gs arbitrary: i) (auto split: if_splits)
  then have ok: "12 \<le> ms_length s" "me_live e \<noteq> 0"
    using assms(5,6) by (auto simp: group_ok_def list_all_iff sub_ok_def filter_empty_conv)
  have "(nat (ms_offset s), ms_length s) \<in> set (regions gs)"
    using assms(4-6) ok(2) by (auto simp: regions_def group_regions_def sub_regions_def intro!: bexI [of _ "(e, ss)"])
  from ordered_region [OF assms(2) this] assms(3) ok(1) show ?thesis
    unfolding sub_bytes_def by (intro data_id_slice) simp_all
qed

text \<open>Without the subevents with the identifiers \<open>ids\<close>, and without events that have none left.\<close>

definition strip :: "(u32 \<times> u32) set \<Rightarrow> (bytes \<times> bytes list) list \<Rightarrow> (bytes \<times> bytes list) list" where
  "strip ids v = filter (\<lambda>(f, bs). bs \<noteq> []) (map (\<lambda>(f, bs). (f, filter (\<lambda>b. bid b \<notin> ids) bs)) v)"

lemma strip_simps [simp]:
  "strip ids [] = []"
  "strip ids ((f, bs) # v) =
     (if filter (\<lambda>b. bid b \<notin> ids) bs = [] then [] else [(f, filter (\<lambda>b. bid b \<notin> ids) bs)]) @ strip ids v"
  "strip ids (v @ w) = strip ids v @ strip ids w"
  by (simp_all add: strip_def)

lemma strip_strip: "strip a (strip b v) = strip (b \<union> a) v"
  by (induction v) (auto simp: filter_empty_conv)

lemma strip_empty: "\<forall>(f, bs) \<in> set v. bs \<noteq> [] \<Longrightarrow> strip {} v = v"
  by (induction v) auto

lemma group_subs_kill:
  assumes "\<forall>s \<in> set ss. sub_live s \<longrightarrow> bid (sub_bytes data s) = meta_id data s"
  shows "group_subs data (map (kill_sub data sid) ss) = filter (\<lambda>b. bid b \<noteq> sid) (group_subs data ss)"
  using assms unfolding group_subs_def live_kill by (induction ss) (auto simp: hits_def)

lemma groups_view_kill:
  assumes "groups_ok 0 i gs" and "ordered lo (regions gs) hi" and "hi \<le> length data"
  shows "groups_view data (map (kill_group data sid) gs) = strip {sid} (groups_view data gs)"
  using assms
proof (induction gs arbitrary: i lo)
  case (Cons g gs)
  obtain e ss where g: "g = (e, ss)" by (cases g)
  from Cons.prems(2) obtain m where o: "ordered lo (group_regions g) m" "ordered m (regions gs) hi"
    by (auto simp: ordered_append)
  have bids: "\<forall>s \<in> set ss. sub_live s \<longrightarrow> bid (sub_bytes data s) = meta_id data s"
    using live_bid [OF Cons.prems(1,2,3), of e ss] g by simp
  have e: "me_live e = length (filter sub_live ss)" "me_live (fst (kill_group data sid g)) = length (filter sub_live (map (kill_sub data sid) ss))"
    using Cons.prems(1) group_ok_kill [of 0 i g data sid] g by (auto simp: group_ok_def kill_group_def split: if_splits)
  have IH: "groups_view data (map (kill_group data sid) gs) = strip {sid} (groups_view data gs)"
    using Cons.IH [OF _ o(2) Cons.prems(3)] Cons.prems(1) by auto
  have l: "group_subs data ss = [] \<longleftrightarrow> me_live e = 0"
    "group_subs data (map (kill_sub data sid) ss) = [] \<longleftrightarrow> me_live (fst (kill_group data sid g)) = 0"
    unfolding e by (simp_all add: group_subs_def)
  show ?case using IH l group_subs_kill [OF bids] g
    by (auto simp: groups_view_def live_groups_def group_view_def kill_group_def)
qed (simp add: groups_view_def live_groups_def)

section \<open>One more subevent\<close>

text \<open>The state while the last event \<open>(e, ss)\<close> waits for \<open>r\<close> more subevents, the next one at \<open>off\<close>.\<close>

definition table_len :: "nat \<Rightarrow> bool" where
  "table_len n \<longleftrightarrow> n = 0 \<or> 16 \<le> n"

definition adding :: "nat \<Rightarrow> nat \<Rightarrow> lmd_sticky_store \<Rightarrow> meta_group list \<Rightarrow> meta_event \<Rightarrow> meta_sub list \<Rightarrow> bool" where
  "adding r off st gs e ss \<longleftrightarrow>
     ss_meta st = flat (gs @ [(e, ss)]) \<and> groups_ok r 0 (gs @ [(e, ss)]) \<and>
     distinct (map (meta_id (ss_data st)) (live_of (gs @ [(e, ss)]))) \<and>
     hash_inv (length (ss_meta st)) st \<and> hash_room r st \<and>
     ordered 0 (regions (gs @ [(e, ss)])) off \<and> off \<le> length (ss_data st) \<and> 0 < off \<and>
     table_len (length (ss_hash st))"

lemma word_slice:
  assumes "slice off (length b) data = b" and "12 \<le> length b" and "i \<le> 2"
  shows "sub_word i off data = sub_word i 0 b"
proof -
  have "drop (4 * i) b = take (length b - 4 * i) (drop (4 * i) (drop off data))"
    using assms(1) unfolding slice_def by (metis drop_take)
  moreover have "4 \<le> length b - 4 * i" using assms(2,3) by linarith
  ultimately have "slice (0 + 4 * i) 4 b = slice (off + 4 * i) 4 data"
    by (simp add: slice_def min_def add.commute)
  then show ?thesis by (simp add: sub_word_def)
qed

definition keeps :: "bool \<Rightarrow> bytes \<Rightarrow> bool" where
  "keeps discard_revoke b \<longleftrightarrow> \<not> discard_revoke \<or> sub_word 0 0 b \<noteq> LMD_SUBEVENT_STICKY_DLEN_REVOKE"

definition sub_block :: "bytes \<Rightarrow> bool" where
  "sub_block b \<longleftrightarrow> 12 \<le> length b \<and> length b = sticky_sub_size (sub_word 0 0 b)"

lemma block_id: "slice off (length b) data = b \<Longrightarrow> 12 \<le> length b \<Longrightarrow> data_id data off = bid b"
  by (simp add: data_id_def bid_def word_slice)

lemma kill_last:
  "map (kill_group data sid) (gs @ [(e, ss)]) =
     map (kill_group data sid) gs @ [(e\<lparr>me_live := me_live e - length (filter (hits data sid) ss)\<rparr>, map (kill_sub data sid) ss)]"
  by (simp add: kill_group_def)

lemma flat_first: "gs \<noteq> [] \<Longrightarrow> \<nexists>s. (flat gs @ tail) ! 0 = Meta_Sub s"
  by (cases gs) auto

lemma add_sub_meta_drop:
  assumes "adding (Suc r) off st gs e ss"
  shows "\<exists>e'. add_sub_meta False (24 * length (flat gs)) off n st = (Inr (), st\<lparr>ss_meta := flat (gs @ [(e', ss)])\<rparr>) \<and>
           e' = e\<lparr>me_num := me_num e - 1, me_live := me_live e - 1\<rparr> \<and>
           groups_ok r 0 (gs @ [(e', ss)]) \<and> hash_inv (length (ss_meta st)) (st\<lparr>ss_meta := flat (gs @ [(e', ss)])\<rparr>) \<and>
           subseq (regions (gs @ [(e', ss)])) (regions (gs @ [(e, ss)]))"
proof -
  let ?e = "e\<lparr>me_num := me_num e - 1, me_live := me_live e - 1\<rparr>"
  have m: "ss_meta st = flat (gs @ [(e, ss)])" and g: "groups_ok (Suc r) 0 (gs @ [(e, ss)])" and h: "hash_inv (length (ss_meta st)) st"
    using assms unfolding adding_def by blast+
  have dec: "dec32 (me_num e) = me_num e - 1" "dec32 (me_live e) = me_live e - 1"
    using g by (simp_all add: groups_ok_append group_ok_def dec32_def)
  have "add_sub_meta False (24 * length (flat gs)) off n st = (Inr (), st\<lparr>ss_meta := flat (gs @ [(?e, ss)])\<rparr>)"
    using m dec by (simp add: add_sub_meta_def map_event_at_def list_update_append)
  moreover have "groups_ok r 0 (gs @ [(?e, ss)])" using g by (simp add: groups_ok_append group_ok_def)
  moreover have "same_cell data data c c" for data c by (simp add: same_cell_def split: meta_cell.splits)
  then have "list_all2 (same_cell (ss_data st) (ss_data st)) (ss_meta st) (flat (gs @ [(?e, ss)]))"
    unfolding m by (auto intro!: list_all2_appendI list.rel_refl simp: same_cell_def)
  then have "hash_inv (length (ss_meta st)) (st\<lparr>ss_meta := flat (gs @ [(?e, ss)])\<rparr>)" using h by (intro hash_inv_cells [OF h]) simp_all
  moreover have "subseq (regions (gs @ [(?e, ss)])) (regions (gs @ [(e, ss)]))"
    using g by (simp add: groups_ok_append group_ok_def group_regions_def prefix_imp_subseq)
  ultimately show ?thesis by blast
qed

lemma hash_inv_more:
  assumes "hash_inv n st"
  shows "hash_inv n (st\<lparr>ss_meta := ss_meta st @ tail\<rparr>)"
proof -
  have "n \<le> length (ss_meta st)" using assms by (simp add: hash_inv_def entries_upto_def)
  then have "(ss_meta st @ tail) ! i = ss_meta st ! i" if "i < n" for i using that by (simp add: nth_append)
  then show ?thesis using assms unfolding hash_inv_def entries_upto_def finds_def by (auto 4 3)
qed

lemma insert_sub_drop:
  assumes a: "adding (Suc r) off st gs e ss" and b: "slice off (length b) (ss_data st) = b" "sub_block b" "off + length b \<le> length (ss_data st)"
    and k: "\<not> keeps discard b"
  shows "\<exists>st' e'. insert_sub discard (24 * length (flat gs)) off st = (Inr (length b), st') \<and> ss_data st' = ss_data st \<and>
           adding r (off + length b) st' (map (kill_group (ss_data st) (bid b)) gs) e' (map (kill_sub (ss_data st) (bid b)) ss) \<and>
           me_offset e' = me_offset e \<and> me_length e' = me_length e"
proof -
  let ?D = "ss_data st" and ?K = "map (kill_group (ss_data st) (bid b))"
  have w: "sub_word 0 off ?D = sub_word 0 0 b" and sid: "bid b = data_id ?D off"
    using word_slice [OF b(1)] block_id [OF b(1)] b(2) by (simp_all add: sub_block_def)
  have size: "sticky_sub_size (sub_word 0 off ?D) = length b" using w b(2) by (simp add: sub_block_def)
  define e1 where e1: "e1 = e\<lparr>me_num := me_num e - 1, me_live := me_live e - 1\<rparr>"
  let ?st1 = "st\<lparr>ss_meta := flat (gs @ [(e1, ss)])\<rparr>"
  have add: "add_sub_meta False (24 * length (flat gs)) off (length b) st = (Inr (), ?st1)"
    and ok: "groups_ok r 0 (gs @ [(e1, ss)])" and h: "hash_inv (length (ss_meta st)) ?st1"
    and sub: "subseq (regions (gs @ [(e1, ss)])) (regions (gs @ [(e, ss)]))"
    using add_sub_meta_drop [OF a] unfolding e1 by blast+
  have len: "length (ss_meta st) = length (flat (gs @ [(e1, ss)]))" using a by (simp add: adding_def)
  have "distinct (map (meta_id (ss_data ?st1)) (live_of (gs @ [(e1, ss)])))" "hash_room 1 ?st1"
    using a by (simp_all add: adding_def hash_room_def)
  note pre = this
  from replace_sub_spec [of ?st1 "gs @ [(e1, ss)]" "[]" r "bid b" off, OF _ ok pre(1) _ pre(2)] h len sid obtain st' where
    st': "replace_sub off ?st1 = (Inr (), st')" "ss_meta st' = flat (?K (gs @ [(e1, ss)]))"
      "ss_data st' = ?D" "length (ss_hash st') = length (ss_hash st)" "hash_inv (length (flat (gs @ [(e1, ss)]))) st'"
      "ss_hash_used st' \<le> ss_hash_used st + 1" by auto
  have res: "insert_sub discard (24 * length (flat gs)) off st = (Inr (length b), st')"
    using size add st'(1) k w by (simp add: insert_sub_def keeps_def Let_def)
  let ?e = "e1\<lparr>me_live := me_live e1 - length (filter (hits ?D (bid b)) ss)\<rparr>"
  have K: "?K (gs @ [(e1, ss)]) = ?K gs @ [(?e, map (kill_sub ?D (bid b)) ss)]" by (rule kill_last)
  have "groups_ok r 0 (?K (gs @ [(e1, ss)]))" using ok by (rule groups_ok_kill)
  moreover have "distinct (map (meta_id ?D) (live_of (?K (gs @ [(e1, ss)]))))"
    using distinct_map_filter [OF pre(1)] unfolding live_of_kill by (simp del: live_of_simps)
  moreover have "ordered 0 (regions (?K (gs @ [(e1, ss)]))) (off + length b)"
  proof -
    have "ordered 0 (regions (gs @ [(e, ss)])) off" using a unfolding adding_def by blast
    from ordered_subseq [OF subseq_order.order_trans [OF regions_kill sub] this] show ?thesis by (rule ordered_upper) simp
  qed
  moreover have "hash_inv (length (ss_meta st')) st'" using st'(2,5) by (simp add: length_kill del: map_append)
  moreover have "hash_room r st'" using a st'(4,6) by (simp add: adding_def hash_room_def)
  ultimately have "adding r (off + length b) st' (?K gs) ?e (map (kill_sub ?D (bid b)) ss)"
    using a b(3) st'(2,3,4) unfolding adding_def K by (simp del: flat_simps live_of_simps regions_simps)
  then show ?thesis using res st'(3) e1 by (intro exI [of _ st'] exI [of _ ?e]) simp
qed

lemma insert_sub_keep:
  assumes a: "adding (Suc r) off st gs e ss" and b: "slice off (length b) (ss_data st) = b" "sub_block b" "off + length b \<le> length (ss_data st)"
    and k: "keeps discard b"
  shows "\<exists>st' e'. insert_sub discard (24 * length (flat gs)) off st = (Inr (length b), st') \<and> ss_data st' = ss_data st \<and>
           adding r (off + length b) st' (map (kill_group (ss_data st) (bid b)) gs) e'
             (map (kill_sub (ss_data st) (bid b)) ss @ [\<lparr>ms_ev_offset = 24 * length (flat gs), ms_offset = int off, ms_length = length b\<rparr>]) \<and>
           me_offset e' = me_offset e \<and> me_length e' = me_length e"
proof -
  let ?D = "ss_data st" and ?K = "map (kill_group (ss_data st) (bid b))" and ?G = "gs @ [(e, ss)]"
  let ?s = "\<lparr>ms_ev_offset = 24 * length (flat gs), ms_offset = int off, ms_length = length b\<rparr>"
  let ?st1 = "st\<lparr>ss_meta := flat ?G @ [Meta_Sub ?s]\<rparr>"
  have w: "sub_word 0 off ?D = sub_word 0 0 b" and sid: "bid b = data_id ?D off"
    using word_slice [OF b(1)] block_id [OF b(1)] b(2) by (simp_all add: sub_block_def)
  have size: "sticky_sub_size (sub_word 0 off ?D) = length b" "12 \<le> length b" using w b(2) by (simp_all add: sub_block_def)
  have m: "ss_meta st = flat ?G" and ok: "groups_ok (Suc r) 0 ?G" and dis: "distinct (map (meta_id ?D) (live_of ?G))"
    and h: "hash_inv (length (ss_meta st)) st" and room: "hash_room (Suc r) st" and ord: "ordered 0 (regions ?G) off" and off: "0 < off"
    and tl: "table_len (length (ss_hash st))" using a unfolding adding_def by blast+
  have add: "add_sub_meta True (24 * length (flat gs)) off (length b) st = (Inr (), ?st1)"
    using m by (simp add: add_sub_meta_def)
  have "hash_inv (length (flat ?G)) ?st1"
    using hash_inv_more [OF h] by (simp add: m)
  moreover have "hash_room 1 ?st1" using room by (simp add: hash_room_def)
  ultimately obtain st2 where
    st2: "replace_sub off ?st1 = (Inr (), st2)" "ss_meta st2 = flat (?K ?G) @ [Meta_Sub ?s]"
      "ss_data st2 = ?D" "length (ss_hash st2) = length (ss_hash st)" "hash_inv (length (flat ?G)) st2"
      "ss_hash_used st2 \<le> ss_hash_used st + 1" "enter_ready (sticky_subevent_hash off ?D) st2"
    using replace_sub_spec [of ?st1 ?G "[Meta_Sub ?s]" "Suc r" "bid b" off "sticky_subevent_hash off ?D"] ok dis sid by auto
  have len: "length (flat (?K ?G)) = length (flat ?G)" by (rule length_kill)
  have n: "0 < length (flat ?G)" by simp
  have cell: "ss_meta st2 ! length (flat ?G) = Meta_Sub ?s" unfolding st2(2) len [symmetric] by (rule nth_append_length)
  have first: "\<nexists>s. ss_meta st2 ! 0 = Meta_Sub s"
    unfolding st2(2) by (rule flat_first) simp
  have room2: "hash_room 0 st2" "ss_hash st2 \<noteq> []" using st2(4,6) room by (auto simp: hash_room_def)
  have ln: "length (flat ?G) < length (ss_meta st2)" unfolding st2(2) using len by simp
  from enter_sub_spec [OF ln cell st2(5) n first room2 st2(7), of off] st2(3) obtain t where
    t: "enter_sub off (24 * length (flat ?G)) st2 = (Inr (), st2\<lparr>ss_hash := t\<rparr>)"
      "hash_inv (Suc (length (flat ?G))) (st2\<lparr>ss_hash := t\<rparr>)" "length t = length (ss_hash st)" using st2(4) by auto
  let ?st3 = "st2\<lparr>ss_hash := t\<rparr>"
  have res: "insert_sub discard (24 * length (flat gs)) off st = (Inr (length b), ?st3)"
    using size add st2(1) k w t(1) m by (simp add: insert_sub_def keeps_def Let_def)
  let ?e = "e\<lparr>me_live := me_live e - length (filter (hits ?D (bid b)) ss)\<rparr>" and ?ss = "map (kill_sub ?D (bid b)) ss @ [?s]"
  have K: "?K ?G = ?K gs @ [(?e, map (kill_sub ?D (bid b)) ss)]" by (rule kill_last)
  have live: "sub_live ?s" by (simp add: sub_live_def)
  have okK: "groups_ok (Suc r) 0 (?K ?G)" using ok by (rule groups_ok_kill)
  have "16 \<le> me_length e" using ok by (simp add: groups_ok_append group_ok_def)
  with okK have g3: "groups_ok r 0 (?K gs @ [(?e, ?ss)])"
    using size(2) off live unfolding K by (simp add: groups_ok_append group_ok_def sub_ok_def)
  have "distinct (map (meta_id ?D) (live_of (?K ?G) @ [?s]))"
    using distinct_map_filter [OF dis] sid unfolding live_of_kill by (auto simp del: live_of_simps)
  then have d3: "distinct (map (meta_id ?D) (live_of (?K gs @ [(?e, ?ss)])))" using live unfolding K by simp
  have "ordered 0 (regions (?K ?G)) off" by (rule ordered_subseq [OF regions_kill ord])
  then have "ordered 0 (regions (?K ?G) @ [(off, length b)]) (off + length b)" by (rule ordered_appendI) simp
  moreover have "regions (?K ?G) @ [(off, length b)] = regions (?K gs @ [(?e, ?ss)])"
    using okK live unfolding K by (simp add: group_regions_def sub_regions_def groups_ok_append group_ok_def)
  ultimately have o3: "ordered 0 (regions (?K gs @ [(?e, ?ss)])) (off + length b)" by simp
  have m3: "ss_meta ?st3 = flat (?K gs @ [(?e, ?ss)])" using st2(2) unfolding K by simp
  have "length (ss_meta ?st3) = Suc (length (flat ?G))" using st2(2) len by simp
  then have h3: "hash_inv (length (ss_meta ?st3)) ?st3" using t(2) by simp
  have r3: "hash_room r ?st3" using t(3) st2(6) room by (simp add: hash_room_def)
  have "adding r (off + length b) ?st3 (?K gs) ?e ?ss"
    unfolding adding_def using m3 g3 d3 h3 r3 o3 b(3) off st2(3) tl t(3)
    by (simp del: flat_simps live_of_simps regions_simps)
  then show ?thesis using res st2(3) by (intro exI [of _ ?st3] exI [of _ ?e]) simp
qed

text \<open>What is left of new subevents: the last one with each identifier, revocations only when kept.\<close>

fun latest :: "bool \<Rightarrow> bytes list \<Rightarrow> bytes list" where
  "latest discard [] = []"
| "latest discard (b # bs) = (if keeps discard b \<and> bid b \<notin> bid ` set bs then [b] else []) @ latest discard bs"

lemma adding_bids:
  assumes "adding r off st gs e ss"
  shows "\<forall>s \<in> set ss. sub_live s \<longrightarrow> bid (sub_bytes (ss_data st) s) = meta_id (ss_data st) s"
  using live_bid [of r 0 "gs @ [(e, ss)]" 0 off "ss_data st" e ss] assms unfolding adding_def by auto

lemma adding_view_kill:
  assumes "adding r off st gs e ss"
  shows "groups_view (ss_data st) (map (kill_group (ss_data st) sid) gs) = strip {sid} (groups_view (ss_data st) gs)"
proof -
  from assms have "groups_ok 0 0 gs" "ordered 0 (regions gs @ group_regions (e, ss)) off" "off \<le> length (ss_data st)"
    unfolding adding_def by (auto simp: groups_ok_append)
  moreover from this obtain m where "ordered 0 (regions gs) m" "m \<le> off" by (meson ordered_append ordered_le)
  ultimately have "groups_ok 0 0 gs" "ordered 0 (regions gs) m" "m \<le> length (ss_data st)" by simp_all
  then show ?thesis by (rule groups_view_kill)
qed

lemma insert_sub_spec:
  assumes a: "adding (Suc r) off st gs e ss" and b: "slice off (length b) (ss_data st) = b" "sub_block b" "off + length b \<le> length (ss_data st)"
  shows "\<exists>st' gs' e' ss'. insert_sub discard (24 * length (flat gs)) off st = (Inr (length b), st') \<and> ss_data st' = ss_data st \<and>
           adding r (off + length b) st' gs' e' ss' \<and> me_offset e' = me_offset e \<and> me_length e' = me_length e \<and>
           length (flat gs') = length (flat gs) \<and>
           groups_view (ss_data st) gs' = strip {bid b} (groups_view (ss_data st) gs) \<and>
           group_subs (ss_data st) ss' = filter (\<lambda>b'. bid b' \<noteq> bid b) (group_subs (ss_data st) ss) @ (if keeps discard b then [b] else [])"
proof -
  let ?D = "ss_data st"
  let ?gs = "map (kill_group ?D (bid b)) gs" and ?s = "\<lparr>ms_ev_offset = 24 * length (flat gs), ms_offset = int off, ms_length = length b\<rparr>"
  have v: "groups_view ?D ?gs = strip {bid b} (groups_view ?D gs)" by (rule adding_view_kill [OF a])
  have g: "group_subs ?D (map (kill_sub ?D (bid b)) ss) = filter (\<lambda>b'. bid b' \<noteq> bid b) (group_subs ?D ss)"
    by (rule group_subs_kill [OF adding_bids [OF a]])
  have n: "group_subs ?D (ss' @ [?s]) = group_subs ?D ss' @ [b]" for ss'
    using b(1) by (simp add: group_subs_def sub_bytes_def sub_live_def)
  show ?thesis
  proof (cases "keeps discard b")
    case True
    from insert_sub_keep [OF a b True] obtain st' e' where
      "insert_sub discard (24 * length (flat gs)) off st = (Inr (length b), st')" "ss_data st' = ?D"
      "adding r (off + length b) st' ?gs e' (map (kill_sub ?D (bid b)) ss @ [?s])" "me_offset e' = me_offset e" "me_length e' = me_length e"
      by blast
    then show ?thesis using v g n True
      by (intro exI [of _ st'] exI [of _ ?gs] exI [of _ e'] exI [of _ "map (kill_sub ?D (bid b)) ss @ [?s]"]) simp
  next
    case False
    from insert_sub_drop [OF a b False] obtain st' e' where
      "insert_sub discard (24 * length (flat gs)) off st = (Inr (length b), st')" "ss_data st' = ?D"
      "adding r (off + length b) st' ?gs e' (map (kill_sub ?D (bid b)) ss)" "me_offset e' = me_offset e" "me_length e' = me_length e"
      by blast
    then show ?thesis using v g False
      by (intro exI [of _ st'] exI [of _ ?gs] exI [of _ e'] exI [of _ "map (kill_sub ?D (bid b)) ss"]) simp
  qed
qed

lemma insert_subs_spec:
  assumes "adding (length bs) off st gs e ss" and "list_all sub_block bs" and "drop off (ss_data st) = concat bs" 
    and "length bs < fuel" and "length (ss_data st) < 2 ^ 64"
  shows "\<exists>st' gs' e' ss'. insert_subs fuel discard (24 * length (flat gs)) off (length (ss_data st)) st = (Inr (), st') \<and>
           ss_data st' = ss_data st \<and> adding 0 (length (ss_data st)) st' gs' e' ss' \<and> me_offset e' = me_offset e \<and> me_length e' = me_length e \<and>
           (bs = [] \<longrightarrow> groups_view (ss_data st) gs' = groups_view (ss_data st) gs) \<and>
           (bs \<noteq> [] \<longrightarrow> groups_view (ss_data st) gs' = strip (bid ` set bs) (groups_view (ss_data st) gs)) \<and>
           group_subs (ss_data st) ss' = filter (\<lambda>b. bid b \<notin> bid ` set bs) (group_subs (ss_data st) ss) @ latest discard bs"
  using assms
proof (induction bs arbitrary: off st gs e ss fuel)
  case Nil
  from Nil.prems(1) have off: "off \<le> length (ss_data st)" unfolding adding_def by blast
  then have "off = length (ss_data st)" using Nil.prems(3) by simp
  then show ?case using Nil.prems(1,4)
    by (intro exI [of _ st] exI [of _ gs] exI [of _ e] exI [of _ ss]) (cases fuel; simp)
next
  case (Cons b bs)
  let ?D = "ss_data st"
  obtain fuel' where fuel: "fuel = Suc fuel'" "length bs < fuel'" using Cons.prems(4) by (cases fuel) auto
  have b: "slice off (length b) ?D = b" "drop (off + length b) ?D = concat bs"
    using Cons.prems(3) by (simp_all add: slice_def add.commute [of off] flip: drop_drop)
  have "length (drop off ?D) = length b + length (concat bs)" using Cons.prems(3) by simp
  moreover have "12 \<le> length b" using Cons.prems(2) by (simp add: sub_block_def)
  ultimately have le: "off + length b \<le> length ?D" "off \<noteq> length ?D" by auto
  from insert_sub_spec [of "length bs" off st gs e ss b discard] Cons.prems(1,2) b(1) le(1) obtain st1 gs1 e1 ss1 where
    1: "insert_sub discard (24 * length (flat gs)) off st = (Inr (length b), st1)" "ss_data st1 = ?D"
      "adding (length bs) (off + length b) st1 gs1 e1 ss1" "me_offset e1 = me_offset e" "me_length e1 = me_length e"
      "length (flat gs1) = length (flat gs)"
      "groups_view ?D gs1 = strip {bid b} (groups_view ?D gs)"
      "group_subs ?D ss1 = filter (\<lambda>b'. bid b' \<noteq> bid b) (group_subs ?D ss) @ (if keeps discard b then [b] else [])" by auto
  from Cons.IH [OF 1(3) _ _ fuel(2)] Cons.prems(2,5) 1(2) b(2) obtain st' gs' e' ss' where
    2: "insert_subs fuel' discard (24 * length (flat gs1)) (off + length b) (length ?D) st1 = (Inr (), st')"
      "ss_data st' = ?D" "adding 0 (length ?D) st' gs' e' ss'" "me_offset e' = me_offset e1" "me_length e' = me_length e1"
      "bs = [] \<longrightarrow> groups_view ?D gs' = groups_view ?D gs1" "bs \<noteq> [] \<longrightarrow> groups_view ?D gs' = strip (bid ` set bs) (groups_view ?D gs1)"
      "group_subs ?D ss' = filter (\<lambda>b. bid b \<notin> bid ` set bs) (group_subs ?D ss1) @ latest discard bs" by auto
  have "wrap64 (off + length b) = off + length b" using le(1) Cons.prems(5) by (simp add: wrap64_def)
  then have "insert_subs fuel discard (24 * length (flat gs)) off (length ?D) st = (Inr (), st')"
    using 1(1,6) 2(1) le(2) fuel(1) by simp
  moreover have "groups_view ?D gs' = strip (bid ` set (b # bs)) (groups_view ?D gs)"
    using 1(7) 2(6,7) by (cases "bs = []") (simp_all add: strip_strip)
  moreover have "group_subs ?D ss' = filter (\<lambda>b'. bid b' \<notin> bid ` set (b # bs)) (group_subs ?D ss) @ latest discard (b # bs)"
    using 2(8) by (simp add: 1(8) conj_commute)
  ultimately show ?case using 1(4,5) 2(2-5) by (intro exI [of _ st'] exI [of _ gs'] exI [of _ e'] exI [of _ ss']) simp
qed

end
