(* ===== verification/Lmd_Sticky_Compact.thy ===== *)
theory Lmd_Sticky_Compact
  imports Lmd_Sticky_Insert
begin

text \<open>
  \<^verbatim>\<open>populate_hash\<close>, \<^verbatim>\<open>compact_meta\<close> and \<^verbatim>\<open>compact_data\<close> keep the contents of the store, and
  with them the steps that make room for a new event.
\<close>

section \<open>Filling the hash table\<close>

definition live_cell :: "meta_cell \<Rightarrow> bool" where
  "live_cell c = (case c of Meta_Sub s \<Rightarrow> sub_live s | Meta_Ev _ \<Rightarrow> False)"

definition cell_sub :: "meta_cell \<Rightarrow> meta_sub" where
  "cell_sub c = (case c of Meta_Sub s \<Rightarrow> s | Meta_Ev _ \<Rightarrow> undefined)"

lemma live_cell_simps [simp]: "live_cell (Meta_Ev e) = False" "live_cell (Meta_Sub s) = sub_live s" "cell_sub (Meta_Sub s) = s"
  by (simp_all add: live_cell_def cell_sub_def)

lemma enumerate_subs:
  "map (\<lambda>(i, c). (i, cell_sub c)) (filter (\<lambda>p. live_cell (snd p)) (enumerate n (map Meta_Sub ss))) = filter (\<lambda>p. sub_live (snd p)) (enumerate n ss)"
  by (induction ss arbitrary: n) auto

lemma live_subs_cells:
  assumes "groups_ok 0 j gs"
  shows "live_subs (indexed k gs) = map (\<lambda>(i, c). (i, cell_sub c)) (filter (\<lambda>p. live_cell (snd p)) (enumerate k (flat gs)))"
  using assms
proof (induction gs arbitrary: k j)
  case (Cons g gs)
  obtain e ss where g: "g = (e, ss)" by (cases g)
  have "filter (\<lambda>p. sub_live (snd p)) (enumerate (Suc k) ss) = []" if "me_live e = 0"
    using that Cons.prems g by (auto simp: group_ok_def filter_empty_conv in_set_enumerate_eq split: if_splits)
  moreover have "live_subs (indexed k (g # gs)) =
      (if me_live e = 0 then [] else filter (\<lambda>p. sub_live (snd p)) (enumerate (Suc k) ss)) @ live_subs (indexed (Suc k + length ss) gs)"
    by (simp add: live_subs_def g comp_def)
  moreover have "live_subs (indexed (Suc k + length ss) gs) =
      map (\<lambda>(i, c). (i, cell_sub c)) (filter (\<lambda>p. live_cell (snd p)) (enumerate (Suc k + length ss) (flat gs)))"
    by (rule Cons.IH [where j = "j + 1 + length (snd g)"]) (use Cons.prems in auto)
  ultimately show ?case by (simp add: g enumerate_append_eq enumerate_subs)
qed (simp add: live_subs_def)

lemma live_subs_props:
  assumes "groups_ok 0 0 gs"
  shows "(i, s) \<in> set (live_subs (indexed 0 gs)) \<longleftrightarrow> i < length (flat gs) \<and> flat gs ! i = Meta_Sub s \<and> sub_live s"
    and "sorted_wrt (<) (map fst (live_subs (indexed 0 gs)))"
    and "length (live_subs (indexed 0 gs)) = length (live_of gs)"
proof -
  note L = live_subs_cells [OF assms, of 0]
  show "(i, s) \<in> set (live_subs (indexed 0 gs)) \<longleftrightarrow> i < length (flat gs) \<and> flat gs ! i = Meta_Sub s \<and> sub_live s"
    unfolding L by (auto simp: in_set_enumerate_eq live_cell_def cell_sub_def image_iff split: meta_cell.splits)
  have "map fst (live_subs (indexed 0 gs)) = map fst (filter (\<lambda>p. live_cell (snd p)) (enumerate 0 (flat gs)))"
    unfolding L by (simp add: comp_def case_prod_beta)
  moreover have "sorted_wrt (<) (map fst (enumerate 0 (flat gs)))" by simp
  then have "sorted_wrt (\<lambda>x y. fst x < fst y) (enumerate 0 (flat gs))" unfolding sorted_wrt_map .
  ultimately show "sorted_wrt (<) (map fst (live_subs (indexed 0 gs)))"
    by (simp add: sorted_wrt_map sorted_wrt_filter)
  have "length (filter (\<lambda>p. live_cell (snd p)) (enumerate k cells)) = length (filter live_cell cells)" for k cells
    by (induction cells arbitrary: k) auto
  moreover have "length (filter live_cell (flat hs)) = length (live_of hs)" for hs
    by (induction hs) (auto simp: filter_map comp_def)
  ultimately show "length (live_subs (indexed 0 gs)) = length (live_of gs)" unfolding L by simp
qed

lemma insert_hash_enter:
  "enter_sub off x (st\<lparr>ss_hash_used := ss_hash_used st + 1\<rparr>) = (Inr (), st') \<Longrightarrow> insert_hash x off st = (Inr (), st')"
  by (auto simp: enter_sub_def insert_hash_def Let_def split: sum.splits)

lemma insert_all_spec:
  assumes "hash_inv n st" and "n \<le> length (ss_meta st)" and "\<nexists>s. ss_meta st ! 0 = Meta_Sub s"
    and "\<forall>(i, s) \<in> set L. n \<le> i \<and> i < length (ss_meta st) \<and> ss_meta st ! i = Meta_Sub s" and "sorted_wrt (<) (map fst L)"
    and "\<forall>i s. n \<le> i \<and> i < length (ss_meta st) \<and> ss_meta st ! i = Meta_Sub s \<and> sub_live s \<longrightarrow> (i, s) \<in> set L"
    and "hash_room (length L) st"
  shows "\<exists>t. insert_all L st = (Inr (), st\<lparr>ss_hash := t, ss_hash_used := ss_hash_used st + length L\<rparr>) \<and>
           hash_inv (length (ss_meta st)) (st\<lparr>ss_hash := t, ss_hash_used := ss_hash_used st + length L\<rparr>) \<and> length t = length (ss_hash st)"
  using assms
proof (induction L arbitrary: n st)
  case Nil
  have "hash_inv (length (ss_meta st)) st" by (rule hash_inv_extend [OF Nil.prems(1,2)]) (use Nil.prems in auto)
  then show ?case by (intro exI [of _ "ss_hash st"]) simp
next
  case (Cons x L)
  obtain i s where x: "x = (i, s)" by (cases x)
  have i: "n \<le> i" "i < length (ss_meta st)" "ss_meta st ! i = Meta_Sub s" using Cons.prems(4) x by auto
  have lo: "\<forall>(j, s') \<in> set L. i < j" using Cons.prems(5) x by auto
  let ?st = "st\<lparr>ss_hash_used := ss_hash_used st + 1\<rparr>"
  have "\<forall>j. n \<le> j \<and> j < i \<longrightarrow> (\<forall>s. ss_meta st ! j = Meta_Sub s \<longrightarrow> \<not> sub_live s)"
  proof (intro allI impI notI)
    fix j s' assume j: "n \<le> j \<and> j < i" "ss_meta st ! j = Meta_Sub s'" "sub_live s'"
    then have "(j, s') \<in> set (x # L)" using Cons.prems(6) i(2) by simp
    then show False using lo j(1) x by auto
  qed
  then have "hash_inv i st" using i by (intro hash_inv_extend [OF Cons.prems(1)]) simp_all
  then have h: "hash_inv i ?st" and r: "enter_ready (sticky_subevent_hash (nat (ms_offset s)) (ss_data st)) ?st"
    by (auto simp: hash_inv_def enter_ready_def)
  have "i \<noteq> 0" using i(3) Cons.prems(3) by (metis)
  moreover have "hash_room 0 ?st" "ss_hash ?st \<noteq> []" using Cons.prems(7) by (auto simp: hash_room_def)
  ultimately have "\<exists>t. enter_sub (nat (ms_offset s)) (24 * i) ?st = (Inr (), ?st\<lparr>ss_hash := t\<rparr>) \<and>
      hash_inv (Suc i) (?st\<lparr>ss_hash := t\<rparr>) \<and> length t = length (ss_hash ?st)"
    by (intro enter_sub_spec [OF _ _ h _ _ _ _ r, of s]) (use i Cons.prems(3) in simp_all)
  then obtain t where
    t: "enter_sub (nat (ms_offset s)) (24 * i) ?st = (Inr (), ?st\<lparr>ss_hash := t\<rparr>)" "hash_inv (Suc i) (?st\<lparr>ss_hash := t\<rparr>)"
      "length t = length (ss_hash st)" by auto
  let ?st1 = "?st\<lparr>ss_hash := t\<rparr>"
  have "\<exists>t'. insert_all L ?st1 = (Inr (), ?st1\<lparr>ss_hash := t', ss_hash_used := ss_hash_used ?st1 + length L\<rparr>) \<and>
           hash_inv (length (ss_meta ?st1)) (?st1\<lparr>ss_hash := t', ss_hash_used := ss_hash_used ?st1 + length L\<rparr>) \<and> length t' = length (ss_hash ?st1)"
  proof (rule Cons.IH [OF t(2)])
    show "\<forall>j s. Suc i \<le> j \<and> j < length (ss_meta ?st1) \<and> ss_meta ?st1 ! j = Meta_Sub s \<and> sub_live s \<longrightarrow> (j, s) \<in> set L"
    proof (intro allI impI)
      fix j s' assume j: "Suc i \<le> j \<and> j < length (ss_meta ?st1) \<and> ss_meta ?st1 ! j = Meta_Sub s' \<and> sub_live s'"
      then have "(j, s') \<in> set (x # L)" using Cons.prems(6) i(1) by simp
      then show "(j, s') \<in> set L" using j x by auto
    qed
    show "\<forall>(j, s) \<in> set L. Suc i \<le> j \<and> j < length (ss_meta ?st1) \<and> ss_meta ?st1 ! j = Meta_Sub s"
      using Cons.prems(4) lo by fastforce
    show "hash_room (length L) ?st1" using Cons.prems(7) t(3) by (simp add: hash_room_def)
  qed (use Cons.prems(3,5) i(2) in simp_all)
  then obtain t' where
    "insert_all L ?st1 = (Inr (), ?st1\<lparr>ss_hash := t', ss_hash_used := ss_hash_used ?st1 + length L\<rparr>)"
    "hash_inv (length (ss_meta ?st1)) (?st1\<lparr>ss_hash := t', ss_hash_used := ss_hash_used ?st1 + length L\<rparr>)" "length t' = length (ss_hash ?st1)"
    by blast
  then show ?case using insert_hash_enter [OF t(1)] t(3) x by (intro exI [of _ t']) (simp add: add.assoc)
qed

section \<open>The shape of the store\<close>

definition shape :: "nat \<Rightarrow> lmd_sticky_store \<Rightarrow> meta_group list \<Rightarrow> bool" where
  "shape hi st gs \<longleftrightarrow>
     ss_meta st = flat gs \<and> groups_ok 0 0 gs \<and> distinct (map (meta_id (ss_data st)) (live_of gs)) \<and>
     ordered 0 (regions gs) hi \<and> hi \<le> length (ss_data st)"

lemma indexed_ok:
  "groups_ok 0 k gs \<Longrightarrow> (i, g) \<in> set (indexed k gs) \<Longrightarrow> group_ok 0 i g \<and> g \<in> set gs"
  by (induction gs arbitrary: k) (auto split: if_splits)

lemma verify_shape:
  assumes "shape hi st gs"
  shows "verify_meta st"
proof -
  have ok: "groups_ok 0 0 gs" and m: "ss_meta st = flat gs" and o: "ordered 0 (regions gs) (length (ss_data st))"
    using assms ordered_upper [of 0 "regions gs" hi] by (auto simp: shape_def)
  have "verify_group (length (ss_data st)) (i, e, ss)" if "(i, e, ss) \<in> set (indexed 0 gs)" for i e ss
  proof -
    from indexed_ok [OF ok that] have g: "group_ok 0 i (e, ss)" and mem: "(e, ss) \<in> set gs" by simp_all
    have reg: "set (group_regions (e, ss)) \<subseteq> set (regions gs)" using mem by (auto simp: regions_def)
    have "me_offset e + me_length e \<le> length (ss_data st)" if "me_live e \<noteq> 0"
      using ordered_region [OF o, of "me_offset e" "me_length e"] reg that by (auto simp: group_regions_def)
    moreover have "ms_offset s + int (ms_length s) \<le> int (length (ss_data st))" if "s \<in> set ss" "sub_live s" for s
    proof -
      have "me_live e \<noteq> 0" using g that by (auto simp: group_ok_def filter_empty_conv)
      then have "(nat (ms_offset s), ms_length s) \<in> set (regions gs)"
        using reg that by (auto simp: group_regions_def sub_regions_def)
      from ordered_region [OF o this] show ?thesis by linarith
    qed
    ultimately show ?thesis using g unfolding verify_group_def group_ok_def sub_ok_def list_all_iff by auto
  qed
  then show ?thesis using meta_groups_flat [OF ok, of 0] m by (auto simp: verify_meta_def list_all_iff)
qed

lemma populate_hash_spec:
  assumes s: "shape hi st gs" and t: "ss_hash st \<noteq> [] \<longrightarrow> table_size (ss_hash st)" and l: "length (live_of gs) \<le> length (ss_hash st) div 2"
  shows "\<exists>t'. populate_hash st = (Inr (), st\<lparr>ss_hash := t', ss_hash_used := length (live_of gs)\<rparr>) \<and>
           hash_inv (length (flat gs)) (st\<lparr>ss_hash := t', ss_hash_used := length (live_of gs)\<rparr>) \<and> length t' = length (ss_hash st)"
proof -
  let ?st = "st\<lparr>ss_hash := replicate (length (ss_hash st)) 0, ss_hash_used := 0\<rparr>"
  have m: "ss_meta st = flat gs" and ok: "groups_ok 0 0 gs" using s by (simp_all add: shape_def)
  have h: "hash_inv 0 ?st"
    using t by (auto simp: hash_inv_def table_size_def entries_upto_def free_def finds_def occupied_def)
  let ?new = "\<lambda>t. st\<lparr>ss_hash := t, ss_hash_used := length (live_of gs)\<rparr>"
  have "\<exists>t. insert_all (live_subs (indexed 0 gs)) ?st = (Inr (), ?new t) \<and> hash_inv (length (flat gs)) (?new t) \<and>
      length t = length (ss_hash st)"
  proof (cases "gs = []")
    case True
    then show ?thesis using h by (intro exI [of _ "replicate (length (ss_hash st)) 0"]) (simp add: live_subs_def)
  next
    case False
    have "\<exists>t. insert_all (live_subs (indexed 0 gs)) ?st =
        (Inr (), ?st\<lparr>ss_hash := t, ss_hash_used := ss_hash_used ?st + length (live_subs (indexed 0 gs))\<rparr>) \<and>
      hash_inv (length (ss_meta ?st)) (?st\<lparr>ss_hash := t, ss_hash_used := ss_hash_used ?st + length (live_subs (indexed 0 gs))\<rparr>) \<and>
      length t = length (ss_hash ?st)"
    proof (rule insert_all_spec [OF h])
      show "\<nexists>s. ss_meta ?st ! 0 = Meta_Sub s" using m flat_first [OF False, of "[]"] by simp
      show "sorted_wrt (<) (map fst (live_subs (indexed 0 gs)))" by (rule live_subs_props(2) [OF ok])
      show "hash_room (length (live_subs (indexed 0 gs))) ?st" using l live_subs_props(3) [OF ok] by (simp add: hash_room_def)
    qed (use m in \<open>auto simp: live_subs_props(1) [OF ok]\<close>)
    then show ?thesis using m live_subs_props(3) [OF ok] by simp
  qed
  then obtain t' where t': "insert_all (live_subs (indexed 0 gs)) ?st = (Inr (), ?new t')" "hash_inv (length (flat gs)) (?new t')"
    "length t' = length (ss_hash st)" by blast
  have "verify_meta (st\<lparr>ss_hash := t', ss_hash_used := length (live_of gs)\<rparr>)"
    by (rule verify_shape [of hi _ gs]) (use s in \<open>simp add: shape_def\<close>)
  then show ?thesis using t' meta_groups_flat [OF ok, of 0] m
    by (intro exI [of _ t']) (simp add: populate_hash_def verified_def)
qed

section \<open>Compacting the meta-data\<close>

lemma sub_live_ev_offset [simp]: "sub_live (s\<lparr>ms_ev_offset := o'\<rparr>) = sub_live s"
  by (simp add: sub_live_def)

definition relocate :: "nat \<Rightarrow> meta_sub list \<Rightarrow> meta_sub list" where
  "relocate dest ss = map (\<lambda>s. s\<lparr>ms_ev_offset := 24 * dest\<rparr>) (filter sub_live ss)"

lemma relocate_props [simp]:
  "filter sub_live (relocate d ss) = relocate d ss" "sub_regions (relocate d ss) = sub_regions ss"
  "length (relocate d ss) = length (filter sub_live ss)"
  "group_subs data (relocate d ss) = group_subs data ss" "map (meta_id data) (relocate d ss) = map (meta_id data) (filter sub_live ss)"
  by (induction ss) (auto simp: relocate_def sub_regions_def group_subs_def sub_bytes_def)

lemma relocate_ok: "list_all (sub_ok i) ss \<Longrightarrow> list_all (sub_ok d) (relocate d ss)"
  by (auto simp: relocate_def sub_ok_def list_all_iff)

lemma squeeze_spec:
  assumes "groups_ok 0 i gs"
  shows "groups_ok 0 d (squeeze_groups d gs) \<and> regions (squeeze_groups d gs) = regions gs \<and>
         map (meta_id data) (live_of (squeeze_groups d gs)) = map (meta_id data) (live_of gs) \<and>
         groups_view data (squeeze_groups d gs) = groups_view data gs"
  using assms
proof (induction gs arbitrary: i d)
  case (Cons g gs)
  obtain e ss where g: "g = (e, ss)" by (cases g)
  have ok: "me_live e = length (filter sub_live ss)" "me_live e \<noteq> 0 \<longrightarrow> 16 \<le> me_length e" "list_all (sub_ok i) ss"
    and gs: "groups_ok 0 (i + 1 + length ss) gs" using Cons.prems g by (auto simp: group_ok_def split: if_splits)
  show ?case
  proof (cases "me_live e = 0")
    case True
    then show ?thesis using Cons.IH [OF gs, of d] ok g by (simp add: group_regions_def groups_view_def live_groups_def)
  next
    case False
    have sq: "squeeze_groups d (g # gs) =
        (e\<lparr>me_num := me_live e\<rparr>, relocate d ss) # squeeze_groups (d + 1 + length (relocate d ss)) gs"
      using False g by (simp add: relocate_def Let_def)
    note IH = Cons.IH [OF gs, of "d + 1 + length (relocate d ss)"]
    have "group_ok 0 d (e\<lparr>me_num := me_live e\<rparr>, relocate d ss)" using ok False relocate_ok [OF ok(3)] by (simp add: group_ok_def)
    moreover have "group_regions (e\<lparr>me_num := me_live e\<rparr>, relocate d ss) = group_regions g"
      using g by (simp add: group_regions_def)
    ultimately show ?thesis using IH False g
      unfolding sq by (simp add: groups_view_def live_groups_def group_view_def)
  qed
qed (simp add: groups_view_def live_groups_def)

lemma flat_group_cells: "concat (map group_cells gs) = flat gs"
  by (simp add: flat_def)

lemma compact_meta_spec:
  assumes s: "shape hi st gs"
  shows "\<exists>gs'. compact_meta st = (Inr (), st\<lparr>ss_meta := flat gs', ss_meta_revoked := 0\<rparr>) \<and>
           shape hi (st\<lparr>ss_meta := flat gs', ss_meta_revoked := 0\<rparr>) gs' \<and>
           length (live_of gs') = length (live_of gs) \<and> groups_view (ss_data st) gs' = groups_view (ss_data st) gs"
proof -
  have m: "ss_meta st = flat gs" and ok: "groups_ok 0 0 gs" using s by (simp_all add: shape_def)
  let ?gs = "squeeze_groups 0 gs"
  let ?st = "st\<lparr>ss_meta := flat ?gs, ss_meta_revoked := 0\<rparr>"
  note sq = squeeze_spec [OF ok, of 0 "ss_data st"]
  then have sh: "shape hi ?st ?gs" using s by (simp add: shape_def)
  have "length (live_of ?gs) = length (live_of gs)" using sq by (metis length_map)
  moreover have "compact_meta st = (Inr (), ?st)"
    using verify_shape [OF s] verify_shape [OF sh] meta_groups_flat [OF ok, of 0] m
    by (simp add: compact_meta_def verified_def flat_group_cells)
  ultimately show ?thesis using sh sq by blast
qed

section \<open>Compacting the data\<close>

text \<open>Below \<open>dest\<close> nothing changes, and neither from \<open>lo\<close> on.\<close>

definition apart :: "nat \<Rightarrow> nat \<Rightarrow> bytes \<Rightarrow> bytes \<Rightarrow> bool" where
  "apart dest lo data data' \<longleftrightarrow> length data' = length data \<and> take dest data' = take dest data \<and> drop lo data' = drop lo data"

lemma apart_trans: "apart d l data data' \<Longrightarrow> apart d' l' data' data'' \<Longrightarrow> d \<le> d' \<Longrightarrow> l \<le> l' \<Longrightarrow> apart d l' data data''"
  unfolding apart_def by (metis drop_drop le_add_diff_inverse2 min.absorb1 take_take)

lemma slice_above: "drop lo data' = drop lo data \<Longrightarrow> lo \<le> off \<Longrightarrow> slice off n data' = slice off n data"
  unfolding slice_def by (metis drop_drop le_add_diff_inverse2)

lemma slice_below:
  assumes "take d data' = take d data" and "off + n \<le> d"
  shows "slice off n data' = slice off n (data :: 'a list)"
proof -
  have "slice off n x = slice off n (take d x)" for x :: "'a list"
    using assms(2) by (simp add: slice_def drop_take min_def)
  from this [of data'] this [of data] show ?thesis using assms(1) by simp
qed

lemma move_down_spec:
  assumes "dest \<le> src" and "src + n \<le> length data"
  shows "\<exists>data'. move_down src n (dest, data) = Inr (dest + n, data') \<and> apart dest (src + n) data data' \<and>
           slice dest n data' = slice src n data"
proof -
  let ?d = "memmove dest src n data"
  have l: "length (slice src n data) = n" using assms by (simp add: slice_def)
  then have "apart dest (src + n) data ?d" "slice dest n ?d = slice src n data"
    using assms by (simp_all add: apart_def memmove_def) (simp add: slice_def)
  then show ?thesis using assms(1) by (simp add: move_down_def)
qed

text \<open>A subevent at its new place.\<close>

definition moved_sub :: "bytes \<Rightarrow> bytes \<Rightarrow> meta_sub \<Rightarrow> meta_sub \<Rightarrow> bool" where
  "moved_sub data data' s s' \<longleftrightarrow>
     (if sub_live s then s' = s\<lparr>ms_offset := ms_offset s'\<rparr> \<and> 0 < ms_offset s' \<and> sub_bytes data' s' = sub_bytes data s else s' = s)"

lemma sub_bytes_above: "drop lo data' = drop lo data \<Longrightarrow> lo \<le> nat (ms_offset s) \<Longrightarrow> sub_bytes data' s = sub_bytes data s"
  unfolding sub_bytes_def by (rule slice_above)

lemma compact_subs_spec:
  assumes "ordered lo (sub_regions ss) hi" and "0 < dest" and "dest \<le> lo" and "hi \<le> length data"
  shows "\<exists>ss' dest' data'. compact_subs ss (dest, data) = Inr (ss', dest', data') \<and> apart dest hi data data' \<and>
           list_all2 (moved_sub data data') ss ss' \<and> ordered dest (sub_regions ss') dest' \<and> dest' \<le> hi"
  using assms
proof (induction ss arbitrary: lo dest data)
  case Nil
  then show ?case by (simp add: sub_regions_def apart_def)
next
  case (Cons s ss)
  show ?case
  proof (cases "sub_live s")
    case False
    then have "ordered lo (sub_regions ss) hi" using Cons.prems(1) by (simp add: sub_regions_def)
    from Cons.IH [OF this Cons.prems(2-4)] obtain ss' dest' data' where
      "compact_subs ss (dest, data) = Inr (ss', dest', data')" "apart dest hi data data'"
      "list_all2 (moved_sub data data') ss ss'" "ordered dest (sub_regions ss') dest'" "dest' \<le> hi" by blast
    moreover have "moved_sub data data' s s" "sub_regions (s # ss') = sub_regions ss'"
      using False by (simp_all add: moved_sub_def sub_regions_def)
    ultimately show ?thesis using False by (intro exI [of _ "s # ss'"] exI [of _ dest'] exI [of _ data']) simp
  next
    case True
    let ?o = "nat (ms_offset s)" and ?n = "ms_length s"
    have o: "lo \<le> ?o" "ordered (?o + ?n) (sub_regions ss) hi" using Cons.prems(1) True by (simp_all add: sub_regions_def)
    have le: "dest \<le> ?o" "?o + ?n \<le> length data" using o(1) ordered_le [OF o(2)] Cons.prems(3,4) by simp_all
    from move_down_spec [OF this] obtain data1 where
      1: "move_down ?o ?n (dest, data) = Inr (dest + ?n, data1)" "apart dest (?o + ?n) data data1"
        "slice dest ?n data1 = slice ?o ?n data" by blast
    have len: "length data1 = length data" using 1(2) by (simp add: apart_def)
    from Cons.IH [OF o(2), of "dest + ?n" data1] Cons.prems(2,4) le(1) len obtain ss' dest' data' where
      2: "compact_subs ss (dest + ?n, data1) = Inr (ss', dest', data')" "apart (dest + ?n) hi data1 data'"
        "list_all2 (moved_sub data1 data') ss ss'" "ordered (dest + ?n) (sub_regions ss') dest'" "dest' \<le> hi" by auto
    let ?s = "s\<lparr>ms_offset := int dest\<rparr>"
    have "slice dest ?n data' = slice dest ?n data1" using 2(2) by (intro slice_below) (auto simp: apart_def)
    then have s: "moved_sub data data' s ?s" using True Cons.prems(2) 1(3) by (simp add: moved_sub_def sub_bytes_def)
    have "drop (?o + ?n) data1 = drop (?o + ?n) data" using 1(2) by (simp add: apart_def)
    then have "moved_sub data1 data' x x' = moved_sub data data' x x'" if "x \<in> set ss" for x x'
      using that ordered_region [OF o(2), of "nat (ms_offset x)" "ms_length x"] sub_bytes_above [of "?o + ?n" data1 data x]
      by (auto simp: moved_sub_def sub_regions_def)
    then have ss: "list_all2 (moved_sub data data') ss ss'" using 2(3) by (simp add: list_all2_conv_all_nth)
    have "apart dest hi data data'" by (rule apart_trans [OF 1(2) 2(2)]) (use ordered_le [OF o(2)] in simp_all)
    moreover have "compact_subs (s # ss) (dest, data) = Inr (?s # ss', dest', data')" using True 1(1) 2(1) by simp
    moreover have "ordered dest (sub_regions (?s # ss')) dest'" using 2(4) by (simp add: sub_regions_def sub_live_def)
    ultimately show ?thesis using s ss 2(5) by blast
  qed
qed

text \<open>An event at its new place.\<close>

definition moved_group :: "bytes \<Rightarrow> bytes \<Rightarrow> meta_group \<Rightarrow> meta_group \<Rightarrow> bool" where
  "moved_group data data' = (\<lambda>(e, ss) (e', ss').
     if me_live e = 0 then e' = e \<and> ss' = ss
     else e' = e\<lparr>me_offset := me_offset e'\<rparr> \<and> slice (me_offset e') (me_length e) data' = slice (me_offset e) (me_length e) data \<and>
       list_all2 (moved_sub data data') ss ss')"

lemma moved_cong:
  assumes "\<forall>s \<in> set ss. sub_live s \<longrightarrow> sub_bytes data1 s = sub_bytes data s"
    and "\<forall>s \<in> set ss'. sub_live s \<longrightarrow> sub_bytes data1' s = sub_bytes data' s"
  shows "list_all2 (moved_sub data1 data1') ss ss' \<longleftrightarrow> list_all2 (moved_sub data data') ss ss'"
  using assms
proof (induction ss arbitrary: ss')
  case (Cons s ss)
  show ?case
  proof (cases ss')
    case (Cons s' t)
    have "sub_live s' " if "sub_live s" "0 < ms_offset s'" using that by (simp add: sub_live_def)
    then have "moved_sub data1 data1' s s' \<longleftrightarrow> moved_sub data data' s s'"
      using Cons.prems Cons by (auto simp: moved_sub_def)
    then show ?thesis using Cons Cons.IH [of t] Cons.prems by simp
  qed simp
qed simp

lemma sub_region_mem: "s \<in> set ss \<Longrightarrow> sub_live s \<Longrightarrow> (nat (ms_offset s), ms_length s) \<in> set (sub_regions ss)"
  by (auto simp: sub_regions_def)

lemma moved_group_above:
  assumes "ordered m (regions gs) hi" and "drop m data2 = drop m data" and "list_all2 (moved_group data2 data3) gs gs'"
  shows "list_all2 (moved_group data data3) gs gs'"
  using assms(3)
proof (rule list.rel_mono_strong)
  fix g g' assume g: "g \<in> set gs" and mg: "moved_group data2 data3 g g'"
  obtain e ss e' ss' where [simp]: "g = (e, ss)" "g' = (e', ss')" by (cases g, cases g')
  show "moved_group data data3 g g'"
  proof (cases "me_live e = 0")
    case False
    have reg: "set (group_regions (e, ss)) \<subseteq> set (regions gs)" using g by (auto simp: regions_def)
    have "slice (me_offset e) (me_length e) data2 = slice (me_offset e) (me_length e) data"
      using ordered_region [OF assms(1), of "me_offset e" "me_length e"] reg False by (intro slice_above [OF assms(2)]) (auto simp: group_regions_def)
    moreover have "sub_bytes data2 s = sub_bytes data s" if "s \<in> set ss" "sub_live s" for s
      using ordered_region [OF assms(1), of "nat (ms_offset s)" "ms_length s"] reg False sub_region_mem [OF that]
      by (intro sub_bytes_above [OF assms(2)]) (auto simp: group_regions_def)
    ultimately show ?thesis using mg False moved_cong [of ss data2 data ss' data3 data3] by (simp add: moved_group_def)
  qed (use mg in \<open>simp add: moved_group_def\<close>)
qed

lemma sub_bytes_below:
  assumes "ordered lo (sub_regions ss) hi" and "take hi data' = take hi data" and "s \<in> set ss" and "sub_live s"
  shows "sub_bytes data' s = sub_bytes data s"
  unfolding sub_bytes_def
  using ordered_region [OF assms(1) sub_region_mem [OF assms(3,4)]] by (intro slice_below [OF assms(2)]) simp

lemma compact_groups_spec:
  assumes "groups_ok 0 i gs" and "ordered lo (regions gs) hi" and "dest \<le> lo" and "hi \<le> length data"
  shows "\<exists>gs' dest' data'. compact_groups gs (dest, data) = Inr (gs', dest', data') \<and> apart dest hi data data' \<and>
           list_all2 (moved_group data data') gs gs' \<and> ordered dest (regions gs') dest' \<and> dest' \<le> hi"
  using assms
proof (induction gs arbitrary: i lo dest data)
  case Nil
  then show ?case by (simp add: apart_def)
next
  case (Cons g gs)
  obtain e ss where g: "g = (e, ss)" by (cases g)
  have ok: "group_ok 0 i g" "groups_ok 0 (i + 1 + length ss) gs" using Cons.prems(1) g by (auto split: if_splits)
  show ?case
  proof (cases "me_live e = 0")
    case True
    then have "ordered lo (regions gs) hi" using Cons.prems(2) g by (simp add: group_regions_def)
    from Cons.IH [OF ok(2) this Cons.prems(3,4)] obtain gs' dest' data' where
      "compact_groups gs (dest, data) = Inr (gs', dest', data')" "apart dest hi data data'"
      "list_all2 (moved_group data data') gs gs'" "ordered dest (regions gs') dest'" "dest' \<le> hi" by blast
    then show ?thesis using True g
      by (intro exI [of _ "g # gs'"] exI [of _ dest'] exI [of _ data']) (simp add: moved_group_def group_regions_def)
  next
    case False
    let ?o = "me_offset e" and ?n = "me_length e"
    have n: "0 < ?n" using ok(1) False g by (auto simp: group_ok_def)
    from Cons.prems(2) False g obtain m where
      o: "lo \<le> ?o" "ordered (?o + ?n) (sub_regions ss) m" "ordered m (regions gs) hi"
      by (auto simp: group_regions_def ordered_append)
    have m: "?o + ?n \<le> m" "m \<le> hi" using ordered_le [OF o(2)] ordered_le [OF o(3)] by simp_all
    from move_down_spec [of dest ?o ?n data] o(1) m Cons.prems(3,4) obtain data1 where
      1: "move_down ?o ?n (dest, data) = Inr (dest + ?n, data1)" "apart dest (?o + ?n) data data1"
        "slice dest ?n data1 = slice ?o ?n data" by auto
    have l1: "length data1 = length data" using 1(2) by (simp add: apart_def)
    from compact_subs_spec [OF o(2), of "dest + ?n" data1] n o(1) m l1 Cons.prems(3,4) obtain ss' d2 data2 where
      2: "compact_subs ss (dest + ?n, data1) = Inr (ss', d2, data2)" "apart (dest + ?n) m data1 data2"
        "list_all2 (moved_sub data1 data2) ss ss'" "ordered (dest + ?n) (sub_regions ss') d2" "d2 \<le> m" by auto
    have l2: "length data2 = length data" using 2(2) l1 by (simp add: apart_def)
    from Cons.IH [OF ok(2) o(3), of d2 data2] 2(5) l2 Cons.prems(4) obtain gs' d3 data3 where
      3: "compact_groups gs (d2, data2) = Inr (gs', d3, data3)" "apart d2 hi data2 data3"
        "list_all2 (moved_group data2 data3) gs gs'" "ordered d2 (regions gs') d3" "d3 \<le> hi" by auto
    let ?e = "e\<lparr>me_offset := dest\<rparr>"
    have d2: "dest + ?n \<le> d2" using ordered_le [OF 2(4)] .
    have a12: "apart dest m data data2" by (rule apart_trans [OF 1(2) 2(2)]) (use m in simp_all)
    have a: "apart dest hi data data3" by (rule apart_trans [OF a12 3(2)]) (use m d2 in simp_all)
    have "apart (dest + ?n) hi data1 data3" by (rule apart_trans [OF 2(2) 3(2)]) (use m d2 in simp_all)
    then have front: "slice dest ?n data3 = slice ?o ?n data" using slice_below [of "dest + ?n" data3 data1 dest ?n] 1(3) by (simp add: apart_def)
    have "list_all2 (moved_sub data data3) ss ss'"
    proof (rule iffD1 [OF moved_cong 2(3)])
      show "\<forall>s \<in> set ss. sub_live s \<longrightarrow> sub_bytes data1 s = sub_bytes data s"
      proof (intro ballI impI)
        fix s assume s: "s \<in> set ss" "sub_live s"
        have "drop (?o + ?n) data1 = drop (?o + ?n) data" using 1(2) by (simp add: apart_def)
        then show "sub_bytes data1 s = sub_bytes data s"
          using ordered_region [OF o(2) sub_region_mem [OF s]] by (intro sub_bytes_above) auto
      qed
      have "take d2 data2 = take d2 data3" using 3(2) by (simp add: apart_def)
      then show "\<forall>s \<in> set ss'. sub_live s \<longrightarrow> sub_bytes data2 s = sub_bytes data3 s"
        using sub_bytes_below [OF 2(4)] by blast
    qed
    then have mg: "moved_group data data3 g (?e, ss')" using g False front by (simp add: moved_group_def)
    have "list_all2 (moved_group data data3) gs gs'"
      by (rule moved_group_above [OF o(3) _ 3(3)]) (use a12 in \<open>simp add: apart_def\<close>)
    moreover have "ordered dest (regions ((?e, ss') # gs')) d3"
      using ordered_appendI [OF 2(4) 3(4)] False by (simp add: group_regions_def)
    moreover have "compact_groups (g # gs) (dest, data) = Inr ((?e, ss') # gs', d3, data3)" using g False 1(1) 2(1) 3(1) by simp
    ultimately show ?thesis using mg a 3(5)
      by (intro exI [of _ "(?e, ss') # gs'"] exI [of _ d3] exI [of _ data3]) simp
  qed
qed

section \<open>What compacting keeps\<close>

lemma movedD: "moved_sub data data' s s' \<Longrightarrow> sub_live s' = sub_live s \<and> (sub_live s \<longrightarrow> sub_bytes data' s' = sub_bytes data s)"
  by (auto simp: moved_sub_def sub_live_def split: if_splits)

lemma moved_live: "list_all2 (moved_sub data data') ss ss' \<Longrightarrow> length (filter sub_live ss') = length (filter sub_live ss) \<and> length ss' = length ss"
  by (induction rule: list_all2_induct) (auto dest: movedD)

lemma moved_sub_ok: "moved_sub data data' s s' \<Longrightarrow> sub_ok i s \<Longrightarrow> sub_ok i s'"
  by (cases s; cases s') (auto simp: moved_sub_def sub_ok_def sub_live_def split: if_splits)

lemma moved_subs: "list_all2 (moved_sub data data') ss ss' \<Longrightarrow> group_subs data' ss' = group_subs data ss"
  by (induction rule: list_all2_induct) (auto simp: group_subs_def dest: movedD)

lemma moved_group_ok:
  assumes "group_ok r i g" and "moved_group data data' g g'"
  shows "group_ok r i g' \<and> length (snd g') = length (snd g)"
proof -
  obtain e ss e' ss' where g: "g = (e, ss)" "g' = (e', ss')" by (cases g, cases g')
  show ?thesis
  proof (cases "me_live e = 0")
    case False
    then have m: "e' = e\<lparr>me_offset := me_offset e'\<rparr>" "list_all2 (moved_sub data data') ss ss'"
      using assms(2) g by (simp_all add: moved_group_def)
    have "me_num e' = me_num e" "me_live e' = me_live e" "me_length e' = me_length e" by (subst m(1), simp)+
    moreover have "list_all (sub_ok i) ss'"
    proof -
      have "list_all (sub_ok i) ss" using assms(1) g by (simp add: group_ok_def)
      with m(2) show ?thesis by (induction rule: list_all2_induct) (auto intro: moved_sub_ok)
    qed
    ultimately show ?thesis using assms(1) g moved_live [OF m(2)] by (simp add: group_ok_def)
  qed (use assms g in \<open>simp add: moved_group_def\<close>)
qed

lemma moved_groups_ok:
  "list_all2 (moved_group data data') gs gs' \<Longrightarrow> groups_ok r i gs \<Longrightarrow> groups_ok r i gs'"
proof (induction arbitrary: i rule: list_all2_induct)
  case (Cons g gs g' gs')
  have "gs = [] \<longleftrightarrow> gs' = []" using Cons.hyps(2) by auto
  then show ?case using Cons moved_group_ok [of _ i g data data' g'] by auto
qed simp

lemma moved_groups_view:
  "list_all2 (moved_group data data') gs gs' \<Longrightarrow> groups_view data' gs' = groups_view data gs"
proof (induction rule: list_all2_induct)
  case (Cons g gs g' gs')
  obtain e ss e' ss' where g: "g = (e, ss)" "g' = (e', ss')" by (cases g, cases g')
  show ?case
  proof (cases "me_live e = 0")
    case False
    then have m: "e' = e\<lparr>me_offset := me_offset e'\<rparr>" "list_all2 (moved_sub data data') ss ss'"
        "slice (me_offset e') (me_length e) data' = slice (me_offset e) (me_length e) data"
      using Cons.hyps(1) g by (simp_all add: moved_group_def)
    have "me_live e' = me_live e" "me_length e' = me_length e" by (subst m(1), simp)+
    then show ?thesis using Cons.IH False m(3) moved_subs [OF m(2)] g
      by (simp add: groups_view_def live_groups_def group_view_def)
  qed (use Cons g in \<open>simp add: moved_group_def groups_view_def live_groups_def\<close>)
qed (simp add: groups_view_def live_groups_def)

text \<open>The identifiers of the live subevents follow from their bytes.\<close>

lemma live_ids_view:
  assumes "groups_ok 0 i gs" and "ordered lo (regions gs) hi" and "hi \<le> length data"
  shows "map (meta_id data) (live_of gs) = map bid (concat (map snd (groups_view data gs)))"
  using assms
proof (induction gs arbitrary: i lo)
  case (Cons g gs)
  obtain e ss where g: "g = (e, ss)" by (cases g)
  from Cons.prems(2) obtain m where o: "ordered m (regions gs) hi" by (auto simp: ordered_append)
  have IH: "map (meta_id data) (live_of gs) = map bid (concat (map snd (groups_view data gs)))"
    using Cons.IH [OF _ o Cons.prems(3)] Cons.prems(1) by auto
  have "map (meta_id data) (filter sub_live ss) = map bid (group_subs data ss)"
    using live_bid [OF Cons.prems(1,2,3), of e ss] g by (auto simp: group_subs_def)
  moreover have "me_live e = 0 \<Longrightarrow> filter sub_live ss = []" using Cons.prems(1) g by (auto simp: group_ok_def split: if_splits)
  ultimately show ?case using IH g by (auto simp: groups_view_def live_groups_def group_view_def)
qed (simp add: groups_view_def live_groups_def)

lemma moved_cells:
  assumes "list_all2 (moved_group data data') gs gs'"
    and "\<forall>(e, ss) \<in> set gs. \<forall>s \<in> set ss. sub_live s \<longrightarrow> bid (sub_bytes data s) = meta_id data s \<and> me_live e \<noteq> 0"
    and "\<forall>(e, ss) \<in> set gs'. \<forall>s \<in> set ss. sub_live s \<longrightarrow> bid (sub_bytes data' s) = meta_id data' s"
  shows "list_all2 (same_cell data data') (flat gs) (flat gs')"
  using assms
proof (induction rule: list_all2_induct)
  case (Cons g gs g' gs')
  obtain e ss e' ss' where g: "g = (e, ss)" "g' = (e', ss')" by (cases g, cases g')
  have "list_all2 (same_cell data data') (map Meta_Sub ss) (map Meta_Sub ss')"
  proof (cases "me_live e = 0")
    case True
    then have "ss' = ss" "\<forall>s \<in> set ss. \<not> sub_live s" using Cons.hyps(1) Cons.prems(1) g by (auto simp: moved_group_def)
    then show ?thesis by (auto simp: list_all2_conv_all_nth same_cell_def)
  next
    case False
    then have "list_all2 (moved_sub data data') ss ss'" using Cons.hyps(1) g by (simp add: moved_group_def)
    moreover have "\<forall>s \<in> set ss. sub_live s \<longrightarrow> bid (sub_bytes data s) = meta_id data s" "\<forall>s \<in> set ss'. sub_live s \<longrightarrow> bid (sub_bytes data' s) = meta_id data' s"
      using Cons.prems g by auto
    ultimately show ?thesis
      by (induction rule: list_all2_induct) (auto simp: same_cell_def dest!: movedD)
  qed
  moreover have "same_cell data data' (Meta_Ev e) (Meta_Ev e')" by (simp add: same_cell_def)
  moreover have "list_all2 (same_cell data data') (flat gs) (flat gs')" using Cons.IH Cons.prems by auto
  ultimately show ?case using g by (auto intro: list_all2_appendI)
qed simp

lemma moved_group_below:
  assumes "ordered lo (regions gs') hi" and "take hi data2 = take hi data'" and "list_all2 (moved_group data data') gs gs'"
  shows "list_all2 (moved_group data data2) gs gs'"
  using assms(3)
proof (rule list.rel_mono_strong)
  fix g g' assume g: "g' \<in> set gs'" and mg: "moved_group data data' g g'"
  obtain e ss e' ss' where [simp]: "g = (e, ss)" "g' = (e', ss')" by (cases g, cases g')
  show "moved_group data data2 g g'"
  proof (cases "me_live e = 0")
    case False
    then have m: "e' = e\<lparr>me_offset := me_offset e'\<rparr>" "list_all2 (moved_sub data data') ss ss'"
        "slice (me_offset e') (me_length e) data' = slice (me_offset e) (me_length e) data"
      using mg by (simp_all add: moved_group_def)
    have e': "me_live e' = me_live e" "me_length e' = me_length e" by (subst m(1), simp)+
    have reg: "set (group_regions (e', ss')) \<subseteq> set (regions gs')" using g by (auto simp: regions_def)
    have "slice (me_offset e') (me_length e) data2 = slice (me_offset e') (me_length e) data'"
      using ordered_region [OF assms(1), of "me_offset e'" "me_length e'"] reg False e'
      by (intro slice_below [OF assms(2)]) (auto simp: group_regions_def)
    moreover have "sub_bytes data2 s = sub_bytes data' s" if "s \<in> set ss'" "sub_live s" for s
      unfolding sub_bytes_def
      using ordered_region [OF assms(1), of "nat (ms_offset s)" "ms_length s"] reg False e' sub_region_mem [OF that]
      by (intro slice_below [OF assms(2)]) (auto simp: group_regions_def)
    ultimately show ?thesis using m False moved_cong [of ss data data ss' data' data2] by (simp add: moved_group_def)
  qed (use mg in \<open>simp add: moved_group_def\<close>)
qed

lemma live_bids:
  assumes "groups_ok 0 0 gs" and "ordered 0 (regions gs) (length data)"
  shows "\<forall>(e, ss) \<in> set gs. \<forall>s \<in> set ss. sub_live s \<longrightarrow> bid (sub_bytes data s) = meta_id data s \<and> me_live e \<noteq> 0"
proof (intro ballI, clarify, intro conjI)
  fix e ss s assume a: "(e, ss) \<in> set gs" "s \<in> set ss" "sub_live s"
  show "bid (sub_bytes data s) = meta_id data s" by (rule live_bid [OF assms le_refl a])
  have "\<exists>j. group_ok 0 j (e, ss)" if "groups_ok 0 i gs" for i using that a(1) by (induction gs arbitrary: i) (auto split: if_splits)
  then show "me_live e \<noteq> 0" using assms(1) a by (auto simp: group_ok_def filter_empty_conv)
qed

lemma compact_data_spec:
  assumes s: "shape hi st gs" and h: "hash_inv (length (flat gs)) st"
  shows "\<exists>gs' data'. compact_data st = (Inr (), st\<lparr>ss_meta := flat gs', ss_data := data', ss_data_revoked := 0\<rparr>) \<and>
           shape (length data') (st\<lparr>ss_meta := flat gs', ss_data := data', ss_data_revoked := 0\<rparr>) gs' \<and> length data' \<le> length (ss_data st) \<and>
           hash_inv (length (flat gs')) (st\<lparr>ss_meta := flat gs', ss_data := data', ss_data_revoked := 0\<rparr>) \<and>
           groups_view data' gs' = groups_view (ss_data st) gs"
proof -
  let ?D = "ss_data st"
  have m: "ss_meta st = flat gs" and ok: "groups_ok 0 0 gs" and dis: "distinct (map (meta_id ?D) (live_of gs))"
    and o: "ordered 0 (regions gs) (length ?D)" using s ordered_upper [of 0 "regions gs" hi] by (auto simp: shape_def)
  from compact_groups_spec [OF ok o, of 0 ?D] obtain gs' dest data where
    c: "compact_groups gs (0, ?D) = Inr (gs', dest, data)" "apart 0 (length ?D) ?D data"
      "list_all2 (moved_group ?D data) gs gs'" "ordered 0 (regions gs') dest" "dest \<le> length ?D" by auto
  let ?data = "take dest data"
  let ?st = "st\<lparr>ss_meta := flat gs', ss_data := ?data, ss_data_revoked := 0\<rparr>"
  have len: "length ?data = dest" using c(2,5) by (simp add: apart_def)
  have mv: "list_all2 (moved_group ?D ?data) gs gs'" by (rule moved_group_below [OF c(4) _ c(3)]) simp
  have ok': "groups_ok 0 0 gs'" by (rule moved_groups_ok [OF mv ok])
  have o': "ordered 0 (regions gs') (length ?data)" using c(4) len by simp
  have v: "groups_view ?data gs' = groups_view ?D gs" by (rule moved_groups_view [OF mv])
  have "map (meta_id ?data) (live_of gs') = map (meta_id ?D) (live_of gs)"
    unfolding live_ids_view [OF ok' o' le_refl] live_ids_view [OF ok o le_refl] v ..
  then have sh: "shape (length ?data) ?st gs'" using ok' o' dis by (simp add: shape_def)
  have cells: "list_all2 (same_cell ?D ?data) (flat gs) (flat gs')"
    by (rule moved_cells [OF mv]) (use live_bids [OF ok o] live_bids [OF ok' o'] in fastforce)+
  have "hash_inv (length (flat gs)) ?st" by (rule hash_inv_cells [OF h]) (use cells m in simp_all)
  moreover have "length (flat gs') = length (flat gs)" using list_all2_lengthD [OF cells] by simp
  moreover have "compact_data st = (Inr (), ?st)"
    using verify_shape [OF s] verify_shape [OF sh] meta_groups_flat [OF ok, of 0] m c(1)
    by (simp add: compact_data_def verified_def flat_group_cells)
  ultimately show ?thesis using sh v len c(5) by (intro exI [of _ gs'] exI [of _ ?data]) simp
qed

section \<open>The invariant of the store\<close>

text \<open>The store, with live data below \<open>hi\<close> only.\<close>

definition store_upto :: "nat \<Rightarrow> lmd_sticky_store \<Rightarrow> meta_group list \<Rightarrow> bool" where
  "store_upto hi st gs \<longleftrightarrow> shape hi st gs \<and> hash_inv (length (flat gs)) st \<and> hash_room 0 st \<and>
     (ss_hash st \<noteq> [] \<longrightarrow> 16 \<le> length (ss_hash st))"

definition store_inv :: "lmd_sticky_store \<Rightarrow> bool" where
  "store_inv st \<longleftrightarrow> (\<exists>gs. store_upto (length (ss_data st)) st gs)"

definition store_view :: "lmd_sticky_store \<Rightarrow> (bytes \<times> bytes list) list" where
  "store_view st = (case meta_groups 0 (ss_meta st) of None \<Rightarrow> [] | Some gs \<Rightarrow> groups_view (ss_data st) (map snd gs))"

lemma store_view_shape: "shape hi st gs \<Longrightarrow> store_view st = groups_view (ss_data st) gs"
  using meta_groups_flat [of 0 gs 0] by (simp add: store_view_def shape_def)

lemma grow_ge: "0 < sz \<Longrightarrow> need \<le> grow need sz"
  by (induction need sz rule: grow.induct) (subst grow.simps, auto)

lemma reserve_data_spec:
  assumes "store_inv st"
  shows "\<exists>st'. reserve_data n st = (Inr (), st') \<and> store_inv st' \<and> store_view st' = store_view st \<and>
           length (ss_data st') \<le> length (ss_data st) \<and> length (ss_data st') + n \<le> ss_data_alloc st'"
proof -
  from assms obtain gs where s: "shape (length (ss_data st)) st gs" "hash_inv (length (flat gs)) st" "hash_room 0 st" "ss_hash st \<noteq> [] \<longrightarrow> 16 \<le> length (ss_hash st)"
    by (auto simp: store_inv_def store_upto_def)
  have alloc: "store_inv (st1\<lparr>ss_data_alloc := a\<rparr>) = store_inv st1" "store_view (st1\<lparr>ss_data_alloc := a\<rparr>) = store_view st1" for st1 a
    by (simp_all add: store_inv_def store_upto_def shape_def hash_inv_def hash_room_def store_view_def split: option.splits)
  have "\<exists>st1. (if ss_data_revoked st > length (ss_data st) div 2 then compact_data st else (Inr (), st)) = (Inr (), st1) \<and>
      store_inv st1 \<and> store_view st1 = store_view st \<and> length (ss_data st1) \<le> length (ss_data st)"
  proof (cases "ss_data_revoked st > length (ss_data st) div 2")
    case True
    from compact_data_spec [OF s(1,2)] obtain gs' data' where
      c: "compact_data st = (Inr (), st\<lparr>ss_meta := flat gs', ss_data := data', ss_data_revoked := 0\<rparr>)"
        "shape (length data') (st\<lparr>ss_meta := flat gs', ss_data := data', ss_data_revoked := 0\<rparr>) gs'" "length data' \<le> length (ss_data st)"
        "hash_inv (length (flat gs')) (st\<lparr>ss_meta := flat gs', ss_data := data', ss_data_revoked := 0\<rparr>)"
        "groups_view data' gs' = groups_view (ss_data st) gs" by blast
    let ?st = "st\<lparr>ss_meta := flat gs', ss_data := data', ss_data_revoked := 0\<rparr>"
    have "store_inv ?st" unfolding store_inv_def store_upto_def using c(2,4) s(3,4) by (intro exI [of _ gs']) (simp add: hash_room_def)
    then show ?thesis using True c store_view_shape [OF c(2)] store_view_shape [OF s(1)] by simp
  qed (use assms in simp)
  then obtain st1 where
    1: "(if ss_data_revoked st > length (ss_data st) div 2 then compact_data st else (Inr (), st)) = (Inr (), st1)"
      "store_inv st1" "store_view st1 = store_view st" "length (ss_data st1) \<le> length (ss_data st)" by blast
  let ?sz = "grow (length (ss_data st1) + n) (max 1024 (ss_data_alloc st1))"
  have sz: "length (ss_data st1) + n \<le> ?sz" by (rule grow_ge) simp
  let ?st2 = "if ?sz > ss_data_alloc st1 then st1\<lparr>ss_data_alloc := ?sz\<rparr> else st1"
  show ?thesis
  proof (cases "length (ss_data st) + n > ss_data_alloc st")
    case True
    then have "reserve_data n st = (Inr (), ?st2)" unfolding reserve_data_def using 1(1) by (simp add: Let_def del: if_split)
    then show ?thesis using 1 sz alloc by (intro exI [of _ ?st2]) auto
  next
    case False
    then show ?thesis using assms by (simp add: reserve_data_def)
  qed
qed

lemma grow_hash_ge: "0 < sz \<Longrightarrow> sz \<le> grow_hash need sz \<and> need \<le> grow_hash need sz div 2"
  by (induction need sz rule: grow_hash.induct) (subst grow_hash.simps, subst (2) grow_hash.simps, auto)

lemma grow_hash_power: "0 < sz \<Longrightarrow> \<exists>k. sz = 2 ^ k \<Longrightarrow> \<exists>k. grow_hash need sz = 2 ^ k"
proof (induction need sz rule: grow_hash.induct)
  case (1 need sz)
  have "\<exists>k. 2 * sz = 2 ^ k" using 1(3) by (metis power_Suc)
  then show ?case using 1 by (subst grow_hash.simps) auto
qed

text \<open>The store with room for a new event of \<open>n\<close> subevents.\<close>

definition store_ready :: "nat \<Rightarrow> nat \<Rightarrow> lmd_sticky_store \<Rightarrow> meta_group list \<Rightarrow> bool" where
  "store_ready hi n st gs \<longleftrightarrow> shape hi st gs \<and> hash_inv (length (flat gs)) st \<and> hash_room n st \<and>
     (ss_hash st \<noteq> [] \<longrightarrow> 16 \<le> length (ss_hash st))"

definition make_room :: "nat \<Rightarrow> lmd_sticky_store \<Rightarrow> (unit, lmd_sticky_store) result" where
  "make_room num_sev st =
     andthen (reserve_meta (24 + num_sev * 24) st) (\<lambda>recalc1 st.
     andthen (reserve_hash num_sev st) (\<lambda>recalc2 st.
       if recalc1 \<or> recalc2 then populate_hash st else (Inr (), st)))"

lemma shape_other [simp]:
  "shape hi (st\<lparr>ss_meta_alloc := a\<rparr>) gs = shape hi st gs" "shape hi (st\<lparr>ss_hash := t\<rparr>) gs = shape hi st gs"
  "shape hi (st\<lparr>ss_hash := t, ss_hash_used := u\<rparr>) gs = shape hi st gs" "hash_inv n (st\<lparr>ss_meta_alloc := a\<rparr>) = hash_inv n st"
  by (simp_all add: shape_def hash_inv_def)

lemma reserve_meta_spec:
  assumes "shape hi st gs" and "hash_inv (length (flat gs)) st"
  shows "\<exists>re st' gs'. reserve_meta n st = (Inr re, st') \<and> shape hi st' gs' \<and> (\<not> re \<longrightarrow> hash_inv (length (flat gs')) st') \<and>
           length (live_of gs') = length (live_of gs) \<and> groups_view (ss_data st) gs' = groups_view (ss_data st) gs \<and>
           ss_data st' = ss_data st \<and> ss_hash st' = ss_hash st \<and> ss_hash_used st' = ss_hash_used st"
proof (cases "24 * length (ss_meta st) + n > ss_meta_alloc st")
  case True
  let ?due = "ss_meta_revoked st > 24 * length (ss_meta st) div 2"
  have "\<exists>st1 gs'. (if ?due then compact_meta st else (Inr (), st)) = (Inr (), st1) \<and> shape hi st1 gs' \<and>
      (\<not> ?due \<longrightarrow> hash_inv (length (flat gs')) st1) \<and>
      length (live_of gs') = length (live_of gs) \<and> groups_view (ss_data st) gs' = groups_view (ss_data st) gs \<and>
      ss_data st1 = ss_data st \<and> ss_hash st1 = ss_hash st \<and> ss_hash_used st1 = ss_hash_used st"
  proof (cases ?due)
    case True
    from compact_meta_spec [OF assms(1)] obtain gs' where
      "compact_meta st = (Inr (), st\<lparr>ss_meta := flat gs', ss_meta_revoked := 0\<rparr>)"
      "shape hi (st\<lparr>ss_meta := flat gs', ss_meta_revoked := 0\<rparr>) gs'"
      "length (live_of gs') = length (live_of gs)" "groups_view (ss_data st) gs' = groups_view (ss_data st) gs" by blast
    then show ?thesis using True by (intro exI [of _ "st\<lparr>ss_meta := flat gs', ss_meta_revoked := 0\<rparr>"] exI [of _ gs']) simp
  qed (use assms in auto)
  then obtain st1 gs' where
    1: "(if ?due then compact_meta st else (Inr (), st)) = (Inr (), st1)" "shape hi st1 gs'" "\<not> ?due \<longrightarrow> hash_inv (length (flat gs')) st1"
      "length (live_of gs') = length (live_of gs)" "groups_view (ss_data st) gs' = groups_view (ss_data st) gs"
      "ss_data st1 = ss_data st" "ss_hash st1 = ss_hash st" "ss_hash_used st1 = ss_hash_used st" by blast
  define sz where "sz = grow (24 * length (ss_meta st1) + n) (max 256 (ss_meta_alloc st1))"
  let ?st2 = "if sz > ss_meta_alloc st1 \<or> sz < ss_meta_alloc st1 div 2 then st1\<lparr>ss_meta_alloc := sz\<rparr> else st1"
  have "reserve_meta n st = (Inr ?due, ?st2)"
    using True 1(1) unfolding reserve_meta_def Let_def sz_def by (simp del: if_split)
  then show ?thesis using 1 by (intro exI [of _ ?due] exI [of _ ?st2] exI [of _ gs']) auto
qed (use assms in \<open>auto simp: reserve_meta_def\<close>)

lemma make_room_spec:
  assumes "store_upto hi st gs"
  shows "\<exists>st' gs'. make_room n st = (Inr (), st') \<and> store_ready hi n st' gs' \<and> ss_data st' = ss_data st \<and>
           groups_view (ss_data st) gs' = groups_view (ss_data st) gs"
proof -
  have s: "shape hi st gs" "hash_inv (length (flat gs)) st" "hash_room 0 st" "ss_hash st \<noteq> [] \<longrightarrow> 16 \<le> length (ss_hash st)"
    using assms by (auto simp: store_upto_def)
  from reserve_meta_spec [OF s(1,2), of "24 + n * 24"] obtain re1 st1 gs1 where
    1: "reserve_meta (24 + n * 24) st = (Inr re1, st1)" "shape hi st1 gs1" "\<not> re1 \<longrightarrow> hash_inv (length (flat gs1)) st1"
      "length (live_of gs1) = length (live_of gs)" "groups_view (ss_data st) gs1 = groups_view (ss_data st) gs"
      "ss_data st1 = ss_data st" "ss_hash st1 = ss_hash st" "ss_hash_used st1 = ss_hash_used st" by blast
  have live: "length (live_of gs1) \<le> ss_hash_used st1"
    using live_count [OF s(2), of "[]"] s(1) 1(4,8) by (simp add: shape_def)
  have ts: "ss_hash st1 \<noteq> [] \<longrightarrow> table_size (ss_hash st1)" using s(2) 1(7) by (simp add: hash_inv_def)
  note view = 1(5)
  define sz where "sz = grow_hash (ss_hash_used st1 + n) (max 16 (length (ss_hash st1)))"
  let ?need = "ss_hash_used st1 + n > length (ss_hash st1) div 2"
  have sz: "max 16 (length (ss_hash st1)) \<le> sz" "ss_hash_used st1 + n \<le> sz div 2"
    using grow_hash_ge [of "max 16 (length (ss_hash st1))" "ss_hash_used st1 + n"] by (simp_all add: sz_def)
  have "\<exists>k. max 16 (length (ss_hash st1)) = 2 ^ k"
  proof (cases "ss_hash st1 = []")
    case True
    then show ?thesis by (intro exI [of _ 4]) simp
  next
    case False
    then show ?thesis using ts s(4) 1(7) by (auto simp: table_size_def max_def)
  qed
  then obtain k where k: "sz = 2 ^ k" using grow_hash_power [of "max 16 (length (ss_hash st1))" "ss_hash_used st1 + n"] by (auto simp: sz_def)
  have big: "sz > length (ss_hash st1)" if ?need
    using that sz by (cases "sz = length (ss_hash st1)") auto
  let ?t = "ss_hash st1 @ replicate (sz - length (ss_hash st1)) 0"
  define st2 where "st2 = (if ?need then st1\<lparr>ss_hash := ?t\<rparr> else st1)"
  have rh: "reserve_hash n st1 = (Inr ?need, st2)"
    using big by (auto simp: reserve_hash_def Let_def st2_def sz_def)
  have lt: "length ?t = sz" using sz(1) by simp
  have 2: "shape hi st2 gs1" "ss_hash st2 \<noteq> [] \<longrightarrow> table_size (ss_hash st2) \<and> 16 \<le> length (ss_hash st2)"
      "ss_hash_used st1 + n \<le> length (ss_hash st2) div 2" "ss_data st2 = ss_data st1" "\<not> ?need \<longrightarrow> st2 = st1"
    using 1(2,7) ts lt k sz s(4) by (auto simp: st2_def table_size_def)
  show ?thesis
  proof (cases "re1 \<or> ?need")
    case True
    have "ss_hash st2 \<noteq> [] \<longrightarrow> table_size (ss_hash st2)" "length (live_of gs1) \<le> length (ss_hash st2) div 2" using 2(2,3) live by auto
    from populate_hash_spec [OF 2(1) this] obtain t' where
      p: "populate_hash st2 = (Inr (), st2\<lparr>ss_hash := t', ss_hash_used := length (live_of gs1)\<rparr>)"
        "hash_inv (length (flat gs1)) (st2\<lparr>ss_hash := t', ss_hash_used := length (live_of gs1)\<rparr>)" "length t' = length (ss_hash st2)" by blast
    let ?st3 = "st2\<lparr>ss_hash := t', ss_hash_used := length (live_of gs1)\<rparr>"
    have "make_room n st = (Inr (), ?st3)" using 1(1) rh True p(1) by (simp add: make_room_def)
    moreover have "store_ready hi n ?st3 gs1" unfolding store_ready_def using p(2,3) 2 live by (auto simp: hash_room_def)
    ultimately show ?thesis using view 1(6) 2(4) by (intro exI [of _ ?st3] exI [of _ gs1]) simp
  next
    case False
    then have "make_room n st = (Inr (), st1)" using 1(1) rh 2(5) by (simp add: make_room_def)
    moreover have "store_ready hi n st1 gs1" unfolding store_ready_def using False 1(2,3,7) s(4) by (auto simp: hash_room_def)
    ultimately show ?thesis using view 1(6) by (intro exI [of _ st1] exI [of _ gs1]) simp
  qed
qed

end
