(* ===== verification/Lmd_Sticky_Refine.thy ===== *)
theory Lmd_Sticky_Refine
  imports Lmd_Sticky_Compact
begin

text \<open>
  The contract of the sticky store: inserting an event replaces the subevents with the same
  identifiers, whatever is compacted on the way; events that are refused change nothing;
  replay delivers what the store holds.
\<close>

section \<open>New data at the end\<close>

lemma live_bids_upto:
  assumes "shape hi st gs" and "hi \<le> length data"
  shows "\<forall>(e, ss) \<in> set gs. \<forall>s \<in> set ss. sub_live s \<longrightarrow> bid (sub_bytes data s) = meta_id data s"
proof -
  have "ordered 0 (regions gs) (length data)" using assms ordered_upper [of 0 "regions gs" hi] by (auto simp: shape_def)
  then show ?thesis using live_bids [of gs data] assms(1) unfolding shape_def by fast
qed

lemma moved_group_self:
  assumes "shape hi st gs" and "take hi data = take hi (ss_data st)"
  shows "list_all2 (moved_group (ss_data st) data) gs gs"
proof -
  have "moved_group (ss_data st) (ss_data st) g g" if "g \<in> set gs" for g
  proof -
    obtain e ss where g: "g = (e, ss)" by (cases g)
    have "\<exists>j. group_ok 0 j g" if "groups_ok 0 i gs" for i using that \<open>g \<in> set gs\<close> by (induction gs arbitrary: i) (auto split: if_splits)
    then obtain j where "group_ok 0 j g" using assms(1) by (auto simp: shape_def)
    then have "\<forall>s \<in> set ss. moved_sub (ss_data st) (ss_data st) s s" using g by (auto simp: group_ok_def list_all_iff sub_ok_def moved_sub_def)
    then show ?thesis using g by (simp add: moved_group_def list_all2_same)
  qed
  then have "list_all2 (moved_group (ss_data st) (ss_data st)) gs gs" by (simp add: list_all2_same)
  from moved_group_below [OF _ assms(2) this] assms(1) show ?thesis unfolding shape_def by blast
qed

lemma append_data:
  assumes s: "store_upto (length (ss_data st)) st gs"
  shows "store_upto (length (ss_data st)) (st\<lparr>ss_data := ss_data st @ raw\<rparr>) gs \<and> groups_view (ss_data st @ raw) gs = groups_view (ss_data st) gs"
proof -
  let ?D = "ss_data st" and ?D' = "ss_data st @ raw"
  have sh: "shape (length ?D) st gs" and h: "hash_inv (length (flat gs)) st" using s by (simp_all add: store_upto_def)
  have mv: "list_all2 (moved_group ?D ?D') gs gs" by (rule moved_group_self [OF sh]) simp
  have v: "groups_view ?D' gs = groups_view ?D gs" by (rule moved_groups_view [OF mv])
  have ok: "groups_ok 0 0 gs" "ordered 0 (regions gs) (length ?D)" "ss_meta st = flat gs" using sh by (simp_all add: shape_def)
  have "map (meta_id ?D') (live_of gs) = map (meta_id ?D) (live_of gs)"
    unfolding live_ids_view [OF ok(1,2), of ?D', simplified] live_ids_view [OF ok(1,2) le_refl] v ..
  then have "shape (length ?D) (st\<lparr>ss_data := ?D'\<rparr>) gs" using sh by (simp add: shape_def del: map_eq_conv)
  moreover have "list_all2 (same_cell ?D ?D') (flat gs) (flat gs)"
    by (rule moved_cells [OF mv live_bids [OF ok(1,2)] live_bids_upto [OF sh]]) simp
  then have "hash_inv (length (flat gs)) (st\<lparr>ss_data := ?D'\<rparr>)" by (intro hash_inv_cells [OF h]) (simp_all add: ok(3))
  ultimately show ?thesis using s v by (simp add: store_upto_def hash_room_def)
qed

section \<open>Counting the subevents\<close>

lemma block_at:
  assumes "drop off raw = b @ rest" and "sub_block b" and "length raw < 2 ^ 64"
  shows "off \<noteq> length raw" "off + 12 \<le> length raw" "sticky_sub_size (sub_word 0 off raw) = length b"
    "wrap64 (off + length b) = off + length b" "off + length b \<le> length raw" "drop (off + length b) raw = rest"
    "is_sticky_tstamp off raw = is_sticky_tstamp 0 b"
proof -
  have b: "12 \<le> length b" "length b = sticky_sub_size (sub_word 0 0 b)" using assms(2) by (simp_all add: sub_block_def)
  have "length raw - off = length b + length rest" using assms(1) by (metis length_append length_drop)
  then show l: "off \<noteq> length raw" "off + 12 \<le> length raw" "off + length b \<le> length raw" using b(1) by linarith+
  then show "wrap64 (off + length b) = off + length b" using assms(3) by (simp add: wrap64_def)
  have s: "slice off (length b) raw = b" using assms(1) by (simp add: slice_def)
  then show "sticky_sub_size (sub_word 0 off raw) = length b" "is_sticky_tstamp off raw = is_sticky_tstamp 0 b"
    using word_slice [OF s b(1), of 0] word_slice [OF s b(1), of 1] b(2) by (simp_all add: is_sticky_tstamp_def)
  show "drop (off + length b) raw = rest" using assms(1) by (simp add: add.commute [of off] flip: drop_drop)
qed

lemma count_plain:
  assumes "list_all sub_block bs" and "list_all (\<lambda>b. \<not> is_sticky_tstamp 0 b) bs" and "drop off raw = concat bs" and "off \<le> length raw"
    and "length bs < fuel" and "length raw < 2 ^ 64"
  shows "count_subs fuel raw off n k = Inr (n, k + length bs)"
  using assms
proof (induction bs arbitrary: off fuel k)
  case Nil
  then show ?case by (cases fuel) auto
next
  case (Cons b bs)
  obtain fuel' where f: "fuel = Suc fuel'" "length bs < fuel'" using Cons.prems(5) by (cases fuel) auto
  note at = block_at [of off raw b "concat bs"]
  have "count_subs fuel' raw (off + length b) n (k + 1) = Inr (n, (k + 1) + length bs)"
    by (rule Cons.IH) (use Cons.prems at f in simp_all)
  then show ?case using Cons.prems at f by (simp add: Let_def)
qed

lemma count_stamps:
  assumes "list_all sub_block (ts @ bs)" and "list_all (is_sticky_tstamp 0) ts" and "list_all (\<lambda>b. \<not> is_sticky_tstamp 0 b) bs"
    and "drop off raw = concat ts @ concat bs" and "off \<le> length raw" and "length ts + length bs < fuel" and "length raw < 2 ^ 64"
  shows "count_subs fuel raw off n 0 = Inr (n + length (concat ts), length bs)"
  using assms
proof (induction ts arbitrary: off fuel n)
  case Nil
  then show ?case using count_plain [of bs off raw fuel n 0] by simp
next
  case (Cons b ts)
  obtain fuel' where f: "fuel = Suc fuel'" "length ts + length bs < fuel'" using Cons.prems(6) by (cases fuel) auto
  note at = block_at [of off raw b "concat ts @ concat bs"]
  have "count_subs fuel' raw (off + length b) (n + length b) 0 = Inr ((n + length b) + length (concat ts), length bs)"
    by (rule Cons.IH) (use Cons.prems at f in simp_all)
  then show ?case using Cons.prems at f by (simp add: Let_def)
qed

section \<open>Inserting an event\<close>

definition sticky_event :: "bytes \<Rightarrow> bytes list \<Rightarrow> bytes list \<Rightarrow> bool" where
  "sticky_event header stamps subs \<longleftrightarrow>
     length header = 16 \<and> list_all sub_block (stamps @ subs) \<and> list_all (is_sticky_tstamp 0) stamps \<and>
     list_all (\<lambda>b. \<not> is_sticky_tstamp 0 b) subs \<and> check_sticky_header (header @ concat (stamps @ subs)) = Inr ()"

text \<open>The contract: new subevents replace older ones with the same identifier.\<close>

definition sticky_spec :: "bool \<Rightarrow> bytes \<Rightarrow> bytes list \<Rightarrow> (bytes \<times> bytes list) list \<Rightarrow> (bytes \<times> bytes list) list" where
  "sticky_spec discard front subs v =
     strip (bid ` set subs) v @ (if latest discard subs = [] then [] else [(front, latest discard subs)])"

lemma insert_raw_room:
  "insert_raw raw off n k discard st =
     andthen (make_room k st) (\<lambda>_ st.
       let st1 = st\<lparr>ss_meta := ss_meta st @ [Meta_Ev \<lparr>me_offset = off, me_length = n, me_num = k, me_live = k\<rparr>]\<rparr>
       in andthen (insert_subs (length raw + 1) discard (24 * length (ss_meta st)) (off + n) (off + length raw) st1)
            (\<lambda>_ st. verified st))"
  by (simp add: insert_raw_def make_room_def andthen_def Let_def split: sum.splits prod.splits)

lemma blocks_length: "list_all sub_block bs \<Longrightarrow> length bs \<le> length (concat bs)"
  by (induction bs) (auto simp: sub_block_def)

lemma groups_view_nonempty:
  assumes "groups_ok 0 i gs"
  shows "\<forall>(f, bs) \<in> set (groups_view data gs). bs \<noteq> []"
  using assms
proof (induction gs arbitrary: i)
  case (Cons g gs)
  then show ?case by (cases g) (auto simp: groups_view_def live_groups_def group_view_def group_subs_def group_ok_def split: if_splits)
qed (simp add: groups_view_def live_groups_def)

lemma adding_first:
  assumes r: "store_ready hi (length bs) st gs" and d: "ss_data st = D @ raw" "hi = length D" "raw = front @ concat bs" and f: "16 \<le> length front"
    and e: "e = \<lparr>me_offset = length D, me_length = length front, me_num = length bs, me_live = length bs\<rparr>"
  shows "adding (length bs) (length D + length front) (st\<lparr>ss_meta := ss_meta st @ [Meta_Ev e]\<rparr>) gs e []"
proof -
  let ?st = "st\<lparr>ss_meta := ss_meta st @ [Meta_Ev e]\<rparr>"
  have s: "shape hi st gs" "hash_inv (length (flat gs)) st" "hash_room (length bs) st" using r by (simp_all add: store_ready_def)
  have m: "ss_meta st = flat gs" and ok: "groups_ok 0 0 gs" and o: "ordered 0 (regions gs) (length D)" using s(1) d(2) by (simp_all add: shape_def)
  have "groups_ok (length bs) 0 (gs @ [(e, [])])" using ok f by (simp add: groups_ok_append group_ok_def e)
  moreover have "hash_inv (length (ss_meta ?st)) ?st"
    by (rule hash_inv_extend [OF hash_inv_more [OF s(2)]]) (auto simp: m nth_append)
  moreover have "ordered 0 (regions (gs @ [(e, [])])) (length D + length front)"
    using o by (auto simp: group_regions_def sub_regions_def e intro: ordered_upper ordered_appendI)
  moreover have "table_len (length (ss_hash st))" using r by (auto simp: store_ready_def table_len_def)
  ultimately show ?thesis using s d f by (auto simp: adding_def shape_def hash_room_def)
qed

lemma adding_done:
  assumes "adding 0 (length (ss_data st)) st gs e ss"
  shows "store_inv st" and "store_view st = groups_view (ss_data st) gs @
      (if group_subs (ss_data st) ss = [] then [] else [(slice (me_offset e) (me_length e) (ss_data st), group_subs (ss_data st) ss)])"
    and "verify_meta st"
proof -
  have sh: "shape (length (ss_data st)) st (gs @ [(e, ss)])" using assms(1) unfolding adding_def shape_def by simp
  have l: "me_live e = length (filter sub_live ss)" using assms(1) by (simp add: adding_def groups_ok_append group_ok_def)
  show "verify_meta st" by (rule verify_shape [OF sh])
  have "hash_inv (length (flat (gs @ [(e, ss)]))) st" "hash_room 0 st" and tl: "table_len (length (ss_hash st))"
    using assms(1) unfolding adding_def by (auto simp del: flat_simps)
  then have "store_upto (length (ss_data st)) st (gs @ [(e, ss)])" using sh tl by (auto simp: store_upto_def table_len_def simp del: flat_simps)
  then show "store_inv st" unfolding store_inv_def by blast
  show "store_view st = groups_view (ss_data st) gs @
      (if group_subs (ss_data st) ss = [] then [] else [(slice (me_offset e) (me_length e) (ss_data st), group_subs (ss_data st) ss)])"
    unfolding store_view_shape [OF sh] using l by (auto simp: groups_view_def live_groups_def group_view_def group_subs_def)
qed

lemma strip_nil: "\<forall>(f, bs) \<in> set v. bs \<noteq> [] \<Longrightarrow> subs = [] \<Longrightarrow> strip (bid ` set subs) v = v"
  by (simp add: strip_empty)

lemma insert_raw_spec:
  assumes s: "store_upto (length D) st gs" "ss_data st = D @ raw" and raw: "raw = front @ concat subs" "16 \<le> length front"
    and b: "list_all sub_block subs" and len: "length (D @ raw) < 2 ^ 64"
  shows "\<exists>st'. insert_raw raw (length D) (length front) (length subs) discard st = (Inr (), st') \<and> store_inv st' \<and>
           ss_data st' = D @ raw \<and> store_view st' = sticky_spec discard front subs (groups_view (D @ raw) gs)"
proof -
  from make_room_spec [OF s(1), of "length subs"] s(2) obtain st1 gs1 where
    1: "make_room (length subs) st = (Inr (), st1)" "store_ready (length D) (length subs) st1 gs1" "ss_data st1 = D @ raw"
      "groups_view (D @ raw) gs1 = groups_view (D @ raw) gs" by auto
  have m1: "ss_meta st1 = flat gs1" and ok: "groups_ok 0 0 gs1" using 1(2) by (simp_all add: store_ready_def shape_def)
  let ?e = "\<lparr>me_offset = length D, me_length = length front, me_num = length subs, me_live = length subs\<rparr>"
  let ?st2 = "st1\<lparr>ss_meta := ss_meta st1 @ [Meta_Ev ?e]\<rparr>"
  have a: "adding (length subs) (length D + length front) ?st2 gs1 ?e []"
    by (rule adding_first [OF 1(2,3) refl raw refl])
  have rest: "drop (length D + length front) (ss_data ?st2) = concat subs" using 1(3) raw(1) by simp
  have fuel: "length subs < length raw + 1" using blocks_length [OF b] raw(1) by simp
  have total: "length (ss_data ?st2) = length D + length raw" "length (ss_data ?st2) < 2 ^ 64" using 1(3) len by simp_all
  from insert_subs_spec [OF a b rest fuel total(2), of discard] total(1) m1 obtain st' gs' e' ss' where
    2: "insert_subs (length raw + 1) discard (24 * length (ss_meta st1)) (length D + length front) (length D + length raw) ?st2 = (Inr (), st')"
      "ss_data st' = D @ raw" "adding 0 (length (ss_data st')) st' gs' e' ss'" "me_offset e' = length D" "me_length e' = length front"
      "subs = [] \<longrightarrow> groups_view (D @ raw) gs' = groups_view (D @ raw) gs1"
      "subs \<noteq> [] \<longrightarrow> groups_view (D @ raw) gs' = strip (bid ` set subs) (groups_view (D @ raw) gs1)"
      "group_subs (D @ raw) ss' = latest discard subs"
    using 1(3) by (auto simp: group_subs_def)
  note fin = adding_done [OF 2(3)]
  have "insert_raw raw (length D) (length front) (length subs) discard st = (Inr (), st')"
    using 1(1) 2(1) fin(3) by (simp add: insert_raw_room verified_def)
  moreover have "groups_view (D @ raw) gs' = strip (bid ` set subs) (groups_view (D @ raw) gs1)"
    using 2(6,7) strip_nil [OF groups_view_nonempty [OF ok], of subs "D @ raw"] by (cases "subs = []") simp_all
  moreover have "slice (me_offset e') (me_length e') (D @ raw) = front" using 2(4,5) raw(1) by (simp add: slice_def)
  ultimately show ?thesis using fin(1,2) 2(2,8) 1(4) by (intro exI [of _ st']) (simp add: sticky_spec_def)
qed

lemma insert_event_spec:
  assumes inv: "store_inv st" and w: "event_out_write ev = Inr (header @ concat (stamps @ subs))" and ev: "sticky_event header stamps subs"
    and len: "length (ss_data st) + length (header @ concat (stamps @ subs)) < 2 ^ 64"
  shows "\<exists>st'. sticky_insert ev discard st = (Inr (), st') \<and> store_inv st' \<and>
           store_view st' = sticky_spec discard (header @ concat stamps) subs (store_view st) \<and>
           length (ss_data st') \<le> length (ss_data st) + length (header @ concat (stamps @ subs))"
proof -
  let ?raw = "header @ concat (stamps @ subs)" and ?front = "header @ concat stamps"
  have e: "length header = 16" "list_all sub_block (stamps @ subs)" "list_all (is_sticky_tstamp 0) stamps"
    "list_all (\<lambda>b. \<not> is_sticky_tstamp 0 b) subs" "check_sticky_header ?raw = Inr ()" using ev by (simp_all add: sticky_event_def)
  have v: "verify_meta st" using inv verify_shape by (auto simp: store_inv_def store_upto_def)
  from reserve_data_spec [OF inv, of "get_length ev + 8"] obtain st1 where
    1: "reserve_data (get_length ev + 8) st = (Inr (), st1)" "store_inv st1" "store_view st1 = store_view st"
      "length (ss_data st1) \<le> length (ss_data st)" by blast
  let ?D = "ss_data st1"
  from 1(2) obtain gs where gs: "store_upto (length ?D) st1 gs" by (auto simp: store_inv_def)
  let ?st2 = "st1\<lparr>ss_data := ?D @ ?raw\<rparr>"
  have 2: "store_upto (length ?D) ?st2 gs" "groups_view (?D @ ?raw) gs = store_view st"
    using append_data [OF gs, of ?raw] gs 1(3) store_view_shape [of "length ?D" st1 gs] by (simp_all add: store_upto_def)
  have raw: "length ?raw < 2 ^ 64" "length (?D @ ?raw) < 2 ^ 64" using len 1(4) by simp_all
  have "length stamps + length subs < length ?raw + 1" using blocks_length [OF e(2)] by simp
  then have c: "count_subs (length ?raw + 1) ?raw 16 16 0 = Inr (length ?front, length subs)"
    using count_stamps [OF e(2-4), of 16 ?raw "length ?raw + 1" 16] e(1) raw(1) by simp
  from insert_raw_spec [OF 2(1), of ?raw ?front subs discard] e raw(2) obtain st' where
    "insert_raw ?raw (length ?D) (length ?front) (length subs) discard ?st2 = (Inr (), st')" "store_inv st'"
    "store_view st' = sticky_spec discard ?front subs (groups_view (?D @ ?raw) gs)" "ss_data st' = ?D @ ?raw" by auto
  then show ?thesis using v 1(1,4) w e(5) c 2(2)
    by (intro exI [of _ st']) (simp add: sticky_insert_def verified_def Let_def del: concat_append)
qed

section \<open>Events that are refused\<close>

lemma count_plain_prefix:
  assumes "list_all sub_block bs" and "list_all (\<lambda>b. \<not> is_sticky_tstamp 0 b) bs" and "drop off raw = concat bs @ rest" and "off \<le> length raw"
    and "length raw < 2 ^ 64"
  shows "count_subs (length bs + fuel) raw off n k = count_subs fuel raw (off + length (concat bs)) n (k + length bs)"
  using assms
proof (induction bs arbitrary: off k)
  case (Cons b bs)
  note at = block_at [of off raw b "concat bs @ rest"]
  have "count_subs (length bs + fuel) raw (off + length b) n (k + 1) = count_subs fuel raw (off + length b + length (concat bs)) n ((k + 1) + length bs)"
    by (rule Cons.IH) (use Cons.prems at in simp_all)
  then show ?case using Cons.prems at by (simp add: Let_def add.assoc)
qed simp

lemma count_stamps_prefix:
  assumes "list_all sub_block ts" and "list_all (is_sticky_tstamp 0) ts" and "drop off raw = concat ts @ rest" and "off \<le> length raw"
    and "length raw < 2 ^ 64"
  shows "count_subs (length ts + fuel) raw off n 0 = count_subs fuel raw (off + length (concat ts)) (n + length (concat ts)) 0"
  using assms
proof (induction ts arbitrary: off n)
  case (Cons b ts)
  note at = block_at [of off raw b "concat ts @ rest"]
  have "count_subs (length ts + fuel) raw (off + length b) (n + length b) 0 =
      count_subs fuel raw (off + length b + length (concat ts)) (n + length b + length (concat ts)) 0"
    by (rule Cons.IH) (use Cons.prems at in simp_all)
  then show ?case using Cons.prems at by (simp add: Let_def add.assoc)
qed simp

text \<open>An event with a good header whose subevents are in order up to \<open>rest\<close>.\<close>

definition sticky_upto :: "bytes list \<Rightarrow> bytes list \<Rightarrow> bytes \<Rightarrow> bytes \<Rightarrow> bool" where
  "sticky_upto stamps subs rest raw \<longleftrightarrow>
     check_sticky_header raw = Inr () \<and> raw = take 16 raw @ concat stamps @ concat subs @ rest \<and>
     list_all sub_block (stamps @ subs) \<and> list_all (is_sticky_tstamp 0) stamps \<and> list_all (\<lambda>b. \<not> is_sticky_tstamp 0 b) subs"

lemma sticky_header_length: "check_sticky_header raw = Inr () \<Longrightarrow> 16 \<le> length raw \<and> length raw < 2 ^ 34"
proof -
  assume "check_sticky_header raw = Inr ()"
  then have "16 \<le> length raw" "length raw = unat (eh_dlen (event_header_of_words (words32 (take 8 raw)))) * 2 + 8"
    by (auto simp: check_sticky_header_def Let_def split: if_splits)
  moreover have "unat (eh_dlen (event_header_of_words (words32 (take 8 raw)))) < 2 ^ 32"
    using unsigned_less [of "eh_dlen (event_header_of_words (words32 (take 8 raw)))"] by simp
  ultimately show ?thesis by simp
qed

lemma count_upto:
  assumes "sticky_upto stamps subs rest raw"
  shows "\<exists>fuel. count_subs (length raw + 1) raw 16 16 0 = count_subs (Suc fuel) raw (length raw - length rest) (16 + length (concat stamps)) (length subs)"
proof -
  note u = assms [unfolded sticky_upto_def]
  have l: "16 \<le> length raw" "length raw < 2 ^ 64" using u sticky_header_length [of raw] by simp_all
  have d: "drop 16 raw = concat stamps @ concat subs @ rest" using u l by (metis append_eq_conv_conj length_take min.absorb2)
  then have len: "length raw = 16 + length (concat stamps) + length (concat subs) + length rest"
    using l by (metis add.assoc length_append length_drop le_add_diff_inverse)
  have "length stamps + length subs \<le> length (concat stamps) + length (concat subs)"
    using blocks_length [of "stamps @ subs"] u by simp
  then obtain fuel where f: "length raw + 1 = length stamps + (length subs + Suc fuel)" using that [of "length raw - length stamps - length subs"] len by linarith
  have d2: "drop (16 + length (concat stamps)) raw = concat subs @ rest" using d by (simp add: add.commute [of 16] flip: drop_drop)
  have "count_subs (length raw + 1) raw 16 16 0 = count_subs (length subs + Suc fuel) raw (16 + length (concat stamps)) (16 + length (concat stamps)) 0"
    unfolding f using u l d by (intro count_stamps_prefix) auto
  also have "\<dots> = count_subs (Suc fuel) raw (16 + length (concat stamps) + length (concat subs)) (16 + length (concat stamps)) (0 + length subs)"
    using u d2 len l by (intro count_plain_prefix) auto
  finally show ?thesis using len by auto
qed

lemma upto_rest:
  assumes "sticky_upto stamps subs rest raw"
  shows "length rest \<le> length raw" "drop (length raw - length rest) raw = rest"
proof -
  from assms have "raw = (take 16 raw @ concat stamps @ concat subs) @ rest" by (simp add: sticky_upto_def)
  then obtain h where "raw = h @ rest" by blast
  then show "length rest \<le> length raw" "drop (length raw - length rest) raw = rest" by simp_all
qed

text \<open>The events that are refused with an error, and those at which the program is aborted by \<^verbatim>\<open>assert (false)\<close>.\<close>

inductive sticky_refused :: "bytes \<Rightarrow> string \<Rightarrow> bool" where
  wrong_size: "unat (eh_dlen (event_header_of_words (words32 (take 8 raw)))) * 2 + 8 \<noteq> length raw \<Longrightarrow>
    sticky_refused raw ''Trying to store sticky event with wrong data size''"
| small: "unat (eh_dlen (event_header_of_words (words32 (take 8 raw)))) * 2 + 8 = length raw \<Longrightarrow> length raw < 16 \<Longrightarrow>
    sticky_refused raw ''Trying to store sticky event with small size''"
| wrong_type: "unat (eh_dlen (event_header_of_words (words32 (take 8 raw)))) * 2 + 8 = length raw \<Longrightarrow> 16 \<le> length raw \<Longrightarrow>
    \<not> is_event_sticky (event_header_of_words (words32 (take 8 raw))) \<Longrightarrow> sticky_refused raw ''Trying to store sticky event with wrong type''"
| cut_header: "sticky_upto stamps subs rest raw \<Longrightarrow> rest \<noteq> [] \<Longrightarrow> length rest < 12 \<Longrightarrow>
    sticky_refused raw ''Trying to store sticky event with subevent header overflowing event''"
| late_stamp: "sticky_upto stamps subs (b @ rest) raw \<Longrightarrow> subs \<noteq> [] \<Longrightarrow> sub_block b \<Longrightarrow> is_sticky_tstamp 0 b \<Longrightarrow>
    sticky_refused raw ''Trying to store sticky event with tstamp subevent as non-fist subevent.''"

definition sticky_overflows :: "bytes \<Rightarrow> bool" where
  "sticky_overflows raw \<longleftrightarrow> (\<exists>stamps subs rest. sticky_upto stamps subs rest raw \<and> 12 \<le> length rest \<and> length rest < sticky_sub_size (sub_word 0 0 rest))"

lemma sticky_refused_checks:
  assumes "sticky_refused raw m"
  shows "check_sticky_header raw = Inl (Err m) \<or> check_sticky_header raw = Inr () \<and> count_subs (length raw + 1) raw 16 16 0 = Inl (Err m)"
  using assms
proof cases
  case (cut_header stamps subs rest)
  then have "check_sticky_header raw = Inr ()" by (simp add: sticky_upto_def)
  moreover obtain fuel where f: "count_subs (length raw + 1) raw 16 16 0 =
      count_subs (Suc fuel) raw (length raw - length rest) (16 + length (concat stamps)) (length subs)" using count_upto [OF cut_header(2)] by blast
  have "0 < length rest" "length rest \<le> length raw" using cut_header(3) upto_rest [OF cut_header(2)] by simp_all
  then have "length raw - length rest \<noteq> length raw" "length raw < length raw - length rest + 12" using cut_header(4) by linarith+
  then have "count_subs (length raw + 1) raw 16 16 0 = Inl (Err m)" unfolding f using cut_header(1) by simp
  ultimately show ?thesis by simp
next
  case (late_stamp stamps subs b rest)
  then have h: "check_sticky_header raw = Inr ()" by (simp add: sticky_upto_def)
  then have "length raw < 2 ^ 64" using sticky_header_length [of raw] by simp
  note at = block_at [OF upto_rest(2) [OF late_stamp(2)] late_stamp(4) this]
  from count_upto [OF late_stamp(2)] at late_stamp have "count_subs (length raw + 1) raw 16 16 0 = Inl (Err m)" by (auto simp: Let_def)
  then show ?thesis using h by simp
qed (simp_all add: check_sticky_header_def Let_def)

lemma sticky_sub_size_less: "sticky_sub_size d < 2 ^ 34"
proof -
  have d: "unat d < 2 ^ 32" using unsigned_less [of d] by simp
  show ?thesis
  proof (cases "unat d < 2")
    case True
    then have "unat d = 0 \<or> unat d = unat (1 :: u32)" by auto
    then have "d = 0 \<or> d = 1" by (simp only: unat_eq_zero word_unat_eq_iff [symmetric])
    then show ?thesis by (auto simp: sticky_sub_size_def LMD_SUBEVENT_STICKY_DLEN_REVOKE_def SUBEVENT_DATA_LENGTH_FROM_DLEN_def sub64_def wrap64_def)
  next
    case False
    then have "sub64 (unat d) 2 = unat d - 2" using d by (simp add: sub64_le)
    then have "SUBEVENT_DATA_LENGTH_FROM_DLEN d < 2 ^ 33" using d by (simp add: SUBEVENT_DATA_LENGTH_FROM_DLEN_def wrap64_def)
    then show ?thesis by (simp add: sticky_sub_size_def wrap64_def)
  qed
qed

lemma sticky_overflows_checks:
  assumes "sticky_overflows raw"
  shows "check_sticky_header raw = Inr () \<and> count_subs (length raw + 1) raw 16 16 0 = Inl (Assert ''false'')"
proof -
  from assms obtain stamps subs rest where u: "sticky_upto stamps subs rest raw" "12 \<le> length rest" "length rest < sticky_sub_size (sub_word 0 0 rest)"
    by (auto simp: sticky_overflows_def)
  have h: "check_sticky_header raw = Inr ()" "length raw < 2 ^ 34" using u(1) sticky_header_length [of raw] by (simp_all add: sticky_upto_def)
  let ?o = "length raw - length rest"
  have w: "sub_word 0 ?o raw = sub_word 0 0 rest"
    by (rule word_slice) (use upto_rest [OF u(1)] u(2) in \<open>simp_all add: slice_def\<close>)
  have n: "wrap64 (?o + sticky_sub_size (sub_word 0 0 rest)) = ?o + sticky_sub_size (sub_word 0 0 rest)"
    using sticky_sub_size_less [of "sub_word 0 0 rest"] h(2) by (simp add: wrap64_def)
  obtain fuel where f: "count_subs (length raw + 1) raw 16 16 0 =
      count_subs (Suc fuel) raw ?o (16 + length (concat stamps)) (length subs)" using count_upto [OF u(1)] by blast
  have "?o \<noteq> length raw" "\<not> length raw < ?o + 12" "length raw < ?o + sticky_sub_size (sub_word 0 0 rest)" using upto_rest(1) [OF u(1)] u(2,3) by linarith+
  then have "count_subs (length raw + 1) raw 16 16 0 = Inl (Assert ''false'')" unfolding f by (simp add: Let_def w n)
  then show ?thesis using h(1) by simp
qed

text \<open>Whatever the error of the checks, the store keeps its order and its contents.\<close>

lemma insert_checks_fail:
  assumes inv: "store_inv st" and w: "event_out_write ev = Inr raw"
    and bad: "check_sticky_header raw = Inl err \<or>
      check_sticky_header raw = Inr () \<and> count_subs (length raw + 1) raw 16 16 0 = Inl err"
  shows "\<exists>st'. sticky_insert ev discard st = (Inl err, st') \<and> store_inv st' \<and> store_view st' = store_view st"
proof -
  have v: "verify_meta st" using inv verify_shape by (auto simp: store_inv_def store_upto_def)
  from reserve_data_spec [OF inv, of "get_length ev + 8"] obtain st1 where
    1: "reserve_data (get_length ev + 8) st = (Inr (), st1)" "store_inv st1" "store_view st1 = store_view st" by blast
  from 1(2) obtain gs where gs: "store_upto (length (ss_data st1)) st1 gs" by (auto simp: store_inv_def)
  let ?st2 = "st1\<lparr>ss_data := ss_data st1 @ raw\<rparr>"
  have up: "store_upto (length (ss_data st1)) ?st2 gs" and gv: "groups_view (ss_data st1 @ raw) gs = groups_view (ss_data st1) gs"
    using append_data [OF gs, of raw] by simp_all
  have "store_view ?st2 = store_view st"
    using store_view_shape [of "length (ss_data st1)" ?st2 gs] store_view_shape [of "length (ss_data st1)" st1 gs] up gs gv 1(3)
    by (simp add: store_upto_def)
  moreover have "shape (length (ss_data ?st2)) ?st2 gs"
    using up ordered_upper [of 0 "regions gs" "length (ss_data st1)" "length (ss_data ?st2)"] by (simp add: store_upto_def shape_def)
  then have "store_inv ?st2" using up unfolding store_inv_def store_upto_def by blast
  moreover have "sticky_insert ev discard st = (Inl err, ?st2)"
    using v 1(1) w bad by (auto simp: sticky_insert_def verified_def Let_def)
  ultimately show ?thesis by blast
qed

text \<open>C18. An event is refused when its size is wrong or too small, when it is no sticky event, when a
  subevent header goes over its end or when a time stamp comes after another subevent: the error is reported, and the
  store keeps its invariant and its contents. It is different for a subevent whose data goes over the end of the event: there an
  assertion comes before the report, and the program is aborted.\<close>

theorem sticky_insert_refuses:
  assumes "store_inv st" and "event_out_write ev = Inr raw"
  shows "(\<forall>m. sticky_refused raw m \<longrightarrow>
           (\<exists>st'. sticky_insert ev discard st = (Inl (Err m), st') \<and> store_inv st' \<and> store_view st' = store_view st)) \<and>
         (sticky_overflows raw \<longrightarrow> fst (sticky_insert ev discard st) = Inl (Assert ''false''))"
proof (intro conjI allI impI)
  fix m assume "sticky_refused raw m"
  then show "\<exists>st'. sticky_insert ev discard st = (Inl (Err m), st') \<and> store_inv st' \<and> store_view st' = store_view st"
    by (rule insert_checks_fail [OF assms sticky_refused_checks])
next
  assume "sticky_overflows raw"
  from insert_checks_fail [OF assms disjI2 [OF sticky_overflows_checks [OF this]], of discard] show "fst (sticky_insert ev discard st) = Inl (Assert ''false'')" by auto
qed

section \<open>Replay\<close>

lemma mem_info: "length b = 8 \<Longrightarrow> mem (words_of_event_info (event_info_of_words (words32 b))) = b"
proof -
  assume "length b = 8"
  then obtain a1 a2 a3 a4 a5 a6 a7 a8 where "b = [a1, a2, a3, a4, a5, a6, a7, a8]"
    by (auto simp: length_Suc_conv numeral_eq_Suc)
  then show ?thesis by (simp add: mem_def words_of_event_info_def event_info_of_words_def)
qed

definition replay_bytes :: "bytes \<times> bytes list \<Rightarrow> bytes" where
  "replay_bytes = (\<lambda>(front, subs).
     mem (words_of_event_header ((event_header_of_words (words32 (take 8 front)))
       \<lparr>eh_dlen := of_nat (DLEN_FROM_EVENT_DATA_LENGTH (length (drop 8 front @ concat subs)))\<rparr>)) @
     drop 8 front @ concat subs)"

lemma write_data_chunks: "write_chunks info (map (\<lambda>s. Data_chunk (f s) False) ss) = Inr (concat (map f ss))"
  by (induction ss) (auto simp: copy_bytes_def)

lemma stored_event_spec:
  assumes "group_ok 0 i (e, ss)" and "me_live e \<noteq> 0" and "me_offset e + me_length e \<le> length data"
  shows "\<exists>ev. stored_event data (e, ss) = Inr ev \<and> event_out_write ev = Inr (replay_bytes (group_view data (e, ss)))"
proof -
  let ?o = "me_offset e" and ?n = "me_length e"
  have n: "16 \<le> ?n" using assms(1,2) by (simp add: group_ok_def)
  let ?front = "slice ?o ?n data"
  have cut: "take 8 ?front = slice ?o 8 data" "drop 8 ?front = slice (?o + 8) 8 data @ slice (?o + 16) (?n - 16) data"
    using n slice_append_slice [of "?o + 8" 8 data "?n - 16"] by (simp_all add: take_slice drop_slice add.commute)
  have l: "length (slice (?o + 8) 8 data) = 8" using n assms(3) by (simp add: slice_def)
  let ?more = "if ?n - 16 \<noteq> 0 then [Data_chunk (slice (?o + 16) (?n - 16) data) False] else []"
  let ?ev = "\<lparr>eo_header = event_header_of_words (words32 (slice ?o 8 data)),
      eo_info = event_info_of_words (words32 (slice (?o + 8) 8 data)),
      eo_chunks = Info_chunk # ?more @ map (\<lambda>s. Data_chunk (slice (nat (ms_offset s)) (ms_length s) data) False) (filter sub_live ss)\<rparr>"
  have st: "stored_event data (e, ss) = Inr ?ev" using n by (simp add: stored_event_def Let_def)
  have "write_chunks (eo_info ?ev) (eo_chunks ?ev) = Inr (drop 8 ?front @ concat (group_subs data ss))"
    using write_data_chunks [of "eo_info ?ev" "sub_bytes data" "filter sub_live ss"] cut(2) mem_info [OF l] n
    by (auto simp: copy_bytes_def group_subs_def sub_bytes_def [abs_def] slice_def)
  then have "event_out_write ?ev = Inr (replay_bytes (group_view data (e, ss)))"
    using cut(1) by (simp add: event_out_write_def replay_bytes_def group_view_def Let_def)
  then show ?thesis using st by blast
qed

lemma stored_events_spec:
  assumes "groups_ok 0 i gs" and "ordered lo (regions gs) (length data)"
  shows "\<exists>evs. stored_events data gs = Inr evs \<and> list_all2 (\<lambda>ev v. event_out_write ev = Inr (replay_bytes v)) evs (groups_view data gs)"
  using assms
proof (induction gs arbitrary: i lo)
  case (Cons g gs)
  obtain e ss where g: "g = (e, ss)" by (cases g)
  from Cons.prems(2) obtain m where o: "ordered lo (group_regions g) m" "ordered m (regions gs) (length data)" by (auto simp: ordered_append)
  have ok: "group_ok 0 i g" "groups_ok 0 (i + 1 + length (snd g)) gs" using Cons.prems(1) by (auto split: if_splits)
  from Cons.IH [OF ok(2) o(2)] obtain evs where
    evs: "stored_events data gs = Inr evs" "list_all2 (\<lambda>ev v. event_out_write ev = Inr (replay_bytes v)) evs (groups_view data gs)" by blast
  show ?case
  proof (cases "me_live e = 0")
    case True
    then show ?thesis using evs g by (simp add: groups_view_def live_groups_def)
  next
    case False
    then have "me_offset e + me_length e \<le> length data"
      using ordered_region [OF Cons.prems(2), of "me_offset e" "me_length e"] g by (simp add: group_regions_def)
    with stored_event_spec [of i e ss data] ok(1) g False obtain ev where
      "stored_event data (e, ss) = Inr ev" "event_out_write ev = Inr (replay_bytes (group_view data (e, ss)))" by auto
    then show ?thesis using evs g False by (simp add: groups_view_def live_groups_def)
  qed
qed (simp add: groups_view_def live_groups_def)

text \<open>C20. replay of a store in good order delivers one event for each event it holds, in order; each
  event written out is the kept front part, with the length in its header made right, followed
  by the subevents that are still valid.
\<close>

theorem sticky_write_events_delivers:
  assumes "store_inv st"
  shows "\<exists>evs. sticky_write_events st = Inr evs \<and> list_all2 (\<lambda>ev v. event_out_write ev = Inr (replay_bytes v)) evs (store_view st)"
proof -
  from assms obtain gs where s: "shape (length (ss_data st)) st gs" by (auto simp: store_inv_def store_upto_def)
  then have ok: "groups_ok 0 0 gs" "ordered 0 (regions gs) (length (ss_data st))" "ss_meta st = flat gs" by (simp_all add: shape_def)
  from stored_events_spec [OF ok(1,2)] show ?thesis
    using verify_shape [OF s] meta_groups_flat [OF ok(1), of 0] ok(3) store_view_shape [OF s] by (simp add: sticky_write_events_def)
qed

section \<open>Sequences of events\<close>

locale event_store =
  fixes inv :: "'s \<Rightarrow> bool" and view :: "'s \<Rightarrow> 'v" and used :: "'s \<Rightarrow> nat"
    and put :: "'e \<Rightarrow> 's \<Rightarrow> (unit, 's) result" and spec :: "'e \<Rightarrow> 'v \<Rightarrow> 'v" and fits :: "'e \<Rightarrow> bool" and cost :: "'e \<Rightarrow> nat" and bound :: nat
  assumes put_spec: "inv st \<Longrightarrow> fits e \<Longrightarrow> used st + cost e < bound \<Longrightarrow>
    \<exists>st'. put e st = (Inr (), st') \<and> inv st' \<and> view st' = spec e (view st) \<and> used st' \<le> used st + cost e"
begin

lemma history:
  "inv st \<Longrightarrow> list_all fits es \<Longrightarrow> used st + sum_list (map cost es) < bound \<Longrightarrow>
   \<exists>st'. each put es st = (Inr (), st') \<and> inv st' \<and> view st' = fold spec es (view st)"
proof (induction es arbitrary: st)
  case (Cons e es)
  then obtain st1 where 1: "put e st = (Inr (), st1)" "inv st1" "view st1 = spec e (view st)" "used st1 \<le> used st + cost e"
    using put_spec [of st e] by auto
  then have "used st1 + sum_list (map cost es) < bound" using Cons.prems(3) by simp
  with Cons.IH [OF 1(2)] Cons.prems(2) 1 show ?case by auto
qed simp

end

record sticky_input =
  si_discard :: bool
  si_event :: lmd_event_out
  si_header :: bytes
  si_stamps :: "bytes list"
  si_subs :: "bytes list"

definition si_bytes :: "sticky_input \<Rightarrow> bytes" where
  "si_bytes i = si_header i @ concat (si_stamps i @ si_subs i)"

definition si_fits :: "sticky_input \<Rightarrow> bool" where
  "si_fits i \<longleftrightarrow> event_out_write (si_event i) = Inr (si_bytes i) \<and> sticky_event (si_header i) (si_stamps i) (si_subs i)"

definition si_spec :: "sticky_input \<Rightarrow> (bytes \<times> bytes list) list \<Rightarrow> (bytes \<times> bytes list) list" where
  "si_spec i = sticky_spec (si_discard i) (si_header i @ concat (si_stamps i)) (si_subs i)"

definition si_insert :: "sticky_input \<Rightarrow> lmd_sticky_store \<Rightarrow> (unit, lmd_sticky_store) result" where
  "si_insert i = sticky_insert (si_event i) (si_discard i)"

interpretation sticky: event_store store_inv store_view "\<lambda>st. length (ss_data st)" si_insert si_spec si_fits "\<lambda>i. length (si_bytes i)" "2 ^ 64"
proof unfold_locales
  fix st i assume a: "store_inv st" "si_fits i" "length (ss_data st) + length (si_bytes i) < 2 ^ 64"
  show "\<exists>st'. si_insert i st = (Inr (), st') \<and> store_inv st' \<and> store_view st' = si_spec i (store_view st) \<and>
      length (ss_data st') \<le> length (ss_data st) + length (si_bytes i)"
    using insert_event_spec [OF a(1), of "si_event i" "si_header i" "si_stamps i" "si_subs i" "si_discard i"] a(2,3)
    unfolding si_insert_def si_fits_def si_spec_def si_bytes_def by blast
qed

lemma store_inv_new: "store_inv sticky_store_new" "store_view sticky_store_new = []"
proof -
  have "store_upto 0 sticky_store_new []"
    by (simp add: store_upto_def shape_def hash_inv_def hash_room_def entries_upto_def finds_def occupied_def sticky_store_new_def)
  then show "store_inv sticky_store_new" unfolding store_inv_def by (auto simp: sticky_store_new_def intro!: exI [of _ "[]"])
  show "store_view sticky_store_new = []" by (simp add: store_view_def sticky_store_new_def groups_view_def live_groups_def)
qed

text \<open>The subevents held for one identifier.\<close>

definition held :: "u32 \<times> u32 \<Rightarrow> (bytes \<times> bytes list) list \<Rightarrow> bytes list" where
  "held sid v = filter (\<lambda>b. bid b = sid) (concat (map snd v))"

lemma held_strip: "held sid (strip ids v) = (if sid \<in> ids then [] else held sid v)"
proof (induction v)
  case (Cons x v)
  obtain f bs where x: "x = (f, bs)" by (cases x)
  have "filter (\<lambda>b. bid b = sid) (filter (\<lambda>b. bid b \<notin> ids) bs) = (if sid \<in> ids then [] else filter (\<lambda>b. bid b = sid) bs)"
    by (induction bs) auto
  moreover have "held sid (strip ids (x # v)) = filter (\<lambda>b. bid b = sid) (filter (\<lambda>b. bid b \<notin> ids) bs) @ held sid (strip ids v)"
    by (auto simp: x held_def filter_empty_conv)
  ultimately show ?case using Cons x by (simp add: held_def del: strip_simps filter_filter)
qed (simp add: held_def)

lemma latest_other: "sid \<notin> bid ` set bs \<Longrightarrow> filter (\<lambda>b. bid b = sid) (latest discard bs) = []"
  by (induction bs) auto

lemma latest_last:
  assumes "subs = pre @ b # post" and "bid b \<notin> bid ` set post"
  shows "filter (\<lambda>b'. bid b' = bid b) (latest discard subs) = (if keeps discard b then [b] else [])"
  unfolding assms(1) using assms(2) latest_other [of "bid b" post discard] by (induction pre) auto

lemma held_spec:
  "held sid (sticky_spec discard front subs v) =
     (if sid \<in> bid ` set subs then filter (\<lambda>b. bid b = sid) (latest discard subs) else held sid v)"
  using latest_other [of sid subs discard] by (auto simp: sticky_spec_def held_def [of sid "_ @ _"] held_strip [unfolded held_def] held_def)

section \<open>Examples\<close>

definition sticky_sub_example :: "u32 \<Rightarrow> u32 \<Rightarrow> bytes \<Rightarrow> bytes" where
  "sticky_sub_example dlen ctrl d = mem [dlen, 0x00020001, ctrl] @ d"

definition sticky_input_example :: "bool \<Rightarrow> bytes list \<Rightarrow> sticky_input" where
  "sticky_input_example discard subs =
     (let n = 8 + length (concat subs);
          header = \<lparr>eh_dlen = of_nat (n div 2), eh_type = 0x4b59, eh_subtype = 0x5354\<rparr>
      in \<lparr>si_discard = discard,
          si_event = \<lparr>eo_header = header, eo_info = event_info_of_words [0, 1],
                      eo_chunks = Info_chunk # map (\<lambda>b. Data_chunk b False) subs\<rparr>,
          si_header = mem (words_of_event_header header @ [0, 1]), si_stamps = [], si_subs = subs\<rparr>)"

text \<open>Two subevents, then a new value of the first and the revocation of the second.\<close>

definition sticky_first_example :: "bytes list" where
  "sticky_first_example = [sticky_sub_example 4 1 [1, 2, 3, 4], sticky_sub_example 4 2 [5, 6, 7, 8]]"

definition sticky_next_example :: "bytes list" where
  "sticky_next_example = [sticky_sub_example 4 1 [9, 9, 9, 9], sticky_sub_example (- 1) 2 []]"

lemma slice_mem: "i < length ws \<Longrightarrow> slice (4 * i) 4 (mem ws @ d) = bytes32 (ws ! i)"
proof (induction ws arbitrary: i)
  case (Cons w ws)
  then show ?case by (cases i) (auto simp: mem_def slice_def)
qed simp

lemma words32_single: "words32 (bytes32 w) = [w]"
  using words32_bytes32 [of w "[]"] by simp

lemma sub_word_mem: "i < length ws \<Longrightarrow> sub_word i 0 (mem ws @ d) = ws ! i" "i < length ws \<Longrightarrow> sub_word i 0 (mem ws) = ws ! i"
  using slice_mem [of i ws d] slice_mem [of i ws "[]"] by (simp_all add: sub_word_def words32_single)

lemma length_mem4: "length (mem ws) = 4 * length ws"
  by (induction ws) (auto simp: mem_def)

lemma sub_example_block:
  "sub_block (sticky_sub_example 4 c [a1, a2, a3, a4])" "\<not> is_sticky_tstamp 0 (sticky_sub_example 4 c [a1, a2, a3, a4])"
  "sub_block (sticky_sub_example (- 1) c [])" "\<not> is_sticky_tstamp 0 (sticky_sub_example (- 1) c [])"
  "length (sticky_sub_example 4 c [a1, a2, a3, a4]) = 16" "length (sticky_sub_example (- 1) c []) = 12"
  by (simp_all add: sub_block_def sticky_sub_example_def sub_word_mem length_mem4 sticky_sub_size_def lo16_def
      SUBEVENT_DATA_LENGTH_FROM_DLEN_def LMD_SUBEVENT_STICKY_DLEN_REVOKE_def sub64_def wrap64_def is_sticky_tstamp_def)

lemma mem_Cons: "mem (w # ws) = bytes32 w @ mem ws" "mem [] = []"
  by (simp_all add: mem_def)

lemma sticky_example_fits:
  "si_fits (sticky_input_example True sticky_first_example)" "si_fits (sticky_input_example True sticky_next_example)"
  "length (si_bytes (sticky_input_example True sticky_first_example)) = 48" "length (si_bytes (sticky_input_example True sticky_next_example)) = 44"
  by (simp_all add: si_fits_def sticky_event_def sub_example_block sticky_input_example_def sticky_first_example_def sticky_next_example_def Let_def
    si_bytes_def event_out_write_def copy_bytes_def length_mem4 words_of_event_header_def DLEN_FROM_EVENT_DATA_LENGTH_def
    check_sticky_header_def mem_Cons words32_single is_event_sticky_def event_header_of_words_def words_of_event_info_def event_info_of_words_def)

text \<open>C15. inserting a well-formed sticky event into a store in good order succeeds, leaves it in good
  order, and its contents become those of the specification: subevents with the identifiers of
  new ones go away, events without subevents go away, and the new event is last, with the last
  subevent of each identifier (a revocation counts unless it is to be discarded).
\<close>

theorem sticky_insert_refines:
  assumes "store_inv st" and "event_out_write ev = Inr (header @ concat (stamps @ subs))" and "sticky_event header stamps subs"
    and "length (ss_data st) + length (header @ concat (stamps @ subs)) < 2 ^ 64"
  shows "\<exists>st'. sticky_insert ev discard st = (Inr (), st') \<and> store_inv st' \<and>
           store_view st' = sticky_spec discard (header @ concat stamps) subs (store_view st)"
  using insert_event_spec [OF assms, of discard] by blast

theorem sticky_insert_refines_witness:
  "\<exists>st'. sticky_insert (si_event (sticky_input_example True sticky_first_example)) True sticky_store_new = (Inr (), st') \<and> store_inv st' \<and>
     store_view st' = sticky_spec True (si_header (sticky_input_example True sticky_first_example)) sticky_first_example []"
  using sticky_insert_refines [of sticky_store_new "si_event (sticky_input_example True sticky_first_example)"
      "si_header (sticky_input_example True sticky_first_example)" "[]" sticky_first_example True]
    sticky_example_fits(1,3) store_inv_new
  by (simp add: si_fits_def si_bytes_def sticky_input_example_def Let_def sticky_store_new_def)

text \<open>C16. from the empty store, every sequence of well-formed events goes in, and the contents are the specification's.\<close>

theorem sticky_history:
  assumes "list_all si_fits inputs" and "sum_list (map (\<lambda>i. length (si_bytes i)) inputs) < 2 ^ 64"
  shows "\<exists>st. each (\<lambda>i. sticky_insert (si_event i) (si_discard i)) inputs sticky_store_new = (Inr (), st) \<and> store_inv st \<and>
           store_view st = fold (\<lambda>i. sticky_spec (si_discard i) (si_header i @ concat (si_stamps i)) (si_subs i)) inputs []"
  using sticky.history [of sticky_store_new inputs] assms store_inv_new
  by (simp add: si_insert_def [abs_def] si_spec_def [abs_def] sticky_store_new_def)

theorem sticky_history_witness:
  "\<exists>st. each (\<lambda>i. sticky_insert (si_event i) (si_discard i))
       [sticky_input_example True sticky_first_example, sticky_input_example True sticky_next_example] sticky_store_new = (Inr (), st) \<and>
     store_inv st \<and>
     store_view st = fold (\<lambda>i. sticky_spec (si_discard i) (si_header i @ concat (si_stamps i)) (si_subs i))
       [sticky_input_example True sticky_first_example, sticky_input_example True sticky_next_example] []"
  by (rule sticky_history) (simp_all add: sticky_example_fits)

text \<open>C17. for each identifier the store holds what the last event said: the last subevent with it, when it is kept; otherwise what was there.\<close>

theorem sticky_last_wins:
  assumes "store_inv st" and "event_out_write ev = Inr (header @ concat (stamps @ subs))" and "sticky_event header stamps subs"
    and "length (ss_data st) + length (header @ concat (stamps @ subs)) < 2 ^ 64"
  shows "\<exists>st'. sticky_insert ev discard st = (Inr (), st') \<and>
           (\<forall>sid. sid \<notin> bid ` set subs \<longrightarrow> held sid (store_view st') = held sid (store_view st)) \<and>
           (\<forall>pre b post. subs = pre @ b # post \<and> bid b \<notin> bid ` set post \<longrightarrow>
              held (bid b) (store_view st') = (if keeps discard b then [b] else []))"
proof -
  from insert_event_spec [OF assms, of discard] obtain st' where
    "sticky_insert ev discard st = (Inr (), st')" "store_view st' = sticky_spec discard (header @ concat stamps) subs (store_view st)" by blast
  then show ?thesis using latest_last [of subs _ _ _ discard] by (intro exI [of _ st']) (auto simp: held_spec)
qed

theorem sticky_last_wins_witness:
  "\<exists>st'. sticky_insert (si_event (sticky_input_example True sticky_next_example)) True sticky_store_new = (Inr (), st') \<and>
     (\<forall>sid. sid \<notin> bid ` set sticky_next_example \<longrightarrow> held sid (store_view st') = []) \<and>
     (\<forall>pre b post. sticky_next_example = pre @ b # post \<and> bid b \<notin> bid ` set post \<longrightarrow>
        held (bid b) (store_view st') = (if keeps True b then [b] else []))"
  using sticky_last_wins [of sticky_store_new "si_event (sticky_input_example True sticky_next_example)"
      "si_header (sticky_input_example True sticky_next_example)" "[]" sticky_next_example True]
    sticky_example_fits(2,4) store_inv_new
  by (simp add: si_fits_def si_bytes_def sticky_input_example_def Let_def sticky_store_new_def held_def)

text \<open>Events of one chunk: of a wrong type, with four bytes after the last subevent, and with a subevent that states too much data.\<close>

definition refused_example :: "u16 \<Rightarrow> u32 list \<Rightarrow> lmd_event_out" where
  "refused_example ty ws =
     \<lparr>eo_header = \<lparr>eh_dlen = 0, eh_type = ty, eh_subtype = 0x5354\<rparr>, eo_info = event_info_of_words [0, 1],
      eo_chunks = [Info_chunk, Data_chunk (mem ws) False]\<rparr>"

lemma refused_example_write:
  "length ws < 100 \<Longrightarrow> event_out_write (refused_example ty ws) = Inr (mem ([of_nat (4 + 2 * length ws), join16 ty 0x5354, 0, 1] @ ws))"
  by (simp add: event_out_write_def refused_example_def copy_bytes_def mem_Cons words_of_event_header_def words_of_event_info_def
      event_info_of_words_def DLEN_FROM_EVENT_DATA_LENGTH_def)

lemma refused_example_header:
  assumes "length ws < 100"
  shows "check_sticky_header (mem ([of_nat (4 + 2 * length ws), join16 0x4b59 0x5354, 0, 1] @ ws)) = Inr ()"
proof -
  have "unat (of_nat (4 + 2 * length ws) :: u32) = 4 + 2 * length ws" by (subst unat_of_nat) (use assms in simp)
  then show ?thesis by (simp add: check_sticky_header_def mem_Cons words32_single event_header_of_words_def is_event_sticky_def del: of_nat_add of_nat_mult)
qed

theorem sticky_insert_refuses_witness:
  "(\<exists>st'. sticky_insert (refused_example 10 []) True sticky_store_new = (Inl (Err ''Trying to store sticky event with wrong type''), st') \<and>
     store_inv st' \<and> store_view st' = []) \<and>
   (\<exists>st'. sticky_insert (refused_example 0x4b59 [7]) True sticky_store_new =
        (Inl (Err ''Trying to store sticky event with subevent header overflowing event''), st') \<and> store_inv st' \<and> store_view st' = []) \<and>
   fst (sticky_insert (refused_example 0x4b59 [100, join16 20 2, 3]) True sticky_store_new) = Inl (Assert ''false'')"
proof -
  let ?raw = "\<lambda>ty ws. mem ([of_nat (4 + 2 * length ws), join16 ty 0x5354, 0, 1] @ ws) :: bytes"
  have "sticky_refused (?raw 10 []) ''Trying to store sticky event with wrong type''"
    by (rule sticky_refused.wrong_type) (simp_all add: mem_Cons words32_single event_header_of_words_def is_event_sticky_def)
  moreover have "sticky_upto [] [] (mem [7]) (?raw 0x4b59 [7])" "sticky_upto [] [] (mem [100, join16 20 2, 3]) (?raw 0x4b59 [100, join16 20 2, 3])"
    using refused_example_header [of "[7]"] refused_example_header [of "[100, join16 20 2, 3]"] by (simp_all add: sticky_upto_def mem_Cons)
  moreover have "mem [7] \<noteq> []" "length (mem [7]) < 12" by (simp_all add: mem_Cons bytes32_def)
  moreover have "12 \<le> length (mem [100, join16 20 2, 3])" "length (mem [100, join16 20 2, 3]) < sticky_sub_size (sub_word 0 0 (mem [100, join16 20 2, 3]))"
    by (simp_all add: sticky_sub_size_def sub_word_def slice_def mem_Cons words32_single LMD_SUBEVENT_STICKY_DLEN_REVOKE_def
        SUBEVENT_DATA_LENGTH_FROM_DLEN_def sub64_def wrap64_def)
  ultimately have "sticky_refused (?raw 10 []) ''Trying to store sticky event with wrong type''"
    "sticky_refused (?raw 0x4b59 [7]) ''Trying to store sticky event with subevent header overflowing event''"
    "sticky_overflows (?raw 0x4b59 [100, join16 20 2, 3])"
    unfolding sticky_overflows_def by (blast intro: sticky_refused.cut_header)+
  then show ?thesis
    using sticky_insert_refuses [where discard = True, OF store_inv_new(1) refused_example_write [where ws = "[]" and ty = "10"]]
      sticky_insert_refuses [where discard = True, OF store_inv_new(1) refused_example_write [where ws = "[7]" and ty = "0x4b59"]]
      sticky_insert_refuses [where discard = True, OF store_inv_new(1) refused_example_write [where ws = "[100, join16 20 2, 3]" and ty = "0x4b59"]] store_inv_new
    by simp
qed

lemma sticky_example_store:
  "\<exists>st. sticky_insert (si_event (sticky_input_example True sticky_first_example)) True sticky_store_new = (Inr (), st) \<and> store_inv st"
proof -
  have "list_all si_fits [sticky_input_example True sticky_first_example]"
    "length (ss_data sticky_store_new) + sum_list (map (\<lambda>i. length (si_bytes i)) [sticky_input_example True sticky_first_example]) < 2 ^ 64"
    using sticky_example_fits by (simp_all add: sticky_store_new_def)
  from sticky.history [OF store_inv_new(1) this] show ?thesis
    by (auto simp: si_insert_def sticky_input_example_def Let_def andthen_def split: prod.splits sum.splits)
qed

theorem sticky_write_events_delivers_witness:
  "\<exists>st evs. sticky_insert (si_event (sticky_input_example True sticky_first_example)) True sticky_store_new = (Inr (), st) \<and>
     sticky_write_events st = Inr evs \<and> list_all2 (\<lambda>ev v. event_out_write ev = Inr (replay_bytes v)) evs (store_view st)"
  using sticky_example_store sticky_write_events_delivers by blast

text \<open>C21. compacting changes neither the contents nor the order of a store, and never lengthens the data.\<close>

theorem compact_data_keeps:
  assumes "store_inv st"
  shows "\<exists>st'. compact_data st = (Inr (), st') \<and> store_inv st' \<and> store_view st' = store_view st \<and> length (ss_data st') \<le> length (ss_data st)"
proof -
  from assms obtain gs where s: "shape (length (ss_data st)) st gs" "hash_inv (length (flat gs)) st" "hash_room 0 st"
    "ss_hash st \<noteq> [] \<longrightarrow> 16 \<le> length (ss_hash st)" by (auto simp: store_inv_def store_upto_def)
  from compact_data_spec [OF s(1,2)] obtain gs' data' where
    c: "compact_data st = (Inr (), st\<lparr>ss_meta := flat gs', ss_data := data', ss_data_revoked := 0\<rparr>)"
      "shape (length data') (st\<lparr>ss_meta := flat gs', ss_data := data', ss_data_revoked := 0\<rparr>) gs'" "length data' \<le> length (ss_data st)"
      "hash_inv (length (flat gs')) (st\<lparr>ss_meta := flat gs', ss_data := data', ss_data_revoked := 0\<rparr>)"
      "groups_view data' gs' = groups_view (ss_data st) gs" by blast
  let ?st = "st\<lparr>ss_meta := flat gs', ss_data := data', ss_data_revoked := 0\<rparr>"
  have "store_inv ?st" unfolding store_inv_def store_upto_def using c(2,4) s(3,4) by (intro exI [of _ gs']) (simp add: hash_room_def)
  then show ?thesis using c store_view_shape [OF c(2)] store_view_shape [OF s(1)] by simp
qed

theorem compact_data_keeps_witness:
  "\<exists>st st'. sticky_insert (si_event (sticky_input_example True sticky_first_example)) True sticky_store_new = (Inr (), st) \<and>
     compact_data st = (Inr (), st') \<and> store_inv st' \<and> store_view st' = store_view st \<and> length (ss_data st') \<le> length (ss_data st)"
  using sticky_example_store compact_data_keeps by blast

lemma view_subs:
  "groups_ok 0 i gs \<Longrightarrow> concat (map snd (groups_view data gs)) = map (sub_bytes data) (live_of gs)"
proof (induction gs arbitrary: i)
  case (Cons g gs)
  obtain e ss where g: "g = (e, ss)" by (cases g)
  have IH: "concat (map snd (groups_view data gs)) = map (sub_bytes data) (live_of gs)" using Cons.IH Cons.prems by auto
  have "me_live e = 0 \<Longrightarrow> filter sub_live ss = []" using Cons.prems g by (auto simp: group_ok_def split: if_splits)
  then show ?case using IH g by (auto simp: groups_view_def live_groups_def group_view_def group_subs_def)
qed (simp add: groups_view_def live_groups_def)

lemma held_live:
  assumes "groups_ok 0 i gs" and "ordered lo (regions gs) (length data)"
  shows "held sid (groups_view data gs) = map (sub_bytes data) (filter (\<lambda>s. meta_id data s = sid) (live_of gs))"
proof -
  have "bid (sub_bytes data s) = meta_id data s" if "s \<in> set (live_of gs)" for s
    using that live_bid [OF assms le_refl] by (auto simp: live_of_def)
  then have "filter ((\<lambda>b. bid b = sid) \<circ> sub_bytes data) (live_of gs) = filter (\<lambda>s. meta_id data s = sid) (live_of gs)"
    by (intro filter_cong) auto
  then show ?thesis unfolding held_def view_subs [OF assms(1)] by (simp add: filter_map)
qed

lemma filter_distinct_key: "distinct (map f xs) \<Longrightarrow> x \<in> set xs \<Longrightarrow> filter (\<lambda>y. f y = f x) xs = [x]"
proof (induction xs)
  case (Cons a xs)
  then show ?case by (cases "a = x") (auto simp: filter_empty_conv intro: rev_image_eqI)
qed simp

text \<open>C19. looking for a subevent in the hash table ends, and it finds the live subevent with the identifier when there is one.\<close>

theorem sticky_lookup_ends:
  assumes "store_inv st" and "ss_hash st \<noteq> []"
  shows "\<exists>r. find_entry (length (ss_hash st)) off st (first_entry (sticky_subevent_hash off (ss_data st)) (ss_hash st)) = Inr r \<and>
           (case r of None \<Rightarrow> held (data_id (ss_data st) off) (store_view st) = []
            | Some entry \<Rightarrow> \<exists>s. meta_sub_at (ss_hash st ! entry) (ss_meta st) = Some s \<and>
                held (data_id (ss_data st) off) (store_view st) = [sub_bytes (ss_data st) s])"
proof -
  let ?t = "ss_hash st" and ?sid = "data_id (ss_data st) off" and ?D = "ss_data st"
  from assms(1) obtain gs where s: "shape (length ?D) st gs" "hash_inv (length (flat gs)) st" "hash_room 0 st"
    by (auto simp: store_inv_def store_upto_def)
  have m: "ss_meta st = flat gs" "groups_ok 0 0 gs" "ordered 0 (regions gs) (length ?D)" "distinct (map (meta_id ?D) (live_of gs))"
    using s(1) by (simp_all add: shape_def)
  have v: "store_view st = groups_view ?D gs" by (rule store_view_shape [OF s(1)])
  have up: "entries_upto (length (flat gs)) ?t (ss_meta st)" and fi: "finds (length (flat gs)) ?t ?D (ss_meta st)"
    and "occupied ?t \<le> ss_hash_used st" and ts: "table_size ?t" using s(2) assms(2) by (simp_all add: hash_inv_def)
  then have "occupied ?t < length ?t" using s(3) assms(2) by (cases ?t) (auto simp: hash_room_def)
  then have "\<exists>e<length ?t. ?t ! e = 0" by (rule empty_slot)
  then obtain e0 where e0: "e0 < length ?t" "?t ! e0 = 0" by blast
  let ?s = "slot (sticky_subevent_hash off ?D) ?t"
  from find_entry_first [OF ts entries_upto_ok [OF up] e0, of off "sticky_subevent_hash off ?D"] obtain d where
    d: "find_entry (length ?t) off st (first_entry (sticky_subevent_hash off ?D) ?t) = Inr (if ?t ! ?s d = 0 then None else Some (?s d))"
      "?t ! ?s d = 0 \<or> same_sub off st (?t ! ?s d)" "\<forall>i<d. ?t ! ?s i \<noteq> 0 \<and> \<not> same_sub off st (?t ! ?s i)" by blast
  show ?thesis
  proof (cases "?t ! ?s d = 0")
    case True
    have "\<forall>s \<in> set (live_of gs). meta_id ?D s \<noteq> ?sid" by (rule unfound [OF _ fi refl refl d(3) True, of "[]"]) (simp add: m)
    then have "held ?sid (store_view st) = []" unfolding v held_live [OF m(2,3)] by simp
    then show ?thesis using d(1) True by simp
  next
    case False
    have "?t ! ?s d \<in> set ?t" using slot_less [OF ts] by simp
    from same_sub_index [OF up this _ False] d(2) False obtain i s where
      i: "?t ! ?s d = int (24 * i)" "i < length (flat gs)" "ss_meta st ! i = Meta_Sub s" "sub_live s" "?sid = meta_id ?D s" by blast
    note i = i(1,2) i(3) [unfolded m(1)] i(4,5)
    from flat_subD [OF i(2,3)] i(4) have mem: "s \<in> set (live_of gs)" by (auto simp: live_of_def)
    have "held ?sid (store_view st) = [sub_bytes ?D s]"
      unfolding v held_live [OF m(2,3)] i(5) filter_distinct_key [OF m(4) mem] by simp
    moreover have "meta_sub_at (?t ! ?s d) (ss_meta st) = Some s" unfolding meta_sub_at_index using i m(1) by auto
    ultimately show ?thesis using d(1) False by auto
  qed
qed

lemma live_hash:
  assumes "store_inv st" and "store_view st \<noteq> []"
  shows "ss_hash st \<noteq> []"
proof
  assume "ss_hash st = []"
  from assms(1) obtain gs where s: "shape (length (ss_data st)) st gs" "hash_inv (length (flat gs)) st" "hash_room 0 st"
    by (auto simp: store_inv_def store_upto_def)
  then have "live_of gs = []" using live_count [OF s(2), of "[]"] \<open>ss_hash st = []\<close> by (simp add: shape_def hash_room_def)
  moreover have ok: "groups_ok 0 0 gs" using s(1) by (simp add: shape_def)
  ultimately have "concat (map snd (groups_view (ss_data st) gs)) = []" using view_subs [OF ok, of "ss_data st"] by simp
  then show False using assms(2) groups_view_nonempty [OF ok, of "ss_data st"] store_view_shape [OF s(1)] by (fastforce simp: concat_eq_Nil_conv neq_Nil_conv)
qed

theorem sticky_lookup_ends_witness:
  "\<exists>st r. sticky_insert (si_event (sticky_input_example True sticky_first_example)) True sticky_store_new = (Inr (), st) \<and>
     find_entry (length (ss_hash st)) 16 st (first_entry (sticky_subevent_hash 16 (ss_data st)) (ss_hash st)) = Inr r"
proof -
  obtain st where st: "sticky_insert (si_event (sticky_input_example True sticky_first_example)) True sticky_store_new = (Inr (), st)"
      "store_inv st" "store_view st = sticky_spec True (si_header (sticky_input_example True sticky_first_example)) sticky_first_example []"
    using insert_event_spec [of sticky_store_new "si_event (sticky_input_example True sticky_first_example)"
      "si_header (sticky_input_example True sticky_first_example)" "[]" sticky_first_example True]
      sticky_example_fits(1,3) store_inv_new
    by (auto simp add: si_fits_def si_bytes_def sticky_input_example_def Let_def sticky_store_new_def)
  have "store_view st \<noteq> []" unfolding st(3)
    by (simp add: sticky_spec_def sticky_first_example_def keeps_def sticky_sub_example_def sub_word_mem LMD_SUBEVENT_STICKY_DLEN_REVOKE_def)
  from sticky_lookup_ends [OF st(2) live_hash [OF st(2) this], of 16] st(1) show ?thesis by blast
qed
end
