(* ===== verification/Limit_File_Size.thy ===== *)
theory Limit_File_Size
  imports Prelude
begin

text \<open>
  \<^verbatim>\<open>file_input/limit_file_size.hh\<close> and \<^verbatim>\<open>limit_file_size.cc\<close>: limits on the size and the number of
  events of an output file, and the names of the numbered files that follow each other. A
  number in the name that was given is the number of the first file.
\<close>

section \<open>Strings\<close>

text \<open>
  C strings without their terminating zero; a pointer into a string is an index. \<^verbatim>\<open>strrchr\<close> and
  \<^verbatim>\<open>strstr\<close> start at an index and return one.
\<close>

definition strrchr :: "nat \<Rightarrow> char \<Rightarrow> string \<Rightarrow> nat option" where
  "strrchr from c s =
     (case filter (\<lambda>i. s ! i = c) [from..<length s] of [] \<Rightarrow> None | is \<Rightarrow> Some (last is))"

definition strstr :: "nat \<Rightarrow> string \<Rightarrow> string \<Rightarrow> nat option" where
  "strstr from sub s = find (\<lambda>i. take (length sub) (drop i s) = sub) [from..<length s]"

definition isdigit :: "char \<Rightarrow> bool" where
  "isdigit c \<longleftrightarrow> of_char c \<in> {48 :: nat..57}"

definition digit_value :: "char \<Rightarrow> nat" where
  "digit_value c = of_char c - 48"

definition number_of_digits :: "string \<Rightarrow> nat" where
  "number_of_digits s = foldl (\<lambda>n c. 10 * n + digit_value c) 0 s"

text \<open>\<^verbatim>\<open>atoi\<close>: the digits at the begin; a value outside \<^verbatim>\<open>int\<close> is undefined.\<close>

definition atoi :: "string \<Rightarrow> cxx_error + nat" where
  "atoi s = (let n = number_of_digits (takeWhile isdigit s)
             in if n \<ge> 2 ^ 31 then Inl (Undef ''atoi out of range'') else Inr n)"

text \<open>
  \<^verbatim>\<open>sprintf (filename, base, len, no)\<close>, for the conversions that the code can produce. A second
  conversion has no argument, and a percent sign of the name itself starts a conversion:
  both are undefined.
\<close>

definition digit_char :: "nat \<Rightarrow> char" where
  "digit_char d = char_of (48 + d)"

function decimal :: "nat \<Rightarrow> string" where
  "decimal n = (if n < 10 then [digit_char n] else decimal (n div 10) @ [digit_char (n mod 10)])"
  by pat_completeness auto

termination decimal
  by (relation "measure id") auto

declare decimal.simps [simp del]

definition zero_padded :: "nat \<Rightarrow> nat \<Rightarrow> string" where
  "zero_padded width no = (let ds = decimal no in replicate (width - length ds) (CHR ''0'') @ ds)"

fun sprintf :: "string \<Rightarrow> (nat \<times> nat) option \<Rightarrow> cxx_error + string" where
  "sprintf [] args = Inr []"
| "sprintf (c # s) args =
     (if c \<noteq> CHR ''%'' then case sprintf s args of Inl e \<Rightarrow> Inl e | Inr r \<Rightarrow> Inr (c # r)
      else case s of
          [] \<Rightarrow> Inl (Undef ''incomplete conversion'')
        | d # s' \<Rightarrow>
            if d = CHR ''%'' then case sprintf s' args of Inl e \<Rightarrow> Inl e | Inr r \<Rightarrow> Inr (d # r)
            else if take 3 s = ''0*d'' then
              (case args of
                 None \<Rightarrow> Inl (Undef ''conversion without argument'')
               | Some (len, no) \<Rightarrow>
                   (case sprintf (drop 3 s) None of Inl e \<Rightarrow> Inl e | Inr r \<Rightarrow> Inr (zero_padded len no @ r)))
            else Inl (Undef ''conversion of another type''))"

section \<open>Limits of a file\<close>

text \<open>
  \<^verbatim>\<open>limit_file_size\<close>. The counters are kept at their width; the base of the names is \<open>None\<close> as
  long as no name was parsed.
\<close>

record limit_file_size =
  lf_cur_size :: nat
  lf_cur_events :: u32
  lf_limit_size :: nat
  lf_limit_events :: u32
  lf_filename_base :: "string option"
  lf_filename_no :: nat
  lf_filename_no_len :: nat
  lf_avoid_used_number :: bool
  lf_may_change_file :: bool

definition limit_file_size_new :: limit_file_size where
  "limit_file_size_new =
     \<lparr>lf_cur_size = 0, lf_cur_events = 0, lf_limit_size = 2 ^ 64 - 1, lf_limit_events = - 1,
      lf_filename_base = None, lf_filename_no = 0, lf_filename_no_len = 0,
      lf_avoid_used_number = False, lf_may_change_file = True\<rparr>"

definition add_size :: "nat \<Rightarrow> limit_file_size \<Rightarrow> limit_file_size" where
  "add_size n lf = lf\<lparr>lf_cur_size := wrap64 (lf_cur_size lf + n)\<rparr>"

definition add_events :: "u32 \<Rightarrow> limit_file_size \<Rightarrow> limit_file_size" where
  "add_events n lf = lf\<lparr>lf_cur_events := lf_cur_events lf + n\<rparr>"

text \<open>The place of the number in the name.\<close>

fun last_lmd :: "nat \<Rightarrow> nat \<Rightarrow> string \<Rightarrow> nat" where
  "last_lmd 0 i s = i"
| "last_lmd (Suc fuel) i s = (case strstr (i + 1) ''.lmd'' s of None \<Rightarrow> i | Some j \<Rightarrow> last_lmd fuel j s)"

fun digits_before :: "nat \<Rightarrow> nat \<Rightarrow> string \<Rightarrow> nat" where
  "digits_before lo 0 s = 0"
| "digits_before lo (Suc i) s = (if lo < Suc i \<and> isdigit (s ! i) then digits_before lo i s else Suc i)"

definition number_place :: "string \<Rightarrow> nat \<times> nat" where
  "number_place filename =
     (let last_slash = (case strrchr 0 (CHR ''/'') filename of None \<Rightarrow> 0 | Some i \<Rightarrow> i);
          dot = (case strrchr last_slash (CHR ''.'') filename of None \<Rightarrow> length filename | Some i \<Rightarrow> i);
          dot = (case strstr last_slash ''.lmd'' filename of None \<Rightarrow> dot | Some i \<Rightarrow> last_lmd (length filename) i filename)
      in (digits_before last_slash dot filename, dot))"

definition parse_filename :: "string \<Rightarrow> limit_file_size \<Rightarrow> (unit, limit_file_size) result" where
  "parse_filename filename lf =
     (let (digit, dot) = number_place filename;
          set_base = (\<lambda>format lf. lf\<lparr>lf_filename_base := Some (take digit filename @ format @ drop dot filename)\<rparr>)
      in if digit < length filename \<and> isdigit (filename ! digit) then
           case atoi (drop digit filename) of
             Inl e \<Rightarrow> (Inl e, lf)
           | Inr no \<Rightarrow> (Inr (), set_base ''%0*d'' (lf\<lparr>lf_filename_no_len := dot - digit, lf_filename_no := no\<rparr>))
         else
           let lf = lf\<lparr>lf_filename_no_len := 4, lf_filename_no := 1\<rparr> in
           if dot = 0 then (Inl (Undef ''dot[-1] before the string''), lf)
           else if filename ! (dot - 1) \<noteq> CHR ''_'' \<and> filename ! (dot - 1) \<noteq> CHR ''-''
           then (Inr (), set_base ''_%0*d'' lf)
           else (Inr (), set_base ''%0*d'' lf))"

text \<open>The name of the next file, in a buffer of 32 bytes more than the base; \<open>exists\<close> is \<^verbatim>\<open>stat\<close>.\<close>

definition format_filename :: "limit_file_size \<Rightarrow> cxx_error + string" where
  "format_filename lf =
     (case lf_filename_base lf of
        None \<Rightarrow> Inl (Undef ''strlen (NULL)'')
      | Some base \<Rightarrow>
          (case sprintf base (Some (lf_filename_no_len lf, lf_filename_no lf)) of
             Inl e \<Rightarrow> Inl e
           | Inr name \<Rightarrow>
               if length name + 1 > length base + 32 then Inl (Undef ''filename buffer overflow'') else Inr name))"

definition next_number :: "limit_file_size \<Rightarrow> cxx_error + limit_file_size" where
  "next_number lf =
     (if lf_filename_no lf + 1 \<ge> 2 ^ 31 then Inl (Undef ''signed overflow'')
      else Inr (lf\<lparr>lf_filename_no := lf_filename_no lf + 1\<rparr>))"

function choose_filename :: "(string \<Rightarrow> bool) \<Rightarrow> limit_file_size \<Rightarrow> (string, limit_file_size) result" where
  "choose_filename exists_file lf =
     (case format_filename lf of
        Inl e \<Rightarrow> (Inl e, lf)
      | Inr name \<Rightarrow>
          if \<not> lf_avoid_used_number lf \<or> \<not> exists_file name then (Inr name, lf)
          else case next_number lf of Inl e \<Rightarrow> (Inl e, lf) | Inr lf \<Rightarrow> choose_filename exists_file lf)"
  by pat_completeness auto

termination choose_filename
  by (relation "measure (\<lambda>(_, lf). 2 ^ 31 - lf_filename_no lf)") (auto simp: next_number_def split: if_splits)

declare choose_filename.simps [simp del]

section \<open>Numbers and their digits\<close>

lemma isdigit_char: "d < 10 \<Longrightarrow> isdigit (digit_char d)" "d < 10 \<Longrightarrow> digit_value (digit_char d) = d"
  by (simp_all add: isdigit_def digit_char_def digit_value_def)

lemma digit_char_value: "isdigit c \<Longrightarrow> digit_char (digit_value c) = c \<and> digit_value c < 10"
proof -
  assume "isdigit c"
  then have "48 + (of_char c - 48) = (of_char c :: nat)" "of_char c - 48 < (10 :: nat)" by (auto simp: isdigit_def)
  then show ?thesis by (simp add: digit_char_def digit_value_def)
qed

lemma number_snoc: "number_of_digits (ds @ [c]) = 10 * number_of_digits ds + digit_value c"
  by (simp add: number_of_digits_def)

lemma decimal_step: "0 < n \<Longrightarrow> d < 10 \<Longrightarrow> decimal (10 * n + d) = decimal n @ [digit_char d]"
  by (subst decimal.simps) simp

lemma decimal_small: "d < 10 \<Longrightarrow> decimal d = [digit_char d]"
  by (subst decimal.simps) simp

lemma decimal_digits: "list_all isdigit (decimal n) \<and> decimal n \<noteq> [] \<and> number_of_digits (decimal n) = n"
proof (induction n rule: decimal.induct)
  case (1 n)
  show ?case
  proof (cases "n < 10")
    case True
    then show ?thesis by (simp add: decimal_small isdigit_char number_of_digits_def)
  next
    case False
    then show ?thesis using 1 by (subst decimal.simps, subst (3) decimal.simps) (simp add: isdigit_char number_snoc decimal.simps [of n])
  qed
qed

lemma zero_padded_digits:
  assumes "list_all isdigit ds" and "ds \<noteq> []"
  shows "zero_padded (length ds) (number_of_digits ds) = ds"
proof -
  have "length (decimal (number_of_digits ds)) \<le> length ds \<and>
      replicate (length ds - length (decimal (number_of_digits ds))) (CHR ''0'') @ decimal (number_of_digits ds) = ds"
    using assms
  proof (induction ds rule: rev_induct)
    case (snoc c ds)
    let ?n = "number_of_digits ds"
    have c: "digit_char (digit_value c) = c" "digit_value c < 10" using snoc.prems(1) digit_char_value by auto
    show ?case
    proof (cases "ds = [] \<or> ?n = 0")
      case True
      then have n: "number_of_digits (ds @ [c]) = digit_value c" by (auto simp: number_snoc number_of_digits_def)
      have "ds = replicate (length ds) (CHR ''0'')"
      proof (cases "ds = []")
        case False
        then have "replicate (length ds - length (decimal 0)) (CHR ''0'') @ decimal 0 = ds" using snoc True by auto
        moreover have "digit_char 0 = CHR ''0''" by code_simp
        then have "decimal 0 = [CHR ''0'']" by (simp add: decimal_small)
        ultimately have "ds = replicate (Suc (length ds - 1)) (CHR ''0'')" by (simp add: replicate_append_same)
        then show ?thesis using False by simp
      qed simp
      then show ?thesis using n c by (simp add: decimal_small)
    next
      case False
      then have "decimal (number_of_digits (ds @ [c])) = decimal ?n @ [c]" using c by (simp add: number_snoc decimal_step)
      then show ?thesis using False snoc by auto
    qed
  qed simp
  then show ?thesis by (simp add: zero_padded_def Let_def)
qed

lemma zero_padded_inj: "zero_padded len n = zero_padded len m \<Longrightarrow> n = m"
proof -
  have "number_of_digits (replicate k (CHR ''0'') @ ds) = number_of_digits ds" for k ds
  proof (induction k)
    case (Suc k)
    have "digit_value (CHR ''0'') = 0" by code_simp
    then show ?case using Suc by (simp add: number_of_digits_def)
  qed simp
  then have "number_of_digits (zero_padded len n) = n" for n using decimal_digits by (simp add: zero_padded_def Let_def)
  then show "zero_padded len n = zero_padded len m \<Longrightarrow> n = m" by metis
qed

lemma length_zero_padded: "length (zero_padded len n) = max len (length (decimal n))"
  by (simp add: zero_padded_def Let_def)

section \<open>The place of the number\<close>

lemma digits_before_spec:
  "digits_before lo i s \<le> i \<and> (\<forall>k. digits_before lo i s \<le> k \<and> k < i \<longrightarrow> isdigit (s ! k))"
proof (induction i)
  case (Suc i)
  then show ?case by (auto simp: less_Suc_eq)
qed simp

lemma strrchr_at: "strrchr lo c s = Some i \<Longrightarrow> i < length s \<and> s ! i = c"
proof -
  assume a: "strrchr lo c s = Some i"
  then have "filter (\<lambda>i. s ! i = c) [lo..<length s] \<noteq> []" "i = last (filter (\<lambda>i. s ! i = c) [lo..<length s])"
    by (auto simp: strrchr_def split: list.splits)
  then have "i \<in> set (filter (\<lambda>i. s ! i = c) [lo..<length s])" using last_in_set by metis
  then show ?thesis by simp
qed

lemma strstr_at: "strstr lo (c # sub) s = Some i \<Longrightarrow> i < length s \<and> s ! i = c"
proof -
  assume "strstr lo (c # sub) s = Some i"
  then have "i < length s" "take (length (c # sub)) (drop i s) = c # sub"
    by (auto simp: strstr_def find_Some_iff)
  then show ?thesis by (cases "drop i s") (auto simp: hd_drop_conv_nth [symmetric])
qed

lemma last_lmd_at: "i < length s \<and> s ! i = CHR ''.'' \<Longrightarrow> last_lmd fuel i s < length s \<and> s ! last_lmd fuel i s = CHR ''.''"
proof (induction fuel arbitrary: i)
  case (Suc fuel)
  then show ?case using strstr_at [of "i + 1" "CHR ''.''" "''lmd''" s] by (auto split: option.splits)
qed simp

lemma number_place_dot:
  assumes "number_place filename = (digit, dot)"
  shows "dot = length filename \<or> dot < length filename \<and> filename ! dot = CHR ''.''" "digit \<le> dot"
    "list_all isdigit (slice digit (dot - digit) filename)"
proof -
  define slash where "slash = (case strrchr 0 (CHR ''/'') filename of None \<Rightarrow> 0 | Some i \<Rightarrow> i)"
  define dot1 where "dot1 = (case strrchr slash (CHR ''.'') filename of None \<Rightarrow> length filename | Some i \<Rightarrow> i)"
  have d: "dot = (case strstr slash ''.lmd'' filename of None \<Rightarrow> dot1 | Some i \<Rightarrow> last_lmd (length filename) i filename)"
    "digit = digits_before slash dot filename"
    using assms unfolding number_place_def Let_def slash_def [symmetric] dot1_def [symmetric] by auto
  have "dot1 = length filename \<or> dot1 < length filename \<and> filename ! dot1 = CHR ''.''"
    using strrchr_at [of slash "CHR ''.''" filename] by (auto simp: dot1_def split: option.splits)
  then show *: "dot = length filename \<or> dot < length filename \<and> filename ! dot = CHR ''.''"
    using d(1) strstr_at [of slash "CHR ''.''" "''lmd''" filename] last_lmd_at [of _ filename "length filename"]
    by (auto split: option.splits)
  show "digit \<le> dot" using d(2) digits_before_spec by simp
  have "isdigit (filename ! (digit + k))" if "k < dot - digit" for k
    using digits_before_spec [of slash dot filename] d(2) that by simp
  then show "list_all isdigit (slice digit (dot - digit) filename)"
    using * by (auto simp: list_all_length slice_def)
qed

section \<open>Names\<close>

lemma sprintf_plain: "CHR ''%'' \<notin> set s \<Longrightarrow> sprintf s args = Inr s"
  by (induction s) auto

lemma sprintf_prefix: "CHR ''%'' \<notin> set pre \<Longrightarrow> sprintf (pre @ s) args = (case sprintf s args of Inl e \<Rightarrow> Inl e | Inr r \<Rightarrow> Inr (pre @ r))"
  by (induction pre) (auto split: sum.splits)

lemma sprintf_number:
  assumes "CHR ''%'' \<notin> set pre" and "CHR ''%'' \<notin> set post"
  shows "sprintf (pre @ ''%0*d'' @ post) (Some (len, no)) = Inr (pre @ zero_padded len no @ post)"
  using sprintf_prefix [OF assms(1)] sprintf_plain [OF assms(2)] by simp


lemma slice_parts: "digit \<le> dot \<Longrightarrow> take digit s @ slice digit (dot - digit) s @ drop dot s = s"
  by (simp add: slice_def) (metis append_take_drop_id drop_drop le_add_diff_inverse2)

lemma parse_numbered:
  assumes "number_place filename = (digit, dot)" and "digit < dot"
    and "number_of_digits (slice digit (dot - digit) filename) < 2 ^ 31"
  shows "parse_filename filename lf =
           (Inr (), lf\<lparr>lf_filename_no_len := dot - digit, lf_filename_no := number_of_digits (slice digit (dot - digit) filename),
              lf_filename_base := Some (take digit filename @ ''%0*d'' @ drop dot filename)\<rparr>)"
    and "take digit filename @ zero_padded (dot - digit) (number_of_digits (slice digit (dot - digit) filename)) @ drop dot filename = filename"
    and "digit < length filename"
proof -
  let ?ds = "slice digit (dot - digit) filename"
  note p = number_place_dot [OF assms(1)]
  have len: "length ?ds = dot - digit" using p(1) by (auto simp: slice_def)
  have "\<not> isdigit (CHR ''.'')" by code_simp
  then have rest: "drop dot filename = [] \<or> \<not> isdigit (hd (drop dot filename))" using p(1) by (auto simp: hd_drop_conv_nth)
  have "drop digit filename = ?ds @ drop dot filename" using p(2) by (simp add: slice_def) (metis append_take_drop_id drop_drop le_add_diff_inverse2)
  then have "takeWhile isdigit (drop digit filename) = ?ds"
    using p(3) rest by (cases "drop dot filename") (auto simp: list_all_iff takeWhile_append)
  then have a: "atoi (drop digit filename) = Inr (number_of_digits ?ds)" using assms(3) by (simp add: atoi_def Let_def)
  show d: "digit < length filename" using assms(2) p(1) by auto
  have "isdigit (filename ! digit)" using assms(2) p(1) len p(3)
    by (auto simp: list_all_length slice_def dest: spec [of _ 0])
  then show "parse_filename filename lf =
           (Inr (), lf\<lparr>lf_filename_no_len := dot - digit, lf_filename_no := number_of_digits ?ds,
              lf_filename_base := Some (take digit filename @ ''%0*d'' @ drop dot filename)\<rparr>)"
    using assms(1) d a by (simp add: parse_filename_def Let_def)
  have "zero_padded (dot - digit) (number_of_digits ?ds) = ?ds" using zero_padded_digits [OF p(3)] len assms(2) by (metis length_0_conv zero_less_diff less_irrefl)
  then show "take digit filename @ zero_padded (dot - digit) (number_of_digits ?ds) @ drop dot filename = filename"
    using slice_parts [OF p(2), of filename] by simp
qed



end
