(* ===== verification/Lmd_Output.thy ===== *)
theory Lmd_Output
  imports Lmd_Sticky_Store Limit_File_Size
begin

text \<open>
  The LMD writer, \<^verbatim>\<open>file_input/lmd_output.cc\<close>: \<^verbatim>\<open>lmd_output_buffered\<close> puts events into
  buffers of fixed size, cutting an event into fragments where a buffer ends;
  \<^verbatim>\<open>lmd_output_file\<close> writes the buffers to a file. The virtual functions are those of
  \<^verbatim>\<open>lmd_output_file\<close>: there is no sticky replay at a new buffer and nothing to flush after an
  event.
\<close>

section \<open>Output buffers\<close>

text \<open>
  \<open>of_cur_buf\<close> are the bytes in the current buffer between its header and \<^verbatim>\<open>_cur_buf_ptr\<close>, or
  \<open>None\<close> while there is no buffer; \<open>of_file\<close> is the name of the open file, \<open>of_out\<close>
  what was written to it, \<open>of_files\<close> the files closed before, \<open>of_names\<close> the names opened; \<open>of_clock\<close> are the times that the clock will show; \<open>of_sticky\<close> the
  sticky store.
\<close>

record lmd_output_file =
  of_buffer_header :: s_bufhe
  of_cur_buf :: "bytes option"
  of_cur_buf_length :: nat
  of_cur_buf_left :: nat
  of_cur_buf_usable :: nat
  of_stream_left :: nat
  of_stream_left_max :: nat
  of_write_native :: bool
  of_compact_buffers :: bool
  of_buf_size :: nat
  of_file_header_extra :: s_filhe_extra
  of_has_file_header :: bool
  of_event_cut :: u32
  of_last_eventno :: u32
  of_limits :: limit_file_size
  of_total_written :: nat
  of_clock :: "(u32 \<times> u32) list"
  of_file :: "string option"
  of_names :: "string list"
  of_out :: bytes
  of_files :: "bytes list"
  of_sticky :: lmd_sticky_store

definition zero_bufhe :: s_bufhe where
  "zero_bufhe = bufhe_of_words (replicate 12 0)"

abbreviation (input) INT_MAX :: nat where "INT_MAX \<equiv> 2 ^ 31 - 1"

text \<open>
  The constructors. What they leave open (the buffer header apart from its number, the sizes
  written) is taken as zero.
\<close>

definition output_file_new :: "(u32 \<times> u32) list \<Rightarrow> lmd_output_file" where
  "output_file_new clock =
     \<lparr>of_buffer_header = zero_bufhe\<lparr>bh_buf := 1\<rparr>, of_cur_buf = None, of_cur_buf_length = 0,
      of_cur_buf_left = 0, of_cur_buf_usable = 0, of_stream_left = 0, of_stream_left_max = 0,
      of_write_native = True, of_compact_buffers = False, of_buf_size = 0x10000,
      of_file_header_extra = filhe_of_mem (replicate 2716 0), of_has_file_header = False,
      of_event_cut = 0, of_last_eventno = - 1, of_limits = limit_file_size_new,
      of_total_written = 0, of_clock = clock, of_file = None, of_names = [], of_out = [], of_files = [], of_sticky = sticky_store_new\<rparr>"

text \<open>A write fails when no file is open.\<close>

definition write_buffer :: "nat \<Rightarrow> bytes \<Rightarrow> lmd_output_file \<Rightarrow> (unit, lmd_output_file) result" where
  "write_buffer count buf w =
     (if of_file w = None then (Inl (Err ''Error writing file/pipe''), w)
      else (Inr (), w\<lparr>of_out := of_out w @ take count buf, of_limits := add_size count (of_limits w),
                      of_total_written := wrap64 (of_total_written w + count)\<rparr>))"

definition get_buffer :: "lmd_output_file \<Rightarrow> (unit, lmd_output_file) result" where
  "get_buffer w =
     (case of_cur_buf w of
        Some _ \<Rightarrow> (Inr (), w\<lparr>of_stream_left := INT_MAX, of_stream_left_max := INT_MAX\<rparr>)
      | None \<Rightarrow>
          let n = (if of_cur_buf_length w = 0 then of_buf_size w else of_cur_buf_length w);
              w = w\<lparr>of_cur_buf_length := n\<rparr>
          in if \<not> n > sizeof_s_bufhe then (Inl (Assert ''_cur_buf_length > sizeof (_buffer_header)''), w)
             else (Inr (), w\<lparr>of_cur_buf := Some [], of_stream_left := INT_MAX, of_stream_left_max := INT_MAX\<rparr>))"

definition mark_close_buffer :: "lmd_output_file \<Rightarrow> (unit, lmd_output_file) result" where
  "mark_close_buffer w =
     (if bh_evt (of_buffer_header w) \<noteq> 0 then (Inl (Assert ''_buffer_header.l_evt == 0''), w)
      else (Inr (), w\<lparr>of_buffer_header := (of_buffer_header w)\<lparr>bh_evt := - 1\<rparr>\<rparr>))"

definition send_buffer :: "nat \<Rightarrow> lmd_output_file \<Rightarrow> (unit, lmd_output_file) result" where
  "send_buffer lie w =
     (case of_cur_buf w of
        None \<Rightarrow> (Inr (), w)
      | Some data \<Rightarrow>
          let count = of_cur_buf_length w -
                (if of_compact_buffers w then of_cur_buf_left w div 1024 * 1024 else 0);
              h = (of_buffer_header w)\<lparr>bh_dlen := of_nat (DLEN_FROM_BUFFER_SIZE count)\<rparr>;
              used_size = sub64 (of_cur_buf_usable w) (of_cur_buf_left w);
              max_count = BUFFER_SIZE_FROM_DLEN LMD_BUF_HEADER_MAX_IUSED_DLEN;
              lying = (lie \<noteq> 0 \<and> count > max_count);
              used_size = (if lying then lie else used_size);
              count = (if lying then used_size + sizeof_s_bufhe else count)
          in if lying \<and> count > max_count then
               (Inl (Err ''Cannot reduce written buffer size to max dlen''), w\<lparr>of_buffer_header := h\<rparr>)
             else
               let h = h\<lparr>bh_free2 := of_nat (IUSED_FROM_BUFFER_USED used_size)\<rparr>;
                   h = (if count \<le> max_count then h\<lparr>bh_used := ucast (bh_free2 h)\<rparr> else h);
                   h = (if of_write_native w then h else byteswap_bufhe h);
                   buf = mem (words_of_bufhe h) @ data @ replicate (of_cur_buf_left w) 0
               in write_buffer count buf (w\<lparr>of_buffer_header := h\<rparr>))"

definition read_clock :: "lmd_output_file \<Rightarrow> (u32 \<times> u32) \<times> lmd_output_file" where
  "read_clock w =
     (case of_clock w of [] \<Rightarrow> ((0, 0), w) | t # ts \<Rightarrow> (t, w\<lparr>of_clock := ts\<rparr>))"

definition new_buffer :: "nat \<Rightarrow> lmd_output_file \<Rightarrow> (unit, lmd_output_file) result" where
  "new_buffer lie w =
     (let old_buffer_no = bh_buf (of_buffer_header w) in
      andthen (send_buffer lie w) (\<lambda>_ w.
      andthen (get_buffer w) (\<lambda>_ w.
        let left = of_cur_buf_length w - sizeof_s_bufhe;
            ((time0, time1), w) = read_clock w;
            h = zero_bufhe\<lparr>bh_buf := old_buffer_no + 1, bh_free0 := 1, bh_time0 := time0, bh_time1 := time1,
                           bh_type := 10, bh_subtype := 1\<rparr>
        in (Inr (), w\<lparr>of_cur_buf := Some [], of_cur_buf_left := left, of_buffer_header := h,
                      of_cur_buf_usable := left\<rparr>))))"

definition copy_to_buffer :: "bytes \<Rightarrow> bool \<Rightarrow> lmd_output_file \<Rightarrow> (unit, lmd_output_file) result" where
  "copy_to_buffer d swap_32 w =
     (if \<not> of_cur_buf_left w \<ge> length d then (Inl (Assert ''_cur_buf_left >= length''), w)
      else case copy_bytes d swap_32 of
          Inl e \<Rightarrow> (Inl e, w)
        | Inr d' \<Rightarrow>
            (case of_cur_buf w of
               None \<Rightarrow> (Inl (Undef ''no buffer''), w)
             | Some data \<Rightarrow>
                 (Inr (), w\<lparr>of_cur_buf := Some (data @ d'),
                            of_cur_buf_left := of_cur_buf_left w - length d,
                            of_stream_left := sub64 (of_stream_left w) (length d)\<rparr>)))"

section \<open>Writing an event\<close>

definition write_swap :: "lmd_output_file \<Rightarrow> buf_chunk_swap \<Rightarrow> bool" where
  "write_swap w c \<longleftrightarrow> \<not> (of_write_native w \<noteq> chunk_swapping c)"

definition write_event_header :: "lmd_event_header \<Rightarrow> nat \<Rightarrow> lmd_output_file \<Rightarrow> (unit, lmd_output_file) result" where
  "write_event_header header n w =
     (let header_write = header\<lparr>eh_dlen := of_nat (DLEN_FROM_EVENT_DATA_LENGTH n)\<rparr>
      in copy_to_buffer (mem (words_of_event_header header_write)) (\<not> of_write_native w) w)"

text \<open>The data of a fragment: chunks until the buffer is full. Returns what is left of the chunks.\<close>

fun fill_buffer ::
  "lmd_event_info \<Rightarrow> buf_chunk_swap list \<Rightarrow> nat \<Rightarrow> lmd_output_file \<Rightarrow>
   (buf_chunk_swap list \<times> nat, lmd_output_file) result" where
  "fill_buffer info [] offset_cur w = (Inl (Undef ''chunk after the last''), w)"
| "fill_buffer info (c # cs) offset_cur w =
     (let d = chunk_data info c; chunk_write = length d - offset_cur in
      if chunk_write > of_cur_buf_left w then
        let chunk_write = of_cur_buf_left w
        in andthen (copy_to_buffer (slice offset_cur chunk_write d) (write_swap w c) w)
             (\<lambda>_ w. (Inr (c # cs, offset_cur + chunk_write), w))
      else
        andthen (copy_to_buffer (drop offset_cur d) (write_swap w c) w)
          (\<lambda>_ w. fill_buffer info cs 0 w))"

definition note_event :: "lmd_event_header \<Rightarrow> lmd_output_file \<Rightarrow> (unit, lmd_output_file) result" where
  "note_event header w =
     (let h = of_buffer_header w;
          h = (if is_event_sticky header then h\<lparr>bh_type := 0x4b59, bh_subtype := 0x5354\<rparr> else h);
          w = w\<lparr>of_buffer_header := h\<rparr>
      in if bh_evt h = - 1 then (Inl (Assert ''_buffer_header.l_evt != (uint32_t) -1''), w)
         else (Inr (), w\<lparr>of_buffer_header := h\<lparr>bh_evt := bh_evt h + 1\<rparr>\<rparr>))"

text \<open>One fragment that fills the current buffer, and a new buffer for the continuation.\<close>

definition write_fragment ::
  "lmd_event_out \<Rightarrow> nat \<Rightarrow> nat \<Rightarrow> buf_chunk_swap list \<Rightarrow> nat \<Rightarrow> lmd_output_file \<Rightarrow>
   (buf_chunk_swap list \<times> nat, lmd_output_file) result" where
  "write_fragment event event_data_length event_size_write chunks offset_cur w =
     (let w = w\<lparr>of_buffer_header := (of_buffer_header w)
                 \<lparr>bh_free1 := of_nat (DLEN_FROM_EVENT_DATA_LENGTH event_data_length)\<rparr>\<rparr>
      in andthen (write_event_header (eo_header event) event_size_write w) (\<lambda>_ w.
         andthen (fill_buffer (eo_info event) chunks offset_cur w) (\<lambda>rest w.
         if of_cur_buf_left w \<noteq> 0 then (Inl (Assert ''_cur_buf_left == 0''), w)
         else andthen (note_event (eo_header event) w) (\<lambda>_ w.
         andthen (new_buffer 0 (w\<lparr>of_buffer_header := (of_buffer_header w)\<lparr>bh_begin := 1\<rparr>\<rparr>)) (\<lambda>_ w.
         (Inr rest, w\<lparr>of_buffer_header := (of_buffer_header w)\<lparr>bh_end := 1\<rparr>\<rparr>))))))"

function write_fragments ::
  "lmd_event_out \<Rightarrow> nat \<Rightarrow> nat \<Rightarrow> buf_chunk_swap list \<Rightarrow> nat \<Rightarrow> lmd_output_file \<Rightarrow>
   (nat \<times> buf_chunk_swap list \<times> nat, lmd_output_file) result" where
  "write_fragments event event_data_length event_size_left chunks offset_cur w =
     (if \<not> sizeof_event_header + event_size_left > of_cur_buf_left w
      then (Inr (event_size_left, chunks, offset_cur), w)
      else if \<not> of_cur_buf_left w > sizeof_event_header then
        (Inl (Assert ''_cur_buf_left > sizeof(lmd_event_header_host)''), w)
      else
        let event_size_write = of_cur_buf_left w - sizeof_event_header in
        if \<not> event_size_left > event_size_write then
          (Inl (Assert ''event_size_left > event_size_write''), w)
        else if odd event_size_write then (Inl (Assert ''(event_size_write & 1) == 0''), w)
        else
          case write_fragment event event_data_length event_size_write chunks offset_cur w of
            (Inl e, w) \<Rightarrow> (Inl e, w)
          | (Inr (chunks, offset_cur), w) \<Rightarrow>
              write_fragments event event_data_length (event_size_left - event_size_write) chunks offset_cur w)"
  by pat_completeness auto

termination write_fragments
  by (relation "measure (\<lambda>(_, _, n, _). n)") auto

declare write_fragments.simps [simp del]

fun write_rest ::
  "lmd_event_info \<Rightarrow> buf_chunk_swap list \<Rightarrow> nat \<Rightarrow> lmd_output_file \<Rightarrow> (unit, lmd_output_file) result" where
  "write_rest info [] offset_cur w = (Inr (), w)"
| "write_rest info (c # cs) offset_cur w =
     andthen (copy_to_buffer (drop offset_cur (chunk_data info c)) (write_swap w c) w)
       (\<lambda>_ w. write_rest info cs 0 w)"

text \<open>Space for at least a header and some data; then the rest of the event after the last cut.\<close>

definition write_space :: "lmd_output_file \<Rightarrow> (unit, lmd_output_file) result" where
  "write_space w = (if of_cur_buf_left w \<le> sizeof_event_10_1 then new_buffer 0 w else (Inr (), w))"

definition write_last ::
  "lmd_event_out \<Rightarrow> nat \<times> buf_chunk_swap list \<times> nat \<Rightarrow> lmd_output_file \<Rightarrow> (unit, lmd_output_file) result" where
  "write_last event = (\<lambda>(event_size_left, chunks, offset_cur) w.
     if odd event_size_left then (Inl (Assert ''!(event_size_left & 0x01)''), w)
     else andthen (write_event_header (eo_header event) event_size_left w) (\<lambda>_ w.
          andthen (write_rest (eo_info event) chunks offset_cur w) (\<lambda>_ w.
          note_event (eo_header event) w)))"

text \<open>
  The event after the sticky store has seen it. For a file the limit of a stream starts again
  with every buffer, so one new buffer is enough to have it all.
\<close>

definition write_event_data :: "lmd_event_out \<Rightarrow> lmd_output_file \<Rightarrow> (unit, lmd_output_file) result" where
  "write_event_data event w =
     (let event_data_length = get_length event
      in andthen (write_space w) (\<lambda>_ w.
         andthen (if sizeof_event_header + event_data_length > of_stream_left w then
                    if sizeof_event_header + event_data_length > of_stream_left_max w then
                      (Inl (Err ''Event is too large for the stream''), w)
                    else if of_stream_left w \<noteq> of_stream_left_max w then new_buffer 0 w
                    else (Inr (), w)
                  else (Inr (), w)) (\<lambda>_ w.
         andthen (write_fragments event event_data_length event_data_length (eo_chunks event) 0 w)
           (write_last event))))"

definition note_sticky :: "lmd_event_out \<Rightarrow> bool \<Rightarrow> bool \<Rightarrow> lmd_output_file \<Rightarrow> (unit, lmd_output_file) result" where
  "note_sticky event sticky_replay discard_revoke w =
     (if \<not> sticky_replay \<and> is_event_sticky (eo_header event) then
        case sticky_insert event discard_revoke (of_sticky w) of (r, st) \<Rightarrow> (r, w\<lparr>of_sticky := st\<rparr>)
      else (Inr (), w))"

definition write_event_buffered ::
  "lmd_event_out \<Rightarrow> bool \<Rightarrow> bool \<Rightarrow> lmd_output_file \<Rightarrow> (unit, lmd_output_file) result" where
  "write_event_buffered event sticky_replay discard_revoke w =
     andthen (note_sticky event sticky_replay discard_revoke w) (\<lambda>_ w. write_event_data event w)"

section \<open>The file\<close>

text \<open>Errors while the last buffer is written are reported after the file is closed.\<close>

definition close_file :: "lmd_output_file \<Rightarrow> (unit, lmd_output_file) result" where
  "close_file w =
     (case send_buffer 0 w of (r, w) \<Rightarrow>
        let w = (if of_file w \<noteq> None
                 then w\<lparr>of_files := of_files w @ [of_out w], of_out := [], of_file := None\<rparr> else w)
        in (r, w\<lparr>of_cur_buf := None, of_cur_buf_left := 0\<rparr>))"

definition write_file_header :: "s_filhe_extra \<Rightarrow> lmd_output_file \<Rightarrow> (unit, lmd_output_file) result" where
  "write_file_header extra w =
     andthen (new_buffer 0 w) (\<lambda>_ w.
       let w = w\<lparr>of_buffer_header := (of_buffer_header w)\<lparr>bh_type := 2000, bh_subtype := 1\<rparr>\<rparr> in
       if \<not> of_cur_buf_left w \<ge> sizeof_filhe_extra then
         (Inl (Assert ''_cur_buf_left >= sizeof (s_filhe_extra_host)''), w)
       else
         let extra = zero_padding extra;
             extra = (if of_write_native w then extra else byteswap_filhe extra)
         in andthen (copy_to_buffer (filhe_mem extra) False w) (\<lambda>_ w.
              new_buffer (filhe_used_size extra) (w\<lparr>of_cur_buf_usable := of_cur_buf_left w\<rparr>)))"

end
