(* ===== verification/Lmd_Writer.thy ===== *)
theory Lmd_Writer
  imports Lmd_Output Lmd_Records
begin

text \<open>
  The writer establishes the layout of \<open>Lmd_Layout\<close>: \<open>filling\<close> describes the buffer that is
  being filled, \<open>laid\<close> the file so far and the pieces in the current buffer; every step of
  \<^verbatim>\<open>write_event\<close> is shown to extend them.
\<close>

section \<open>The current buffer\<close>

definition filling :: "bool \<Rightarrow> nat \<Rightarrow> s_bufhe \<Rightarrow> bytes \<Rightarrow> lmd_output_file \<Rightarrow> bool" where
  "filling native B h b w \<longleftrightarrow>
     of_write_native w = native \<and> \<not> of_compact_buffers w \<and> good_size B \<and> of_cur_buf_length w = B \<and>
     of_cur_buf w = Some b \<and> length b + of_cur_buf_left w = B - 48 \<and> of_cur_buf_usable w = B - 48 \<and>
     of_stream_left w + length b = INT_MAX \<and> of_stream_left_max w = INT_MAX \<and> of_buffer_header w = h \<and>
     of_file w \<noteq> None"

text \<open>What the operations on the current buffer leave alone.\<close>

definition same_file :: "lmd_output_file \<Rightarrow> lmd_output_file \<Rightarrow> bool" where
  "same_file w w' \<longleftrightarrow> of_out w' = of_out w \<and> of_files w' = of_files w"

lemma same_file_refl [simp]: "same_file w w"
  by (simp add: same_file_def)

lemma same_file_trans: "same_file w w' \<Longrightarrow> same_file w' w'' \<Longrightarrow> same_file w w''"
  by (simp add: same_file_def)

lemma filling_size: "filling native B h b w \<Longrightarrow> good_size B"
  by (simp add: filling_def)

lemma filling_left: "filling native B h b w \<Longrightarrow> length b + of_cur_buf_left w = B - 48"
  by (simp add: filling_def)

lemma copy_filling:
  assumes "filling native B h b w" and "length d \<le> of_cur_buf_left w" and "sw \<longrightarrow> length d mod 4 = 0"
  shows "\<exists>w'. copy_to_buffer d sw w = (Inr (), w') \<and>
           filling native B h (b @ (if sw then swap32 d else d)) w' \<and> same_file w w'"
proof -
  have "length d \<le> of_stream_left w" "of_stream_left w < 2 ^ 64"
    using assms(1,2) good_sizeD(2) [of B] by (auto simp: filling_def)
  then have "sub64 (of_stream_left w) (length d) + length d = of_stream_left w" by (simp add: sub64_le)
  then show ?thesis
    using assms by (auto simp: copy_to_buffer_def copy_bytes_def filling_def same_file_def)
qed

lemma header_filling:
  assumes "filling native B h b w" and "8 \<le> of_cur_buf_left w"
  shows "\<exists>w'. write_event_header eh n w = (Inr (), w') \<and>
           filling native B h (b @ order native (mem (words_of_event_header (eh\<lparr>eh_dlen := of_nat (n div 2)\<rparr>)))) w' \<and>
           same_file w w'"
proof -
  have "of_write_native w = native" using assms(1) by (simp add: filling_def)
  then show ?thesis
    using copy_filling [OF assms(1), of "mem (words_of_event_header (eh\<lparr>eh_dlen := of_nat (n div 2)\<rparr>))" "\<not> native"] assms(2)
    by (cases native) (simp_all add: write_event_header_def DLEN_FROM_EVENT_DATA_LENGTH_def order_def)
qed

section \<open>The data of an event\<close>

text \<open>A chunk as it stands in the file, and what is left to write.\<close>

definition chunk_out :: "bool \<Rightarrow> lmd_event_info \<Rightarrow> buf_chunk_swap \<Rightarrow> bytes" where
  "chunk_out native info c = (if native = chunk_swapping c then swap32 (chunk_data info c) else chunk_data info c)"

definition chunks_out :: "bool \<Rightarrow> lmd_event_info \<Rightarrow> buf_chunk_swap list \<Rightarrow> bytes" where
  "chunks_out native info cs = concat (map (chunk_out native info) cs)"

definition aligned :: "lmd_event_info \<Rightarrow> buf_chunk_swap list \<Rightarrow> bool" where
  "aligned info cs \<longleftrightarrow> (\<forall>c \<in> set cs. length (chunk_data info c) mod 4 = 0)"

definition in_chunk :: "lmd_event_info \<Rightarrow> buf_chunk_swap list \<Rightarrow> nat \<Rightarrow> bool" where
  "in_chunk info cs off \<longleftrightarrow>
     off mod 4 = 0 \<and> (case cs of [] \<Rightarrow> off = 0 | c # _ \<Rightarrow> off \<le> length (chunk_data info c))"

lemma length_chunk_out [simp]: "length (chunk_out native info c) = length (chunk_data info c)"
  by (simp add: chunk_out_def)

lemma chunks_out_simps [simp]:
  "chunks_out native info [] = []"
  "chunks_out native info (c # cs) = chunk_out native info c @ chunks_out native info cs"
  by (simp_all add: chunks_out_def)

lemma chunk_part:
  assumes "off mod 4 = 0" and "n mod 4 = 0" and "off + n \<le> length (chunk_data info c)"
  shows "(if native = chunk_swapping c then swap32 (slice off n (chunk_data info c)) else slice off n (chunk_data info c)) =
           slice off n (chunk_out native info c)"
  using assms by (simp add: slice_def chunk_out_def swap32_take swap32_drop)

lemma copy_chunk:
  assumes "filling native B h b w" and "n \<le> of_cur_buf_left w" and "off mod 4 = 0" and "n mod 4 = 0"
    and "off + n \<le> length (chunk_data info c)"
  shows "\<exists>w'. copy_to_buffer (slice off n (chunk_data info c)) (write_swap w c) w = (Inr (), w') \<and>
           filling native B h (b @ slice off n (chunk_out native info c)) w' \<and> same_file w w'"
proof -
  have "write_swap w c \<longleftrightarrow> native = chunk_swapping c" using assms(1) by (auto simp: write_swap_def filling_def)
  then show ?thesis
    using copy_filling [OF assms(1), of "slice off n (chunk_data info c)" "native = chunk_swapping c"]
      chunk_part [OF assms(3-5), of native] assms(2,4,5) by simp
qed

lemma fill_buffer_fills:
  assumes "filling native B h b w" and "aligned info cs" and "in_chunk info cs off" and "of_cur_buf_left w mod 4 = 0"
    and "of_cur_buf_left w < length (drop off (chunks_out native info cs))"
  shows "\<exists>cs' off' w'. fill_buffer info cs off w = (Inr (cs', off'), w') \<and> aligned info cs' \<and> in_chunk info cs' off' \<and>
           drop off' (chunks_out native info cs') = drop (of_cur_buf_left w) (drop off (chunks_out native info cs)) \<and>
           filling native B h (b @ take (of_cur_buf_left w) (drop off (chunks_out native info cs))) w' \<and> same_file w w'"
  using assms
proof (induction cs arbitrary: off b w)
  case Nil
  then show ?case by simp
next
  case (Cons c cs)
  let ?d = "chunk_data info c" and ?left = "of_cur_buf_left w"
  have off: "off mod 4 = 0" "off \<le> length ?d" "length ?d mod 4 = 0" "aligned info cs"
    using Cons.prems(2,3) by (simp_all add: in_chunk_def aligned_def)
  show ?case
  proof (cases "length ?d - off > ?left")
    case True
    have fits: "off + ?left \<le> length ?d" using True by simp
    from copy_chunk [OF Cons.prems(1) order_refl off(1) Cons.prems(4) fits] obtain w' where
      "copy_to_buffer (slice off ?left ?d) (write_swap w c) w = (Inr (), w')"
      "filling native B h (b @ slice off ?left (chunk_out native info c)) w'" "same_file w w'" by blast
    moreover have "in_chunk info (c # cs) (off + ?left)" using off(1) Cons.prems(4) fits by (simp add: in_chunk_def mod_add_eq) presburger
    ultimately show ?thesis using True fits Cons.prems(2) off
      by (intro exI [of _ "c # cs"] exI [of _ "off + ?left"] exI [of _ w']) (simp add: slice_def add.commute Let_def)
  next
    case False
    let ?n = "length ?d - off"
    have n: "?n \<le> ?left" "?n mod 4 = 0" "off + ?n \<le> length ?d" using False off by (simp_all add: mod_eq_dvd_iff_nat dvd_diff_nat mod_0_imp_dvd)
    from copy_chunk [OF Cons.prems(1) n(1) off(1) n(2,3)] obtain w' where
      c: "copy_to_buffer (drop off ?d) (write_swap w c) w = (Inr (), w')"
      "filling native B h (b @ drop off (chunk_out native info c)) w'" "same_file w w'"
      using off(2) by (auto simp: slice_def)
    have left: "of_cur_buf_left w' = ?left - ?n" using filling_left [OF c(2)] filling_left [OF Cons.prems(1)] n(1) by simp
    have out: "drop off (chunks_out native info (c # cs)) = drop off (chunk_out native info c) @ chunks_out native info cs"
      using off(2) by simp
    have "in_chunk info cs 0" by (simp add: in_chunk_def split: list.splits)
    moreover have "of_cur_buf_left w' mod 4 = 0" using left n(2) Cons.prems(4) by presburger
    moreover have "of_cur_buf_left w' < length (drop 0 (chunks_out native info cs))"
      using Cons.prems(5) left off(2) n(1) unfolding out by simp
    ultimately obtain cs' off' w'' where "fill_buffer info cs 0 w' = (Inr (cs', off'), w'')" "aligned info cs'"
      "in_chunk info cs' off'" "drop off' (chunks_out native info cs') = drop (of_cur_buf_left w') (chunks_out native info cs)"
      "filling native B h ((b @ drop off (chunk_out native info c)) @ take (of_cur_buf_left w') (chunks_out native info cs)) w''"
      "same_file w' w''"
      using Cons.IH [OF c(2) off(4)] by (metis drop0)
    then show ?thesis unfolding out using False c(1,3) left n(1) off(2)
      by (intro exI [of _ cs'] exI [of _ off'] exI [of _ w'']) (auto simp: Let_def intro: same_file_trans)
  qed
qed

lemma write_rest_fills:
  assumes "filling native B h b w" and "aligned info cs" and "in_chunk info cs off"
    and "length (drop off (chunks_out native info cs)) \<le> of_cur_buf_left w"
  shows "\<exists>w'. write_rest info cs off w = (Inr (), w') \<and>
           filling native B h (b @ drop off (chunks_out native info cs)) w' \<and> same_file w w'"
  using assms
proof (induction cs arbitrary: off b w)
  case Nil
  then show ?case by auto
next
  case (Cons c cs)
  let ?d = "chunk_data info c"
  have off: "off mod 4 = 0" "off \<le> length ?d" "length ?d mod 4 = 0" "aligned info cs"
    using Cons.prems(2,3) by (simp_all add: in_chunk_def aligned_def)
  let ?n = "length ?d - off"
  have n: "?n \<le> of_cur_buf_left w" "?n mod 4 = 0" "off + ?n \<le> length ?d"
    using Cons.prems(4) off by (simp_all add: mod_eq_dvd_iff_nat dvd_diff_nat mod_0_imp_dvd)
  from copy_chunk [OF Cons.prems(1) n(1) off(1) n(2,3)] obtain w' where
    c: "copy_to_buffer (drop off ?d) (write_swap w c) w = (Inr (), w')"
    "filling native B h (b @ drop off (chunk_out native info c)) w'" "same_file w w'"
    using off(2) by (auto simp: slice_def)
  have left: "of_cur_buf_left w' = of_cur_buf_left w - ?n"
    using filling_left [OF c(2)] filling_left [OF Cons.prems(1)] n(1) by simp
  have "in_chunk info cs 0" by (simp add: in_chunk_def split: list.splits)
  moreover have "length (drop 0 (chunks_out native info cs)) \<le> of_cur_buf_left w'"
    using Cons.prems(4) left off(2) by simp
  ultimately obtain w'' where "write_rest info cs 0 w' = (Inr (), w'')" "same_file w' w''"
    "filling native B h ((b @ drop off (chunk_out native info c)) @ chunks_out native info cs) w''"
    using Cons.IH [OF c(2) off(4)] by (metis drop0)
  then show ?case using c off(2) by (auto intro: same_file_trans)
qed

section \<open>Buffers\<close>

text \<open>The buffer header while pieces are put into the buffer.\<close>

definition open_header :: "bool \<Rightarrow> nat option \<Rightarrow> u32 \<Rightarrow> u32 \<Rightarrow> u32 \<Rightarrow> piece list \<Rightarrow> s_bufhe" where
  "open_header cont out no t0 t1 ps =
     \<lparr>bh_dlen = 0, bh_type = (if has_sticky ps then 0x4b59 else 10),
      bh_subtype = (if has_sticky ps then 0x5354 else 1), bh_used = 0,
      bh_end = (if cont then 1 else 0), bh_begin = (if out \<noteq> None then 1 else 0),
      bh_buf = no, bh_evt = of_nat (length ps), bh_current_i = 0, bh_time0 = t0, bh_time1 = t1,
      bh_free0 = 1, bh_free1 = (case out of None \<Rightarrow> 0 | Some n \<Rightarrow> of_nat (n div 2)),
      bh_free2 = 0, bh_free3 = 0\<rparr>"

lemma zero_header:
  "zero_bufhe = \<lparr>bh_dlen = 0, bh_type = 0, bh_subtype = 0, bh_used = 0, bh_end = 0, bh_begin = 0, bh_buf = 0,
     bh_evt = 0, bh_current_i = 0, bh_time0 = 0, bh_time1 = 0, bh_free0 = 0, bh_free1 = 0, bh_free2 = 0, bh_free3 = 0\<rparr>"
  by (simp add: zero_bufhe_def bufhe_of_words_def lo16_def hi16_def byte2_def byte3_def)

definition noted :: "lmd_event_header \<Rightarrow> s_bufhe \<Rightarrow> s_bufhe" where
  "noted eh h =
     (if is_event_sticky eh then h\<lparr>bh_type := 0x4b59, bh_subtype := 0x5354\<rparr> else h)\<lparr>bh_evt := bh_evt h + 1\<rparr>"

lemma note_event_notes:
  assumes "filling native B h b w" and "bh_evt h = of_nat n" and "n + 1 < 2 ^ 32"
  shows "\<exists>w'. note_event eh w = (Inr (), w') \<and> filling native B (noted eh h) b w' \<and> same_file w w'"
proof -
  have "bh_evt h \<noteq> - 1"
  proof
    assume "bh_evt h = - 1"
    then have "(of_nat (n + 1) :: u32) = 0" using assms(2) by simp
    then have "unat (of_nat (n + 1) :: u32) = 0" by simp
    then show False using of_nat_u32 [OF assms(3)] by simp
  qed
  then show ?thesis using assms(1)
    by (auto simp: note_event_def Let_def filling_def same_file_def noted_def)
qed

lemma noted_open:
  "noted (pc_header p) (open_header cont out no t0 t1 ps) = open_header cont out no t0 t1 (ps @ [p])"
  "(noted (pc_header p) ((open_header cont None no t0 t1 ps)\<lparr>bh_free1 := of_nat (n div 2)\<rparr>))\<lparr>bh_begin := 1\<rparr> =
     open_header cont (Some n) no t0 t1 (ps @ [p])"
  by (auto simp: noted_def open_header_def has_sticky_def)

text \<open>A full buffer is written, and the next one is empty.\<close>

lemma send_layout:
  assumes w: "filling native B (open_header (ends ps) (begins ps) no t0 t1 ps) (pieces_bytes native ps) w"
    and lb: "lb = \<lparr>lb_no = no, lb_time0 = t0, lb_time1 = t1, lb_pieces = ps\<rparr>"
  shows "\<exists>w' h. send_buffer 0 w = (Inr (), w') \<and> of_out w' = of_out w @ buffer_bytes native B lb \<and>
           of_files w' = of_files w \<and> filling native B h (pieces_bytes native ps) w'"
proof -
  let ?b = "pieces_bytes native ps" and ?h = "layout_header B lb"
  have B: "good_size B" using w by (rule filling_size)
  have u: "used_of ps + of_cur_buf_left w = B - 48" using filling_left [OF w] by (simp add: length_pieces_bytes)
  then have used: "sub64 (of_cur_buf_usable w) (of_cur_buf_left w) = used_of ps"
    using w good_sizeD(1,2) [OF B] by (simp add: filling_def sub64_le)
  have max: "BUFFER_SIZE_FROM_DLEN LMD_BUF_HEADER_MAX_IUSED_DLEN = 32768"
    by (simp add: BUFFER_SIZE_FROM_DLEN_def LMD_BUF_HEADER_MAX_IUSED_DLEN_def)
  have used16: "ucast (of_nat (used_of ps div 2) :: u32) = (of_nat (used_of ps div 2) :: u16)"
    by (rule bit_word_eqI) (auto simp: bit_simps)
  let ?w = "w\<lparr>of_buffer_header := (if native then ?h else byteswap_bufhe ?h)\<rparr>"
  have head: "mem (words_of_bufhe (if native then ?h else byteswap_bufhe ?h)) = order native (mem (words_of_bufhe ?h))"
    by (simp add: order_def byteswap_bufhe_def words_bufhe swap32_mem)
  have full: "take B (order native (mem (words_of_bufhe ?h)) @ ?b @ replicate (of_cur_buf_left w) 0) = buffer_bytes native B lb"
    using u good_sizeD(1) [OF B] by (simp add: buffer_bytes_def lb length_pieces_bytes)
  have "send_buffer 0 w = write_buffer B (order native (mem (words_of_bufhe ?h)) @ ?b @ replicate (of_cur_buf_left w) 0) ?w"
    unfolding head [symmetric] using w used max used16
    by (simp add: send_buffer_def Let_def filling_def lb layout_header_def open_header_def IUSED_FROM_BUFFER_USED_def)
  then show ?thesis using w full by (auto simp: write_buffer_def filling_def)
qed

lemma new_buffer_layout:
  assumes w: "filling native B (open_header (ends ps) (begins ps) no t0 t1 ps) (pieces_bytes native ps) w"
    and lb: "lb = \<lparr>lb_no = no, lb_time0 = t0, lb_time1 = t1, lb_pieces = ps\<rparr>"
  shows "\<exists>w' t0' t1'. new_buffer 0 w = (Inr (), w') \<and> of_out w' = of_out w @ buffer_bytes native B lb \<and>
           of_files w' = of_files w \<and> filling native B (open_header False None (no + 1) t0' t1' []) [] w'"
proof -
  from send_layout [OF assms] obtain w1 h where s: "send_buffer 0 w = (Inr (), w1)"
    "of_out w1 = of_out w @ buffer_bytes native B lb" "of_files w1 = of_files w" "filling native B h (pieces_bytes native ps) w1"
    by blast
  have "bh_buf (of_buffer_header w) = no" using w by (simp add: filling_def open_header_def)
  then show ?thesis using s good_sizeD(1,2) [of B]
    by (auto simp: new_buffer_def get_buffer_def filling_def Let_def read_clock_def open_header_def zero_header has_sticky_def
        split: list.splits)
qed

text \<open>The first buffer of a file: no file has been written yet, or the last one is closed.\<close>

definition unstarted :: "bool \<Rightarrow> nat \<Rightarrow> lmd_output_file \<Rightarrow> bool" where
  "unstarted native B w \<longleftrightarrow>
     of_cur_buf w = None \<and> (of_cur_buf_length w = 0 \<and> of_buf_size w = B \<or> of_cur_buf_length w = B) \<and> good_size B \<and>
     of_write_native w = native \<and> \<not> of_compact_buffers w \<and> of_cur_buf_left w = 0 \<and> of_out w = []"

lemma new_buffer_first:
  assumes "unstarted native B w" and "of_file w \<noteq> None"
  shows "\<exists>w1 t0 t1. new_buffer 0 w = (Inr (), w1) \<and> same_file w w1 \<and>
           filling native B (open_header False None (bh_buf (of_buffer_header w) + 1) t0 t1 []) [] w1"
proof -
  have "good_size B" using assms(1) by (simp add: unstarted_def)
  from good_sizeD(1,2) [OF this] assms show ?thesis
    by (auto simp: new_buffer_def send_buffer_def get_buffer_def filling_def Let_def read_clock_def open_header_def unstarted_def
        zero_header has_sticky_def same_file_def split: list.splits)
qed

section \<open>The file so far\<close>

text \<open>
  \<open>bufs\<close> are in the file, \<open>ps\<close> in the current buffer, which has the number \<open>no\<close> and, if
  \<open>cont\<close>, starts with the continuation of an event.
\<close>

definition laid ::
  "bool \<Rightarrow> nat \<Rightarrow> layout_buffer list \<Rightarrow> piece list \<Rightarrow> bool \<Rightarrow> u32 \<Rightarrow> lmd_output_file \<Rightarrow> bool" where
  "laid native B bufs ps cont no w \<longleftrightarrow>
     (\<exists>t0 t1. filling native B (open_header cont None no t0 t1 ps) (pieces_bytes native ps) w) \<and>
     of_out w = concat (map (buffer_bytes native B) bufs) \<and> list_all (good_buffer B) bufs \<and> numbered bufs \<and>
     (bufs \<noteq> [] \<longrightarrow> no = lb_no (last bufs) + 1) \<and> list_all good_piece ps \<and> list_all (\<lambda>p. pc_out p = None) ps \<and>
     list_all (\<lambda>p. \<not> pc_in p) (tl ps) \<and> (ps \<noteq> [] \<longrightarrow> cont = pc_in (hd ps)) \<and> used_of ps mod 4 = 0"

lemma laid_left:
  assumes "laid native B bufs ps cont no w"
  shows "used_of ps + of_cur_buf_left w = B - 48" "good_size B" "of_cur_buf_left w mod 4 = 0"
proof -
  show *: "used_of ps + of_cur_buf_left w = B - 48" "good_size B"
    using assms filling_left filling_size by (fastforce simp: laid_def length_pieces_bytes)+
  have "4 dvd B" using good_sizeD(4) [OF *(2)] dvd_trans [of 4 1024 B] by (simp add: mod_eq_0_iff_dvd)
  moreover have "48 \<le> B" "used_of ps mod 4 = 0"
    using good_sizeD(1) [OF *(2)] assms by (simp_all add: laid_def)
  ultimately show "of_cur_buf_left w mod 4 = 0" using *(1) by presburger
qed

lemma numbered_snoc:
  "numbered (bs @ [b]) \<longleftrightarrow> numbered bs \<and> (bs \<noteq> [] \<longrightarrow> lb_no b = lb_no (last bs) + 1)"
  by (induction bs rule: numbered.induct) auto

text \<open>The current buffer as a buffer of the layout.\<close>

lemma laid_current:
  assumes "laid native B bufs ps cont no w" and "ps \<noteq> []"
  shows "\<exists>t0 t1 lb. filling native B (open_header (ends ps) (begins ps) no t0 t1 ps) (pieces_bytes native ps) w \<and>
           lb = \<lparr>lb_no = no, lb_time0 = t0, lb_time1 = t1, lb_pieces = ps\<rparr> \<and> good_buffer B lb \<and>
           numbered (bufs @ [lb])"
proof -
  from assms(1) obtain t0 t1 where f: "filling native B (open_header cont None no t0 t1 ps) (pieces_bytes native ps) w"
    by (auto simp: laid_def)
  have e: "ends ps = cont" "begins ps = None"
    using assms by (auto simp: laid_def ends_def begins_def list_all_iff)
  define lb where "lb = \<lparr>lb_no = no, lb_time0 = t0, lb_time1 = t1, lb_pieces = ps\<rparr>"
  have "used_of ps + 48 \<le> B" using laid_left [OF assms(1)] good_sizeD(1) [of B] by simp
  then have "good_buffer B lb"
    using assms by (auto simp: laid_def lb_def good_buffer_def list_all_iff dest: in_set_butlastD)
  moreover have "numbered (bufs @ [lb])" using assms(1) by (auto simp: laid_def numbered_snoc lb_def)
  ultimately show ?thesis using f unfolding e lb_def by blast
qed

lemma laid_buffer:
  assumes "laid native B bufs ps cont no w" and "ps \<noteq> []"
  shows "\<exists>w' lb. new_buffer 0 w = (Inr (), w') \<and> of_files w' = of_files w \<and> lb_pieces lb = ps \<and>
           laid native B (bufs @ [lb]) [] False (no + 1) w'"
proof -
  from laid_current [OF assms] obtain t0 t1 lb where
    f: "filling native B (open_header (ends ps) (begins ps) no t0 t1 ps) (pieces_bytes native ps) w"
      "lb = \<lparr>lb_no = no, lb_time0 = t0, lb_time1 = t1, lb_pieces = ps\<rparr>" "good_buffer B lb" "numbered (bufs @ [lb])"
    by blast
  from new_buffer_layout [OF f(1,2)] obtain w' t0' t1' where
    n: "new_buffer 0 w = (Inr (), w')" "of_out w' = of_out w @ buffer_bytes native B lb"
      "of_files w' = of_files w" "filling native B (open_header False None (no + 1) t0' t1' []) [] w'" by blast
  have "laid native B (bufs @ [lb]) [] False (no + 1) w'"
    using assms(1) n f(2-4) by (auto simp: laid_def)
  then show ?thesis using n(1,3) f(2) by (intro exI [of _ w'] exI [of _ lb]) simp
qed

text \<open>A new piece in the current buffer.\<close>

lemma chunks_mod4: "aligned info cs \<Longrightarrow> length (chunks_out native info cs) mod 4 = 0"
  by (induction cs) (auto simp: aligned_def mod_add_eq intro: mod_add_cong [where b = 0 and b' = 0, simplified])

lemma pending_mod4:
  "aligned info cs \<Longrightarrow> in_chunk info cs off \<Longrightarrow> length (drop off (chunks_out native info cs)) mod 4 = 0"
  using chunks_mod4 [of info cs native] by (simp add: in_chunk_def mod_eq_0_iff_dvd dvd_diff_nat)

lemma laid_few_pieces:
  assumes "laid native B bufs ps cont no w"
  shows "length ps + 1 < 2 ^ 32"
  using laid_left [OF assms] good_sizeD(2) [of B] used_pieces [of ps] by simp

lemma laid_last_piece:
  assumes laid: "laid native B bufs ps cont no w" and cs: "aligned info cs" "in_chunk info cs off"
    and d: "d = drop off (chunks_out native info cs)" "d \<noteq> []" "8 + length d \<le> of_cur_buf_left w"
    and p: "p = \<lparr>pc_header = h, pc_data = d, pc_in = (ps = [] \<and> cont), pc_out = None\<rparr>"
  shows "\<exists>w'. andthen (write_event_header h (length d) w) (\<lambda>_ w.
                andthen (write_rest info cs off w) (\<lambda>_ w. note_event h w)) = (Inr (), w') \<and>
           of_files w' = of_files w \<and> laid native B bufs (ps @ [p]) cont no w'"
proof -
  from laid obtain t0 t1 where f: "filling native B (open_header cont None no t0 t1 ps) (pieces_bytes native ps) w"
    by (auto simp: laid_def)
  have mod4: "length d mod 4 = 0" using pending_mod4 [OF cs] d(1) by simp
  from header_filling [OF f, of h "length d"] d(3) obtain w1 where
    h: "write_event_header h (length d) w = (Inr (), w1)" "same_file w w1"
      "filling native B (open_header cont None no t0 t1 ps)
         (pieces_bytes native ps @ order native (mem (words_of_event_header (piece_header p)))) w1"
    by (auto simp: piece_header_def p)
  have "length d \<le> of_cur_buf_left w1" using filling_left [OF f] filling_left [OF h(3)] d(3) by simp
  from write_rest_fills [OF h(3) cs this [unfolded d(1)]] obtain w2 where
    r: "write_rest info cs off w1 = (Inr (), w2)" "same_file w1 w2"
      "filling native B (open_header cont None no t0 t1 ps) (pieces_bytes native (ps @ [p])) w2"
    by (auto simp: piece_bytes_def p d(1))
  have evt: "bh_evt (open_header cont None no t0 t1 ps) = of_nat (length ps)" by (simp add: open_header_def)
  have "noted h (open_header cont None no t0 t1 ps) = open_header cont None no t0 t1 (ps @ [p])"
    using noted_open(1) [of p] by (simp add: p)
  with note_event_notes [OF r(3) evt laid_few_pieces [OF laid], of h] obtain w3 where
    e: "note_event h w2 = (Inr (), w3)" "same_file w2 w3"
      "filling native B (open_header cont None no t0 t1 (ps @ [p])) (pieces_bytes native (ps @ [p])) w3"
    by auto
  have "good_piece p" using d(2) mod4 by (simp add: p good_piece_def) presburger
  moreover have "used_of ps mod 4 = 0" using laid by (simp add: laid_def)
  with mod4 have "used_of (ps @ [p]) mod 4 = 0" by (simp add: p) presburger
  moreover have "of_out w3 = of_out w" "of_files w3 = of_files w" using h(2) r(2) e(2) by (simp_all add: same_file_def)
  moreover have "list_all (\<lambda>p. \<not> pc_in p) (tl (ps @ [p]))" "cont = pc_in (hd (ps @ [p]))"
    using laid by (cases ps; simp add: laid_def p)+
  moreover have "list_all (\<lambda>p. pc_out p = None) (ps @ [p])" using laid by (simp add: laid_def p)
  ultimately have "laid native B bufs (ps @ [p]) cont no w3"
    using laid e(3) unfolding laid_def by (simp del: used_of_simps pieces_bytes_simps) blast
  then show ?thesis using h(1) r(1) e(1) \<open>of_files w3 = of_files w\<close> by simp
qed

text \<open>A fragment fills the current buffer; the event goes on in the next.\<close>

lemma laid_fragment:
  assumes laid: "laid native B bufs ps cont no w" and cs: "aligned (eo_info ev) cs" "in_chunk (eo_info ev) cs off"
    and d: "d = drop off (chunks_out native (eo_info ev) cs)" "m = of_cur_buf_left w - 8" "8 < of_cur_buf_left w" "m < length d"
    and n: "even n" "n < 2 ^ 32"
    and p: "p = \<lparr>pc_header = eo_header ev, pc_data = take m d, pc_in = (ps = [] \<and> cont), pc_out = Some n\<rparr>"
  shows "\<exists>cs' off' w' lb. write_fragment ev n m cs off w = (Inr (cs', off'), w') \<and> of_files w' = of_files w \<and>
           aligned (eo_info ev) cs' \<and> in_chunk (eo_info ev) cs' off' \<and>
           drop off' (chunks_out native (eo_info ev) cs') = drop m d \<and>
           lb_pieces lb = ps @ [p] \<and> laid native B (bufs @ [lb]) [] True (no + 1) w'"
proof -
  let ?h = "eo_header ev"
  from laid obtain t0 t1 where f: "filling native B (open_header cont None no t0 t1 ps) (pieces_bytes native ps) w"
    by (auto simp: laid_def)
  define w0 where "w0 = w\<lparr>of_buffer_header := (of_buffer_header w)\<lparr>bh_free1 := of_nat (DLEN_FROM_EVENT_DATA_LENGTH n)\<rparr>\<rparr>"
  define h0 where "h0 = of_buffer_header w0"
  have f0: "filling native B h0 (pieces_bytes native ps) w0" "same_file w w0"
    using f by (simp_all add: filling_def w0_def h0_def same_file_def)
  have m: "length (take m d) = m" "m mod 4 = 0" "m + 8 = of_cur_buf_left w"
    using d laid_left(3) [OF laid] by (simp_all) presburger+
  have ph: "piece_header p = ?h\<lparr>eh_dlen := of_nat (m div 2)\<rparr>" using m(1) by (simp add: piece_header_def p)
  from header_filling [OF f0(1), of ?h m] d(3) obtain w1 where
    h: "write_event_header ?h m w0 = (Inr (), w1)" "same_file w0 w1"
      "filling native B h0 (pieces_bytes native ps @ order native (mem (words_of_event_header (piece_header p)))) w1"
    unfolding ph by (auto simp: w0_def)
  have left: "of_cur_buf_left w1 = m" using filling_left [OF f] filling_left [OF h(3)] m(3) by simp
  from fill_buffer_fills [OF h(3) cs] left m(2) d(1,4) obtain cs' off' w2 where
    r: "fill_buffer (eo_info ev) cs off w1 = (Inr (cs', off'), w2)" "aligned (eo_info ev) cs'" "in_chunk (eo_info ev) cs' off'"
      "drop off' (chunks_out native (eo_info ev) cs') = drop m d" "same_file w1 w2"
      "filling native B h0 (pieces_bytes native (ps @ [p])) w2"
    by (auto simp: piece_bytes_def p)
  have left2: "of_cur_buf_left w2 = 0" using filling_left [OF f] filling_left [OF r(6)] m by (simp add: p)
  have h0: "h0 = (open_header cont None no t0 t1 ps)\<lparr>bh_free1 := of_nat (n div 2)\<rparr>"
    using f by (simp add: h0_def w0_def filling_def DLEN_FROM_EVENT_DATA_LENGTH_def)
  have evt: "bh_evt h0 = of_nat (length ps)" by (simp add: h0 open_header_def)
  from note_event_notes [OF r(6) evt laid_few_pieces [OF laid], of ?h] obtain w3 where
    e: "note_event ?h w2 = (Inr (), w3)" "same_file w2 w3"
      "filling native B (noted ?h h0) (pieces_bytes native (ps @ [p])) w3" by blast
  define w4 where "w4 = w3\<lparr>of_buffer_header := (of_buffer_header w3)\<lparr>bh_begin := 1\<rparr>\<rparr>"
  have ends: "ends (ps @ [p]) = cont" "begins (ps @ [p]) = Some n"
    using laid by (cases ps; simp add: laid_def p ends_def begins_def)+
  have "(noted ?h h0)\<lparr>bh_begin := 1\<rparr> = open_header cont (Some n) no t0 t1 (ps @ [p])"
    using noted_open(2) [of p] unfolding h0 by (simp add: p)
  then have f4: "filling native B (open_header (ends (ps @ [p])) (begins (ps @ [p])) no t0 t1 (ps @ [p]))
      (pieces_bytes native (ps @ [p])) w4"
    using e(3) by (simp add: filling_def w4_def ends)
  define lb where "lb = \<lparr>lb_no = no, lb_time0 = t0, lb_time1 = t1, lb_pieces = ps @ [p]\<rparr>"
  from new_buffer_layout [OF f4 lb_def] obtain w5 t0' t1' where
    n5: "new_buffer 0 w4 = (Inr (), w5)" "of_out w5 = of_out w4 @ buffer_bytes native B lb"
      "of_files w5 = of_files w4" "filling native B (open_header False None (no + 1) t0' t1' []) [] w5" by blast
  define w6 where "w6 = w5\<lparr>of_buffer_header := (of_buffer_header w5)\<lparr>bh_end := 1\<rparr>\<rparr>"
  have f6: "filling native B (open_header True None (no + 1) t0' t1' []) (pieces_bytes native []) w6"
    using n5(4) by (simp add: filling_def w6_def open_header_def)
  have out: "of_out w4 = of_out w" "of_files w4 = of_files w"
    using f0(2) h(2) r(5) e(2) by (simp_all add: same_file_def w4_def)
  have "write_fragment ev n m cs off w = (Inr (cs', off'), w6)"
    using h(1) r(1) left2 e(1) n5(1) by (simp add: write_fragment_def w0_def [symmetric] w4_def [symmetric] w6_def Let_def)
  moreover have "laid native B (bufs @ [lb]) [] True (no + 1) w6"
  proof -
    have "good_piece p" using m d(2,3,4) n by (auto simp: p good_piece_def) presburger+
    moreover have "used_of (ps @ [p]) + 48 \<le> B"
      using filling_left [OF r(6)] left2 good_sizeD(1) [OF laid_left(2) [OF laid]] by (simp add: length_pieces_bytes)
    moreover have "list_all (\<lambda>p. \<not> pc_in p) (tl (ps @ [p]))" using laid by (cases ps) (simp_all add: laid_def p)
    ultimately have "good_buffer B lb" using laid by (simp add: laid_def lb_def good_buffer_def list_all_iff del: used_of_simps)
    then show ?thesis using laid n5(2) out f6 by (auto simp: laid_def numbered_snoc lb_def w6_def)
  qed
  ultimately show ?thesis using r(2-4) out n5(3)
    by (intro exI [of _ cs'] exI [of _ off'] exI [of _ w6] exI [of _ lb]) (simp add: lb_def w6_def)
qed

lemma laid_event_data:
  assumes "laid native B bufs ps cont no w" and "aligned (eo_info ev) cs" and "in_chunk (eo_info ev) cs off"
    and "d = drop off (chunks_out native (eo_info ev) cs)" and "d \<noteq> []" and "8 < of_cur_buf_left w"
    and "even n" and "n < 2 ^ 32"
  shows "\<exists>w' bufs' ps' cont' no' ds.
           andthen (write_fragments ev n (length d) cs off w) (write_last ev) = (Inr (), w') \<and> of_files w' = of_files w \<and>
           laid native B bufs' ps' cont' no' w' \<and> ps' \<noteq> [] \<and> ds \<noteq> [] \<and> concat ds = d \<and> take (length bufs) bufs' = bufs \<and>
           concat (map lb_pieces bufs') @ ps' =
             concat (map lb_pieces bufs) @ ps @ frags (eo_header ev) n (ps = [] \<and> cont) ds \<and>
           length ds * (B - 56) < length d + (if ps = [] then 1 else 2) * (B - 56)"
  using assms
proof (induction "length d" arbitrary: d bufs ps cont no w cs off rule: less_induct)
  case less
  let ?left = "of_cur_buf_left w"
  have mod4: "length d mod 4 = 0" using pending_mod4 [OF less.prems(2,3)] less.prems(4) by simp
  have left: "used_of ps + ?left = B - 48" using laid_left(1) [OF less.prems(1)] .
  show ?case
  proof (cases "8 + length d \<le> ?left")
    case True
    define p where "p = \<lparr>pc_header = eo_header ev, pc_data = d, pc_in = (ps = [] \<and> cont), pc_out = None\<rparr>"
    from laid_last_piece [OF less.prems(1-5) True p_def] obtain w' where
      l: "andthen (write_event_header (eo_header ev) (length d) w) (\<lambda>_ w.
            andthen (write_rest (eo_info ev) cs off w) (\<lambda>_ w. note_event (eo_header ev) w)) = (Inr (), w')"
        "of_files w' = of_files w" "laid native B bufs (ps @ [p]) cont no w'" by blast
    have "write_fragments ev n (length d) cs off w = (Inr (length d, cs, off), w)"
      using True by (subst write_fragments.simps) simp
    moreover have "even (length d)" using mod4 by presburger
    ultimately have "andthen (write_fragments ev n (length d) cs off w) (write_last ev) = (Inr (), w')"
      using l(1) by (simp add: write_last_def)
    then show ?thesis using l(2,3) less.prems(5)
      by (intro exI [of _ w'] exI [of _ bufs] exI [of _ "ps @ [p]"] exI [of _ cont] exI [of _ no] exI [of _ "[d]"])
        (simp add: p_def)
  next
    case False
    define m where "m = ?left - 8"
    define p where "p = \<lparr>pc_header = eo_header ev, pc_data = take m d, pc_in = (ps = [] \<and> cont), pc_out = Some n\<rparr>"
    have m: "m < length d" "0 < m" "even m" using False less.prems(6) laid_left(3) [OF less.prems(1)] by (simp_all add: m_def) presburger
    from laid_fragment [OF less.prems(1-4) m_def less.prems(6) m(1) less.prems(7,8) p_def] obtain cs' off' w1 lb where
      f: "write_fragment ev n m cs off w = (Inr (cs', off'), w1)" "of_files w1 = of_files w"
        "aligned (eo_info ev) cs'" "in_chunk (eo_info ev) cs' off'"
        "drop off' (chunks_out native (eo_info ev) cs') = drop m d" "lb_pieces lb = ps @ [p]"
        "laid native B (bufs @ [lb]) [] True (no + 1) w1" by blast
    have left1: "of_cur_buf_left w1 = B - 48" using laid_left(1) [OF f(7)] by simp
    then have "8 < of_cur_buf_left w1" using good_sizeD(1) [OF laid_left(2) [OF f(7)]] by simp
    moreover have "length (drop m d) < length d" "drop m d \<noteq> []" using m(1,2) by simp_all
    ultimately obtain w' bufs' ps' cont' no' ds where
      ih: "andthen (write_fragments ev n (length (drop m d)) cs' off' w1) (write_last ev) = (Inr (), w')"
        "of_files w' = of_files w1" "laid native B bufs' ps' cont' no' w'" "ps' \<noteq> []" "ds \<noteq> []" "concat ds = drop m d"
        "take (length (bufs @ [lb])) bufs' = bufs @ [lb]"
        "concat (map lb_pieces bufs') @ ps' = concat (map lb_pieces (bufs @ [lb])) @ frags (eo_header ev) n True ds"
        "length ds * (B - 56) < length (drop m d) + (B - 56)"
      using less.hyps [OF _ f(7,3,4) f(5) [symmetric] _ _ less.prems(7,8)] by (auto simp del: length_drop)
    have step: "write_fragments ev n (length d) cs off w = write_fragments ev n (length (drop m d)) cs' off' w1"
      using False less.prems(6) m f(1) by (subst write_fragments.simps) (simp add: Let_def m_def [symmetric])
    have "take (length bufs) bufs' = bufs" using arg_cong [OF ih(7), of "take (length bufs)"] by simp
    moreover have "concat (take m d # ds) = d" using ih(6) by simp
    moreover have "concat (map lb_pieces bufs') @ ps' =
        concat (map lb_pieces bufs) @ ps @ frags (eo_header ev) n (ps = [] \<and> cont) (take m d # ds)"
      using ih(5,8) f(6) by (simp add: frags_Cons p_def)
    moreover have "length (take m d # ds) * (B - 56) < length d + (if ps = [] then 1 else 2) * (B - 56)"
    proof (cases "ps = []")
      case True
      then have "m = B - 56" using left by (simp add: m_def)
      then show ?thesis using ih(9) m(1) True by simp
    next
      case False
      then show ?thesis using ih(9) m(1) by simp
    qed
    ultimately show ?thesis using ih(1-4) f(2) unfolding step by (metis list.distinct(1))
  qed
qed

lemma laid_sticky [simp]: "laid native B bufs ps cont no (w\<lparr>of_sticky := x\<rparr>) = laid native B bufs ps cont no w"
  by (simp add: laid_def filling_def)

lemma length_chunks_out: "length (chunks_out native (eo_info ev) (eo_chunks ev)) = get_length ev"
  by (simp add: chunks_out_def get_length_def length_concat comp_def)

lemma write_event_laid:
  assumes sp: "write_space w = (Inr (), w1)"
    and laid: "laid native B bufs ps cont no w1" "8 < of_cur_buf_left w1" "ps = [] \<longrightarrow> \<not> cont"
    and al: "aligned (eo_info ev) (eo_chunks ev)"
    and d: "d = chunks_out native (eo_info ev) (eo_chunks ev)" "d \<noteq> []" "length d + 8 + B \<le> INT_MAX"
  shows "\<exists>w' bufs' ps' cont' no' ds. write_event_data ev w = (Inr (), w') \<and> of_files w' = of_files w1 \<and>
           laid native B bufs' ps' cont' no' w' \<and> ps' \<noteq> [] \<and> ds \<noteq> [] \<and> concat ds = d \<and> take (length bufs) bufs' = bufs \<and>
           concat (map lb_pieces bufs') @ ps' =
             concat (map lb_pieces bufs) @ ps @ segment_pieces (eo_header ev, ds) \<and>
           length ds * (B - 56) < length d + 2 * (B - 56)"
proof -
  have len: "get_length ev = length d" using length_chunks_out [of native ev] d(1) by simp
  have "length d mod 4 = 0" using chunks_mod4 [OF al] d(1) by simp
  then have n: "even (length d)" "length d < 2 ^ 32" using d(3) by (presburger, simp)
  have "in_chunk (eo_info ev) (eo_chunks ev) 0" by (simp add: in_chunk_def split: list.splits)
  from laid_event_data [OF laid(1) al this _ d(2) laid(2) n] d(1) obtain w' bufs' ps' cont' no' ds where
    r: "andthen (write_fragments ev (length d) (length d) (eo_chunks ev) 0 w1) (write_last ev) = (Inr (), w')"
      "of_files w' = of_files w1" "laid native B bufs' ps' cont' no' w'" "ps' \<noteq> []" "ds \<noteq> []" "concat ds = d"
      "take (length bufs) bufs' = bufs"
      "concat (map lb_pieces bufs') @ ps' = concat (map lb_pieces bufs) @ ps @ frags (eo_header ev) (length d) (ps = [] \<and> cont) ds"
      "length ds * (B - 56) < length d + (if ps = [] then 1 else 2) * (B - 56)" by auto
  have "of_stream_left w1 + used_of ps = INT_MAX" "used_of ps \<le> B"
    using laid(1) laid_left(1) [OF laid(1)] by (auto simp: laid_def filling_def length_pieces_bytes)
  then have "\<not> 8 + length d > of_stream_left w1" using d(3) by linarith
  then have "write_event_data ev w = andthen (write_fragments ev (length d) (length d) (eo_chunks ev) 0 w1) (write_last ev)"
    unfolding write_event_data_def Let_def len sp by simp
  moreover have "frags (eo_header ev) (length d) (ps = [] \<and> cont) ds = segment_pieces (eo_header ev, ds)"
    using laid(3) r(6) by (cases "ps = []") (simp_all add: segment_pieces_def)
  moreover have "length ds * (B - 56) < length d + 2 * (B - 56)" using r(9) by (auto split: if_splits)
  ultimately show ?thesis using r(1-8) by metis
qed

lemma space_laid:
  assumes "laid native B bufs ps cont no w" and "ps \<noteq> []"
  shows "\<exists>w' bufs' ps' cont' no'. write_space w = (Inr (), w') \<and> of_files w' = of_files w \<and>
           laid native B bufs' ps' cont' no' w' \<and> 8 < of_cur_buf_left w' \<and> (ps' = [] \<longrightarrow> \<not> cont') \<and>
           take (length bufs) bufs' = bufs \<and> concat (map lb_pieces bufs') @ ps' = concat (map lb_pieces bufs) @ ps"
proof (cases "of_cur_buf_left w \<le> 16")
  case True
  from laid_buffer [OF assms] obtain w' lb where
    b: "new_buffer 0 w = (Inr (), w')" "of_files w' = of_files w" "lb_pieces lb = ps"
      "laid native B (bufs @ [lb]) [] False (no + 1) w'" by blast
  have "8 < of_cur_buf_left w'" using laid_left(1) [OF b(4)] good_sizeD(1) [OF laid_left(2) [OF b(4)]] by simp
  then show ?thesis using b True
    by (intro exI [of _ w'] exI [of _ "bufs @ [lb]"] exI [of _ "[]"] exI [of _ False] exI [of _ "no + 1"]) (simp add: write_space_def)
next
  case False
  then show ?thesis using assms
    by (intro exI [of _ w] exI [of _ bufs] exI [of _ ps] exI [of _ cont] exI [of _ no]) (simp add: write_space_def)
qed

text \<open>The last buffer is written when the file is closed.\<close>

lemma close_laid:
  assumes "laid native B bufs ps cont no w" and "ps \<noteq> []"
  shows "\<exists>w' bufs'. close_file w = (Inr (), w') \<and>
           of_files w' = of_files w @ [concat (map (buffer_bytes native B) bufs')] \<and>
           concat (map lb_pieces bufs') = concat (map lb_pieces bufs) @ ps \<and> list_all (good_buffer B) bufs' \<and> numbered bufs' \<and>
           unstarted native B w' \<and> of_file w' = None"
proof -
  from laid_current [OF assms] obtain t0 t1 lb where
    f: "filling native B (open_header (ends ps) (begins ps) no t0 t1 ps) (pieces_bytes native ps) w"
      "lb = \<lparr>lb_no = no, lb_time0 = t0, lb_time1 = t1, lb_pieces = ps\<rparr>" "good_buffer B lb" "numbered (bufs @ [lb])"
    by blast
  from send_layout [OF f(1,2)] obtain w' h where
    n: "send_buffer 0 w = (Inr (), w')" "of_out w' = of_out w @ buffer_bytes native B lb" "of_files w' = of_files w"
      "filling native B h (pieces_bytes native ps) w'" by blast
  let ?w = "w'\<lparr>of_files := of_files w @ [of_out w @ buffer_bytes native B lb], of_out := [], of_file := None,
      of_cur_buf := None, of_cur_buf_left := 0\<rparr>"
  have "close_file w = (Inr (), ?w)" using n by (simp add: close_file_def filling_def Let_def)
  moreover have "unstarted native B ?w" using n(4) by (simp add: unstarted_def filling_def)
  ultimately show ?thesis using assms(1) f(2-4)
    by (intro exI [of _ ?w] exI [of _ "bufs @ [lb]"]) (simp add: laid_def)
qed

section \<open>A file of events\<close>

fun write_all :: "lmd_event_out list \<Rightarrow> lmd_output_file \<Rightarrow> (unit, lmd_output_file) result" where
  "write_all [] w = (Inr (), w)"
| "write_all (ev # evs) w = andthen (write_event_data ev w) (\<lambda>_ w. write_all evs w)"

text \<open>Events whose data is made of whole 32-bit words and fits a stream.\<close>

definition writable :: "nat \<Rightarrow> lmd_event_out \<Rightarrow> bool" where
  "writable B ev \<longleftrightarrow> aligned (eo_info ev) (eo_chunks ev) \<and> get_length ev \<noteq> 0 \<and> get_length ev + 8 + B \<le> INT_MAX"

text \<open>The segment that an event becomes, for some cut into fragments.\<close>

definition cut_into :: "bool \<Rightarrow> nat \<Rightarrow> lmd_event_out \<Rightarrow> segment \<Rightarrow> bool" where
  "cut_into native B ev = (\<lambda>(h, ds). h = eo_header ev \<and> ds \<noteq> [] \<and>
     concat ds = chunks_out native (eo_info ev) (eo_chunks ev) \<and>
     length ds * (B - 56) < get_length ev + 2 * (B - 56))"

lemma write_one:
  assumes "write_space w = (Inr (), w1)"
    and "laid native B bufs ps cont no w1" "8 < of_cur_buf_left w1" "ps = [] \<longrightarrow> \<not> cont" and "writable B ev"
  shows "\<exists>w' bufs' ps' cont' no' seg. write_event_data ev w = (Inr (), w') \<and> of_files w' = of_files w1 \<and>
           laid native B bufs' ps' cont' no' w' \<and> ps' \<noteq> [] \<and> cut_into native B ev seg \<and>
           concat (map lb_pieces bufs') @ ps' = concat (map lb_pieces bufs) @ ps @ segment_pieces seg"
proof -
  let ?d = "chunks_out native (eo_info ev) (eo_chunks ev)"
  have len: "length ?d = get_length ev" by (rule length_chunks_out)
  then have d: "?d \<noteq> []" "length ?d + 8 + B \<le> INT_MAX" "aligned (eo_info ev) (eo_chunks ev)"
    using assms(5) by (auto simp: writable_def)
  from write_event_laid [OF assms(1-4) d(3) refl d(1,2)] obtain w' bufs' ps' cont' no' ds where
    "write_event_data ev w = (Inr (), w')" "of_files w' = of_files w1" "laid native B bufs' ps' cont' no' w'"
    "ps' \<noteq> []" "ds \<noteq> []" "concat ds = ?d"
    "concat (map lb_pieces bufs') @ ps' = concat (map lb_pieces bufs) @ ps @ segment_pieces (eo_header ev, ds)"
    "length ds * (B - 56) < length ?d + 2 * (B - 56)" by blast
  then show ?thesis
    by (intro exI [of _ w'] exI [of _ bufs'] exI [of _ ps'] exI [of _ cont'] exI [of _ no'] exI [of _ "(eo_header ev, ds)"])
      (simp add: cut_into_def len)
qed

lemma write_all_laid:
  assumes "laid native B bufs ps cont no w" and "ps \<noteq> []" and "list_all (writable B) evs"
  shows "\<exists>w' bufs' ps' cont' no' segs. write_all evs w = (Inr (), w') \<and> of_files w' = of_files w \<and>
           laid native B bufs' ps' cont' no' w' \<and> ps' \<noteq> [] \<and> list_all2 (cut_into native B) evs segs \<and>
           concat (map lb_pieces bufs') @ ps' = concat (map lb_pieces bufs) @ ps @ concat (map segment_pieces segs)"
  using assms
proof (induction evs arbitrary: bufs ps cont no w)
  case Nil
  then show ?case
    by (intro exI [of _ w] exI [of _ bufs] exI [of _ ps] exI [of _ cont] exI [of _ no] exI [of _ "[]"]) simp
next
  case (Cons ev evs)
  from space_laid [OF Cons.prems(1,2)] obtain w1 bufs1 ps1 cont1 no1 where
    s: "write_space w = (Inr (), w1)" "of_files w1 = of_files w" "laid native B bufs1 ps1 cont1 no1 w1"
      "8 < of_cur_buf_left w1" "ps1 = [] \<longrightarrow> \<not> cont1"
      "concat (map lb_pieces bufs1) @ ps1 = concat (map lb_pieces bufs) @ ps" by metis
  have "writable B ev" using Cons.prems(3) by simp
  from write_one [OF s(1,3-5) this] obtain w2 bufs2 ps2 cont2 no2 seg where
    o: "write_event_data ev w = (Inr (), w2)" "of_files w2 = of_files w1" "laid native B bufs2 ps2 cont2 no2 w2"
      "ps2 \<noteq> []" "cut_into native B ev seg"
      "concat (map lb_pieces bufs2) @ ps2 = concat (map lb_pieces bufs1) @ ps1 @ segment_pieces seg" by blast
  from Cons.IH [OF o(3,4)] Cons.prems(3) obtain w3 bufs3 ps3 cont3 no3 segs where
    r: "write_all evs w2 = (Inr (), w3)" "of_files w3 = of_files w2" "laid native B bufs3 ps3 cont3 no3 w3" "ps3 \<noteq> []"
      "list_all2 (cut_into native B) evs segs"
      "concat (map lb_pieces bufs3) @ ps3 = concat (map lb_pieces bufs2) @ ps2 @ concat (map segment_pieces segs)" by auto
  have "concat (map lb_pieces bufs3) @ ps3 = concat (map lb_pieces bufs) @ ps @ concat (map segment_pieces (seg # segs))"
    using s(6) o(6) r(6) by (metis append.assoc concat.simps(2) list.simps(9))
  then show ?case using o(1,2,5) r(1-5) s(2)
    by (intro exI [of _ w3] exI [of _ bufs3] exI [of _ ps3] exI [of _ cont3] exI [of _ no3] exI [of _ "seg # segs"]) simp
qed

text \<open>A writer that has just been set up for files with buffers of \<open>B\<close> bytes, with an open file.\<close>

definition writer_on :: "bool \<Rightarrow> nat \<Rightarrow> (u32 \<times> u32) list \<Rightarrow> lmd_output_file" where
  "writer_on native B clock = (output_file_new clock)\<lparr>of_write_native := native, of_buf_size := B, of_file := Some ''out.lmd'', of_names := [''out.lmd'']\<rparr>"

lemma writer_on_unstarted: "good_size B \<Longrightarrow> unstarted native B (writer_on native B clock) \<and> of_file (writer_on native B clock) \<noteq> None"
  by (simp add: unstarted_def writer_on_def output_file_new_def)

text \<open>The events of one file.\<close>

definition file_of :: "bool \<Rightarrow> nat \<Rightarrow> lmd_event_out list \<Rightarrow> bytes \<Rightarrow> bool" where
  "file_of native B evs content \<longleftrightarrow>
     (\<exists>bufs segs. content = concat (map (buffer_bytes native B) bufs) \<and> lays_out B segs [] bufs \<and> numbered bufs \<and>
        list_all2 (cut_into native B) evs segs)"

lemma start_laid:
  assumes "unstarted native B w" and "of_file w \<noteq> None"
  shows "\<exists>w1 no. write_space w = (Inr (), w1) \<and> laid native B [] [] False no w1 \<and> of_files w1 = of_files w \<and> 8 < of_cur_buf_left w1"
proof -
  from new_buffer_first [OF assms] obtain w1 t0 t1 where
    n: "new_buffer 0 w = (Inr (), w1)" "same_file w w1"
      "filling native B (open_header False None (bh_buf (of_buffer_header w) + 1) t0 t1 []) [] w1" by blast
  have out: "of_out w = []" "of_cur_buf_left w = 0" "good_size B" using assms(1) by (simp_all add: unstarted_def)
  have sp: "write_space w = (Inr (), w1)" using n(1) out(2) by (simp add: write_space_def del: if_split)
  have l1: "laid native B [] [] False (bh_buf (of_buffer_header w) + 1) w1" "of_files w1 = of_files w"
    using n(2,3) out(1) unfolding laid_def same_file_def by auto
  have left: "8 < of_cur_buf_left w1" using laid_left(1) [OF l1(1)] good_sizeD(1) [OF out(3)] by simp
  then show ?thesis using sp l1 by blast
qed

lemma close_file_of:
  assumes "laid native B bufs ps cont no w" and "ps \<noteq> []" and "list_all2 (cut_into native B) evs segs"
    and "concat (map lb_pieces bufs) @ ps = concat (map segment_pieces segs)"
  shows "\<exists>w' content. close_file w = (Inr (), w') \<and> of_files w' = of_files w @ [content] \<and> file_of native B evs content \<and>
           unstarted native B w' \<and> of_file w' = None"
proof -
  from close_laid [OF assms(1,2)] obtain w' bufs' where
    c: "close_file w = (Inr (), w')" "of_files w' = of_files w @ [concat (map (buffer_bytes native B) bufs')]"
      "concat (map lb_pieces bufs') = concat (map lb_pieces bufs) @ ps" "list_all (good_buffer B) bufs'" "numbered bufs'"
      "unstarted native B w'" "of_file w' = None" by blast
  from assms(3) have "list_all good_segment segs"
    by (auto simp: list_all2_conv_all_nth list_all_length cut_into_def good_segment_def)
  then have "lays_out B segs [] bufs'" using c(3,4) assms(4) by (simp add: lays_out_def)
  then have "file_of native B evs (concat (map (buffer_bytes native B) bufs'))" using c(5) assms(3) unfolding file_of_def by blast
  then show ?thesis using c by blast
qed

lemma written_file:
  assumes "unstarted native B w0" and "of_file w0 \<noteq> None" and "list_all (writable B) evs" and "evs \<noteq> []"
  shows "\<exists>w content. andthen (write_all evs w0) (\<lambda>_. close_file) = (Inr (), w) \<and>
           of_files w = of_files w0 @ [content] \<and> file_of native B evs content"
proof -
  obtain ev evs' where evs: "evs = ev # evs'" using assms(4) by (cases evs) auto
  from start_laid [OF assms(1,2)] obtain w1 no where
    l1: "write_space w0 = (Inr (), w1)" "laid native B [] [] False no w1" "of_files w1 = of_files w0" "8 < of_cur_buf_left w1" by blast
  have ok: "writable B ev" "list_all (writable B) evs'" using assms(3) evs by simp_all
  from write_one [OF l1(1,2,4) _ ok(1)] obtain w2 bufs2 ps2 cont2 no2 seg where
    o: "write_event_data ev w0 = (Inr (), w2)" "of_files w2 = of_files w1" "laid native B bufs2 ps2 cont2 no2 w2"
      "ps2 \<noteq> []" "cut_into native B ev seg" "concat (map lb_pieces bufs2) @ ps2 = segment_pieces seg" by auto
  from write_all_laid [OF o(3,4) ok(2)] obtain w3 bufs3 ps3 cont3 no3 segs where
    r: "write_all evs' w2 = (Inr (), w3)" "of_files w3 = of_files w2" "laid native B bufs3 ps3 cont3 no3 w3" "ps3 \<noteq> []"
      "list_all2 (cut_into native B) evs' segs"
      "concat (map lb_pieces bufs3) @ ps3 = concat (map lb_pieces bufs2) @ ps2 @ concat (map segment_pieces segs)" by blast
  have "concat (map lb_pieces bufs3) @ ps3 = concat (map segment_pieces (seg # segs))" 
    using r(6) o(6) by (metis append.assoc concat.simps(2) list.simps(9))
  moreover have "list_all2 (cut_into native B) evs (seg # segs)" using o(5) r(5) evs by simp
  ultimately obtain w content where "close_file w3 = (Inr (), w)" "of_files w = of_files w3 @ [content]" "file_of native B evs content"
    using close_file_of [OF r(3,4)] by blast
  then show ?thesis using o(1,2) r(1,2) l1(3) evs by (intro exI [of _ w] exI [of _ content]) simp
qed

lemma written_layout:
  assumes "good_size B" and "list_all (writable B) evs" and "evs \<noteq> []"
  shows "\<exists>w bufs segs. andthen (write_all evs (writer_on native B clock)) (\<lambda>_. close_file) = (Inr (), w) \<and>
           of_files w = [concat (map (buffer_bytes native B) bufs)] \<and> lays_out B segs [] bufs \<and> numbered bufs \<and>
           list_all2 (cut_into native B) evs segs"
proof -
  have "of_files (writer_on native B clock) = []" by (simp add: writer_on_def output_file_new_def)
  moreover from writer_on_unstarted [OF assms(1)] have "unstarted native B (writer_on native B clock)" "of_file (writer_on native B clock) \<noteq> None" by blast+
  ultimately show ?thesis using written_file [OF _ _ assms(2,3), of native "writer_on native B clock"] unfolding file_of_def by force
qed

text \<open>C2. Writing events and closing the file leaves one file, and that file is laid out as LMD
  buffers of the size that was asked for, numbered without gaps, in the byte order that was
  asked for: its pieces are the events in order, each cut into fragments that together are
  the event's data, at most two more than the number of full buffers in it. No assertion
  fails and no error is thrown on the way.\<close>

theorem writer_lays_out:
  assumes "good_size B" and "list_all (writable B) evs" and "evs \<noteq> []"
  shows "\<exists>w bufs segs. andthen (write_all evs (writer_on native B clock)) (\<lambda>_. close_file) = (Inr (), w) \<and>
           of_files w = [concat (map (buffer_bytes native B) bufs)] \<and> lays_out B segs [] bufs \<and> numbered bufs \<and>
           list_all2 (cut_into native B) evs segs"
  using assms by (rule written_layout)

definition event_out_example :: lmd_event_out where
  "event_out_example =
     \<lparr>eo_header = \<lparr>eh_dlen = 0, eh_type = 10, eh_subtype = 1\<rparr>,
      eo_info = \<lparr>ei_dummy = 0, ei_trigger = 1, ei_count = 17\<rparr>,
      eo_chunks = [Info_chunk, Data_chunk (replicate 2000 1) True]\<rparr>"

lemma event_out_example_length: "get_length event_out_example = 2008"
  by (simp add: event_out_example_def get_length_def)

lemma event_out_example_ok: "good_size 1024" "list_all (writable 1024) [event_out_example]"
  by (simp add: good_size_def, simp add: writable_def event_out_example_length)
    (simp add: event_out_example_def aligned_def)

theorem writer_lays_out_witness:
  "\<exists>w bufs segs. andthen (write_all [event_out_example] (writer_on False 1024 [])) (\<lambda>_. close_file) = (Inr (), w) \<and>
     of_files w = [concat (map (buffer_bytes False 1024) bufs)] \<and> lays_out 1024 segs [] bufs \<and> numbered bufs \<and>
     list_all2 (cut_into False 1024) [event_out_example] segs"
  by (rule writer_lays_out [OF event_out_example_ok]) simp

end
