(* ===== verification/Lmd_Roundtrip.thy ===== *)
theory Lmd_Roundtrip
  imports Lmd_Writer Lmd_Reader
begin

text \<open>
  Writer and reader together: the file that \<open>Lmd_Writer\<close> describes is the file that
  \<open>Lmd_Reader\<close> takes apart.
\<close>

lemma write_chunks_host:
  assumes "aligned info cs"
  shows "\<exists>b. write_chunks info cs = Inr b \<and> order native (chunks_out native info cs) = b \<and> length b = length (chunks_out native info cs)"
  using assms
proof (induction cs)
  case Nil
  then show ?case by (simp add: order_def)
next
  case (Cons c cs)
  then obtain b where b: "write_chunks info cs = Inr b" "order native (chunks_out native info cs) = b"
    "length b = length (chunks_out native info cs)"
    by (auto simp: aligned_def)
  have c: "length (chunk_data info c) mod 4 = 0" using Cons.prems by (simp add: aligned_def)
  then have "copy_bytes (chunk_data info c) (chunk_swapping c) = Inr (order native (chunk_out native info c))"
    by (cases native) (auto simp: copy_bytes_def order_def chunk_out_def)
  moreover have "order native (chunk_out native info c @ chunks_out native info cs) = order native (chunk_out native info c) @ b"
    using c b(2) by (simp add: order_mod4)
  ultimately show ?case using b by simp
qed

text \<open>What the reader delivers for an event that was written.\<close>

definition same_event :: "lmd_event_out \<Rightarrow> lmd_event \<Rightarrow> bool" where
  "same_event eo ev \<longleftrightarrow>
     event_out_write eo =
       Inr (mem (words_of_event_header (ev_header ev)) @ order (\<not> ev_swapping ev) (concat (ev_chunks ev)))"

lemma cut_gives_same:
  assumes "aligned (eo_info eo) (eo_chunks eo)" and "cut_into native B eo seg" and "gives_event native seg ev"
  shows "same_event eo ev"
proof -
  obtain h ds where seg: "seg = (h, ds)" by (cases seg)
  from write_chunks_host [OF assms(1), of native] obtain b where
    "write_chunks (eo_info eo) (eo_chunks eo) = Inr b" "order native (chunks_out native (eo_info eo) (eo_chunks eo)) = b"
    "length b = length (chunks_out native (eo_info eo) (eo_chunks eo))" by blast
  then show ?thesis
    using assms(2,3) by (simp add: same_event_def event_out_write_def seg cut_into_def gives_event_def
        DLEN_FROM_EVENT_DATA_LENGTH_def Let_def)
qed

lemma pieces_buffers: "list_all (good_buffer B) bufs \<Longrightarrow> length bufs \<le> length (concat (map lb_pieces bufs))"
proof (induction bufs)
  case (Cons lb bufs)
  then have "1 \<le> length (lb_pieces lb)" by (cases "lb_pieces lb") (simp_all add: good_buffer_def)
  then show ?case using Cons by simp
qed simp

lemma length_frags [simp]: "length (frags h n i ds) = length ds"
  by (induction ds arbitrary: i) (simp_all add: frags_Cons)

text \<open>C1. What is written is read back: after events were written to a file and the file was
  closed, reading the file delivers the same number of events in the same order, and each has,
  after the byte swap that the reader's mark asks for, exactly the memory image (header with
  the length of the data, then the data in host byte order) of the event that was written,
  whatever mixture of byte orders its chunks have, in files of either byte order and for all
  buffer sizes, also when the event had to be cut into fragments. The input buffer is large
  enough for two events and one more buffer.\<close>

theorem lmd_roundtrip:
  assumes B: "good_size B" and evs: "list_all (writable B) evs" "evs \<noteq> []"
    and k: "\<forall>ev \<in> set evs. get_length ev div (B - 56) + 2 \<le> k"
    and size: "\<forall>ev \<in> set evs. get_length ev \<le> pb_size pb div 3" "(2 * k + 1) * B \<le> pb_size pb"
    and pb: "pipe_inv pb" "pb_done pb = 0"
    and wr: "andthen (write_all evs (writer_on native B clock)) (\<lambda>_. close_file) = (r, w)"
      "pipe_stream pb = last (of_files w)"
    and fuel: "k + 1 \<le> fuel" "length evs < n"
  shows "r = Inr () \<and> (\<exists>evs' src'. read_events pipe_vt fuel n (lmd_source_new pb) = (Inr evs', src') \<and>
           list_all2 same_event evs evs')"
proof -
  from written_layout [OF B evs, of native clock] wr(1) obtain bufs segs where
    w: "r = Inr ()" "of_files w = [concat (map (buffer_bytes native B) bufs)]" "lays_out B segs [] bufs" "numbered bufs"
      "list_all2 (cut_into native B) evs segs" by auto
  have B56: "0 < B - 56" using good_sizeD(1) [OF B] by simp
  have frag: "length ds \<le> k \<and> length (concat ds) \<le> pb_size pb div 3" if "(h, ds) \<in> set segs" for h ds
  proof -
    from that w(5) obtain ev where ev: "ev \<in> set evs" "cut_into native B ev (h, ds)"
      by (metis list_all2_conv_all_nth in_set_conv_nth)
    then have "length ds * (B - 56) < get_length ev + 2 * (B - 56)" by (simp add: cut_into_def)
    then have "length ds \<le> (get_length ev + 2 * (B - 56)) div (B - 56)"
      using less_eq_div_iff_mult_less_eq [OF B56, of "length ds" "get_length ev + 2 * (B - 56)"] by linarith
    moreover have "(get_length ev + 2 * (B - 56)) div (B - 56) = get_length ev div (B - 56) + 2" using B56 by simp
    moreover have "length (concat ds) = get_length ev" using ev(2) length_chunks_out [of native ev] by (simp add: cut_into_def)
    ultimately show ?thesis using ev(1) k size(1) by fastforce
  qed
  have "1 \<le> k" using k evs(2) by (cases evs) auto
  moreover have "length segs < n" using w(5) fuel(2) by (metis list_all2_lengthD)
  moreover have "pipe_stream pb = concat (map (buffer_bytes native B) bufs)" using wr(2) w(2) by simp
  ultimately obtain evs' src' where
    "read_events pipe_vt fuel n (lmd_source_new pb) = (Inr evs', src')" "list_all2 (gives_event native) segs evs'"
    using read_layout_file [OF pb _ w(3) B w(4) _ _ size(2) fuel(1)] frag by blast
  moreover have "list_all2 same_event evs evs'"
  proof (rule list_all2_all_nthI)
    show len: "length evs = length evs'" using w(5) calculation(2) by (metis list_all2_lengthD)
    show "same_event (evs ! i) (evs' ! i)" if "i < length evs" for i
      using cut_gives_same [of "evs ! i" native B "segs ! i" "evs' ! i"] that evs(1) w(5) calculation(2) len
      by (simp add: list_all2_conv_all_nth list_all_length writable_def)
  qed
  ultimately show ?thesis using w(1) by blast
qed

theorem lmd_roundtrip_witness:
  "\<exists>w evs' src'. andthen (write_all [event_out_example] (writer_on False 1024 [])) (\<lambda>_. close_file) = (Inr (), w) \<and>
     read_events pipe_vt 6 2 (lmd_source_new (pipe_on 14 (last (of_files w)))) = (Inr evs', src') \<and>
     list_all2 same_event [event_out_example] evs'"
proof -
  let ?ev = event_out_example
  note len = event_out_example_length and B = event_out_example_ok(1) and ok = event_out_example_ok(2)
  from written_layout [OF B ok, of False "[]"] obtain w bufs segs where
    w: "andthen (write_all [?ev] (writer_on False 1024 [])) (\<lambda>_. close_file) = (Inr (), w)"
      "of_files w = [concat (map (buffer_bytes False 1024) bufs)]" "lays_out 1024 segs [] bufs"
      "list_all2 (cut_into False 1024) [?ev] segs" by auto
  from w(4) obtain h ds where segs: "segs = [(h, ds)]" "cut_into False 1024 ?ev (h, ds)" by (auto simp: list_all2_Cons1)
  then have "length ds \<le> 4" by (simp add: cut_into_def len)
  moreover have bufs: "list_all (good_buffer 1024) bufs" "concat (map lb_pieces bufs) = segment_pieces (h, ds)"
    using w(3) segs(1) by (simp_all add: lays_out_def)
  ultimately have "length bufs \<le> 4" using pieces_buffers [OF bufs(1)] by (simp add: segment_pieces_def)
  then have "length (concat (map (buffer_bytes False 1024) bufs)) < 2 ^ 62" using length_buffers [OF bufs(1), of False] by simp
  then have pb: "pipe_inv (pipe_on 14 (last (of_files w)))" using w(2) by (intro pipe_on_inv) simp_all
  have k: "\<forall>ev \<in> set [?ev]. get_length ev div (1024 - 56) + 2 \<le> 4" by (simp add: len)
  have s: "\<forall>ev \<in> set [?ev]. get_length ev \<le> pb_size (pipe_on 14 (last (of_files w))) div 3" by (simp add: len)
  have t: "(2 * 4 + 1) * 1024 \<le> pb_size (pipe_on 14 (last (of_files w)))" by simp
  from lmd_roundtrip [OF B ok _ k s t pb _ w(1), of 6 2] show ?thesis using w(1) by auto
qed

end
