(* ===== verification/Lmd_File_Output.thy ===== *)
theory Lmd_File_Output
  imports Lmd_Writer Lmd_Sticky_Refine
begin

text \<open>
  The file level of \<^verbatim>\<open>file_input/lmd_output.cc\<close>: opening and changing files, replay of the sticky
  events at the begin of each file, the cut on event numbers and the comments of the file
  header. \<^verbatim>\<open>limit_file_size\<close> calls back \<^verbatim>\<open>new_file\<close>, so that its functions that change the file are here.
\<close>

section \<open>Opening files\<close>

text \<open>
  What the file system says: whether a file exists before the program starts (\<^verbatim>\<open>stat\<close>) and
  whether it can be opened for writing. Files that were opened exist.
\<close>

record file_system =
  fs_exists :: "string \<Rightarrow> bool"
  fs_can_open :: "string \<Rightarrow> bool"

definition open_file :: "file_system \<Rightarrow> string \<Rightarrow> lmd_output_file \<Rightarrow> (unit, lmd_output_file) result" where
  "open_file fs filename w =
     (if of_file w \<noteq> None then (Inl (Assert ''_fd_handle == -1''), w)
      else andthen (close_file w) (\<lambda>_ w.
        if \<not> fs_can_open fs filename then (Inl (Err ''Failed to open file for writing''), w)
        else (Inr (), w\<lparr>of_file := Some filename, of_names := of_names w @ [filename]\<rparr>)))"

definition open_stdout :: "lmd_output_file \<Rightarrow> (unit, lmd_output_file) result" where
  "open_stdout w =
     (let lf = of_limits w in
      if lf_limit_size lf \<noteq> 2 ^ 64 - 1 \<or> lf_limit_events lf \<noteq> - 1 \<or> of_event_cut w \<noteq> 0 then
        (Inl (Err ''Cannot write data to stdout with file size or event number limits''), w)
      else (Inr (), w\<lparr>of_file := Some ''-'', of_limits := lf\<lparr>lf_may_change_file := False\<rparr>\<rparr>))"

section \<open>The next file\<close>

text \<open>Replayed events are counted but do not change the file.\<close>

definition count_event :: "lmd_output_file \<Rightarrow> lmd_output_file" where
  "count_event w = w\<lparr>of_limits := add_events 1 (of_limits w)\<rparr>"

definition replay_event :: "lmd_event_out \<Rightarrow> lmd_output_file \<Rightarrow> (unit, lmd_output_file) result" where
  "replay_event event w = andthen (write_event_buffered event True True w) (\<lambda>_ w. (Inr (), count_event w))"

definition replay_sticky :: "lmd_output_file \<Rightarrow> (unit, lmd_output_file) result" where
  "replay_sticky w =
     (case sticky_write_events (of_sticky w) of
        Inl e \<Rightarrow> (Inl e, w)
      | Inr events \<Rightarrow> each replay_event events w)"

definition output_new_file :: "file_system \<Rightarrow> string \<Rightarrow> lmd_output_file \<Rightarrow> (unit, lmd_output_file) result" where
  "output_new_file fs filename w =
     andthen (close_file w) (\<lambda>_ w.
     andthen (open_file fs filename w) (\<lambda>_ w.
     andthen (if of_has_file_header w then write_file_header (of_file_header_extra w) w else (Inr (), w)) (\<lambda>_ w.
     replay_sticky w)))"

definition limited :: "(limit_file_size \<Rightarrow> ('a, limit_file_size) result) \<Rightarrow> lmd_output_file \<Rightarrow> ('a, lmd_output_file) result" where
  "limited f w = (case f (of_limits w) of (r, lf) \<Rightarrow> (r, w\<lparr>of_limits := lf\<rparr>))"

definition advance_number :: "limit_file_size \<Rightarrow> (unit, limit_file_size) result" where
  "advance_number lf = (case next_number lf of Inl e \<Rightarrow> (Inl e, lf) | Inr lf \<Rightarrow> (Inr (), lf))"

definition change_file :: "file_system \<Rightarrow> lmd_output_file \<Rightarrow> (unit, lmd_output_file) result" where
  "change_file fs w =
     andthen
       (if lf_may_change_file (of_limits w) then
          andthen (limited (choose_filename (\<lambda>name. fs_exists fs name \<or> name \<in> set (of_names w))) w) (\<lambda>filename w.
          andthen (output_new_file fs filename w) (\<lambda>_ w.
          limited advance_number w))
        else (Inr (), w))
       (\<lambda>_ w. (Inr (), w\<lparr>of_limits := (of_limits w)\<lparr>lf_cur_size := 0, lf_cur_events := 0\<rparr>\<rparr>))"

definition can_change_file :: "file_system \<Rightarrow> lmd_output_file \<Rightarrow> (unit, lmd_output_file) result" where
  "can_change_file fs w =
     (let lf = of_limits w in
      if lf_cur_size lf \<ge> lf_limit_size lf \<or> lf_cur_events lf \<ge> lf_limit_events lf then change_file fs w
      else (Inr (), w))"

definition parse_open_first_file :: "file_system \<Rightarrow> string \<Rightarrow> lmd_output_file \<Rightarrow> (unit, lmd_output_file) result" where
  "parse_open_first_file fs filename w =
     andthen (limited (parse_filename filename) w) (\<lambda>_ w. change_file fs w)"

section \<open>Events\<close>

definition write_event :: "file_system \<Rightarrow> lmd_event_out \<Rightarrow> lmd_output_file \<Rightarrow> (unit, lmd_output_file) result" where
  "write_event fs event w =
     andthen (write_event_buffered event False True w) (\<lambda>_ w. can_change_file fs (count_event w))"

text \<open>The event numbers are unsigned: a number beyond the last one plus the cut may wrap.\<close>

definition event_no_seen :: "file_system \<Rightarrow> u32 \<Rightarrow> lmd_output_file \<Rightarrow> (unit, lmd_output_file) result" where
  "event_no_seen fs eventno w =
     (let cut = of_event_cut w; last = of_last_eventno w in
      if cut = 0 then (Inr (), w)
      else
        andthen
          (if (eventno mod cut < last mod cut \<or> eventno < last \<or> eventno > last + cut) \<and>
              (last \<noteq> - 1 \<or> lf_cur_events (of_limits w) \<noteq> 0)
           then change_file fs w else (Inr (), w))
          (\<lambda>_ w. (Inr (), w\<lparr>of_last_eventno := eventno\<rparr>)))"

section \<open>The file header\<close>

text \<open>\<^verbatim>\<open>strncpy\<close> into a comment line; only the first comment's length is limited to the line.\<close>

definition comment_string :: "bool \<Rightarrow> bytes \<Rightarrow> filhe_string" where
  "comment_string limit comment =
     (let n = of_nat (length comment) :: u16;
          n = (if limit \<and> unat n > 78 then 78 else n)
      in \<lparr>fs_l = n, fs_str = take 78 (comment @ replicate 78 0)\<rparr>)"

definition put_comment :: "nat \<Rightarrow> filhe_string \<Rightarrow> s_filhe_extra \<Rightarrow> cxx_error + s_filhe_extra" where
  "put_comment i s f =
     (if i \<ge> 30 then Inl (Undef ''comment line outside s_strings'')
      else Inr (f\<lparr>fh_strings := (fh_strings f)[i := s]\<rparr>))"

text \<open>
  The place of the first comment; \<open>comment_index\<close> is handed on and, whatever the number of lines, less than 30
  when the next comment tests it.
\<close>

definition first_comment :: "bytes \<Rightarrow> s_filhe_extra \<Rightarrow> cxx_error + nat \<times> s_filhe_extra" where
  "first_comment comment f =
     (let (comment_index, f) = (if unat (fh_lines f) < 30 then (unat (fh_lines f), f\<lparr>fh_lines := fh_lines f + 1\<rparr>) else (29, f))
      in map_sum id (Pair comment_index) (put_comment comment_index (comment_string True comment) f))"

definition more_comment :: "bytes \<Rightarrow> nat \<times> s_filhe_extra \<Rightarrow> cxx_error + nat \<times> s_filhe_extra" where
  "more_comment comment = (\<lambda>(comment_index, f).
     if comment \<noteq> [] \<and> comment_index < 30
     then
       let comment_index = unat (fh_lines f); f = f\<lparr>fh_lines := fh_lines f + 1\<rparr>
       in map_sum id (Pair comment_index) (put_comment comment_index (comment_string False comment) f)
     else Inr (comment_index, f))"

definition header_comments :: "bytes \<Rightarrow> bytes \<Rightarrow> bytes \<Rightarrow> s_filhe_extra \<Rightarrow> cxx_error + s_filhe_extra" where
  "header_comments add_comment comment2 comment3 f =
     (case first_comment add_comment f of
        Inl e \<Rightarrow> Inl e
      | Inr r \<Rightarrow> (case more_comment comment2 r of Inl e \<Rightarrow> Inl e | Inr r \<Rightarrow> map_sum id snd (more_comment comment3 r)))"

definition set_file_header ::
  "s_filhe_extra option \<Rightarrow> bytes \<Rightarrow> bytes \<Rightarrow> bytes \<Rightarrow> lmd_output_file \<Rightarrow> (unit, lmd_output_file) result" where
  "set_file_header extra add_comment comment2 comment3 w =
     (let f = (case extra of None \<Rightarrow> filhe_of_mem (replicate sizeof_filhe_extra 0) | Some f \<Rightarrow> f) in
      case header_comments add_comment comment2 comment3 f of
        Inl e \<Rightarrow> (Inl e, w\<lparr>of_file_header_extra := f\<rparr>)
      | Inr f \<Rightarrow>
          let w = w\<lparr>of_file_header_extra := f, of_has_file_header := True\<rparr>
          in if of_cur_buf w = None then write_file_header f w else (Inr (), w))"

section \<open>The cut on event numbers\<close>

lemma cut_boundary:
  fixes e l c :: nat
  assumes "l \<le> e" and "0 < c"
  shows "e mod c < l mod c \<or> l + c < e \<longleftrightarrow> e div c \<noteq> l div c \<and> e \<noteq> l + c"
proof (cases "l + c < e")
  case True
  then have "(l + c) div c \<le> e div c" by (intro div_le_mono) simp
  then show ?thesis using True assms(2) div_add_self2 [of c l] by auto
next
  case False
  then have "e div c = l div c \<or> e div c = l div c + 1"
    using div_le_mono [OF assms(1), of c] div_le_mono [of e "l + c" c] assms(2) div_add_self2 [of c l] by linarith
  then show ?thesis
  proof
    assume eq: "e div c = l div c"
    then have "l mod c \<le> e mod c" using assms(1) div_mult_mod_eq [of e c] div_mult_mod_eq [of l c] unfolding eq by linarith
    then show ?thesis using False eq by simp
  next
    assume n: "e div c = l div c + 1"
    then have "e + l mod c = l + c + e mod c" using div_mult_mod_eq [of e c] div_mult_mod_eq [of l c] unfolding n add_mult_distrib by linarith
    then show ?thesis using False n by linarith
  qed
qed

text \<open>The test of the source on unsigned numbers; \<open>last + cut\<close> may wrap.\<close>

lemma cut_test:
  fixes cut eventno last :: u32
  assumes "cut \<noteq> 0"
  shows "(eventno mod cut < last mod cut \<or> eventno < last \<or> eventno > last + cut) \<longleftrightarrow>
    (eventno < last \<or> (eventno div cut \<noteq> last div cut \<and> eventno \<noteq> last + cut) \<or> 2 ^ 32 \<le> unat last + unat cut)"
proof (cases "eventno < last")
  case False
  then have le: "unat last \<le> unat eventno" by (simp add: word_less_nat_alt)
  show ?thesis
  proof (cases "2 ^ 32 \<le> unat last + unat cut")
    case True
    have lt: "unat cut < 2 ^ 32" "unat last < 2 ^ 32" using unsigned_less [of cut] unsigned_less [of last] by simp_all
    have "unat (last + cut) = (unat last + unat cut) mod 2 ^ 32" by (simp add: unat_word_ariths)
    also have "\<dots> = unat last + unat cut - 2 ^ 32" using True lt by (subst le_mod_geq) simp_all
    finally have "unat (last + cut) < unat last" using True lt by linarith
    then show ?thesis using True le by (simp add: word_less_nat_alt)
  next
    case no_wrap: False
    then have sum: "unat (last + cut) = unat last + unat cut" by (simp add: unat_word_ariths)
    have "(eventno mod cut < last mod cut \<or> eventno > last + cut) \<longleftrightarrow>
        (unat eventno mod unat cut < unat last mod unat cut \<or> unat last + unat cut < unat eventno)"
      unfolding word_less_nat_alt unat_mod sum ..
    also have "\<dots> \<longleftrightarrow> unat eventno div unat cut \<noteq> unat last div unat cut \<and> unat eventno \<noteq> unat last + unat cut"
      using assms le by (intro cut_boundary) (simp_all add: unat_gt_0)
    also have "\<dots> \<longleftrightarrow> eventno div cut \<noteq> last div cut \<and> eventno \<noteq> last + cut"
      unfolding unat_div [symmetric] sum [symmetric] word_unat_eq_iff ..
    finally show ?thesis using False no_wrap by blast
  qed
qed simp

text \<open>C28. For every event number, every last number and every cut: without a cut nothing is done. Otherwise the file is
  changed, except at the start when nothing was written yet, exactly when the number went back or wrapped around, when it
  has passed into another block of the cut's size but did not grow by just the size of the cut, or when the
  last number plus the cut does not fit into 32 bits: then the file is changed at every event. The number is remembered.\<close>

theorem event_cut_changes:
  "event_no_seen fs eventno w =
     (let cut = of_event_cut w; last = of_last_eventno w in
      if cut = 0 then (Inr (), w)
      else
        andthen
          (if (last \<noteq> - 1 \<or> lf_cur_events (of_limits w) \<noteq> 0) \<and>
              (eventno < last \<or> (eventno div cut \<noteq> last div cut \<and> eventno \<noteq> last + cut) \<or> 2 ^ 32 \<le> unat last + unat cut)
           then change_file fs w else (Inr (), w))
          (\<lambda>_ w. (Inr (), w\<lparr>of_last_eventno := eventno\<rparr>)))"
proof (cases "of_event_cut w = 0")
  case False
  from cut_test [OF this, of eventno "of_last_eventno w"] show ?thesis unfolding event_no_seen_def Let_def by (simp only: conj_commute if_False)
qed (simp add: event_no_seen_def)

definition every_file :: file_system where
  "every_file = \<lparr>fs_exists = (\<lambda>_. False), fs_can_open = (\<lambda>_. True)\<rparr>"

definition cut_at_10 :: "u32 \<Rightarrow> lmd_output_file" where
  "cut_at_10 eventno = (output_file_new [])\<lparr>of_event_cut := 10, of_last_eventno := eventno\<rparr>"

theorem event_cut_changes_witness:
  "event_no_seen every_file 15 (cut_at_10 5) = (Inr (), cut_at_10 15) \<and>
   event_no_seen every_file 15 (cut_at_10 (- 1)) = (Inr (), cut_at_10 15) \<and>
   event_no_seen every_file 14 (cut_at_10 5) = andthen (change_file every_file (cut_at_10 5)) (\<lambda>_ w. (Inr (), w\<lparr>of_last_eventno := 14\<rparr>)) \<and>
   event_no_seen every_file 8 (cut_at_10 9) = andthen (change_file every_file (cut_at_10 9)) (\<lambda>_ w. (Inr (), w\<lparr>of_last_eventno := 8\<rparr>)) \<and>
   event_no_seen every_file 4294967293 (cut_at_10 4294967292) =
     andthen (change_file every_file (cut_at_10 4294967292)) (\<lambda>_ w. (Inr (), w\<lparr>of_last_eventno := 4294967293\<rparr>))"
  unfolding event_cut_changes by (simp add: cut_at_10_def output_file_new_def Let_def limit_file_size_new_def)

section \<open>The lines of the file header\<close>

lemma put_at: "i < length xs \<Longrightarrow> xs[i := s] = take i xs @ s # drop (Suc i) xs"
  by (rule upd_conv_take_nth_drop)

lemma more_comment_spec:
  assumes "fh_strings f = xs @ ys" "length (xs @ ys) = 30" "unat (fh_lines f) = length xs" "i < 30"
  shows "more_comment c (i, f) =
           (if c = [] then Inr (i, f)
            else if ys = [] then Inl (Undef ''comment line outside s_strings'')
            else Inr (length xs, f\<lparr>fh_lines := fh_lines f + 1, fh_strings := (xs @ [comment_string False c]) @ tl ys\<rparr>))"
  using assms by (cases ys) (auto simp: more_comment_def put_comment_def Let_def)

lemma unat_lines: "unat (n :: u32) < 30 \<Longrightarrow> unat (n + 1) = unat n + 1"
  by (simp add: unat_word_ariths)

text \<open>C29. The comments are appended to the lines of the file header, the first one over the last line
  when all lines are in use. When one of the other two comments does not fit, it is written
  outside the array of lines.\<close>

theorem header_comments_lines:
  assumes "length (fh_strings f) = 30"
  shows "header_comments c1 c2 c3 f =
     (let n = min 29 (unat (fh_lines f));
          cs = comment_string True c1 # map (comment_string False) (filter (\<lambda>c. c \<noteq> []) [c2, c3])
      in if length cs > 1 \<and> unat (fh_lines f) + length cs > 30 then Inl (Undef ''comment line outside s_strings'')
         else Inr (f\<lparr>fh_lines := (if unat (fh_lines f) < 30 then fh_lines f + of_nat (length cs) else fh_lines f),
                     fh_strings := take n (fh_strings f) @ cs @ drop (n + length cs) (fh_strings f)\<rparr>))"
proof (cases "unat (fh_lines f) < 30")
  case True
  let ?n = "unat (fh_lines f)" and ?s = "fh_strings f"
  let ?xs = "take ?n ?s @ [comment_string True c1]" and ?ys = "drop (Suc ?n) ?s"
  let ?f1 = "f\<lparr>fh_lines := fh_lines f + 1, fh_strings := ?xs @ ?ys\<rparr>"
  have f1: "first_comment c1 f = Inr (?n, ?f1)" using True assms by (simp add: first_comment_def put_comment_def put_at)
  have n1: "unat (fh_lines ?f1) = length ?xs" "length (?xs @ ?ys) = 30" using True assms by (simp_all add: unat_lines)
  have m: "min 29 ?n = ?n" using True by simp
  show ?thesis
  proof (cases "?ys = []")
    case empty: True
    then have "?n = 29" using True assms by simp
    then show ?thesis unfolding header_comments_def f1 m using more_comment_spec [of ?f1 ?xs ?ys 29] n1 empty assms
      by (auto simp: Let_def)
  next
    case False
    let ?f2 = "?f1\<lparr>fh_lines := fh_lines ?f1 + 1, fh_strings := (?xs @ [comment_string False c2]) @ tl ?ys\<rparr>"
    have "Suc ?n < 30" using False assms by simp
    then have n2: "unat (fh_lines ?f2) = length (?xs @ [comment_string False c2])" "length ((?xs @ [comment_string False c2]) @ tl ?ys) = 30"
      using n1 assms unat_lines [of "fh_lines f + 1"] unat_lines [of "fh_lines f"] by simp_all
    show ?thesis unfolding header_comments_def f1 m
      using more_comment_spec [of ?f1 ?xs ?ys ?n] more_comment_spec [of ?f2 "?xs @ [comment_string False c2]" "tl ?ys" "length ?xs"] n1 n2 False assms \<open>Suc ?n < 30\<close>
      by (auto simp: Let_def tl_drop drop_Suc [symmetric] add.assoc)
  qed
next
  case False
  then show ?thesis using assms
    by (auto simp: header_comments_def first_comment_def more_comment_def put_comment_def Let_def put_at)
qed

definition header_example :: s_filhe_extra where
  "header_example = filhe_of_mem (replicate 2716 0)"

lemma header_example_lines: "length (fh_strings header_example) = 30"
  unfolding header_example_def filhe_of_mem_def s_filhe_extra.select_convs length_map by simp

theorem header_comments_lines_witness:
  "header_comments [65] [66] [] (header_example\<lparr>fh_lines := 29\<rparr>) = Inl (Undef ''comment line outside s_strings'') \<and>
   header_comments [65] [] [] (header_example\<lparr>fh_lines := 30\<rparr>) =
     Inr (header_example\<lparr>fh_lines := 30, fh_strings := take 29 (fh_strings header_example) @ [comment_string True [65]]\<rparr>)"
  using header_comments_lines [of "header_example\<lparr>fh_lines := 29\<rparr>" "[65]" "[66]" "[]"]
    header_comments_lines [of "header_example\<lparr>fh_lines := 30\<rparr>" "[65]" "[]" "[]"] header_example_lines
  by simp

end
