(* ===== verification/Lmd_File_Split.thy ===== *)
theory Lmd_File_Split
  imports Lmd_File_Output
begin

text \<open>
  Proofs about the file level of the LMD writer: which files a sequence of events is written to.
  While a file is written, \<open>current\<close> says which events it holds; changing the file closes it,
  opens the next one and replays the sticky events into it.
\<close>

section \<open>What writing an event leaves alone\<close>

definition frame :: "lmd_output_file \<Rightarrow> lmd_output_file" where
  "frame w = w\<lparr>of_buffer_header := zero_bufhe, of_cur_buf := None, of_cur_buf_length := 0, of_cur_buf_left := 0,
     of_cur_buf_usable := 0, of_stream_left := 0, of_stream_left_max := 0, of_limits := (of_limits w)\<lparr>lf_cur_size := 0\<rparr>,
     of_total_written := 0, of_clock := [], of_out := []\<rparr>"

lemma frame_updates [simp]:
  "frame (w\<lparr>of_buffer_header := h\<rparr>) = frame w" "frame (w\<lparr>of_cur_buf := b\<rparr>) = frame w" "frame (w\<lparr>of_cur_buf_length := n\<rparr>) = frame w"
  "frame (w\<lparr>of_cur_buf_left := n\<rparr>) = frame w" "frame (w\<lparr>of_cur_buf_usable := n\<rparr>) = frame w" "frame (w\<lparr>of_stream_left := n\<rparr>) = frame w"
  "frame (w\<lparr>of_stream_left_max := n\<rparr>) = frame w" "frame (w\<lparr>of_total_written := n\<rparr>) = frame w" "frame (w\<lparr>of_clock := ts\<rparr>) = frame w"
  "frame (w\<lparr>of_out := d\<rparr>) = frame w" "frame (w\<lparr>of_limits := add_size n (of_limits w)\<rparr>) = frame w"
  by (simp_all add: frame_def add_size_def)

lemma frame_andthen: "(\<And>x w. frame (snd (f x w)) = frame w) \<Longrightarrow> frame (snd (andthen r f)) = frame (snd r)"
  by (cases r; cases "fst r") auto

lemma frame_write_buffer [simp]: "frame (snd (write_buffer n b w)) = frame w"
  by (simp add: write_buffer_def frame_def add_size_def)

lemma frame_Let: "(\<And>x. frame (snd (f x)) = v) \<Longrightarrow> frame (snd (let x = a in f x)) = v"
  by (simp add: Let_def)

lemma frame_if: "frame (snd p) = v \<Longrightarrow> frame (snd q) = v \<Longrightarrow> frame (snd (if b then p else q)) = v"
  by simp

lemma frame_send_buffer [simp]: "frame (snd (send_buffer lie w)) = frame w"
proof (cases "of_cur_buf w")
  case (Some d)
  show ?thesis unfolding send_buffer_def Some option.case by (intro frame_Let frame_if) simp_all
qed (simp add: send_buffer_def)

lemma frame_get_buffer [simp]: "frame (snd (get_buffer w)) = frame w"
  by (simp add: get_buffer_def Let_def split: option.split)

lemma frame_new_buffer [simp]: "frame (snd (new_buffer lie w)) = frame w"
  by (simp add: new_buffer_def Let_def frame_andthen read_clock_def split: list.split prod.split)

lemma frame_copy_to_buffer [simp]: "frame (snd (copy_to_buffer d s w)) = frame w"
  by (simp add: copy_to_buffer_def split: option.split sum.split)

lemma frame_event_header [simp]: "frame (snd (write_event_header h n w)) = frame w"
  by (simp add: write_event_header_def)

lemma frame_note_event [simp]: "frame (snd (note_event h w)) = frame w"
  by (simp add: note_event_def Let_def)

lemma frame_fill_buffer [simp]: "frame (snd (fill_buffer info cs off w)) = frame w"
  by (induction info cs off w rule: fill_buffer.induct) (simp_all add: Let_def frame_andthen)

lemma frame_write_fragment [simp]: "frame (snd (write_fragment ev n m cs off w)) = frame w"
  by (simp add: write_fragment_def Let_def frame_andthen)

lemma frame_write_fragments [simp]: "frame (snd (write_fragments ev n m cs off w)) = frame w"
proof (induction ev n m cs off w rule: write_fragments.induct)
  case (1 ev n m cs off w)
  then show ?case
    by (subst write_fragments.simps) (auto simp: Let_def split: prod.split sum.split dest!: arg_cong [where f = "\<lambda>x. frame (snd x)"])
qed

lemma frame_write_rest [simp]: "frame (snd (write_rest info cs off w)) = frame w"
  by (induction info cs off w rule: write_rest.induct) (simp_all add: frame_andthen)

lemma frame_write_event_data [simp]: "frame (snd (write_event_data ev w)) = frame w"
  by (simp add: write_event_data_def write_space_def write_last_def Let_def frame_andthen split: prod.split)

section \<open>The current file\<close>

definition current :: "bool \<Rightarrow> nat \<Rightarrow> lmd_event_out list \<Rightarrow> lmd_output_file \<Rightarrow> bool" where
  "current native B evs w \<longleftrightarrow> of_file w \<noteq> None \<and>
     (if evs = [] then unstarted native B w
      else \<exists>bufs ps cont no segs. laid native B bufs ps cont no w \<and> ps \<noteq> [] \<and> list_all2 (cut_into native B) evs segs \<and>
             concat (map lb_pieces bufs) @ ps = concat (map segment_pieces segs))"

definition holds_events :: "bool \<Rightarrow> nat \<Rightarrow> lmd_event_out list \<Rightarrow> bytes \<Rightarrow> bool" where
  "holds_events native B evs content \<longleftrightarrow> (if evs = [] then content = [] else file_of native B evs content)"

lemma laid_open: "laid native B bufs ps cont no w \<Longrightarrow> of_file w \<noteq> None"
  by (auto simp: laid_def filling_def)

lemma current_write:
  assumes "current native B evs w" and "writable B ev"
  shows "\<exists>w'. write_event_data ev w = (Inr (), w') \<and> of_files w' = of_files w \<and> current native B (evs @ [ev]) w'"
proof (cases "evs = []")
  case True
  from start_laid [of native B w] assms(1) True obtain w1 no where
    l: "write_space w = (Inr (), w1)" "laid native B [] [] False no w1" "of_files w1 = of_files w" "8 < of_cur_buf_left w1"
    by (auto simp: current_def)
  from write_one [OF l(1,2,4) _ assms(2)] obtain w' bufs ps cont no' seg where
    o: "write_event_data ev w = (Inr (), w')" "of_files w' = of_files w1" "laid native B bufs ps cont no' w'"
      "ps \<noteq> []" "cut_into native B ev seg" "concat (map lb_pieces bufs) @ ps = segment_pieces seg" by auto
  have "current native B [ev] w'" unfolding current_def using o(3-6) laid_open [OF o(3)]
    by (auto intro!: exI [of _ bufs] exI [of _ ps] exI [of _ cont] exI [of _ no'] exI [of _ "[seg]"])
  then show ?thesis using True o(1,2) l(3) by simp
next
  case False
  with assms(1) obtain bufs ps cont no segs where
    c: "laid native B bufs ps cont no w" "ps \<noteq> []" "list_all2 (cut_into native B) evs segs"
      "concat (map lb_pieces bufs) @ ps = concat (map segment_pieces segs)" by (auto simp: current_def)
  from write_all_laid [OF c(1,2), of "[ev]"] assms(2) obtain w' bufs' ps' cont' no' segs' where
    w: "write_all [ev] w = (Inr (), w')" "of_files w' = of_files w" "laid native B bufs' ps' cont' no' w'" "ps' \<noteq> []"
      "list_all2 (cut_into native B) [ev] segs'"
      "concat (map lb_pieces bufs') @ ps' = concat (map lb_pieces bufs) @ ps @ concat (map segment_pieces segs')" by auto
  have one: "write_event_data ev w = (Inr (), w')" using w(1) by (auto simp: andthen_def split: prod.splits sum.splits)
  have "concat (map lb_pieces bufs') @ ps' = concat (map segment_pieces (segs @ segs'))" using w(6) c(4) by (metis append.assoc concat_append map_append)
  moreover have "list_all2 (cut_into native B) (evs @ [ev]) (segs @ segs')" using c(3) w(5) by (rule list_all2_appendI)
  ultimately have "current native B (evs @ [ev]) w'" unfolding current_def using w(3,4) laid_open [OF w(3)]
    by (simp del: map_append concat_append) blast
  then show ?thesis using one w(2) by blast
qed

lemma current_close:
  assumes "current native B evs w"
  shows "\<exists>w' content. close_file w = (Inr (), w') \<and> of_files w' = of_files w @ [content] \<and> holds_events native B evs content \<and>
           unstarted native B w' \<and> of_file w' = None"
proof (cases "evs = []")
  case True
  then have u: "unstarted native B w" "of_file w \<noteq> None" using assms by (auto simp: current_def)
  let ?w = "w\<lparr>of_files := of_files w @ [[]], of_out := [], of_file := None, of_cur_buf := None, of_cur_buf_left := 0\<rparr>"
  have "close_file w = (Inr (), ?w)" using u by (simp add: close_file_def send_buffer_def unstarted_def Let_def)
  moreover have "unstarted native B ?w" using u(1) by (simp add: unstarted_def)
  ultimately show ?thesis using True by (intro exI [of _ ?w] exI [of _ "[]"]) (simp add: holds_events_def)
next
  case False
  with assms obtain bufs ps cont no segs where
    c: "laid native B bufs ps cont no w" "ps \<noteq> []" "list_all2 (cut_into native B) evs segs"
      "concat (map lb_pieces bufs) @ ps = concat (map segment_pieces segs)" by (auto simp: current_def)
  from close_file_of [OF c] False show ?thesis by (auto simp: holds_events_def)
qed

lemma open_unstarted:
  assumes "unstarted native B w" and "of_file w = None" and "fs_can_open fs name"
  shows "open_file fs name w = (Inr (), w\<lparr>of_file := Some name, of_names := of_names w @ [name]\<rparr>) \<and>
         current native B [] (w\<lparr>of_file := Some name, of_names := of_names w @ [name]\<rparr>)"
proof -
  have "close_file w = (Inr (), w\<lparr>of_cur_buf := None, of_cur_buf_left := 0\<rparr>)"
    using assms by (simp add: close_file_def send_buffer_def unstarted_def Let_def)
  moreover have "w\<lparr>of_cur_buf := None, of_cur_buf_left := 0\<rparr> = w" using assms(1) by (cases w) (simp add: unstarted_def)
  ultimately show ?thesis using assms by (simp add: open_file_def current_def unstarted_def)
qed

text \<open>What the frame says.\<close>

lemma frame_eqD:
  assumes "frame w' = frame w"
  shows "of_file w' = of_file w \<and> of_names w' = of_names w \<and> of_files w' = of_files w \<and> of_sticky w' = of_sticky w \<and>
         of_has_file_header w' = of_has_file_header w \<and> (of_limits w')\<lparr>lf_cur_size := 0\<rparr> = (of_limits w)\<lparr>lf_cur_size := 0\<rparr>"
  using assms unfolding frame_def by (cases w; cases w') simp

lemma frame_close:
  "frame (snd (close_file w)) =
     (frame w)\<lparr>of_file := None, of_files := of_files w @ (if of_file w = None then [] else [of_out (snd (send_buffer 0 w))])\<rparr>"
proof -
  obtain r w1 where s: "send_buffer 0 w = (r, w1)" by (cases "send_buffer 0 w")
  then have f: "frame w1 = frame w" using frame_send_buffer [of 0 w] by simp
  note d = frame_eqD [OF f]
  have upd: "frame (v\<lparr>of_files := a, of_file := b\<rparr>) = (frame v)\<lparr>of_file := b, of_files := a\<rparr>" for v a b by (simp add: frame_def)
  show ?thesis
  proof (cases "of_file w = None")
    case True
    then have "(frame w)\<lparr>of_file := None, of_files := of_files w @ []\<rparr> = frame w" by (simp add: frame_def)
    then show ?thesis using s f d True by (simp add: close_file_def Let_def)
  next
    case False
    have "frame (w1\<lparr>of_files := of_files w1 @ [of_out w1], of_out := [], of_file := None, of_cur_buf := None, of_cur_buf_left := 0\<rparr>) =
        (frame w1)\<lparr>of_file := None, of_files := of_files w1 @ [of_out w1]\<rparr>" by (simp add: frame_def)
    then show ?thesis using s f d False by (simp add: close_file_def Let_def)
  qed
qed

section \<open>The names of the files\<close>

lemma length_decimal: "n < 10 ^ Suc k \<Longrightarrow> length (decimal n) \<le> Suc k"
proof (induction k arbitrary: n)
  case (Suc k)
  show ?case
  proof (cases "n < 10")
    case False
    have "n div 10 < 10 ^ Suc k" using Suc.prems by (simp add: less_mult_imp_div_less)
    then show ?thesis using Suc.IH [of "n div 10"] False by (subst decimal.simps) simp
  qed (simp add: decimal_small)
qed (simp add: decimal_small)

definition numbered_names :: "string \<Rightarrow> string \<Rightarrow> limit_file_size \<Rightarrow> bool" where
  "numbered_names pre post lf \<longleftrightarrow>
     lf_filename_base lf = Some (pre @ ''%0*d'' @ post) \<and> CHR ''%'' \<notin> set pre \<and> CHR ''%'' \<notin> set post \<and>
     lf_filename_no_len lf \<le> 35 \<and> \<not> lf_avoid_used_number lf \<and> lf_may_change_file lf"

definition file_name :: "string \<Rightarrow> string \<Rightarrow> limit_file_size \<Rightarrow> nat \<Rightarrow> string" where
  "file_name pre post lf i = pre @ zero_padded (lf_filename_no_len lf) (lf_filename_no lf + i) @ post"

lemma format_numbered:
  assumes "numbered_names pre post lf" and "lf_filename_no lf < 2 ^ 31"
  shows "choose_filename ex lf = (Inr (file_name pre post lf 0), lf)"
proof -
  have "length (decimal (lf_filename_no lf)) \<le> Suc 9" using assms(2) by (intro length_decimal) simp
  then have "length (zero_padded (lf_filename_no_len lf) (lf_filename_no lf)) \<le> 35"
    using assms(1) by (simp add: length_zero_padded numbered_names_def)
  then have "format_filename lf = Inr (file_name pre post lf 0)"
    using assms(1) sprintf_number [of pre post] by (simp add: format_filename_def numbered_names_def file_name_def)
  then show ?thesis using assms(1) by (subst choose_filename.simps) (simp add: numbered_names_def)
qed

lemma file_name_inj: "file_name pre post lf i = file_name pre post lf j \<Longrightarrow> i = j"
  using zero_padded_inj [of "lf_filename_no_len lf" "lf_filename_no lf + i" "lf_filename_no lf + j"] by (auto simp: file_name_def)

section \<open>Changing the file\<close>

lemma laid_limits [simp]: "laid native B bufs ps cont no (w\<lparr>of_limits := lf\<rparr>) = laid native B bufs ps cont no w"
  by (simp add: laid_def filling_def)

lemma current_updates [simp]:
  "current native B evs (w\<lparr>of_limits := lf\<rparr>) = current native B evs w"
  "current native B evs (w\<lparr>of_sticky := st\<rparr>) = current native B evs w"
  by (simp_all add: current_def unstarted_def)

text \<open>What stays the same while events are written to one file.\<close>

definition settings :: "lmd_output_file \<Rightarrow> bool \<times> string list \<times> bytes list \<times> lmd_sticky_store \<times> limit_file_size" where
  "settings w = (of_has_file_header w, of_names w, of_files w, of_sticky w, (of_limits w)\<lparr>lf_cur_size := 0, lf_cur_events := 0\<rparr>)"

lemma settings_frame: "frame w' = frame w \<Longrightarrow> settings w' = settings w"
  using frame_eqD [of w' w] by (cases "of_limits w"; cases "of_limits w'") (simp add: settings_def)

lemma settings_count [simp]: "settings (count_event w) = settings w"
  by (cases "of_limits w") (simp add: settings_def count_event_def add_events_def)

lemma settings_limits:
  assumes "settings w' = settings w"
  shows "of_has_file_header w' = of_has_file_header w" "of_names w' = of_names w" "of_files w' = of_files w" "of_sticky w' = of_sticky w"
    "lf_limit_events (of_limits w') = lf_limit_events (of_limits w)" "lf_filename_no (of_limits w') = lf_filename_no (of_limits w)"
    "lf_filename_no_len (of_limits w') = lf_filename_no_len (of_limits w)"
    "numbered_names pre post (of_limits w') = numbered_names pre post (of_limits w)"
    "file_name pre post (of_limits w') = file_name pre post (of_limits w)"
    "(of_limits w')\<lparr>lf_filename_no := k, lf_cur_size := 0, lf_cur_events := 0\<rparr> = (of_limits w)\<lparr>lf_filename_no := k, lf_cur_size := 0, lf_cur_events := 0\<rparr>"
  using assms by (cases "of_limits w"; cases "of_limits w'"; simp add: settings_def numbered_names_def file_name_def fun_eq_iff)+

lemma current_replay:
  assumes "current native B evs w" and "list_all (writable B) rs"
  shows "\<exists>w'. each replay_event rs w = (Inr (), w') \<and> settings w' = settings w \<and> current native B (evs @ rs) w'"
  using assms
proof (induction rs arbitrary: evs w)
  case (Cons r rs)
  from current_write [OF Cons.prems(1), of r] Cons.prems(2) obtain w1 where
    w1: "write_event_data r w = (Inr (), w1)" "current native B (evs @ [r]) w1" by auto
  have "settings w1 = settings w" using frame_write_event_data [of r w] w1(1) by (intro settings_frame) simp
  moreover have "replay_event r w = (Inr (), count_event w1)"
    using w1(1) by (simp add: replay_event_def write_event_buffered_def note_sticky_def)
  moreover have "current native B (evs @ [r]) (count_event w1)" using w1(2) by (simp add: count_event_def)
  ultimately show ?case using Cons.IH [of "evs @ [r]" "count_event w1"] Cons.prems(2) by auto
qed auto

lemma change_closing:
  assumes w1: "close_file w = (Inr (), w1)" "unstarted native B w1" "of_file w1 = None"
    and p: "\<not> of_has_file_header w" "sticky_write_events (of_sticky w) = Inr rs" "list_all (writable B) rs"
    and n: "numbered_names pre post (of_limits w)"
    and no: "lf_filename_no (of_limits w) + 1 < 2 ^ 31" and fs: "fs_can_open fs (file_name pre post (of_limits w) 0)"
  shows "\<exists>w'. change_file fs w = (Inr (), w') \<and> of_files w' = of_files w1 \<and>
           current native B rs w' \<and> of_names w' = of_names w @ [file_name pre post (of_limits w) 0] \<and>
           \<not> of_has_file_header w' \<and> of_sticky w' = of_sticky w \<and>
           of_limits w' = (of_limits w)\<lparr>lf_filename_no := lf_filename_no (of_limits w) + 1, lf_cur_size := 0, lf_cur_events := 0\<rparr>"
proof -
  let ?lf = "of_limits w" and ?name = "file_name pre post (of_limits w) 0"
  have ch: "limited (choose_filename ex) w = (Inr ?name, w)" for ex
    using format_numbered [OF n, of ex] no by (simp add: limited_def)
  obtain fl where "frame w1 = (frame w)\<lparr>of_file := None, of_files := fl\<rparr>" using frame_close [of w] w1(1) by simp
  then have "frame w1 = frame (w\<lparr>of_file := None, of_files := fl\<rparr>)" by (simp add: frame_def)
  from settings_frame [OF this] have s1: "settings w1 = settings (w\<lparr>of_files := fl\<rparr>)" by (simp add: settings_def)
  note f1 = settings_limits [OF s1]
  let ?w2 = "w1\<lparr>of_file := Some ?name, of_names := of_names w @ [?name]\<rparr>"
  have w2: "open_file fs ?name w1 = (Inr (), ?w2)" "current native B [] ?w2"
    using open_unstarted [OF w1(2,3) fs] f1(2) by simp_all
  from current_replay [OF w2(2) p(3)] obtain w3 where
    w3: "each replay_event rs ?w2 = (Inr (), w3)" "settings w3 = settings ?w2" "current native B rs w3" by auto
  note f3 = settings_limits [OF w3(2)]
  have "output_new_file fs ?name w = (Inr (), w3)"
    using w1(1) w2(1) p f1(1,4) w3(1) by (simp add: output_new_file_def replay_sticky_def)
  moreover have "lf_may_change_file ?lf" using n by (simp add: numbered_names_def)
  moreover have "lf_filename_no (of_limits w3) = lf_filename_no ?lf" using f3(6) f1(6) by simp
  ultimately have "change_file fs w = (Inr (), w3\<lparr>of_limits := (of_limits w3)\<lparr>lf_filename_no := lf_filename_no ?lf + 1,
      lf_cur_size := 0, lf_cur_events := 0\<rparr>\<rparr>)" (is "_ = (_, ?w4)")
    using ch no by (simp add: change_file_def limited_def advance_number_def next_number_def)
  moreover have "of_limits ?w4 = ?lf\<lparr>lf_filename_no := lf_filename_no ?lf + 1, lf_cur_size := 0, lf_cur_events := 0\<rparr>"
    using f3(10) [of "lf_filename_no ?lf + 1"] f1(10) [of "lf_filename_no ?lf + 1"] by simp
  ultimately show ?thesis using w3(3) f1 f3 p(1) by (intro exI [of _ ?w4]) simp
qed

section \<open>Events over several files\<close>

definition keep_sticky :: "lmd_event_out \<Rightarrow> lmd_sticky_store \<Rightarrow> (unit, lmd_sticky_store) result" where
  "keep_sticky ev st = (if is_event_sticky (eo_header ev) then sticky_insert ev True st else (Inr (), st))"

text \<open>A file that started with replayed events \<open>rs\<close> and has room for more than the events \<open>evs\<close>.\<close>

definition filing :: "string \<Rightarrow> string \<Rightarrow> bool \<Rightarrow> nat \<Rightarrow> lmd_event_out list \<Rightarrow> lmd_event_out list \<Rightarrow> lmd_output_file \<Rightarrow> bool" where
  "filing pre post native B rs evs w \<longleftrightarrow>
     current native B (rs @ evs) w \<and> \<not> of_has_file_header w \<and> numbered_names pre post (of_limits w) \<and>
     lf_cur_events (of_limits w) = of_nat (length evs) \<and> length evs < unat (lf_limit_events (of_limits w))"

definition same_names :: "limit_file_size \<Rightarrow> limit_file_size \<Rightarrow> bool" where
  "same_names lf' lf \<longleftrightarrow> lf_limit_events lf' = lf_limit_events lf \<and> lf_filename_no_len lf' = lf_filename_no_len lf"

lemma write_event_filing:
  assumes f: "filing pre post native B rs evs w" and ev: "writable B ev"
    and st: "keep_sticky ev (of_sticky w) = (Inr (), st)" "sticky_write_events st = Inr rs'" "list_all (writable B) rs'"
    and no: "lf_filename_no (of_limits w) + 1 < 2 ^ 31" and fs: "fs_can_open fs (file_name pre post (of_limits w) 0)"
  shows "\<exists>w' full. write_event fs ev w = (Inr (), w') \<and> of_sticky w' = st \<and> same_names (of_limits w') (of_limits w) \<and>
           filing pre post native B (if full then rs' else rs) (if full then [] else evs @ [ev]) w' \<and>
           (if full then (\<exists>content. of_files w' = of_files w @ [content] \<and> holds_events native B (rs @ evs @ [ev]) content) \<and>
                of_names w' = of_names w @ [file_name pre post (of_limits w) 0] \<and>
                lf_filename_no (of_limits w') = lf_filename_no (of_limits w) + 1
            else of_files w' = of_files w \<and> of_names w' = of_names w \<and> lf_filename_no (of_limits w') = lf_filename_no (of_limits w))"
proof -
  let ?lf = "of_limits w" and ?w0 = "w\<lparr>of_sticky := st\<rparr>"
  have note_st: "note_sticky ev False True w = (Inr (), ?w0)"
    using st(1) by (auto simp: note_sticky_def keep_sticky_def split: prod.split if_splits)
  have "current native B (rs @ evs) ?w0" using f by (simp add: filing_def)
  from current_write [OF this ev] obtain w1 where
    w1: "write_event_data ev ?w0 = (Inr (), w1)" "current native B (rs @ evs @ [ev]) w1" by auto
  have fr: "frame w1 = frame ?w0" using frame_write_event_data [of ev ?w0] w1(1) by simp
  let ?w2 = "count_event w1"
  have "settings ?w2 = settings ?w0" using settings_frame [OF fr] by simp
  note s2 = settings_limits [OF this]
  have "lf_cur_events (of_limits w1) = lf_cur_events ?lf" using frame_eqD [OF fr] by (cases ?lf; cases "of_limits w1") simp
  then have ce: "lf_cur_events (of_limits ?w2) = of_nat (length (evs @ [ev]))" using f by (simp add: filing_def count_event_def add_events_def)
  have w2: "current native B (rs @ evs @ [ev]) ?w2" "\<not> of_has_file_header ?w2" "numbered_names pre post (of_limits ?w2)"
    using w1(2) f s2 by (simp_all add: count_event_def filing_def)
  have wb: "write_event fs ev w = can_change_file fs ?w2" using w1(1) note_st by (simp add: write_event_def write_event_buffered_def)
  show ?thesis
  proof (cases "lf_cur_size (of_limits ?w2) \<ge> lf_limit_size (of_limits ?w2) \<or> lf_cur_events (of_limits ?w2) \<ge> lf_limit_events (of_limits ?w2)")
    case True
    then have wc: "write_event fs ev w = change_file fs ?w2" using wb by (simp add: can_change_file_def Let_def)
    from current_close [OF w2(1)] obtain w3 content where
      c: "close_file ?w2 = (Inr (), w3)" "of_files w3 = of_files ?w2 @ [content]" "holds_events native B (rs @ evs @ [ev]) content"
        "unstarted native B w3" "of_file w3 = None" by blast
    have "sticky_write_events (of_sticky ?w2) = Inr rs'" using st(2) s2(4) by simp
    moreover have "lf_filename_no (of_limits ?w2) + 1 < 2 ^ 31" "fs_can_open fs (file_name pre post (of_limits ?w2) 0)" using no fs s2 by simp_all
    ultimately have "\<exists>w'. change_file fs ?w2 = (Inr (), w') \<and> of_files w' = of_files w3 \<and> current native B rs' w' \<and>
        of_names w' = of_names w @ [file_name pre post ?lf 0] \<and> \<not> of_has_file_header w' \<and> of_sticky w' = st \<and>
        of_limits w' = (of_limits ?w2)\<lparr>lf_filename_no := lf_filename_no ?lf + 1, lf_cur_size := 0, lf_cur_events := 0\<rparr>"
      using change_closing [OF c(1,4,5) w2(2) _ st(3) w2(3)] s2 by simp
    then obtain w' where
      d: "change_file fs ?w2 = (Inr (), w')" "of_files w' = of_files w3" "current native B rs' w'" "\<not> of_has_file_header w'"
        "of_names w' = of_names w @ [file_name pre post ?lf 0]" "of_sticky w' = st"
        "of_limits w' = (of_limits ?w2)\<lparr>lf_filename_no := lf_filename_no ?lf + 1, lf_cur_size := 0, lf_cur_events := 0\<rparr>" by blast
    have "filing pre post native B rs' [] w'" using d w2 f s2 by (auto simp: filing_def numbered_names_def)
    then show ?thesis using wc c(2,3) d s2
      by (intro exI [of _ w'] exI [of _ True]) (auto simp: same_names_def)
  next
    case False
    then have wc: "write_event fs ev w = (Inr (), ?w2)" using wb by (auto simp: can_change_file_def Let_def)
    have "length evs < 2 ^ 32 - 1" using f unat_u32 [of "lf_limit_events ?lf"] by (simp add: filing_def)
    then have "length (evs @ [ev]) < 2 ^ 32" by simp
    then have "unat (of_nat (length (evs @ [ev])) :: u32) = length (evs @ [ev])" by (simp only: unat_of_nat take_bit_eq_mod) simp
    moreover have "(of_nat (length (evs @ [ev])) :: u32) < lf_limit_events ?lf" using False ce s2(5) by (simp add: not_le)
    ultimately have "length (evs @ [ev]) < unat (lf_limit_events ?lf)" by (metis word_less_nat_alt)
    then have "filing pre post native B rs (evs @ [ev]) ?w2" using w2 ce s2(5) by (simp add: filing_def)
    then show ?thesis using wc s2 by (intro exI [of _ ?w2] exI [of _ False]) (auto simp: same_names_def)
  qed
qed

text \<open>The sticky events that can be replayed after each event, and what the files of a split hold.\<close>

definition replayed :: "lmd_sticky_store \<Rightarrow> lmd_event_out list" where
  "replayed st = (case sticky_write_events st of Inl _ \<Rightarrow> [] | Inr rs \<Rightarrow> rs)"

fun replayable :: "nat \<Rightarrow> lmd_event_out list \<Rightarrow> lmd_sticky_store \<Rightarrow> bool" where
  "replayable B [] st \<longleftrightarrow> True"
| "replayable B (ev # evs) st \<longleftrightarrow>
     (let (r, st') = keep_sticky ev st
      in r = Inr () \<and> (case sticky_write_events st' of Inl _ \<Rightarrow> False | Inr rs \<Rightarrow> list_all (writable B) rs) \<and> replayable B evs st')"

fun with_replay :: "lmd_event_out list \<Rightarrow> lmd_sticky_store \<Rightarrow> lmd_event_out list list \<Rightarrow> lmd_event_out list list" where
  "with_replay rs st [] = []"
| "with_replay rs st (g # gs) = (let st' = snd (each keep_sticky g st) in (rs @ g) # with_replay (replayed st') st' gs)"

lemma write_events_filing:
  assumes "filing pre post native B rs evs0 w" and "list_all (writable B) evs" "replayable B evs (of_sticky w)"
    and "each keep_sticky evs0 st0 = (Inr (), of_sticky w)"
    and "lf_filename_no (of_limits w) + length evs < 2 ^ 31" and "\<And>i. fs_can_open fs (file_name pre post (of_limits w) i)"
  shows "\<exists>w' rs' groups rest contents. each (write_event fs) evs w = (Inr (), w') \<and> filing pre post native B rs' rest w' \<and>
           of_files w' = of_files w @ contents \<and>
           with_replay rs st0 (groups @ [rest]) = butlast (with_replay rs st0 (groups @ [rest])) @ [rs' @ rest] \<and>
           list_all2 (holds_events native B) (butlast (with_replay rs st0 (groups @ [rest]))) contents \<and>
           concat groups @ rest = evs0 @ evs \<and>
           list_all (\<lambda>g. g \<noteq> [] \<and> length g \<le> unat (lf_limit_events (of_limits w))) groups \<and>
           length rest < unat (lf_limit_events (of_limits w)) \<and>
           of_names w' = of_names w @ map (file_name pre post (of_limits w)) [0..<length groups]"
  using assms
proof (induction evs arbitrary: rs evs0 w st0)
  case Nil
  then show ?case by (intro exI [of _ w] exI [of _ rs] exI [of _ "[]"] exI [of _ evs0] exI [of _ "[]"]) (simp add: filing_def Let_def)
next
  case (Cons ev evs)
  have lt: "length evs0 < unat (lf_limit_events (of_limits w))" using Cons.prems(1) by (simp add: filing_def)
  from Cons.prems(3) obtain st rs1 where
    st: "keep_sticky ev (of_sticky w) = (Inr (), st)" "sticky_write_events st = Inr rs1" "list_all (writable B) rs1" "replayable B evs st"
    by (auto split: prod.splits sum.splits)
  from write_event_filing [OF Cons.prems(1) _ st(1-3), of fs] Cons.prems(2,5,6) obtain w1 full where
    w1: "write_event fs ev w = (Inr (), w1)" "of_sticky w1 = st" "same_names (of_limits w1) (of_limits w)"
      "filing pre post native B (if full then rs1 else rs) (if full then [] else evs0 @ [ev]) w1"
      "if full then (\<exists>content. of_files w1 = of_files w @ [content] \<and> holds_events native B (rs @ evs0 @ [ev]) content) \<and>
                of_names w1 = of_names w @ [file_name pre post (of_limits w) 0] \<and>
                lf_filename_no (of_limits w1) = lf_filename_no (of_limits w) + 1
            else of_files w1 = of_files w \<and> of_names w1 = of_names w \<and> lf_filename_no (of_limits w1) = lf_filename_no (of_limits w)"
    by auto
  have each_ev: "each keep_sticky (evs0 @ [ev]) st0 = (Inr (), st)" using Cons.prems(4) st(1)
    by (induction evs0 arbitrary: st0) (auto simp: andthen_def split: prod.splits sum.splits)
  define st1 where "st1 = (if full then st else st0)"
  have k: "each keep_sticky (if full then [] else evs0 @ [ev]) st1 = (Inr (), of_sticky w1)" using each_ev w1(2) by (simp add: st1_def)
  have name: "file_name pre post (of_limits w1) i = file_name pre post (of_limits w) (if full then Suc i else i)" for i
    using w1(3,5) by (auto simp: file_name_def same_names_def split: if_splits)
  have no: "lf_filename_no (of_limits w1) + length evs < 2 ^ 31" using w1(5) Cons.prems(5) by (auto split: if_splits)
  have rp: "replayable B evs (of_sticky w1)" using st(4) w1(2) by simp
  let ?rs = "if full then rs1 else rs"
  from Cons.IH [OF w1(4) _ rp k no] Cons.prems(2,6) name obtain w' rs' groups rest contents where
    r: "each (write_event fs) evs w1 = (Inr (), w')" "filing pre post native B rs' rest w'" "of_files w' = of_files w1 @ contents"
      "with_replay ?rs st1 (groups @ [rest]) = butlast (with_replay ?rs st1 (groups @ [rest])) @ [rs' @ rest]"
      "list_all2 (holds_events native B) (butlast (with_replay ?rs st1 (groups @ [rest]))) contents"
      "concat groups @ rest = (if full then [] else evs0 @ [ev]) @ evs"
      "list_all (\<lambda>g. g \<noteq> [] \<and> length g \<le> unat (lf_limit_events (of_limits w))) groups"
      "length rest < unat (lf_limit_events (of_limits w))"
      "of_names w' = of_names w1 @ map (file_name pre post (of_limits w1)) [0..<length groups]"
    using w1(3) unfolding same_names_def by auto
  have e: "each (write_event fs) (ev # evs) w = (Inr (), w')" using w1(1) r(1) by simp
  show ?case
  proof (cases full)
    case True
    then obtain content where c: "of_files w1 = of_files w @ [content]" "holds_events native B (rs @ evs0 @ [ev]) content"
      "of_names w1 = of_names w @ [file_name pre post (of_limits w) 0]" using w1(5) by auto
    let ?groups = "(evs0 @ [ev]) # groups"
    have up: "[0..<Suc n] = 0 # map Suc [0..<n]" for n by (simp add: map_Suc_upt upt_conv_Cons)
    have "of_names w' = of_names w @ map (file_name pre post (of_limits w)) [0..<length ?groups]"
      using r(9) c(3) name True by (simp add: up comp_def del: upt_Suc)
    moreover have wr: "with_replay rs st0 (?groups @ [rest]) = (rs @ evs0 @ [ev]) # with_replay rs1 st (groups @ [rest])"
      using each_ev st(2) by (simp add: Let_def replayed_def)
    have ne: "with_replay rs1 st (groups @ [rest]) \<noteq> []" using r(4) True by (simp add: st1_def) (metis snoc_eq_iff_butlast)
    have "with_replay rs st0 (?groups @ [rest]) = butlast (with_replay rs st0 (?groups @ [rest])) @ [rs' @ rest]"
      unfolding wr using r(4) True ne by (simp add: st1_def)
    moreover have "list_all2 (holds_events native B) (butlast (with_replay rs st0 (?groups @ [rest]))) (content # contents)"
      unfolding wr using c(2) r(5) True ne by (simp add: st1_def)
    moreover have "concat ?groups @ rest = evs0 @ ev # evs" using r(6) True by simp
    moreover have "list_all (\<lambda>g. g \<noteq> [] \<and> length g \<le> unat (lf_limit_events (of_limits w))) ?groups" using r(7) lt by simp
    moreover have "of_files w' = of_files w @ content # contents" using r(3) c(1) by simp
    ultimately show ?thesis using e r(2,8) by blast
  next
    case False
    then show ?thesis using e r w1(5) name
      by (intro exI [of _ w'] exI [of _ rs'] exI [of _ groups] exI [of _ rest] exI [of _ contents]) (simp add: st1_def)
  qed
qed

section \<open>The events that are replayed\<close>

definition view_ok :: "nat \<Rightarrow> bytes \<times> bytes list \<Rightarrow> bool" where
  "view_ok B = (\<lambda>(front, subs). length front mod 4 = 0 \<and> list_all (\<lambda>b. length b mod 4 = 0) subs \<and>
     length front + length (concat subs) + B \<le> INT_MAX)"

lemma stored_event_writable:
  assumes "stored_event data (e, ss) = Inr ev" and "view_ok B (group_view data (e, ss))" and "me_offset e + me_length e \<le> length data"
  shows "writable B ev"
proof -
  let ?front = "slice (me_offset e) (me_length e) data" and ?rest = "slice (me_offset e + 16) (me_length e - 16) data"
  have n: "16 \<le> me_length e" using assms(1) by (simp add: stored_event_def Let_def split: if_splits)
  have l: "length ?front = me_length e" "length ?rest = me_length e - 16" using assms(3) n by (simp_all add: slice_def)
  have cs: "eo_chunks ev = Info_chunk # (if me_length e - 16 \<noteq> 0 then [Data_chunk ?rest False] else []) @
      map (\<lambda>s. Data_chunk (sub_bytes data s) False) (filter sub_live ss)"
    using assms(1) n by (auto simp: stored_event_def Let_def sub_bytes_def)
  have v: "me_length e mod 4 = 0" "list_all (\<lambda>b. length b mod 4 = 0) (group_subs data ss)"
    "me_length e + length (concat (group_subs data ss)) + B \<le> INT_MAX"
    using assms(2) l by (simp_all add: view_ok_def group_view_def)
  have r: "length ?rest mod 4 = 0" using v(1) l(2) n by (simp add: mod_eq_0_iff_dvd dvd_diff_nat)
  have i: "length (chunk_data info Info_chunk) = 8" for info by (simp add: words_of_event_info_def mem_def)
  have "get_length ev = me_length e - 8 + length (concat (group_subs data ss))"
    using n l by (simp add: get_length_def cs i group_subs_def length_concat comp_def del: chunk_data.simps(1))
  moreover have "aligned (eo_info ev) (eo_chunks ev)"
    using v(2) r i by (auto simp: aligned_def cs group_subs_def list_all_iff simp del: chunk_data.simps(1))
  ultimately show ?thesis using v(3) n by (simp add: writable_def)
qed

lemma stored_events_writable:
  assumes "groups_ok 0 i gs" and "ordered lo (regions gs) (length data)" and "stored_events data gs = Inr evs"
    and "list_all (view_ok B) (groups_view data gs)"
  shows "list_all (writable B) evs"
  using assms
proof (induction gs arbitrary: i lo evs)
  case (Cons g gs)
  obtain e ss where g: "g = (e, ss)" by (cases g)
  from Cons.prems(2) obtain m where o: "ordered m (regions gs) (length data)" by (auto simp: ordered_append)
  have ok: "groups_ok 0 (i + 1 + length (snd g)) gs" using Cons.prems(1) by (auto split: if_splits)
  have at: "me_live e \<noteq> 0 \<Longrightarrow> me_offset e + me_length e \<le> length data"
    using ordered_region [OF Cons.prems(2), of "me_offset e" "me_length e"] g by (simp add: group_regions_def)
  show ?case using Cons.prems(3,4) Cons.IH [OF ok o] g at stored_event_writable [of data e ss _ B]
    by (auto simp: groups_view_def live_groups_def split: if_splits sum.splits)
qed simp

lemma replay_writable:
  assumes "store_inv st" and "list_all (view_ok B) (store_view st)"
  shows "\<exists>evs. sticky_write_events st = Inr evs \<and> list_all (writable B) evs \<and>
           list_all2 (\<lambda>ev v. event_out_write ev = Inr (replay_bytes v)) evs (store_view st)"
proof -
  from assms obtain gs where s: "shape (length (ss_data st)) st gs" by (auto simp: store_inv_def store_upto_def)
  then have ok: "groups_ok 0 0 gs" "ordered 0 (regions gs) (length (ss_data st))" "ss_meta st = flat gs" by (simp_all add: shape_def)
  from stored_events_spec [OF ok(1,2)] obtain evs where
    e: "stored_events (ss_data st) gs = Inr evs" "list_all2 (\<lambda>ev v. event_out_write ev = Inr (replay_bytes v)) evs (groups_view (ss_data st) gs)"
    by blast
  then have "list_all (writable B) evs"
    using stored_events_writable [OF ok(1,2) e(1)] assms(2) store_view_shape [OF s] by simp
  then show ?thesis
    using e verify_shape [OF s] meta_groups_flat [OF ok(1), of 0] ok(3) store_view_shape [OF s] by (simp add: sticky_write_events_def)
qed

text \<open>Events for the output; what is said of the parts matters for sticky events only.\<close>

definition item_ok :: "nat \<Rightarrow> sticky_input \<Rightarrow> bool" where
  "item_ok B i \<longleftrightarrow> writable B (si_event i) \<and>
     (is_event_sticky (eo_header (si_event i)) \<longrightarrow>
        si_fits i \<and> si_discard i \<and> length (si_bytes i) + B \<le> INT_MAX \<and> list_all (\<lambda>b. length b mod 4 = 0) (si_stamps i @ si_subs i))"

definition item_spec :: "sticky_input \<Rightarrow> (bytes \<times> bytes list) list \<Rightarrow> (bytes \<times> bytes list) list" where
  "item_spec i v = (if is_event_sticky (eo_header (si_event i)) then si_spec i v else v)"

lemma strip_views:
  "list_all (view_ok B) v \<Longrightarrow> list_all (view_ok B) (strip ids v)"
proof (induction v)
  case (Cons x v)
  obtain f bs where x: "x = (f, bs)" by (cases x)
  have "length (concat (filter P bs)) \<le> length (concat bs)" for P by (induction bs) auto
  from this [of "\<lambda>b. bid b \<notin> ids"] show ?case using Cons x by (auto simp: view_ok_def list_all_iff)
qed simp

lemma latest_within: "set (latest discard subs) \<subseteq> set subs" "length (concat (latest discard subs)) \<le> length (concat subs)"
  by (induction subs) auto

lemma item_views:
  assumes "item_ok B i" and "list_all (view_ok B) v"
  shows "list_all (view_ok B) (item_spec i v)"
proof (cases "is_event_sticky (eo_header (si_event i))")
  case True
  let ?front = "si_header i @ concat (si_stamps i)"
  have k: "length (si_header i) = 16" "length ?front + length (concat (si_subs i)) + B \<le> INT_MAX"
    "list_all (\<lambda>b. length b mod 4 = 0) (si_stamps i)" "list_all (\<lambda>b. length b mod 4 = 0) (si_subs i)"
    using assms(1) True by (simp_all add: item_ok_def si_fits_def sticky_event_def si_bytes_def)
  have "list_all (\<lambda>b. length b mod 4 = 0) bs \<Longrightarrow> length (concat bs) mod 4 = 0" for bs :: "bytes list"
    by (induction bs) (auto simp: mod_add_eq [symmetric])
  then have "length ?front mod 4 = 0" using k(1,3) by (simp add: mod_add_eq [symmetric])
  then have "view_ok B (?front, latest (si_discard i) (si_subs i))"
    using k(2,4) latest_within [of "si_discard i" "si_subs i"] by (auto simp: view_ok_def list_all_iff)
  then show ?thesis using True strip_views [OF assms(2)] by (simp add: item_spec_def si_spec_def sticky_spec_def)
qed (use assms(2) in \<open>simp add: item_spec_def\<close>)

lemma item_kept:
  assumes "item_ok B i" and "store_inv st" and "length (ss_data st) + length (si_bytes i) < 2 ^ 64"
  shows "\<exists>st'. keep_sticky (si_event i) st = (Inr (), st') \<and> store_inv st' \<and> store_view st' = item_spec i (store_view st) \<and>
           length (ss_data st') \<le> length (ss_data st) + length (si_bytes i)"
  using sticky.put_spec [OF assms(2) _ assms(3)] assms
  by (auto simp: keep_sticky_def item_ok_def item_spec_def si_insert_def)

lemma items_replayable:
  assumes "list_all (item_ok B) items" and "store_inv st" and "list_all (view_ok B) (store_view st)"
    and "length (ss_data st) + sum_list (map (\<lambda>i. length (si_bytes i)) items) < 2 ^ 64"
  shows "replayable B (map si_event items) st"
  using assms
proof (induction items arbitrary: st)
  case (Cons i items)
  from item_kept [of B i st] Cons.prems obtain st' where
    k: "keep_sticky (si_event i) st = (Inr (), st')" "store_inv st'" "store_view st' = item_spec i (store_view st)"
      "length (ss_data st') \<le> length (ss_data st) + length (si_bytes i)" by auto
  have v: "list_all (view_ok B) (store_view st')" using item_views [of B i] Cons.prems k(3) by simp
  from replay_writable [OF k(2) v] Cons.IH [OF _ k(2) v] Cons.prems k show ?case by auto
qed simp

text \<open>What the store holds when each file begins.\<close>

fun file_views :: "(bytes \<times> bytes list) list \<Rightarrow> sticky_input list list \<Rightarrow> (bytes \<times> bytes list) list list" where
  "file_views v [] = []"
| "file_views v (g # gs) = v # file_views (fold item_spec g v) gs"

lemma items_kept:
  assumes "list_all (item_ok B) items" and "store_inv st" and "list_all (view_ok B) (store_view st)"
    and "length (ss_data st) + sum_list (map (\<lambda>i. length (si_bytes i)) items) < 2 ^ 64"
  shows "\<exists>st'. each keep_sticky (map si_event items) st = (Inr (), st') \<and> store_inv st' \<and> list_all (view_ok B) (store_view st') \<and>
           store_view st' = fold item_spec items (store_view st) \<and>
           length (ss_data st') \<le> length (ss_data st) + sum_list (map (\<lambda>i. length (si_bytes i)) items)"
  using assms
proof (induction items arbitrary: st)
  case (Cons i items)
  from item_kept [of B i st] Cons.prems obtain st' where
    k: "keep_sticky (si_event i) st = (Inr (), st')" "store_inv st'" "store_view st' = item_spec i (store_view st)"
      "length (ss_data st') \<le> length (ss_data st) + length (si_bytes i)" by auto
  have v: "list_all (view_ok B) (store_view st')" using item_views [of B i] Cons.prems k(3) by simp
  from Cons.IH [OF _ k(2) v] Cons.prems k show ?case by fastforce
qed simp

lemma with_replay_views:
  assumes "list_all (list_all (item_ok B)) groups" and "store_inv st" and "list_all (view_ok B) (store_view st)"
    and "length (ss_data st) + sum_list (map (\<lambda>i. length (si_bytes i)) (concat groups)) < 2 ^ 64"
  shows "\<exists>replays. with_replay (replayed st) st (map (map si_event) groups) = map2 (\<lambda>rs g. rs @ map si_event g) replays groups \<and>
           list_all2 (list_all2 (\<lambda>ev v. event_out_write ev = Inr (replay_bytes v))) replays (file_views (store_view st) groups)"
  using assms
proof (induction groups arbitrary: st)
  case (Cons g groups)
  from items_kept [of B g st] Cons.prems obtain st' where
    k: "each keep_sticky (map si_event g) st = (Inr (), st')" "store_inv st'" "list_all (view_ok B) (store_view st')"
      "store_view st' = fold item_spec g (store_view st)"
      "length (ss_data st') \<le> length (ss_data st) + sum_list (map (\<lambda>i. length (si_bytes i)) g)" by auto
  from Cons.IH [OF _ k(2,3)] Cons.prems k(5) obtain replays where
    r: "with_replay (replayed st') st' (map (map si_event) groups) = map2 (\<lambda>rs g. rs @ map si_event g) replays groups"
      "list_all2 (list_all2 (\<lambda>ev v. event_out_write ev = Inr (replay_bytes v))) replays (file_views (store_view st') groups)" by auto
  from replay_writable [OF Cons.prems(2,3)] obtain rs where
    "sticky_write_events st = Inr rs" "list_all2 (\<lambda>ev v. event_out_write ev = Inr (replay_bytes v)) rs (store_view st)" by blast
  then show ?case using r k(1,4) by (intro exI [of _ "rs # replays"]) (simp add: replayed_def)
qed simp

section \<open>Splitting\<close>

text \<open>A writer that has just been set up, with limits but without an open file.\<close>

definition limited_writer :: "bool \<Rightarrow> nat \<Rightarrow> nat \<Rightarrow> u32 \<Rightarrow> (u32 \<times> u32) list \<Rightarrow> lmd_output_file" where
  "limited_writer native B size_limit event_limit clock =
     (output_file_new clock)\<lparr>of_write_native := native, of_buf_size := B,
        of_limits := limit_file_size_new\<lparr>lf_limit_size := size_limit, lf_limit_events := event_limit\<rparr>\<rparr>"

definition write_files :: "file_system \<Rightarrow> string \<Rightarrow> lmd_event_out list \<Rightarrow> lmd_output_file \<Rightarrow> (unit, lmd_output_file) result" where
  "write_files fs filename evs w =
     andthen (parse_open_first_file fs filename w) (\<lambda>_ w. andthen (each (write_event fs) evs w) (\<lambda>_. close_file))"

lemma first_file:
  assumes "number_place filename = (digit, dot)" and "digit < dot" "dot - digit \<le> 35" and "CHR ''%'' \<notin> set filename"
    and "no = number_of_digits (slice digit (dot - digit) filename)" "no + 1 < 2 ^ 31"
    and "good_size B" "0 < event_limit" and "\<And>name. fs_can_open fs name"
  shows "\<exists>w. parse_open_first_file fs filename (limited_writer native B size_limit event_limit clock) = (Inr (), w) \<and>
           filing (take digit filename) (drop dot filename) native B [] [] w \<and> of_sticky w = sticky_store_new \<and> of_files w = [] \<and> of_names w = [filename] \<and>
           lf_filename_no (of_limits w) = no + 1 \<and> lf_filename_no_len (of_limits w) = dot - digit \<and>
           lf_limit_events (of_limits w) = event_limit"
proof -
  let ?pre = "take digit filename" and ?post = "drop dot filename" and ?w0 = "limited_writer native B size_limit event_limit clock"
  have "number_of_digits (slice digit (dot - digit) filename) < 2 ^ 31" using assms(5,6) by simp
  note q = parse_numbered [OF assms(1,2) this, folded assms(5)]
  let ?w1 = "?w0\<lparr>of_limits := (of_limits ?w0)\<lparr>lf_filename_no_len := dot - digit, lf_filename_no := no,
              lf_filename_base := Some (?pre @ ''%0*d'' @ ?post)\<rparr>\<rparr>"
  have w1: "limited (parse_filename filename) ?w0 = (Inr (), ?w1)" using q(1) by (simp add: limited_def)
  have u: "unstarted native B ?w1" "of_file ?w1 = None" "of_files ?w1 = []" "of_names ?w1 = []"
    "\<not> of_has_file_header ?w1" "of_sticky ?w1 = sticky_store_new"
    using assms(7) by (simp_all add: limited_writer_def output_file_new_def unstarted_def)
  have "sticky_write_events sticky_store_new = Inr []" by code_simp
  then have r: "sticky_write_events (of_sticky ?w1) = Inr []" "list_all (writable B) []" using u(6) by simp_all
  have c: "close_file ?w1 = (Inr (), ?w1)"
    by (simp add: close_file_def send_buffer_def Let_def limited_writer_def output_file_new_def)
  have "CHR ''%'' \<notin> set ?pre" "CHR ''%'' \<notin> set ?post" using assms(4) by (meson in_set_takeD, meson in_set_dropD)
  then have n: "numbered_names ?pre ?post (of_limits ?w1)"
    using assms(3) by (simp add: numbered_names_def limited_writer_def limit_file_size_new_def)
  have nm: "file_name ?pre ?post (of_limits ?w1) 0 = filename" using q(2) by (simp add: file_name_def)
  from change_closing [OF c u(1,2,5) r n _ assms(9)] assms(6) nm u(3,4,6) obtain w where
    w: "change_file fs ?w1 = (Inr (), w)" "of_files w = []" "current native B [] w" "of_names w = [filename]" "\<not> of_has_file_header w" "of_sticky w = sticky_store_new"
      "of_limits w = (of_limits ?w1)\<lparr>lf_filename_no := no + 1, lf_cur_size := 0, lf_cur_events := 0\<rparr>" by auto
  have "filing ?pre ?post native B [] [] w" using w n assms(8)
    by (auto simp: filing_def numbered_names_def limited_writer_def word_less_nat_alt)
  then show ?thesis using w w1 by (intro exI [of _ w]) (simp add: parse_open_first_file_def limited_writer_def)
qed

lemma concat_map_split: "concat gs = map f xs \<Longrightarrow> \<exists>hs. gs = map (map f) hs \<and> concat hs = xs"
proof (induction gs arbitrary: xs)
  case (Cons g gs)
  then have "map f (take (length g) xs) = g" "map f (drop (length g) xs) = concat gs"
    by (auto simp: take_map [symmetric] drop_map [symmetric] Cons.prems [symmetric])
  moreover from Cons.IH [of "drop (length g) xs"] this(2) obtain hs where "gs = map (map f) hs" "concat hs = drop (length g) xs" by auto
  ultimately show ?case by (intro exI [of _ "take (length g) xs # hs"]) simp
qed simp

lemma split_files:
  assumes "number_place filename = (digit, dot)" and "digit < dot" "dot - digit \<le> 35" and "CHR ''%'' \<notin> set filename"
    and "no = number_of_digits (slice digit (dot - digit) filename)" "no + 1 + length evs < 2 ^ 31"
    and "good_size B" "0 < event_limit" and "list_all (writable B) evs" "replayable B evs sticky_store_new"
    and "\<And>name. fs_can_open fs name"
  shows "\<exists>w groups. write_files fs filename evs (limited_writer native B size_limit event_limit clock) = (Inr (), w) \<and>
           concat groups = evs \<and> list_all2 (holds_events native B) (with_replay [] sticky_store_new groups) (of_files w) \<and>
           list_all (\<lambda>g. length g \<le> unat event_limit) groups \<and> list_all (\<lambda>g. g \<noteq> []) (butlast groups) \<and> groups \<noteq> [] \<and>
           of_names w = map (\<lambda>i. take digit filename @ zero_padded (dot - digit) (no + i) @ drop dot filename) [0..<length groups]"
proof -
  let ?pre = "take digit filename" and ?post = "drop dot filename" and ?w0 = "limited_writer native B size_limit event_limit clock"
  let ?name = "\<lambda>i. ?pre @ zero_padded (dot - digit) (no + i) @ ?post"
  have no1: "no + 1 < 2 ^ 31" using assms(6) by simp
  from first_file [OF assms(1-5) no1 assms(7,8,11), of native size_limit clock] obtain w1 where
    w1: "parse_open_first_file fs filename ?w0 = (Inr (), w1)" "filing ?pre ?post native B [] [] w1" "of_sticky w1 = sticky_store_new"
      "of_files w1 = []" "of_names w1 = [filename]"
      "lf_filename_no (of_limits w1) = no + 1" "lf_filename_no_len (of_limits w1) = dot - digit" "lf_limit_events (of_limits w1) = event_limit"
    by blast
  have "replayable B evs (of_sticky w1)" "each keep_sticky [] sticky_store_new = (Inr (), of_sticky w1)" using assms(10) w1(3) by simp_all
  from write_events_filing [OF w1(2) assms(9) this _ assms(11)] w1(4-8) assms(6) obtain w2 rs' groups rest contents where
    w2: "each (write_event fs) evs w1 = (Inr (), w2)" "filing ?pre ?post native B rs' rest w2" "of_files w2 = contents"
      "with_replay [] sticky_store_new (groups @ [rest]) = butlast (with_replay [] sticky_store_new (groups @ [rest])) @ [rs' @ rest]"
      "list_all2 (holds_events native B) (butlast (with_replay [] sticky_store_new (groups @ [rest]))) contents"
      "concat groups @ rest = evs" "list_all (\<lambda>g. g \<noteq> [] \<and> length g \<le> unat event_limit) groups" "length rest < unat event_limit"
      "of_names w2 = filename # map (file_name ?pre ?post (of_limits w1)) [0..<length groups]" by auto
  have "current native B (rs' @ rest) w2" using w2(2) by (simp add: filing_def)
  from current_close [OF this] obtain w content where
    w: "close_file w2 = (Inr (), w)" "of_files w = contents @ [content]" "holds_events native B (rs' @ rest) content" using w2(3) by auto
  obtain fl where "frame w = (frame w2)\<lparr>of_file := None, of_files := fl\<rparr>" using frame_close [of w2] w(1) by simp
  then have "frame w = frame (w2\<lparr>of_file := None, of_files := fl\<rparr>)" by (simp add: frame_def)
  from frame_eqD [OF this] have "of_names w = of_names w2" by simp
  moreover have "number_of_digits (slice digit (dot - digit) filename) < 2 ^ 31" using assms(5,6) by simp
  from parse_numbered(2) [OF assms(1,2) this] have "filename = ?name 0" using assms(5) by simp
  ultimately have "of_names w = map ?name [0..<length (groups @ [rest])]"
    using w2(9) w1(6,7) by (simp add: upt_conv_Cons map_Suc_upt [symmetric] comp_def file_name_def del: upt_Suc)
  moreover have "write_files fs filename evs ?w0 = (Inr (), w)" using w1(1) w2(1) w(1) by (simp add: write_files_def)
  moreover have "list_all2 (holds_events native B) (with_replay [] sticky_store_new (groups @ [rest])) (of_files w)"
    unfolding w(2) by (subst w2(4), rule list_all2_appendI [OF w2(5)]) (use w(3) in simp)
  moreover have "list_all (\<lambda>g. length g \<le> unat event_limit) (groups @ [rest])" "list_all (\<lambda>g. g \<noteq> []) (butlast (groups @ [rest]))"
    using w2(7,8) by (auto simp: list_all_iff)
  moreover have "concat (groups @ [rest]) = evs" "groups @ [rest] \<noteq> []" using w2(6) by simp_all
  ultimately show ?thesis by blast
qed

text \<open>C4. Writing with limits on the size and the number of events splits the events over numbered files: no event
  is lost, duplicated or moved, each file is a complete LMD file, none has more events than the limit,
  and the files are named by counting up from the number in the given name, the first exactly as
  given. Each file can be read on its own: it begins with the sticky events that are in force at that point.\<close>

theorem lmd_files_split:
  assumes "number_place filename = (digit, dot)" and "digit < dot" "dot - digit \<le> 35" and "CHR ''%'' \<notin> set filename"
    and "no = number_of_digits (slice digit (dot - digit) filename)" "no + 1 + length items < 2 ^ 31"
    and "good_size B" "0 < event_limit" and "list_all (item_ok B) items" "sum_list (map (\<lambda>i. length (si_bytes i)) items) < 2 ^ 64"
    and "\<And>name. fs_can_open fs name"
  shows "\<exists>w groups replays.
           write_files fs filename (map si_event items) (limited_writer native B size_limit event_limit clock) = (Inr (), w) \<and>
           concat groups = items \<and>
           list_all2 (holds_events native B) (map2 (\<lambda>rs g. rs @ map si_event g) replays groups) (of_files w) \<and>
           list_all2 (list_all2 (\<lambda>ev v. event_out_write ev = Inr (replay_bytes v))) replays (file_views [] groups) \<and>
           list_all (\<lambda>g. length g \<le> unat event_limit) groups \<and> list_all (\<lambda>g. g \<noteq> []) (butlast groups) \<and>
           of_names w = map (\<lambda>i. take digit filename @ zero_padded (dot - digit) (no + i) @ drop dot filename) [0..<length groups] \<and>
           hd (of_names w) = filename \<and> distinct (of_names w)"
proof -
  let ?evs = "map si_event items" and ?name = "\<lambda>i. take digit filename @ zero_padded (dot - digit) (no + i) @ drop dot filename"
  have st: "list_all (view_ok B) (store_view sticky_store_new)"
    "length (ss_data sticky_store_new) + sum_list (map (\<lambda>i. length (si_bytes i)) items) < 2 ^ 64"
    using assms(10) store_inv_new(2) by (simp_all add: sticky_store_new_def)
  have ev: "list_all (writable B) ?evs" "no + 1 + length ?evs < 2 ^ 31" using assms(6,9) by (auto simp: list_all_iff item_ok_def)
  from split_files [OF assms(1-5) ev(2) assms(7,8) ev(1) items_replayable [OF assms(9) store_inv_new(1) st] assms(11), of native size_limit clock]
  obtain w gs where
    w: "write_files fs filename ?evs (limited_writer native B size_limit event_limit clock) = (Inr (), w)" "concat gs = ?evs"
      "list_all2 (holds_events native B) (with_replay [] sticky_store_new gs) (of_files w)"
      "list_all (\<lambda>g. length g \<le> unat event_limit) gs" "list_all (\<lambda>g. g \<noteq> []) (butlast gs)" "gs \<noteq> []"
      "of_names w = map ?name [0..<length gs]" by blast
  from concat_map_split [OF w(2)] obtain groups where g: "gs = map (map si_event) groups" "concat groups = items" by blast
  have "list_all (list_all (item_ok B)) groups" using assms(9) g(2) by (auto simp: list_all_iff)
  moreover have "replayed sticky_store_new = []" by code_simp
  ultimately obtain replays where
    r: "with_replay [] sticky_store_new gs = map2 (\<lambda>rs g. rs @ map si_event g) replays groups"
      "list_all2 (list_all2 (\<lambda>ev v. event_out_write ev = Inr (replay_bytes v))) replays (file_views [] groups)"
    using with_replay_views [of B groups sticky_store_new] st store_inv_new g by auto
  have "inj ?name" by (rule injI) (auto dest: zero_padded_inj)
  then have "distinct (of_names w)" unfolding w(7) by (metis distinct_map distinct_upt inj_on_subset subset_UNIV)
  moreover have "number_of_digits (slice digit (dot - digit) filename) < 2 ^ 31" using assms(5,6) by simp
  from parse_numbered(2) [OF assms(1,2) this] have "filename = ?name 0" using assms(5) by simp
  then have "hd (of_names w) = filename" using w(6,7) by (cases gs) (simp_all add: upt_conv_Cons del: upt_Suc)
  ultimately show ?thesis using w g r
    by (intro exI [of _ w] exI [of _ groups] exI [of _ replays]) (simp add: list_all_length nth_butlast map_butlast [symmetric])
qed

definition split_example :: "sticky_input list" where
  "split_example =
     (let plain = \<lparr>si_discard = True, si_event = event_out_example, si_header = [], si_stamps = [], si_subs = []\<rparr>
      in [plain, sticky_input_example True sticky_first_example, plain, plain])"

lemma split_example_ok: "list_all (item_ok 1024) split_example" "sum_list (map (\<lambda>i. length (si_bytes i)) split_example) < 2 ^ 64"
proof -
  have "\<not> is_event_sticky (eo_header event_out_example)" by code_simp
  moreover have "writable 1024 (si_event (sticky_input_example True sticky_first_example))"
    by (simp add: writable_def sticky_input_example_def sticky_first_example_def Let_def get_length_def aligned_def sub_example_block words_of_event_info_def length_mem4)
  moreover have "si_discard (sticky_input_example True sticky_first_example)"
      "list_all (\<lambda>b. length b mod 4 = 0) (si_stamps (sticky_input_example True sticky_first_example) @ si_subs (sticky_input_example True sticky_first_example))"
    by (simp_all add: sticky_input_example_def sticky_first_example_def Let_def sub_example_block)
  ultimately show "list_all (item_ok 1024) split_example" using event_out_example_ok(2) sticky_example_fits
    by (simp add: split_example_def Let_def item_ok_def)
  show "sum_list (map (\<lambda>i. length (si_bytes i)) split_example) < 2 ^ 64"
    using sticky_example_fits by (simp add: split_example_def Let_def) (simp add: si_bytes_def)
qed

theorem lmd_files_split_witness:
  "\<exists>w groups replays. write_files every_file ''data/run0041.lmd''
       (map si_event split_example) (limited_writer False 1024 (2 ^ 64 - 1) 2 []) = (Inr (), w) \<and>
     concat groups = split_example \<and> list_all2 (holds_events False 1024) (map2 (\<lambda>rs g. rs @ map si_event g) replays groups) (of_files w) \<and>
     list_all2 (list_all2 (\<lambda>ev v. event_out_write ev = Inr (replay_bytes v))) replays (file_views [] groups) \<and>
     list_all (\<lambda>g. length g \<le> 2) groups \<and> hd (of_names w) = ''data/run0041.lmd'' \<and> distinct (of_names w)"
proof -
  have "number_place ''data/run0041.lmd'' = (8, 12)" "41 = number_of_digits (slice 8 (12 - 8) ''data/run0041.lmd'')" by code_simp+
  moreover have "length split_example = 4" by (simp add: split_example_def Let_def)
  ultimately show ?thesis
    using lmd_files_split [of "''data/run0041.lmd''" 8 12 41 split_example 1024 2
        "every_file" False "2 ^ 64 - 1" "[]"] split_example_ok event_out_example_ok(1)
    by (simp add: every_file_def del: sum_list.Cons) blast
qed

end
