(* ===== verification/Thread_Queue.thy ===== *)
theory Thread_Queue
  imports Prelude
begin

text \<open>
  \<^verbatim>\<open>threading/thread_queue.hh\<close> and \<^verbatim>\<open>thread_block.hh\<close>: the queue between two threads of the build with threads, and
  the protocol by which a thread that waits for the queue is woken, as in
  \<^verbatim>\<open>eventloop/event_processor.cc\<close> (\<^verbatim>\<open>wait_for_output_queue_slot\<close>, \<^verbatim>\<open>wait_for_input_queue_item\<close>). Accesses to memory
  take effect in order, which the fences of the source are there for. The pipe of a
  \<^verbatim>\<open>thread_block\<close> is the number of tokens in it; interrupted system calls are left out.
\<close>

unbundle bit_operations_syntax

section \<open>The queue\<close>

text \<open>
  \<^verbatim>\<open>thread_queue\<close>: the counters are \<^verbatim>\<open>volatile int\<close> in the source, signed numbers of 32 bits. They are modelled as words that
  wrap around, which is what the machine code does; in the language their overflow after \<open>2 ^ 31\<close> items is undefined. The masks of the slots
  and of the fill read the same bits in both views. The pointers to the thread that wants
  to be woken are set or not, and the items are the array of \<open>n\<close> slots.
\<close>

record 'a thread_queue =
  tq_avail :: u32
  tq_done :: u32
  tq_need_avail_wakeup :: bool
  tq_need_done_wakeup :: bool
  tq_wakeup_avail :: u32
  tq_wakeup_done :: u32
  tq_items :: "'a list"

definition thread_queue_new :: "'a list \<Rightarrow> 'a thread_queue" where
  "thread_queue_new items =
     \<lparr>tq_avail = 0, tq_done = 0, tq_need_avail_wakeup = False, tq_need_done_wakeup = False,
      tq_wakeup_avail = 0, tq_wakeup_done = 0, tq_items = items\<rparr>"

definition fill :: "nat \<Rightarrow> 'a thread_queue \<Rightarrow> nat" where
  "fill n q = unat ((tq_avail q - tq_done q) AND of_nat (2 * n - 1))"

definition can_insert :: "nat \<Rightarrow> 'a thread_queue \<Rightarrow> bool" where
  "can_insert n q \<longleftrightarrow> fill n q < n"

definition can_remove :: "nat \<Rightarrow> 'a thread_queue \<Rightarrow> bool" where
  "can_remove n q \<longleftrightarrow> 0 < fill n q"

definition insert_slot :: "nat \<Rightarrow> 'a thread_queue \<Rightarrow> nat" where
  "insert_slot n q = unat (tq_avail q AND of_nat (n - 1))"

definition remove_slot :: "nat \<Rightarrow> 'a thread_queue \<Rightarrow> nat" where
  "remove_slot n q = unat (tq_done q AND of_nat (n - 1))"

section \<open>Two threads\<close>

text \<open>
  Where a thread is in its loop: waiting for the queue, with the second look after the request
  for a wakeup; using the slot; counting the item; and waking the other thread, which reads the
  pointer twice. A step is one access to what the threads share.
\<close>

datatype place =
    Look
  | Ask_Level
  | Ask_Need
  | Look_Again
  | Take_Back
  | Asleep
  | Access
  | Count
  | See_Need
  | See_Level
  | Fetch
  | Clear bool
  | Wake bool
  | Flush
  | Flush_Need
  | Ended
  | Crashed cxx_error

record 'a queue_run =
  qr_queue :: "'a thread_queue"
  qr_producer :: place
  qr_consumer :: place
  qr_producer_tokens :: nat
  qr_consumer_tokens :: nat
  qr_flushing :: bool
  qr_todo :: "'a list"
  qr_got :: "'a list"

definition run_start :: "'a list \<Rightarrow> 'a list \<Rightarrow> 'a queue_run" where
  "run_start items todo =
     \<lparr>qr_queue = thread_queue_new items, qr_producer = Look, qr_consumer = Look, qr_producer_tokens = 0,
      qr_consumer_tokens = 0, qr_flushing = False, qr_todo = todo, qr_got = []\<rparr>"

text \<open>
  The producing thread: \<^verbatim>\<open>wait_for_output_queue_slot\<close>, \<^verbatim>\<open>next_insert\<close> with the writing of the item,
  \<^verbatim>\<open>insert\<close>, and after the last item \<^verbatim>\<open>flush_avail\<close>. A thread that blocks cannot step until there is
  a token in its pipe.
\<close>

inductive producer_step :: "nat \<Rightarrow> 'a queue_run \<Rightarrow> 'a queue_run \<Rightarrow> bool" for n where
  Last: "qr_producer s = Look \<Longrightarrow> qr_todo s = [] \<Longrightarrow>
    producer_step n s (s\<lparr>qr_flushing := True, qr_producer := Flush\<rparr>)"
| Room: "qr_producer s = Look \<Longrightarrow> qr_todo s \<noteq> [] \<Longrightarrow> can_insert n (qr_queue s) \<Longrightarrow>
    producer_step n s (s\<lparr>qr_producer := Access\<rparr>)"
| Full: "qr_producer s = Look \<Longrightarrow> qr_todo s \<noteq> [] \<Longrightarrow> \<not> can_insert n (qr_queue s) \<Longrightarrow>
    producer_step n s (s\<lparr>qr_producer := Ask_Level\<rparr>)"
| Level: "qr_producer s = Ask_Level \<Longrightarrow>
    producer_step n s (s\<lparr>qr_queue := (qr_queue s)\<lparr>tq_wakeup_done :=
        tq_avail (qr_queue s) - of_nat n + of_nat (n div 8)\<rparr>, qr_producer := Ask_Need\<rparr>)"
| Need: "qr_producer s = Ask_Need \<Longrightarrow>
    producer_step n s (s\<lparr>qr_queue := (qr_queue s)\<lparr>tq_need_done_wakeup := True\<rparr>, qr_producer := Look_Again\<rparr>)"
| Again_room: "qr_producer s = Look_Again \<Longrightarrow> can_insert n (qr_queue s) \<Longrightarrow>
    producer_step n s (s\<lparr>qr_producer := Take_Back\<rparr>)"
| Again_full: "qr_producer s = Look_Again \<Longrightarrow> \<not> can_insert n (qr_queue s) \<Longrightarrow>
    producer_step n s (s\<lparr>qr_producer := Asleep\<rparr>)"
| Back: "qr_producer s = Take_Back \<Longrightarrow>
    producer_step n s (s\<lparr>qr_queue := (qr_queue s)\<lparr>tq_need_done_wakeup := False\<rparr>, qr_producer := Access\<rparr>)"
| Up: "qr_producer s = Asleep \<Longrightarrow> 0 < qr_producer_tokens s \<Longrightarrow>
    producer_step n s (s\<lparr>qr_producer_tokens := qr_producer_tokens s - 1, qr_producer := Look\<rparr>)"
| Put: "qr_producer s = Access \<Longrightarrow> can_insert n (qr_queue s) \<Longrightarrow>
    producer_step n s (s\<lparr>qr_queue := (qr_queue s)\<lparr>tq_items := (tq_items (qr_queue s))[insert_slot n (qr_queue s) := hd (qr_todo s)]\<rparr>, qr_producer := Count\<rparr>)"
| Counted: "qr_producer s = Count \<Longrightarrow> can_insert n (qr_queue s) \<Longrightarrow>
    producer_step n s (s\<lparr>qr_queue := (qr_queue s)\<lparr>tq_avail := tq_avail (qr_queue s) + 1\<rparr>, qr_todo := tl (qr_todo s), qr_producer := See_Need\<rparr>)"
| Failed: "qr_producer s \<in> {Access, Count} \<Longrightarrow> \<not> can_insert n (qr_queue s) \<Longrightarrow>
    producer_step n s (s\<lparr>qr_producer := Crashed (Assert ''can_insert()'')\<rparr>)"
| See: "qr_producer s = See_Need \<Longrightarrow>
    producer_step n s (s\<lparr>qr_producer := if tq_need_avail_wakeup (qr_queue s) then See_Level else Look\<rparr>)"
| Reached: "qr_producer s = See_Level \<Longrightarrow> 0 < sint (tq_avail (qr_queue s) - tq_wakeup_avail (qr_queue s)) \<Longrightarrow>
    producer_step n s (s\<lparr>qr_producer := Fetch\<rparr>)"
| Below: "qr_producer s = See_Level \<Longrightarrow> \<not> 0 < sint (tq_avail (qr_queue s) - tq_wakeup_avail (qr_queue s)) \<Longrightarrow>
    producer_step n s (s\<lparr>qr_producer := Look\<rparr>)"
| Fetched: "qr_producer s = Fetch \<Longrightarrow>
    producer_step n s (s\<lparr>qr_producer := Clear (tq_need_avail_wakeup (qr_queue s))\<rparr>)"
| Cleared: "qr_producer s = Clear b \<Longrightarrow>
    producer_step n s (s\<lparr>qr_queue := (qr_queue s)\<lparr>tq_need_avail_wakeup := False\<rparr>, qr_producer := Wake b\<rparr>)"
| Sent: "qr_producer s = Wake True \<Longrightarrow>
    producer_step n s (s\<lparr>qr_consumer_tokens := qr_consumer_tokens s + 1, qr_producer := if qr_flushing s then Ended else Look\<rparr>)"
| Null: "qr_producer s = Wake False \<Longrightarrow>
    producer_step n s (s\<lparr>qr_producer := Crashed (Undef ''wakeup of a null pointer'')\<rparr>)"
| Flushed: "qr_producer s = Flush \<Longrightarrow> tq_avail (qr_queue s) \<noteq> tq_done (qr_queue s) \<Longrightarrow>
    producer_step n s (s\<lparr>qr_producer := Flush_Need\<rparr>)"
| Drained: "qr_producer s = Flush \<Longrightarrow> tq_avail (qr_queue s) = tq_done (qr_queue s) \<Longrightarrow>
    producer_step n s (s\<lparr>qr_producer := Ended\<rparr>)"
| Flush_need: "qr_producer s = Flush_Need \<Longrightarrow> tq_need_avail_wakeup (qr_queue s) \<Longrightarrow>
    producer_step n s (s\<lparr>qr_producer := Fetch\<rparr>)"
| Flush_none: "qr_producer s = Flush_Need \<Longrightarrow> \<not> tq_need_avail_wakeup (qr_queue s) \<Longrightarrow>
    producer_step n s (s\<lparr>qr_producer := Ended\<rparr>)"

text \<open>The consuming thread: \<^verbatim>\<open>wait_for_input_queue_item\<close>, \<^verbatim>\<open>next_remove\<close> with the copy of the item, \<^verbatim>\<open>remove\<close>.\<close>

inductive consumer_step :: "nat \<Rightarrow> 'a queue_run \<Rightarrow> 'a queue_run \<Rightarrow> bool" for n where
  Item: "qr_consumer s = Look \<Longrightarrow> can_remove n (qr_queue s) \<Longrightarrow>
    consumer_step n s (s\<lparr>qr_consumer := Access\<rparr>)"
| Empty: "qr_consumer s = Look \<Longrightarrow> \<not> can_remove n (qr_queue s) \<Longrightarrow>
    consumer_step n s (s\<lparr>qr_consumer := Ask_Level\<rparr>)"
| Level: "qr_consumer s = Ask_Level \<Longrightarrow>
    consumer_step n s (s\<lparr>qr_queue := (qr_queue s)\<lparr>tq_wakeup_avail :=
        tq_done (qr_queue s) + of_nat (n div 8)\<rparr>, qr_consumer := Ask_Need\<rparr>)"
| Need: "qr_consumer s = Ask_Need \<Longrightarrow>
    consumer_step n s (s\<lparr>qr_queue := (qr_queue s)\<lparr>tq_need_avail_wakeup := True\<rparr>, qr_consumer := Look_Again\<rparr>)"
| Again_item: "qr_consumer s = Look_Again \<Longrightarrow> can_remove n (qr_queue s) \<Longrightarrow>
    consumer_step n s (s\<lparr>qr_consumer := Take_Back\<rparr>)"
| Again_empty: "qr_consumer s = Look_Again \<Longrightarrow> \<not> can_remove n (qr_queue s) \<Longrightarrow>
    consumer_step n s (s\<lparr>qr_consumer := Asleep\<rparr>)"
| Back: "qr_consumer s = Take_Back \<Longrightarrow>
    consumer_step n s (s\<lparr>qr_queue := (qr_queue s)\<lparr>tq_need_avail_wakeup := False\<rparr>, qr_consumer := Access\<rparr>)"
| Up: "qr_consumer s = Asleep \<Longrightarrow> 0 < qr_consumer_tokens s \<Longrightarrow>
    consumer_step n s (s\<lparr>qr_consumer_tokens := qr_consumer_tokens s - 1, qr_consumer := Look\<rparr>)"
| Got: "qr_consumer s = Access \<Longrightarrow> can_remove n (qr_queue s) \<Longrightarrow>
    consumer_step n s (s\<lparr>qr_got := qr_got s @ [tq_items (qr_queue s) ! remove_slot n (qr_queue s)], qr_consumer := Count\<rparr>)"
| Counted: "qr_consumer s = Count \<Longrightarrow> can_remove n (qr_queue s) \<Longrightarrow>
    consumer_step n s (s\<lparr>qr_queue := (qr_queue s)\<lparr>tq_done := tq_done (qr_queue s) + 1\<rparr>, qr_consumer := See_Need\<rparr>)"
| Failed: "qr_consumer s \<in> {Access, Count} \<Longrightarrow> \<not> can_remove n (qr_queue s) \<Longrightarrow>
    consumer_step n s (s\<lparr>qr_consumer := Crashed (Assert ''can_remove()'')\<rparr>)"
| See: "qr_consumer s = See_Need \<Longrightarrow>
    consumer_step n s (s\<lparr>qr_consumer := if tq_need_done_wakeup (qr_queue s) then See_Level else Look\<rparr>)"
| Reached: "qr_consumer s = See_Level \<Longrightarrow> 0 < sint (tq_done (qr_queue s) - tq_wakeup_done (qr_queue s)) \<Longrightarrow>
    consumer_step n s (s\<lparr>qr_consumer := Fetch\<rparr>)"
| Below: "qr_consumer s = See_Level \<Longrightarrow> \<not> 0 < sint (tq_done (qr_queue s) - tq_wakeup_done (qr_queue s)) \<Longrightarrow>
    consumer_step n s (s\<lparr>qr_consumer := Look\<rparr>)"
| Fetched: "qr_consumer s = Fetch \<Longrightarrow>
    consumer_step n s (s\<lparr>qr_consumer := Clear (tq_need_done_wakeup (qr_queue s))\<rparr>)"
| Cleared: "qr_consumer s = Clear b \<Longrightarrow>
    consumer_step n s (s\<lparr>qr_queue := (qr_queue s)\<lparr>tq_need_done_wakeup := False\<rparr>, qr_consumer := Wake b\<rparr>)"
| Sent: "qr_consumer s = Wake True \<Longrightarrow>
    consumer_step n s (s\<lparr>qr_producer_tokens := qr_producer_tokens s + 1, qr_consumer := Look\<rparr>)"
| Null: "qr_consumer s = Wake False \<Longrightarrow>
    consumer_step n s (s\<lparr>qr_consumer := Crashed (Undef ''wakeup of a null pointer'')\<rparr>)"

text \<open>The program ends when a thread has crashed.\<close>

fun is_crashed :: "place \<Rightarrow> bool" where
  "is_crashed (Crashed e) \<longleftrightarrow> True"
| "is_crashed _ \<longleftrightarrow> False"

definition crashed :: "'a queue_run \<Rightarrow> bool" where
  "crashed s \<longleftrightarrow> is_crashed (qr_producer s) \<or> is_crashed (qr_consumer s)"

inductive queue_step :: "nat \<Rightarrow> 'a queue_run \<Rightarrow> 'a queue_run \<Rightarrow> bool" for n where
  produce: "\<not> crashed s \<Longrightarrow> producer_step n s s' \<Longrightarrow> queue_step n s s'"
| consume: "\<not> crashed s \<Longrightarrow> consumer_step n s s' \<Longrightarrow> queue_step n s s'"

inductive reachable :: "nat \<Rightarrow> 'a list \<Rightarrow> 'a list \<Rightarrow> 'a queue_run \<Rightarrow> bool" for n items todo where
  start: "reachable n items todo (run_start items todo)"
| step: "reachable n items todo s \<Longrightarrow> queue_step n s s' \<Longrightarrow> reachable n items todo s'"

section \<open>Counters\<close>

definition queue_size :: "nat \<Rightarrow> bool" where
  "queue_size n \<longleftrightarrow> (\<exists>k \<le> 29. n = 2 ^ k)"

lemma unat_and_mask: "m \<le> 32 \<Longrightarrow> unat ((of_nat a :: u32) AND of_nat (2 ^ m - 1)) = a mod 2 ^ m"
proof -
  assume m: "m \<le> 32"
  have "(of_nat (2 ^ m - 1) :: u32) = mask m" by (simp add: mask_eq_exp_minus_1 of_nat_diff)
  then have "unat ((of_nat a :: u32) AND of_nat (2 ^ m - 1)) = unat (take_bit m (of_nat a :: u32))" by (simp add: take_bit_eq_mask)
  also have "\<dots> = take_bit m (take_bit 32 a)" by (simp add: unsigned_take_bit_eq unsigned_of_nat)
  also have "\<dots> = take_bit m a" using m by (simp add: take_bit_take_bit min_absorb1)
  also have "\<dots> = a mod 2 ^ m" by (rule take_bit_eq_mod)
  finally show ?thesis .
qed

definition counts :: "nat \<Rightarrow> 'a thread_queue \<Rightarrow> nat \<Rightarrow> nat \<Rightarrow> bool" where
  "counts n q a d \<longleftrightarrow> tq_avail q = of_nat a \<and> tq_done q = of_nat d \<and> d \<le> a \<and> a \<le> d + n"

lemma counts_ops:
  assumes "counts n q a d" and "queue_size n"
  shows "fill n q = a - d" "can_insert n q \<longleftrightarrow> a < d + n" "can_remove n q \<longleftrightarrow> d < a"
    "insert_slot n q = a mod n" "remove_slot n q = d mod n" "0 < n" "tq_avail q = tq_done q \<longleftrightarrow> a = d"
proof -
  obtain k where k: "k \<le> 29" "n = 2 ^ k" using assms(2) by (auto simp: queue_size_def)
  show n: "0 < n" using k by simp
  have le: "n \<le> 2 ^ 29" using k power_increasing [of k 29 "2::nat"] by simp
  have q: "tq_avail q = of_nat a" "tq_done q = of_nat d" "d \<le> a" "a \<le> d + n" using assms(1) by (simp_all add: counts_def)
  have diff: "tq_avail q - tq_done q = of_nat (a - d)" using q by (simp add: of_nat_diff)
  have "fill n q = (a - d) mod (2 * n)" unfolding fill_def diff using unat_and_mask [of "Suc k" "a - d"] k by simp
  then show f: "fill n q = a - d" using q n by simp
  show "can_insert n q \<longleftrightarrow> a < d + n" "can_remove n q \<longleftrightarrow> d < a" using f q by (auto simp: can_insert_def can_remove_def)
  show "insert_slot n q = a mod n" "remove_slot n q = d mod n"
    using unat_and_mask [of k] k q by (simp_all add: insert_slot_def remove_slot_def)
  have "unat (tq_avail q - tq_done q) = a - d" unfolding diff unat_of_nat using q le by (simp add: take_bit_eq_mod)
  then have "tq_avail q - tq_done q = 0 \<longleftrightarrow> a - d = 0" by (metis unat_0 unat_eq_zero)
  then show "tq_avail q = tq_done q \<longleftrightarrow> a = d" using q(3) by auto
qed

lemma level_signed:
  fixes a d m :: nat
  assumes "a < d + 2 ^ 30" "d < a + 2 ^ 30" "m \<le> 2 ^ 29"
  shows "0 < sint (of_nat a - (of_nat d + of_nat m) :: u32) \<longleftrightarrow> d + m < a"
proof -
  have "of_nat a - (of_nat d + of_nat m) = (of_int (int a - int d - int m) :: u32)" by simp
  moreover have "sint (of_int (int a - int d - int m) :: u32) = int a - int d - int m"
    using assms by (subst sint_sbintrunc') (simp add: signed_take_bit_int_eq_self)
  ultimately have "sint (of_nat a - (of_nat d + of_nat m) :: u32) = int a - int d - int m" by (simp only:)
  then show ?thesis by auto
qed

section \<open>What holds in every reachable state\<close>

text \<open>\<open>a\<close> items were made available and \<open>d\<close> are done.\<close>

fun taken :: "place \<Rightarrow> nat \<Rightarrow> nat" where
  "taken Count d = Suc d"
| "taken _ d = d"

definition data_inv :: "nat \<Rightarrow> 'a list \<Rightarrow> nat \<Rightarrow> nat \<Rightarrow> 'a queue_run \<Rightarrow> bool" where
  "data_inv n xs a d s \<longleftrightarrow>
     counts n (qr_queue s) a d \<and> length (tq_items (qr_queue s)) = n \<and> a \<le> length xs \<and> qr_todo s = drop a xs \<and>
     qr_got s = take (taken (qr_consumer s) d) xs \<and>
     (\<forall>i. d \<le> i \<and> i < a \<longrightarrow> tq_items (qr_queue s) ! (i mod n) = xs ! i) \<and>
     (qr_producer s = Count \<longrightarrow> tq_items (qr_queue s) ! (a mod n) = xs ! a)"

definition place_inv :: "nat \<Rightarrow> 'a list \<Rightarrow> nat \<Rightarrow> nat \<Rightarrow> 'a queue_run \<Rightarrow> bool" where
  "place_inv n xs a d s \<longleftrightarrow>
     (qr_producer s \<in> {Take_Back, Access, Count} \<longrightarrow> a < d + n) \<and>
     (qr_producer s \<in> {Ask_Level, Ask_Need, Look_Again, Take_Back, Asleep, Access, Count} \<longrightarrow> a < length xs) \<and>
     (qr_consumer s \<in> {Take_Back, Access, Count} \<longrightarrow> d < a) \<and>
     qr_consumer s \<notin> {Flush, Flush_Need, Ended} \<and>
     (qr_producer s \<in> {Flush, Flush_Need, Ended} \<longrightarrow> qr_flushing s) \<and>
     (qr_flushing s \<longrightarrow> a = length xs \<and> qr_producer s \<notin> {Look, See_Need, See_Level}) \<and>
     (\<forall>m. qr_producer s \<noteq> Crashed (Assert m) \<and> qr_consumer s \<noteq> Crashed (Assert m))"

definition waking :: "place \<Rightarrow> bool" where
  "waking p \<longleftrightarrow> p \<in> {See_Need, See_Level, Fetch} \<or> (\<exists>b. p = Clear b \<or> p = Wake b) \<or> is_crashed p"

definition woken :: "place \<Rightarrow> bool" where
  "woken p \<longleftrightarrow> (\<exists>b. p = Wake b) \<or> is_crashed p"

definition consumer_inv :: "nat \<Rightarrow> nat \<Rightarrow> nat \<Rightarrow> 'a queue_run \<Rightarrow> bool" where
  "consumer_inv n a d s \<longleftrightarrow>
     (qr_consumer s \<in> {Ask_Need, Look_Again, Asleep} \<longrightarrow> tq_wakeup_avail (qr_queue s) = of_nat d + of_nat (n div 8)) \<and>
     (qr_consumer s \<in> {Look_Again, Asleep} \<and> \<not> tq_need_avail_wakeup (qr_queue s) \<longrightarrow>
        0 < qr_consumer_tokens s \<or> woken (qr_producer s)) \<and>
     (qr_consumer s = Asleep \<and> d + n div 8 < a \<longrightarrow> 0 < qr_consumer_tokens s \<or> waking (qr_producer s)) \<and>
     (qr_consumer s = Asleep \<and> qr_producer s = Ended \<longrightarrow> 0 < qr_consumer_tokens s \<or> a = d)"

definition producer_inv :: "nat \<Rightarrow> nat \<Rightarrow> nat \<Rightarrow> 'a queue_run \<Rightarrow> bool" where
  "producer_inv n a d s \<longleftrightarrow>
     (qr_producer s \<in> {Ask_Need, Look_Again, Asleep} \<longrightarrow> tq_wakeup_done (qr_queue s) = of_nat a - of_nat n + of_nat (n div 8)) \<and>
     (qr_producer s \<in> {Look_Again, Asleep} \<and> \<not> tq_need_done_wakeup (qr_queue s) \<longrightarrow>
        0 < qr_producer_tokens s \<or> woken (qr_consumer s)) \<and>
     (qr_producer s = Asleep \<and> a + n div 8 < d + n \<longrightarrow> 0 < qr_producer_tokens s \<or> waking (qr_consumer s))"

definition queue_inv :: "nat \<Rightarrow> 'a list \<Rightarrow> nat \<Rightarrow> nat \<Rightarrow> 'a queue_run \<Rightarrow> bool" where
  "queue_inv n xs a d s \<longleftrightarrow> data_inv n xs a d s \<and> place_inv n xs a d s \<and> consumer_inv n a d s \<and> producer_inv n a d s"

lemma queue_size_bound: "queue_size n \<Longrightarrow> 0 < n \<and> n \<le> 2 ^ 29 \<and> n div 8 \<le> 2 ^ 29"
proof -
  assume "queue_size n"
  then have "0 < n" "n \<le> 2 ^ 29" using power_increasing [of _ 29 "2::nat"] by (auto simp: queue_size_def)
  then show ?thesis using div_le_dividend [of n 8] by linarith
qed

text \<open>The levels are reached exactly when enough was made available or done.\<close>

lemma avail_level:
  assumes "queue_size n" "counts n q a d" "tq_wakeup_avail q = of_nat d + of_nat (n div 8)"
  shows "0 < sint (tq_avail q - tq_wakeup_avail q) \<longleftrightarrow> d + n div 8 < a"
proof -
  have "tq_avail q = of_nat a" "d \<le> a" "a \<le> d + n" using assms(2) by (simp_all add: counts_def)
  then show ?thesis unfolding assms(3) using level_signed [of a d "n div 8"] queue_size_bound [OF assms(1)] by simp
qed

lemma done_level:
  assumes "queue_size n" "counts n q a d" "tq_wakeup_done q = of_nat a - of_nat n + of_nat (n div 8)"
  shows "0 < sint (tq_done q - tq_wakeup_done q) \<longleftrightarrow> a + n div 8 < d + n"
proof -
  have q: "tq_done q = of_nat d" "d \<le> a" "a \<le> d + n" using assms(2) by (simp_all add: counts_def)
  have "tq_done q - tq_wakeup_done q = of_nat (d + n) - (of_nat a + of_nat (n div 8))" unfolding q(1) assms(3) by simp
  then show ?thesis using q level_signed [of "d + n" a "n div 8"] queue_size_bound [OF assms(1)] by (simp only:) simp
qed

lemma start_inv:
  assumes "queue_size n" and "length items = n"
  shows "queue_inv n xs 0 0 (run_start items xs)"
  using assms by (simp add: queue_inv_def data_inv_def place_inv_def consumer_inv_def producer_inv_def run_start_def
      thread_queue_new_def counts_def)

section \<open>Steps of the producer\<close>

lemma counts_updates [simp]:
  "counts n (q\<lparr>tq_need_avail_wakeup := b\<rparr>) a d = counts n q a d" "counts n (q\<lparr>tq_need_done_wakeup := b\<rparr>) a d = counts n q a d"
  "counts n (q\<lparr>tq_wakeup_avail := w\<rparr>) a d = counts n q a d" "counts n (q\<lparr>tq_wakeup_done := w\<rparr>) a d = counts n q a d"
  "counts n (q\<lparr>tq_items := xs\<rparr>) a d = counts n q a d"
  by (simp_all add: counts_def)

lemma counts_avail: "counts n q a d \<Longrightarrow> a < d + n \<Longrightarrow> counts n (q\<lparr>tq_avail := tq_avail q + 1\<rparr>) (Suc a) d"
  by (simp add: counts_def)

lemma counts_done: "counts n q a d \<Longrightarrow> d < a \<Longrightarrow> counts n (q\<lparr>tq_done := tq_done q + 1\<rparr>) a (Suc d)"
  by (simp add: counts_def)

fun inserted :: "place \<Rightarrow> nat \<Rightarrow> nat" where
  "inserted Count a = Suc a"
| "inserted _ a = a"

lemma producer_data:
  assumes "producer_step n s s'" and "queue_size n" "data_inv n xs a d s" "place_inv n xs a d s"
  shows "data_inv n xs (inserted (qr_producer s) a) d s'"
  using assms(1)
proof (cases rule: producer_step.cases)
  case Put
  have c: "counts n (qr_queue s) a d" and len: "length (tq_items (qr_queue s)) = n" using assms(3) by (simp_all add: data_inv_def)
  have r: "a < d + n" "a < length xs" using assms(4) Put(2) by (simp_all add: place_inv_def)
  note ops = counts_ops [OF c assms(2)]
  let ?items = "(tq_items (qr_queue s))[a mod n := xs ! a]"
  have "?items ! (i mod n) = xs ! i" if "d \<le> i" "i < a" for i
    using mod_neq_window [of i a n] that r assms(3) by (simp add: data_inv_def)
  moreover have "?items ! (a mod n) = xs ! a" using len ops(6) by simp
  moreover have "hd (qr_todo s) = xs ! a" using assms(3) r by (simp add: data_inv_def hd_drop_conv_nth)
  ultimately show ?thesis using Put(1,2) assms(3) ops by (simp add: data_inv_def)
next
  case Counted
  have c: "counts n (qr_queue s) a d" using assms(3) by (simp_all add: data_inv_def)
  have r: "a < d + n" "a < length xs" using assms(4) Counted(2) by (simp_all add: place_inv_def)
  have "tq_items (qr_queue s) ! (i mod n) = xs ! i" if "d \<le> i" "i < Suc a" for i
    using that assms(3) Counted by (cases "i = a") (simp_all add: data_inv_def)
  then show ?thesis using Counted(1,2) assms(3) counts_avail [OF c r(1)] r by (simp add: data_inv_def drop_Suc tl_drop)
next
  case Failed
  have "counts n (qr_queue s) a d" "a < d + n" using assms(3,4) Failed(2) by (auto simp: data_inv_def place_inv_def)
  with counts_ops [of n _ a d] Failed(3) assms(2) show ?thesis by blast
qed (use assms(3) in \<open>simp_all add: data_inv_def\<close>)

lemma producer_place:
  assumes "producer_step n s s'" and "queue_size n" "data_inv n xs a d s" "place_inv n xs a d s"
  shows "place_inv n xs (inserted (qr_producer s) a) d s'"
proof -
  have c: "counts n (qr_queue s) a d" and todo: "qr_todo s = drop a xs" "a \<le> length xs" using assms(3) by (simp_all add: data_inv_def)
  have da: "d \<le> a" using c by (simp add: counts_def)
  note ops = counts_ops [OF c assms(2)]
  from assms(1) show ?thesis
  proof (cases rule: producer_step.cases)
    case Counted
    then show ?thesis using assms(4) da by (auto simp: place_inv_def)
  next
    case Failed
    have "a < d + n" using assms(4) Failed(2) by (auto simp: place_inv_def)
    with ops Failed(3) show ?thesis by blast
  qed (use assms(4) ops(2) todo in \<open>auto simp: place_inv_def split: if_splits\<close>)
qed

lemma producer_asks:
  assumes "producer_step n s s'" and "queue_size n" "data_inv n xs a d s" "place_inv n xs a d s" "producer_inv n a d s" "\<not> crashed s"
  shows "producer_inv n (inserted (qr_producer s) a) d s'"
proof -
  have c: "counts n (qr_queue s) a d" using assms(3) by (simp_all add: data_inv_def)
  have av: "tq_avail (qr_queue s) = of_nat a" using c by (simp add: counts_def)
  note ops = counts_ops [OF c assms(2)]
  from assms(1) show ?thesis
  proof (cases rule: producer_step.cases)
    case Failed
    have "a < d + n" using assms(4) Failed(2) by (auto simp: place_inv_def)
    with ops Failed(3) show ?thesis by blast
  qed (use assms(5) ops av in \<open>simp_all add: producer_inv_def\<close>)
qed

lemma producer_wakes:
  assumes "producer_step n s s'" and "queue_size n" "data_inv n xs a d s" "place_inv n xs a d s" "consumer_inv n a d s" "\<not> crashed s"
  shows "consumer_inv n (inserted (qr_producer s) a) d s'"
proof -
  have c: "counts n (qr_queue s) a d" using assms(3) by (simp_all add: data_inv_def)
  note ops = counts_ops [OF c assms(2)]
  from assms(1) show ?thesis
  proof (cases rule: producer_step.cases)
    case Failed
    have "a < d + n" using assms(4) Failed(2) by (auto simp: place_inv_def)
    with ops Failed(3) show ?thesis by blast
  next
    case Below
    have "qr_consumer s = Asleep \<Longrightarrow> \<not> d + n div 8 < a"
      using avail_level [OF assms(2) c] assms(5) Below(3) by (simp add: consumer_inv_def)
    then show ?thesis using Below(1,2) assms(5) by (auto simp: consumer_inv_def waking_def woken_def)
  qed (use assms(4,5) ops in \<open>auto simp: consumer_inv_def waking_def woken_def place_inv_def\<close>)
qed

section \<open>Steps of the consumer\<close>

lemma consumer_data:
  assumes "consumer_step n s s'" and "queue_size n" "data_inv n xs a d s" "place_inv n xs a d s"
  shows "data_inv n xs a (taken (qr_consumer s) d) s'"
proof -
  have c: "counts n (qr_queue s) a d" and l: "a \<le> length xs" using assms(3) by (simp_all add: data_inv_def)
  note ops = counts_ops [OF c assms(2)]
  from assms(1) show ?thesis
  proof (cases rule: consumer_step.cases)
    case Got
    have r: "d < a" using assms(4) Got(2) by (simp add: place_inv_def)
    have "tq_items (qr_queue s) ! (d mod n) = xs ! d" using assms(3) r by (simp add: data_inv_def)
    then show ?thesis using Got(1,2) assms(3) ops(5) r l by (simp add: data_inv_def take_Suc_conv_app_nth)
  next
    case Counted
    have r: "d < a" using assms(4) Counted(2) by (simp add: place_inv_def)
    then show ?thesis using Counted(1,2) assms(3) counts_done [OF c r] by (simp add: data_inv_def)
  next
    case Failed
    have "d < a" using assms(4) Failed(2) by (auto simp: place_inv_def)
    with ops Failed(3) show ?thesis by blast
  qed (use assms(3) in \<open>simp_all add: data_inv_def\<close>)
qed

lemma consumer_place:
  assumes "consumer_step n s s'" and "queue_size n" "data_inv n xs a d s" "place_inv n xs a d s"
  shows "place_inv n xs a (taken (qr_consumer s) d) s'"
proof -
  have c: "counts n (qr_queue s) a d" using assms(3) by (simp_all add: data_inv_def)
  note ops = counts_ops [OF c assms(2)]
  from assms(1) show ?thesis
  proof (cases rule: consumer_step.cases)
    case Failed
    have "d < a" using assms(4) Failed(2) by (auto simp: place_inv_def)
    with ops Failed(3) show ?thesis by blast
  next
    case Counted
    have "a < Suc (d + n)" using c by (simp add: counts_def)
    then show ?thesis using Counted(1,2) assms(4) by (simp add: place_inv_def)
  qed (use assms(4) ops(3) in \<open>simp_all add: place_inv_def\<close>)
qed

lemma consumer_asks:
  assumes "consumer_step n s s'" and "queue_size n" "data_inv n xs a d s" "place_inv n xs a d s" "consumer_inv n a d s"
  shows "consumer_inv n a (taken (qr_consumer s) d) s'"
proof -
  have c: "counts n (qr_queue s) a d" using assms(3) by (simp_all add: data_inv_def)
  have dn: "tq_done (qr_queue s) = of_nat d" "d \<le> a" using c by (simp_all add: counts_def)
  note ops = counts_ops [OF c assms(2)]
  from assms(1) show ?thesis
  proof (cases rule: consumer_step.cases)
    case Failed
    have "d < a" using assms(4) Failed(2) by (auto simp: place_inv_def)
    with ops Failed(3) show ?thesis by blast
  qed (use assms(5) ops(3) dn in \<open>simp_all add: consumer_inv_def\<close>)
qed

lemma consumer_wakes:
  assumes "consumer_step n s s'" and "queue_size n" "data_inv n xs a d s" "place_inv n xs a d s" "producer_inv n a d s"
  shows "producer_inv n a (taken (qr_consumer s) d) s'"
proof -
  have c: "counts n (qr_queue s) a d" using assms(3) by (simp_all add: data_inv_def)
  note ops = counts_ops [OF c assms(2)]
  from assms(1) show ?thesis
  proof (cases rule: consumer_step.cases)
    case Failed
    have "d < a" using assms(4) Failed(2) by (auto simp: place_inv_def)
    with ops Failed(3) show ?thesis by blast
  next
    case Below
    have "qr_producer s = Asleep \<Longrightarrow> \<not> a + n div 8 < d + n"
      using done_level [OF assms(2) c] assms(5) Below(3) by (simp add: producer_inv_def)
    then show ?thesis using Below(1,2) assms(5) by (auto simp: producer_inv_def waking_def woken_def)
  qed (use assms(4,5) ops(3) in \<open>auto simp: producer_inv_def waking_def woken_def place_inv_def\<close>)
qed

section \<open>Every run\<close>

lemma step_inv:
  assumes "queue_step n s s'" and "queue_size n" "queue_inv n xs a d s"
  shows "\<exists>a d. queue_inv n xs a d s'"
  using assms(1)
proof cases
  case produce
  then show ?thesis using assms(2,3) producer_data [OF produce(2)] producer_place [OF produce(2)] producer_asks [OF produce(2)]
      producer_wakes [OF produce(2)] unfolding queue_inv_def by blast
next
  case consume
  then show ?thesis using assms(2,3) consumer_data [OF consume(2)] consumer_place [OF consume(2)] consumer_asks [OF consume(2)]
      consumer_wakes [OF consume(2)] unfolding queue_inv_def by blast
qed

lemma reachable_inv:
  assumes "reachable n items xs s" and "queue_size n" "length items = n"
  shows "\<exists>a d. queue_inv n xs a d s"
  using assms(1)
proof induction
  case start
  then show ?case using start_inv [OF assms(2,3)] by blast
next
  case (step s s')
  then show ?case using step_inv [OF _ assms(2)] by blast
qed

text \<open>The items between the counters.\<close>

definition waiting :: "nat \<Rightarrow> 'a thread_queue \<Rightarrow> 'a list" where
  "waiting n q = map (\<lambda>i. tq_items q ! ((remove_slot n q + i) mod n)) [0..<fill n q]"

lemma waiting_items:
  assumes "data_inv n xs a d s" and "queue_size n"
  shows "waiting n (qr_queue s) = drop d (take a xs)"
proof -
  have c: "counts n (qr_queue s) a d" and l: "a \<le> length xs" using assms(1) by (simp_all add: data_inv_def)
  note ops = counts_ops [OF c assms(2)]
  have "waiting n (qr_queue s) ! i = drop d (take a xs) ! i" if "i < a - d" for i
    using that assms(1) ops l by (simp add: waiting_def data_inv_def mod_add_left_eq)
  moreover have "length (waiting n (qr_queue s)) = a - d" using ops(1) by (simp add: waiting_def)
  ultimately show ?thesis using l by (intro nth_equalityI) auto
qed

text \<open>C5. Between two threads that work at the same time, one producing and one consuming, a queue loses, duplicates
  and reorders nothing: at every moment the items taken, those in the queue and those to come
  are the input. No assertion of the queue fails, and it never holds more than its size, although
  the counters wrap around.\<close>

theorem queue_fifo:
  assumes "reachable n items xs s" and "queue_size n" "length items = n"
  shows "fill n (qr_queue s) \<le> n \<and>
         qr_got s @ drop (if qr_consumer s = Count then 1 else 0) (waiting n (qr_queue s)) @ qr_todo s = xs \<and>
         (\<forall>m. qr_producer s \<noteq> Crashed (Assert m) \<and> qr_consumer s \<noteq> Crashed (Assert m))"
proof -
  from reachable_inv [OF assms] obtain a d where i: "data_inv n xs a d s" "place_inv n xs a d s" by (auto simp: queue_inv_def)
  then have c: "counts n (qr_queue s) a d" by (simp add: data_inv_def)
  then have d: "d \<le> a" by (simp add: counts_def)
  have fl: "fill n (qr_queue s) \<le> n" using counts_ops(1) [OF c assms(2)] c by (auto simp: counts_def)
  let ?k = "if qr_consumer s = Count then 1 else 0 :: nat"
  have k: "taken (qr_consumer s) d = d + ?k" by (cases "qr_consumer s") auto
  have "qr_consumer s = Count \<Longrightarrow> d < a" using i(2) by (simp add: place_inv_def)
  then have le: "d + ?k \<le> a" using d by auto
  have "qr_got s @ drop ?k (waiting n (qr_queue s)) @ qr_todo s = take (d + ?k) xs @ drop (d + ?k) (take a xs) @ drop a xs"
    unfolding waiting_items [OF i(1) assms(2)] drop_drop using i(1) k by (simp only: data_inv_def add.commute)
  also have "\<dots> = xs" using le by (metis append.assoc append_take_drop_id min_absorb1 take_take)
  finally show ?thesis using fl i(2) by (simp add: place_inv_def)
qed

lemma producer_moves:
  "(\<exists>s'. producer_step n s s') \<or> qr_producer s = Ended \<or> is_crashed (qr_producer s) \<or> qr_producer s = Asleep \<and> qr_producer_tokens s = 0"
proof (cases "qr_producer s")
  case Look
  then show ?thesis using producer_step.Last [of s n] producer_step.Room [of s n] producer_step.Full [of s n] by blast
next
  case Ask_Level
  then show ?thesis using producer_step.Level [of s n] by blast
next
  case Ask_Need
  then show ?thesis using producer_step.Need [of s n] by blast
next
  case Look_Again
  then show ?thesis using producer_step.Again_room [of s n] producer_step.Again_full [of s n] by blast
next
  case Take_Back
  then show ?thesis using producer_step.Back [of s n] by blast
next
  case Asleep
  then show ?thesis using producer_step.Up [of s n] by blast
next
  case Access
  then show ?thesis using producer_step.Put [of s n] producer_step.Failed [of s n] by blast
next
  case Count
  then show ?thesis using producer_step.Counted [of s n] producer_step.Failed [of s n] by blast
next
  case See_Need
  then show ?thesis using producer_step.See [of s n] by blast
next
  case See_Level
  then show ?thesis using producer_step.Reached [of s n] producer_step.Below [of s n] by blast
next
  case Fetch
  then show ?thesis using producer_step.Fetched [of s n] by blast
next
  case Flush
  then show ?thesis using producer_step.Flushed [of s n] producer_step.Drained [of s n] by blast
next
  case Flush_Need
  then show ?thesis using producer_step.Flush_need [of s n] producer_step.Flush_none [of s n] by blast
next
  case (Clear b)
  then show ?thesis using producer_step.Cleared [of s b n] by blast
next
  case (Wake b)
  then show ?thesis using producer_step.Sent [of s n] producer_step.Null [of s n] by (cases b) auto
qed simp_all

lemma consumer_moves:
  "(\<exists>s'. consumer_step n s s') \<or> qr_consumer s \<in> {Flush, Flush_Need, Ended} \<or> is_crashed (qr_consumer s) \<or>
   qr_consumer s = Asleep \<and> qr_consumer_tokens s = 0"
proof (cases "qr_consumer s")
  case Look
  then show ?thesis using consumer_step.Item [of s n] consumer_step.Empty [of s n] by blast
next
  case Ask_Level
  then show ?thesis using consumer_step.Level [of s n] by blast
next
  case Ask_Need
  then show ?thesis using consumer_step.Need [of s n] by blast
next
  case Look_Again
  then show ?thesis using consumer_step.Again_item [of s n] consumer_step.Again_empty [of s n] by blast
next
  case Take_Back
  then show ?thesis using consumer_step.Back [of s n] by blast
next
  case Asleep
  then show ?thesis using consumer_step.Up [of s n] by blast
next
  case Access
  then show ?thesis using consumer_step.Got [of s n] consumer_step.Failed [of s n] by blast
next
  case Count
  then show ?thesis using consumer_step.Counted [of s n] consumer_step.Failed [of s n] by blast
next
  case See_Need
  then show ?thesis using consumer_step.See [of s n] by blast
next
  case See_Level
  then show ?thesis using consumer_step.Reached [of s n] consumer_step.Below [of s n] by blast
next
  case Fetch
  then show ?thesis using consumer_step.Fetched [of s n] by blast
next
  case (Clear b)
  then show ?thesis using consumer_step.Cleared [of s b n] by blast
next
  case (Wake b)
  then show ?thesis using consumer_step.Sent [of s n] consumer_step.Null [of s n] by (cases b) auto
qed simp_all

lemma queue_not_stuck:
  assumes "queue_size n" "queue_inv n xs a d s" "\<not> crashed s" "\<forall>s'. \<not> queue_step n s s'"
  shows "qr_producer s = Ended \<and> qr_got s = xs"
proof -
  have i: "data_inv n xs a d s" "place_inv n xs a d s" "consumer_inv n a d s" "producer_inv n a d s" using assms(2) by (simp_all add: queue_inv_def)
  have st: "\<not> producer_step n s s'" "\<not> consumer_step n s s'" for s' using assms(3,4) queue_step.intros by blast+
  have cr: "\<not> is_crashed (qr_producer s)" "\<not> is_crashed (qr_consumer s)" using assms(3) by (simp_all add: crashed_def)
  have p: "qr_producer s = Ended \<or> qr_producer s = Asleep \<and> qr_producer_tokens s = 0"
    using producer_moves [of n s] st(1) cr by blast
  have q: "qr_consumer s = Asleep \<and> qr_consumer_tokens s = 0"
    using consumer_moves [of n s] st(2) cr i(2) by (auto simp: place_inv_def)
  have le: "a \<le> d + n div 8" using i(3) q p by (auto simp: consumer_inv_def waking_def)
  have "0 < n" using queue_size_bound [OF assms(1)] by simp
  moreover have "qr_producer s = Asleep \<Longrightarrow> d + n \<le> a + n div 8" using i(4) q p by (auto simp: producer_inv_def waking_def)
  ultimately have e: "qr_producer s = Ended" using p le by auto
  have "a = d" using i(3) q e by (auto simp: consumer_inv_def)
  moreover have "a = length xs" using i(2) e by (auto simp: place_inv_def)
  ultimately show ?thesis using e i(1) q by (simp add: data_inv_def)
qed

section \<open>Every run ends\<close>

fun producer_rank :: "place \<Rightarrow> nat" where
  "producer_rank Look = 8" | "producer_rank Ask_Level = 7" | "producer_rank Ask_Need = 6" | "producer_rank Look_Again = 5"
| "producer_rank Take_Back = 4" | "producer_rank Asleep = 4" | "producer_rank Access = 3" | "producer_rank Count = 2"
| "producer_rank See_Need = 25" | "producer_rank See_Level = 24" | "producer_rank Fetch = 23" | "producer_rank (Clear b) = 22"
| "producer_rank (Wake b) = 21" | "producer_rank Flush = 27" | "producer_rank Flush_Need = 26" | "producer_rank Ended = 0"
| "producer_rank (Crashed e) = 0"

fun consumer_rank :: "place \<Rightarrow> nat" where
  "consumer_rank Count = 26"
| "consumer_rank p = producer_rank p"

definition work :: "'a list \<Rightarrow> 'a queue_run \<Rightarrow> nat" where
  "work xs s = 30 * length (qr_todo s) + 30 * (length xs - length (qr_got s)) + 12 * (qr_producer_tokens s + qr_consumer_tokens s) +
     producer_rank (qr_producer s) + consumer_rank (qr_consumer s) + (if qr_flushing s then 0 else 30)"

lemma producer_work:
  assumes "producer_step n s s'" "data_inv n xs a d s" "place_inv n xs a d s"
  shows "work xs s' < work xs s"
  using assms(1)
proof (cases rule: producer_step.cases)
  case Last
  then have "\<not> qr_flushing s" using assms(3) by (auto simp: place_inv_def)
  then show ?thesis using Last by (simp add: work_def)
next
  case Counted
  have "qr_todo s \<noteq> []" using assms(2,3) Counted(2) by (simp add: data_inv_def place_inv_def)
  then show ?thesis using Counted(1,2) by (cases "qr_todo s") (auto simp: work_def)
next
  case Failed
  then show ?thesis by (auto simp: work_def)
qed (simp_all add: work_def)

lemma consumer_work:
  assumes "consumer_step n s s'" "data_inv n xs a d s" "place_inv n xs a d s"
  shows "work xs s' < work xs s"
  using assms(1)
proof (cases rule: consumer_step.cases)
  case Got
  have "length (qr_got s) < length xs" using assms(2,3) Got(2) by (simp add: data_inv_def place_inv_def)
  then show ?thesis using Got(1,2) by (simp add: work_def)
next
  case Failed
  then show ?thesis by (auto simp: work_def)
qed (simp_all add: work_def)

lemma run_bound:
  assumes "(queue_step n ^^ k) (run_start items xs) s" and "queue_size n" "length items = n"
  shows "reachable n items xs s \<and> k + work xs s \<le> 60 * length xs + 46"
  using assms(1)
proof (induction k arbitrary: s)
  case 0
  then show ?case using reachable.start [of n items xs] by (auto simp: work_def run_start_def)
next
  case (Suc k)
  from Suc.prems obtain s1 where s1: "(queue_step n ^^ k) (run_start items xs) s1" "queue_step n s1 s" by auto
  from Suc.IH [OF s1(1)] have r: "reachable n items xs s1" "k + work xs s1 \<le> 60 * length xs + 46" by auto
  from reachable_inv [OF r(1) assms(2,3)] obtain a d where "data_inv n xs a d s1" "place_inv n xs a d s1" by (auto simp: queue_inv_def)
  then have "work xs s < work xs s1" using s1(2) producer_work consumer_work by (metis queue_step.cases)
  then show ?case using r s1(2) reachable.step by force
qed

text \<open>C6. The wakeups are not lost: however the steps of the two threads interleave, a run has at most 60 steps for each
  item and 46 more, and when no thread can go on, either a thread has crashed or every item was
  delivered. In particular the threads never wait for each other.\<close>

theorem queue_delivers:
  assumes "(queue_step n ^^ k) (run_start items xs) s" and "queue_size n" "length items = n"
  shows "k \<le> 60 * length xs + 46 \<and>
         ((\<forall>s'. \<not> queue_step n s s') \<longrightarrow> crashed s \<or> qr_producer s = Ended \<and> qr_got s = xs)"
proof -
  from run_bound [OF assms] have r: "reachable n items xs s" "k \<le> 60 * length xs + 46" by auto
  from reachable_inv [OF r(1) assms(2,3)] queue_not_stuck [OF assms(2)] r(2) show ?thesis by blast
qed

section \<open>The race\<close>

text \<open>The consumer has asked for a wakeup and not looked again yet; the producer goes on.\<close>

definition asked :: "nat \<Rightarrow> 'a list \<Rightarrow> nat \<Rightarrow> place \<Rightarrow> 'a queue_run \<Rightarrow> bool" where
  "asked n xs i p s \<longleftrightarrow> counts n (qr_queue s) i 0 \<and> qr_todo s = drop i xs \<and> qr_producer s = p \<and> qr_consumer s = Look_Again \<and>
     tq_need_avail_wakeup (qr_queue s) \<and> tq_wakeup_avail (qr_queue s) = of_nat (n div 8)"

lemma asked_produce:
  assumes "reachable n items xs s" "asked n xs i p s" "\<not> is_crashed p" "producer_step n s s'"
  shows "reachable n items xs s'"
  using assms by (intro reachable.step [OF assms(1)] queue_step.produce) (simp_all add: crashed_def asked_def)

lemma asked_round:
  assumes "queue_size n" "i < n" "i < length xs" and r: "reachable n items xs s" and s: "asked n xs i Look s"
  shows "\<exists>s'. reachable n items xs s' \<and> asked n xs (Suc i) See_Level s'"
proof -
  have c: "counts n (qr_queue s) i 0" using s by (simp add: asked_def)
  have room: "can_insert n (qr_queue s)" using counts_ops(2) [OF c assms(1)] assms(2) by simp
  let ?s1 = "s\<lparr>qr_producer := Access\<rparr>"
  let ?s2 = "?s1\<lparr>qr_queue := (qr_queue ?s1)\<lparr>tq_items := (tq_items (qr_queue ?s1))[insert_slot n (qr_queue ?s1) := hd (qr_todo ?s1)]\<rparr>, qr_producer := Count\<rparr>"
  let ?s3 = "?s2\<lparr>qr_queue := (qr_queue ?s2)\<lparr>tq_avail := tq_avail (qr_queue ?s2) + 1\<rparr>, qr_todo := tl (qr_todo ?s2), qr_producer := See_Need\<rparr>"
  let ?s4 = "?s3\<lparr>qr_producer := if tq_need_avail_wakeup (qr_queue ?s3) then See_Level else Look\<rparr>"
  have a1: "asked n xs i Access ?s1" using s by (simp add: asked_def)
  have a2: "asked n xs i Count ?s2" using s by (simp add: asked_def)
  have a3: "asked n xs (Suc i) See_Need ?s3" using s assms(2,3) by (simp add: asked_def counts_def drop_Suc tl_drop)
  have a4: "asked n xs (Suc i) See_Level ?s4" using a3 by (simp add: asked_def)
  have room2: "can_insert n (qr_queue ?s2)" using counts_ops(2) [of n "qr_queue ?s2" i 0] assms(1,2) a2 by (simp add: asked_def)
  have "producer_step n s ?s1" using s room assms(3) by (intro producer_step.Room) (simp_all add: asked_def)
  from asked_produce [OF r s _ this] have "reachable n items xs ?s1" by simp
  moreover have "producer_step n ?s1 ?s2" using room by (intro producer_step.Put) simp_all
  ultimately have "reachable n items xs ?s2" using asked_produce [OF _ a1] by simp
  moreover have "producer_step n ?s2 ?s3" using room2 by (intro producer_step.Counted) simp_all
  ultimately have "reachable n items xs ?s3" using asked_produce [OF _ a2] by simp
  moreover have "producer_step n ?s3 ?s4" by (intro producer_step.See) simp
  ultimately have "reachable n items xs ?s4" using asked_produce [OF _ a3] by simp
  then show ?thesis using a4 by blast
qed

lemma race_prefix:
  assumes "queue_size n" "n div 8 < length xs" "i \<le> n div 8"
  shows "\<exists>s. reachable n items xs s \<and> asked n xs i Look s"
  using assms(3)
proof (induction i)
  case 0
  let ?s0 = "run_start items xs"
  have c: "counts n (qr_queue ?s0) 0 0" by (simp add: counts_def run_start_def thread_queue_new_def)
  have nc: "\<not> crashed ?s0" "\<not> can_remove n (qr_queue ?s0)" using counts_ops(3) [OF c assms(1)] by (simp_all add: crashed_def run_start_def)
  let ?s1 = "?s0\<lparr>qr_consumer := Ask_Level\<rparr>"
  let ?s2 = "?s1\<lparr>qr_queue := (qr_queue ?s1)\<lparr>tq_wakeup_avail := tq_done (qr_queue ?s1) + of_nat (n div 8)\<rparr>, qr_consumer := Ask_Need\<rparr>"
  let ?s3 = "?s2\<lparr>qr_queue := (qr_queue ?s2)\<lparr>tq_need_avail_wakeup := True\<rparr>, qr_consumer := Look_Again\<rparr>"
  have "reachable n items xs ?s1"
    by (rule reachable.step [OF reachable.start]) (rule queue_step.consume [OF nc(1)], rule consumer_step.Empty, simp_all add: nc, simp add: run_start_def)
  then have "reachable n items xs ?s2"
    by (rule reachable.step) (rule queue_step.consume, simp add: crashed_def run_start_def, rule consumer_step.Level, simp)
  then have "reachable n items xs ?s3"
    by (rule reachable.step) (rule queue_step.consume, simp add: crashed_def run_start_def, rule consumer_step.Need, simp)
  moreover have "counts n (qr_queue ?s3) 0 0" using c by simp
  ultimately show ?case by (intro exI [of _ ?s3]) (simp add: asked_def run_start_def thread_queue_new_def)
next
  case (Suc i)
  then obtain s where s: "reachable n items xs s" "asked n xs i Look s" by auto
  have "n div 8 < n" using queue_size_bound [OF assms(1)] by simp
  with asked_round [OF assms(1) _ _ s] Suc.prems assms(2) obtain s1 where
    s1: "reachable n items xs s1" "asked n xs (Suc i) See_Level s1" by auto
  have "\<not> 0 < sint (tq_avail (qr_queue s1) - tq_wakeup_avail (qr_queue s1))"
    using avail_level [OF assms(1), of "qr_queue s1" "Suc i" 0] s1(2) Suc.prems by (simp add: asked_def)
  then have "producer_step n s1 (s1\<lparr>qr_producer := Look\<rparr>)" using s1(2) by (intro producer_step.Below) (simp_all add: asked_def)
  from asked_produce [OF s1 _ this] s1(2) show ?case by (intro exI [of _ "s1\<lparr>qr_producer := Look\<rparr>"]) (simp add: asked_def)
qed

lemma race_reached:
  assumes "queue_size n" "n div 8 < length xs"
  shows "\<exists>s. reachable n items xs s \<and> qr_producer s = Crashed (Undef ''wakeup of a null pointer'')"
proof -
  from race_prefix [OF assms order_refl] obtain s where s: "reachable n items xs s" "asked n xs (n div 8) Look s" by blast
  have "n div 8 < n" using queue_size_bound [OF assms(1)] by simp
  from asked_round [OF assms(1) this assms(2) s] obtain s1 where
    s1: "reachable n items xs s1" "asked n xs (Suc (n div 8)) See_Level s1" by auto
  then have c: "counts n (qr_queue s1) (Suc (n div 8)) 0" by (simp add: asked_def)
  have "0 < sint (tq_avail (qr_queue s1) - tq_wakeup_avail (qr_queue s1))"
    using avail_level [OF assms(1), of "qr_queue s1" "Suc (n div 8)" 0] s1(2) by (simp add: asked_def)
  then have "producer_step n s1 (s1\<lparr>qr_producer := Fetch\<rparr>)" using s1(2) by (intro producer_step.Reached) (simp_all add: asked_def)
  from asked_produce [OF s1 _ this] have r2: "reachable n items xs (s1\<lparr>qr_producer := Fetch\<rparr>)" (is "reachable _ _ _ ?s2") by simp
  have p: "qr_consumer s1 = Look_Again" "can_remove n (qr_queue s1)" using s1(2) counts_ops(3) [OF c assms(1)] by (simp_all add: asked_def)
  define s3 where "s3 = ?s2\<lparr>qr_consumer := Take_Back\<rparr>"
  have "consumer_step n ?s2 s3" unfolding s3_def using p by (intro consumer_step.Again_item) simp_all
  then have r3: "reachable n items xs s3" using p by (intro reachable.step [OF r2] queue_step.consume) (simp_all add: crashed_def)
  have p3: "qr_producer s3 = Fetch" "qr_consumer s3 = Take_Back" by (simp_all add: s3_def)
  define s4 where "s4 = s3\<lparr>qr_queue := (qr_queue s3)\<lparr>tq_need_avail_wakeup := False\<rparr>, qr_consumer := Access\<rparr>"
  have "consumer_step n s3 s4" unfolding s4_def using p3 by (intro consumer_step.Back) simp
  then have r4: "reachable n items xs s4" using p3 by (intro reachable.step [OF r3] queue_step.consume) (simp_all add: crashed_def)
  have p4: "qr_producer s4 = Fetch" "qr_consumer s4 = Access" "\<not> tq_need_avail_wakeup (qr_queue s4)" using p3 by (simp_all add: s4_def)
  define s5 where "s5 = s4\<lparr>qr_producer := Clear False\<rparr>"
  have "producer_step n s4 s5" using producer_step.Fetched [OF p4(1), of n] p4(3) by (simp add: s5_def)
  then have r5: "reachable n items xs s5" using p4 by (intro reachable.step [OF r4] queue_step.produce) (simp_all add: crashed_def)
  have p5: "qr_producer s5 = Clear False" "qr_consumer s5 = Access" using p4 by (simp_all add: s5_def)
  define s6 where "s6 = s5\<lparr>qr_queue := (qr_queue s5)\<lparr>tq_need_avail_wakeup := False\<rparr>, qr_producer := Wake False\<rparr>"
  have "producer_step n s5 s6" unfolding s6_def using p5 by (intro producer_step.Cleared) simp
  then have r6: "reachable n items xs s6" using p5 by (intro reachable.step [OF r5] queue_step.produce) (simp_all add: crashed_def)
  have p6: "qr_producer s6 = Wake False" "qr_consumer s6 = Access" using p5 by (simp_all add: s6_def)
  have "reachable n items xs (s6\<lparr>qr_producer := Crashed (Undef ''wakeup of a null pointer'')\<rparr>)"
    using producer_step.Null [OF p6(1), of n] p6 by (intro reachable.step [OF r6] queue_step.produce) (simp_all add: crashed_def)
  then show ?thesis by (intro exI [of _ "s6\<lparr>qr_producer := Crashed (Undef ''wakeup of a null pointer'')\<rparr>"]) simp
qed

text \<open>C7. The thread that inserts reads the pointer to the blocked thread twice. The other thread can withdraw its
  request between the two, when it finds an item on its second look, and the first thread then
  calls \<^verbatim>\<open>wakeup\<close> through a null pointer. This can happen for every size of queue as soon as there are enough
  items to reach the level for a wakeup.\<close>

theorem queue_race:
  assumes "queue_size n" "n div 8 < length xs"
  shows "\<exists>s. reachable n items xs s \<and> qr_producer s = Crashed (Undef ''wakeup of a null pointer'')"
  using assms by (rule race_reached)

lemma queue_size_examples: "queue_size 4" "queue_size 8192"
  unfolding queue_size_def by (rule exI [of _ 2], simp) (rule exI [of _ 13], simp)

theorem queue_race_witness:
  "\<exists>s. reachable 8192 (replicate 8192 0) (replicate 2000 (1 :: nat)) s \<and> qr_producer s = Crashed (Undef ''wakeup of a null pointer'')"
  by (rule queue_race [OF queue_size_examples(2)]) (unfold length_replicate, simp)

theorem queue_fifo_witness:
  "\<exists>s. reachable 4 (replicate 4 0) [7 :: nat, 8] s \<and> is_crashed (qr_producer s) \<and> fill 4 (qr_queue s) \<le> 4 \<and>
     qr_got s @ drop (if qr_consumer s = Count then 1 else 0) (waiting 4 (qr_queue s)) @ qr_todo s = [7, 8]"
proof -
  obtain s where "reachable 4 (replicate 4 0) [7 :: nat, 8] s" "qr_producer s = Crashed (Undef ''wakeup of a null pointer'')"
    using race_reached [OF queue_size_examples(1), of "[7, 8]"] by auto
  moreover from queue_fifo [OF this(1) queue_size_examples(1)] have "fill 4 (qr_queue s) \<le> 4"
    "qr_got s @ drop (if qr_consumer s = Count then 1 else 0) (waiting 4 (qr_queue s)) @ qr_todo s = [7, 8]" by simp_all
  ultimately show ?thesis by (intro exI [of _ s]) simp
qed

theorem queue_delivers_witness:
  "\<exists>k s. (queue_step 4 ^^ k) (run_start (replicate 4 0) [7 :: nat]) s \<and> k \<le> 106 \<and> (\<forall>s'. \<not> queue_step 4 s s') \<and> (crashed s \<or> qr_got s = [7])"
proof -
  let ?start = "run_start (replicate 4 0) [7 :: nat]"
  define P where "P k \<longleftrightarrow> (\<exists>s. (queue_step 4 ^^ k) ?start s)" for k
  have len: "length (replicate 4 (0 :: nat)) = 4" by simp
  note delivers = queue_delivers [OF _ queue_size_examples(1) len, where xs = "[7 :: nat]"]
  have le: "k \<le> 106" if "P k" for k using delivers that unfolding P_def by fastforce
  have "P 0" by (simp add: P_def)
  then have "P (GREATEST k. P k)" by (rule GreatestI_nat) (use le in blast)
  then obtain s where s: "(queue_step 4 ^^ (GREATEST k. P k)) ?start s" by (auto simp: P_def)
  have "\<not> queue_step 4 s s'" for s'
  proof
    assume "queue_step 4 s s'"
    with s have "P (Suc (GREATEST k. P k))" by (auto simp: P_def)
    then have "Suc (GREATEST k. P k) \<le> (GREATEST k. P k)" by (rule Greatest_le_nat) (use le in blast)
    then show False by simp
  qed
  then show ?thesis using s delivers [OF s] by fastforce
qed

end
