(* ===== verification/Thread_Pipeline.thy ===== *)
theory Thread_Pipeline
  imports Thread_Queue
begin

text \<open>
  The queues that fan out to the processing threads and in again (\<^verbatim>\<open>multi_thread_queue\<close>,
  \<^verbatim>\<open>fan_out_thread_queue\<close>, \<^verbatim>\<open>fan_in_thread_queue\<close> in \<^verbatim>\<open>threading/thread_queue.hh\<close>) and the threads on them: the reader
  (\<^verbatim>\<open>eventloop/event_reader.cc\<close>), the processors (\<^verbatim>\<open>event_processor.cc\<close>) and the main thread that retires the events
  (\<^verbatim>\<open>mainfcn.cc\<close>). Every thread has a place in its loop, also while it waits and while it wakes another
  thread, and a step is one access to what the threads share, as in \<^verbatim>\<open>Thread_Queue\<close>. The unpacking itself is
  generated code, a parameter.
\<close>

unbundle bit_operations_syntax

section \<open>The pieces of the queue operations\<close>

text \<open>
  \<^verbatim>\<open>next_insert\<close> and \<^verbatim>\<open>next_remove\<close> return the slot. \<^verbatim>\<open>insert\<close> and \<^verbatim>\<open>remove\<close> first count the item, then see whether
  the thread at the other end is to be woken.
\<close>

definition next_insert :: "nat \<Rightarrow> 'a thread_queue \<Rightarrow> cxx_error + nat" where
  "next_insert n q = (if can_insert n q then Inr (insert_slot n q) else Inl (Assert ''can_insert()''))"

definition next_remove :: "nat \<Rightarrow> 'a thread_queue \<Rightarrow> cxx_error + nat" where
  "next_remove n q = (if can_remove n q then Inr (remove_slot n q) else Inl (Assert ''can_remove()''))"

definition count_insert :: "nat \<Rightarrow> 'a thread_queue \<Rightarrow> cxx_error + 'a thread_queue" where
  "count_insert n q = (if can_insert n q then Inr (q\<lparr>tq_avail := tq_avail q + 1\<rparr>) else Inl (Assert ''can_insert()''))"

definition count_remove :: "nat \<Rightarrow> 'a thread_queue \<Rightarrow> cxx_error + 'a thread_queue" where
  "count_remove n q = (if can_remove n q then Inr (q\<lparr>tq_done := tq_done q + 1\<rparr>) else Inl (Assert ''can_remove()''))"

definition change_slot :: "nat \<Rightarrow> ('a \<Rightarrow> 'a) \<Rightarrow> 'a thread_queue \<Rightarrow> 'a thread_queue" where
  "change_slot i f q = q\<lparr>tq_items := (tq_items q)[i := f (tq_items q ! i)]\<rparr>"

text \<open>
  The loop that waits for a queue: the request for the wakeup, the second look, and sleeping until there is a token in
  the pipe of the thread (\<open>None\<close> while there is none). \<open>Access\<close> is the return of the loop.
\<close>

definition wait_step :: "('q \<Rightarrow> bool) \<Rightarrow> ('q \<Rightarrow> 'q) \<Rightarrow> ('q \<Rightarrow> 'q) \<Rightarrow> ('q \<Rightarrow> 'q) \<Rightarrow> place \<Rightarrow> 'q \<Rightarrow> place \<Rightarrow> nat \<Rightarrow> ('q \<times> place \<times> nat) option" where
  "wait_step test level request cancel resume q pl tokens =
     (case pl of
        Look \<Rightarrow> Some (q, if test q then Access else Ask_Level, tokens)
      | Ask_Level \<Rightarrow> Some (level q, Ask_Need, tokens)
      | Ask_Need \<Rightarrow> Some (request q, Look_Again, tokens)
      | Look_Again \<Rightarrow> Some (q, if test q then Take_Back else Asleep, tokens)
      | Take_Back \<Rightarrow> Some (cancel q, resume, tokens)
      | Asleep \<Rightarrow> if 0 < tokens then Some (q, Look, tokens - 1) else None
      | _ \<Rightarrow> None)"

definition wait_insert :: "nat \<Rightarrow> 'a thread_queue \<Rightarrow> place \<Rightarrow> nat \<Rightarrow> ('a thread_queue \<times> place \<times> nat) option" where
  "wait_insert n = wait_step (can_insert n)
     (\<lambda>q. q\<lparr>tq_wakeup_done := tq_avail q - of_nat n + of_nat (n div 8)\<rparr>)
     (\<lambda>q. q\<lparr>tq_need_done_wakeup := True\<rparr>) (\<lambda>q. q\<lparr>tq_need_done_wakeup := False\<rparr>) Access"

definition wait_remove :: "nat \<Rightarrow> place \<Rightarrow> 'a thread_queue \<Rightarrow> place \<Rightarrow> nat \<Rightarrow> ('a thread_queue \<times> place \<times> nat) option" where
  "wait_remove n resume = wait_step (can_remove n)
     (\<lambda>q. q\<lparr>tq_wakeup_avail := tq_done q + of_nat (n div 8)\<rparr>)
     (\<lambda>q. q\<lparr>tq_need_avail_wakeup := True\<rparr>) (\<lambda>q. q\<lparr>tq_need_avail_wakeup := False\<rparr>) resume"

text \<open>What \<^verbatim>\<open>insert\<close>, \<^verbatim>\<open>remove\<close> and \<^verbatim>\<open>flush_avail\<close> do after the count; the value says whether a token is sent. \<open>Ended\<close> is the return.\<close>

definition wake_step :: "('a thread_queue \<Rightarrow> bool) \<Rightarrow> ('a thread_queue \<Rightarrow> bool) \<Rightarrow> ('a thread_queue \<Rightarrow> 'a thread_queue) \<Rightarrow>
    'a thread_queue \<Rightarrow> place \<Rightarrow> ('a thread_queue \<times> place \<times> bool) option" where
  "wake_step needs reached clear q pl =
     (case pl of
        See_Need \<Rightarrow> Some (q, if needs q then See_Level else Ended, False)
      | See_Level \<Rightarrow> Some (q, if reached q then Fetch else Ended, False)
      | Fetch \<Rightarrow> Some (q, Clear (needs q), False)
      | Clear b \<Rightarrow> Some (clear q, Wake b, False)
      | Wake b \<Rightarrow> Some (if b then (q, Ended, True) else (q, Crashed (Undef ''wakeup of a null pointer''), False))
      | Flush \<Rightarrow> Some (q, if tq_avail q = tq_done q then Ended else Flush_Need, False)
      | Flush_Need \<Rightarrow> Some (q, if needs q then Fetch else Ended, False)
      | _ \<Rightarrow> None)"

definition wake_consumer :: "'a thread_queue \<Rightarrow> place \<Rightarrow> ('a thread_queue \<times> place \<times> bool) option" where
  "wake_consumer = wake_step tq_need_avail_wakeup (\<lambda>q. 0 < sint (tq_avail q - tq_wakeup_avail q)) (\<lambda>q. q\<lparr>tq_need_avail_wakeup := False\<rparr>)"

definition wake_producer :: "'a thread_queue \<Rightarrow> place \<Rightarrow> ('a thread_queue \<times> place \<times> bool) option" where
  "wake_producer = wake_step tq_need_done_wakeup (\<lambda>q. 0 < sint (tq_done q - tq_wakeup_done q)) (\<lambda>q. q\<lparr>tq_need_done_wakeup := False\<rparr>)"

section \<open>Several queues\<close>

record 'a thread_queue_item =
  ti_item :: 'a
  ti_next_item_queue :: nat

text \<open>\<^verbatim>\<open>multi_thread_queue\<close>; \<open>None\<close> is the invalid number of the queue after the next one.\<close>

record 'a multi_thread_queue =
  mq_next_item_queue :: nat
  mq_next_next_item_queue :: "nat option"
  mq_queues :: "'a thread_queue_item thread_queue list"

definition multi_init :: "nat \<Rightarrow> 'a thread_queue_item list \<Rightarrow> 'a multi_thread_queue" where
  "multi_init m items =
     \<lparr>mq_next_item_queue = 0, mq_next_next_item_queue = None, mq_queues = replicate m (thread_queue_new items)\<rparr>"

definition next_queue :: "'a multi_thread_queue \<Rightarrow> 'a thread_queue_item thread_queue" where
  "next_queue mq = mq_queues mq ! mq_next_item_queue mq"

definition set_queue :: "nat \<Rightarrow> 'a thread_queue_item thread_queue \<Rightarrow> 'a multi_thread_queue \<Rightarrow> 'a multi_thread_queue" where
  "set_queue i q mq = mq\<lparr>mq_queues := (mq_queues mq)[i := q]\<rparr>"

definition set_next :: "'a thread_queue_item thread_queue \<Rightarrow> 'a multi_thread_queue \<Rightarrow> 'a multi_thread_queue" where
  "set_next q mq = set_queue (mq_next_item_queue mq) q mq"

definition take_next :: "'a multi_thread_queue \<Rightarrow> cxx_error + 'a multi_thread_queue" where
  "take_next mq =
     (case mq_next_next_item_queue mq of
        None \<Rightarrow> Inl (Undef ''queue number -1'')
      | Some next \<Rightarrow> Inr (mq\<lparr>mq_next_item_queue := next\<rparr>))"

text \<open>\<^verbatim>\<open>fan_out_thread_queue\<close>: one producer; the slot tells which queue the following item goes to.\<close>

definition one_next_remove :: "nat \<Rightarrow> 'a thread_queue_item thread_queue \<Rightarrow> cxx_error + nat" where
  "one_next_remove n q = map_sum id (\<lambda>i. ti_next_item_queue (tq_items q ! i)) (next_remove n q)"

definition fan_out_next_insert :: "nat \<Rightarrow> nat \<Rightarrow> 'a multi_thread_queue \<Rightarrow> cxx_error + 'a multi_thread_queue" where
  "fan_out_next_insert n next mq =
     map_sum id (\<lambda>i. (set_next (change_slot i (\<lambda>slot. slot\<lparr>ti_next_item_queue := next\<rparr>) (next_queue mq)) mq)
                       \<lparr>mq_next_next_item_queue := Some next\<rparr>) (next_insert n (next_queue mq))"

text \<open>\<^verbatim>\<open>fan_in_thread_queue\<close>: one consumer, that finds in the slot which queue the following item is in.\<close>

definition one_next_insert :: "nat \<Rightarrow> nat \<Rightarrow> 'a thread_queue_item thread_queue \<Rightarrow> cxx_error + 'a thread_queue_item thread_queue" where
  "one_next_insert n next q = map_sum id (\<lambda>i. change_slot i (\<lambda>slot. slot\<lparr>ti_next_item_queue := next\<rparr>) q) (next_insert n q)"

definition fan_in_next_remove :: "nat \<Rightarrow> 'a multi_thread_queue \<Rightarrow> cxx_error + 'a multi_thread_queue" where
  "fan_in_next_remove n mq =
     map_sum id (\<lambda>i. mq\<lparr>mq_next_next_item_queue := Some (ti_next_item_queue (tq_items (next_queue mq) ! i))\<rparr>) (next_remove n (next_queue mq))"

section \<open>Items\<close>

text \<open>\<^verbatim>\<open>eq_item\<close>: what there is to do, the event (or the file to close), and the messages that go with it.\<close>

record ('e, 'r) eq_item =
  eq_info :: u32
  eq_event :: "'e option"
  eq_reclaim :: "'r list"

definition EQ_INFO_PROCESS :: u32 where "EQ_INFO_PROCESS = 0x100"
definition EQ_INFO_DAMAGED :: u32 where "EQ_INFO_DAMAGED = 0x200"
definition EQ_INFO_PRINT_EVENT :: u32 where "EQ_INFO_PRINT_EVENT = 0x10000"
definition EQ_INFO_PRINT_EVENT_DATA :: u32 where "EQ_INFO_PRINT_EVENT_DATA = 0x20000"
definition EQ_INFO_MESSAGE :: u32 where "EQ_INFO_MESSAGE = 0x1000000"
definition EQ_INFO_FILE_CLOSE :: u32 where "EQ_INFO_FILE_CLOSE = 0x2000000"
definition EQ_INFO_FLUSH :: u32 where "EQ_INFO_FLUSH = 0x4000000"
definition EQ_INFO_DONE :: u32 where "EQ_INFO_DONE = 0x8000000"

lemmas eq_info_defs = EQ_INFO_PROCESS_def EQ_INFO_DAMAGED_def EQ_INFO_PRINT_EVENT_def EQ_INFO_PRINT_EVENT_DATA_def
  EQ_INFO_MESSAGE_def EQ_INFO_FILE_CLOSE_def EQ_INFO_FLUSH_def EQ_INFO_DONE_def

text \<open>
  What the reader has for the next item: messages of the opening or of the first record, an event, an event that
  could not be read, the end of a file that is to be closed, and the request to flush, perhaps the last item of all.
\<close>

datatype ('e, 'r) read_item =
    Messages "'r list"
  | Event 'e "'r list"
  | Event_Failed "'r list"
  | File_Close 'e
  | Flush_All bool

fun reader_item :: "bool \<Rightarrow> bool \<Rightarrow> ('e, 'r) read_item \<Rightarrow> ('e, 'r) eq_item" where
  "reader_item print data (Messages rs) = \<lparr>eq_info = EQ_INFO_MESSAGE, eq_event = None, eq_reclaim = rs\<rparr>"
| "reader_item print data (Event e rs) =
     \<lparr>eq_info = (if print then if data then EQ_INFO_PRINT_EVENT OR EQ_INFO_PRINT_EVENT_DATA else EQ_INFO_PRINT_EVENT else 0) OR EQ_INFO_PROCESS,
      eq_event = Some e, eq_reclaim = rs\<rparr>"
| "reader_item print data (Event_Failed rs) = \<lparr>eq_info = 0, eq_event = None, eq_reclaim = rs\<rparr>"
| "reader_item print data (File_Close source) = \<lparr>eq_info = EQ_INFO_FILE_CLOSE, eq_event = Some source, eq_reclaim = []\<rparr>"
| "reader_item print data (Flush_All done) =
     \<lparr>eq_info = EQ_INFO_FLUSH OR (if done then EQ_INFO_DONE else 0), eq_event = None, eq_reclaim = []\<rparr>"

text \<open>
  The processing of an item: \<open>unpack\<close> says whether it went without an error, what it made of the event and its messages.
\<close>

definition process_item :: "bool \<Rightarrow> ('e \<Rightarrow> bool \<times> 'e \<times> 'r list) \<Rightarrow> ('e, 'r) eq_item \<Rightarrow> cxx_error + ('e, 'r) eq_item" where
  "process_item debug unpack item =
     (if eq_info item AND EQ_INFO_PROCESS = 0 then Inr item
      else case eq_event item of
          None \<Rightarrow> Inl (Undef ''event at a null pointer'')
        | Some e \<Rightarrow>
            (case unpack e of (ok, e', rs) \<Rightarrow>
               let item = item\<lparr>eq_event := Some e', eq_reclaim := eq_reclaim item @ rs\<rparr>;
                   info = (eq_info item AND NOT EQ_INFO_PROCESS) OR EQ_INFO_DAMAGED
               in Inr (if ok then item
                       else item\<lparr>eq_info := if debug then info OR (EQ_INFO_PRINT_EVENT OR EQ_INFO_PRINT_EVENT_DATA) else info\<rparr>)))"

section \<open>The threads\<close>

text \<open>
  Where the threads are: \<open>R_Fill\<close> is between \<^verbatim>\<open>next_insert\<close> and the writing of the item, \<open>R_Insert\<close> has the item
  that was written, \<open>R_Wake\<close> is in \<^verbatim>\<open>insert\<close> after the count, \<open>R_Flush\<close> at one of the queues in \<^verbatim>\<open>flush_avail\<close>.
\<close>

datatype ('e, 'r) reader_place =
    R_Wait place
  | R_Fill
  | R_Insert "('e, 'r) eq_item"
  | R_Wake "('e, 'r) eq_item" place
  | R_Flush nat place
  | R_Failed cxx_error

datatype worker_place =
    W_Out place
  | W_In place
  | W_Next nat
  | W_Copy
  | W_Remove
  | W_Removed place
  | W_Process
  | W_Insert
  | W_Wake bool place
  | W_Flush place
  | W_Failed cxx_error

datatype main_place =
    M_Wait place
  | M_Use
  | M_Remove bool
  | M_Wake bool place
  | M_Done
  | M_Failed cxx_error

type_synonym ('e, 'r) eq_queue = "('e, 'r) eq_item thread_queue_item thread_queue"

record ('e, 'r) pipeline =
  pl_unpack :: "('e, 'r) eq_item multi_thread_queue"
  pl_retire :: "('e, 'r) eq_item multi_thread_queue"
  pl_reader :: "('e, 'r) reader_place"
  pl_reader_tokens :: nat
  pl_workers :: "worker_place list"
  pl_worker_tokens :: "nat list"
  pl_main :: main_place
  pl_main_tokens :: nat
  pl_read :: "('e, 'r) eq_item list"
  pl_retired :: "('e, 'r) eq_item list"

definition pipeline_start :: "nat \<Rightarrow> ('e, 'r) eq_item thread_queue_item list \<Rightarrow> ('e, 'r) pipeline" where
  "pipeline_start m items =
     \<lparr>pl_unpack = multi_init m items, pl_retire = multi_init m items, pl_reader = R_Wait Look, pl_reader_tokens = 0,
      pl_workers = replicate m (W_Out Look), pl_worker_tokens = replicate m 0, pl_main = M_Wait Look, pl_main_tokens = 0,
      pl_read = [], pl_retired = []\<rparr>"

definition wake_worker :: "nat \<Rightarrow> bool \<Rightarrow> ('e, 'r) pipeline \<Rightarrow> ('e, 'r) pipeline" where
  "wake_worker i sent p = (if sent then p\<lparr>pl_worker_tokens := (pl_worker_tokens p)[i := pl_worker_tokens p ! i + 1]\<rparr> else p)"

text \<open>
  The reader: \<^verbatim>\<open>wait_for_unpack_queue_slot\<close>, \<^verbatim>\<open>next_insert\<close> with the queue of the following item, the writing of the
  item (at the end of a file there is none, and the slot is used for the next), \<^verbatim>\<open>insert\<close>, and after a request to flush
  \<^verbatim>\<open>flush_avail\<close> on all queues. The queue that is chosen and what is read are given from outside.
\<close>

definition reader_step :: "nat \<Rightarrow> bool \<Rightarrow> bool \<Rightarrow> nat \<Rightarrow> ('e, 'r) read_item option \<Rightarrow> ('e, 'r) pipeline \<Rightarrow> ('e, 'r) pipeline option" where
  "reader_step n print data next item p =
     (let mq = pl_unpack p; q = next_queue mq in
      case pl_reader p of
        R_Wait pl \<Rightarrow>
          if pl = Access then
            Some (case fan_out_next_insert n next mq of
                    Inl e \<Rightarrow> p\<lparr>pl_reader := R_Failed e\<rparr>
                  | Inr mq \<Rightarrow> p\<lparr>pl_unpack := mq, pl_reader := R_Fill\<rparr>)
          else map_option (\<lambda>(q, pl, t). p\<lparr>pl_unpack := set_next q mq, pl_reader := R_Wait pl, pl_reader_tokens := t\<rparr>)
                 (wait_insert n q pl (pl_reader_tokens p))
      | R_Fill \<Rightarrow>
          (case item of
             None \<Rightarrow> Some (p\<lparr>pl_unpack := set_next (change_slot (insert_slot n q)
                              (\<lambda>slot. slot\<lparr>ti_item := \<lparr>eq_info = 0, eq_event = None, eq_reclaim = []\<rparr>\<rparr>) q) mq, pl_reader := R_Wait Look\<rparr>)
           | Some it \<Rightarrow> Some (p\<lparr>pl_unpack := set_next (change_slot (insert_slot n q)
                              (\<lambda>slot. slot\<lparr>ti_item := reader_item print data it\<rparr>) q) mq, pl_reader := R_Insert (reader_item print data it)\<rparr>))
      | R_Insert it \<Rightarrow>
          Some (case count_insert n q of
                  Inl e \<Rightarrow> p\<lparr>pl_reader := R_Failed e\<rparr>
                | Inr q \<Rightarrow> p\<lparr>pl_unpack := set_next q mq, pl_read := pl_read p @ [it], pl_reader := R_Wake it See_Need\<rparr>)
      | R_Wake it pl \<Rightarrow>
          if pl = Ended then
            Some (case take_next mq of
                    Inl e \<Rightarrow> p\<lparr>pl_reader := R_Failed e\<rparr>
                  | Inr mq \<Rightarrow> p\<lparr>pl_unpack := mq,
                      pl_reader := if eq_info it AND EQ_INFO_FLUSH \<noteq> 0 then R_Flush 0 Flush else R_Wait Look\<rparr>)
          else map_option (\<lambda>(q, pl, sent). wake_worker (mq_next_item_queue mq) sent (p\<lparr>pl_unpack := set_next q mq, pl_reader := R_Wake it pl\<rparr>))
                 (wake_consumer q pl)
      | R_Flush i pl \<Rightarrow>
          if length (mq_queues mq) \<le> i then Some (p\<lparr>pl_reader := R_Wait Look\<rparr>)
          else if pl = Ended then Some (p\<lparr>pl_reader := R_Flush (Suc i) Flush\<rparr>)
          else map_option (\<lambda>(q, pl, sent). wake_worker i sent (p\<lparr>pl_unpack := set_queue i q mq, pl_reader := R_Flush i pl\<rparr>))
                 (wake_consumer (mq_queues mq ! i) pl)
      | R_Failed e \<Rightarrow> None)"

text \<open>
  A processing thread with its two queues: a free slot in the output, then an item in the input; the number of the
  next queue is passed on, the item copied, the input slot released, the copy processed in its slot and inserted, and
  the output flushed where the item asks for it. The last value says whether the reader and the main thread are sent a token.
\<close>

definition worker_step :: "nat \<Rightarrow> bool \<Rightarrow> ('e \<Rightarrow> bool \<times> 'e \<times> 'r list) \<Rightarrow> ('e, 'r) eq_queue \<Rightarrow> ('e, 'r) eq_queue \<Rightarrow> worker_place \<Rightarrow> nat \<Rightarrow>
    (('e, 'r) eq_queue \<times> ('e, 'r) eq_queue \<times> worker_place \<times> nat \<times> bool \<times> bool) option" where
  "worker_step n debug unpack u r w tokens =
     (let send = insert_slot n r; recv = remove_slot n u in
      case w of
        W_Out pl \<Rightarrow>
          if pl = Access then Some (u, r, W_In Look, tokens, False, False)
          else map_option (\<lambda>(r, pl, t). (u, r, W_Out pl, t, False, False)) (wait_insert n r pl tokens)
      | W_In pl \<Rightarrow>
          if pl = Access then Some (u, r, case_sum W_Failed W_Next (one_next_remove n u), tokens, False, False)
          else map_option (\<lambda>(u, pl, t). (u, r, W_In pl, t, False, False)) (wait_remove n Access u pl tokens)
      | W_Next number \<Rightarrow>
          Some (case one_next_insert n number r of
                  Inl e \<Rightarrow> (u, r, W_Failed e, tokens, False, False)
                | Inr r \<Rightarrow> (u, r, W_Copy, tokens, False, False))
      | W_Copy \<Rightarrow> Some (u, change_slot send (\<lambda>slot. slot\<lparr>ti_item := ti_item (tq_items u ! recv)\<rparr>) r, W_Remove, tokens, False, False)
      | W_Remove \<Rightarrow>
          Some (case count_remove n u of
                  Inl e \<Rightarrow> (u, r, W_Failed e, tokens, False, False)
                | Inr u \<Rightarrow> (u, r, W_Removed See_Need, tokens, False, False))
      | W_Removed pl \<Rightarrow>
          if pl = Ended then Some (u, r, W_Process, tokens, False, False)
          else map_option (\<lambda>(u, pl, sent). (u, r, W_Removed pl, tokens, sent, False)) (wake_producer u pl)
      | W_Process \<Rightarrow>
          Some (case process_item debug unpack (ti_item (tq_items r ! send)) of
                  Inl e \<Rightarrow> (u, r, W_Failed e, tokens, False, False)
                | Inr item \<Rightarrow> (u, change_slot send (\<lambda>slot. slot\<lparr>ti_item := item\<rparr>) r, W_Insert, tokens, False, False))
      | W_Insert \<Rightarrow>
          let info = eq_info (ti_item (tq_items r ! send))
          in Some (case count_insert n r of
                     Inl e \<Rightarrow> (u, r, W_Failed e, tokens, False, False)
                   | Inr r \<Rightarrow> (u, r, W_Wake (info AND EQ_INFO_FLUSH \<noteq> 0) See_Need, tokens, False, False))
      | W_Wake flush pl \<Rightarrow>
          if pl = Ended then Some (u, r, if flush then W_Flush Flush else W_Out Look, tokens, False, False)
          else map_option (\<lambda>(r, pl, sent). (u, r, W_Wake flush pl, tokens, False, sent)) (wake_consumer r pl)
      | W_Flush pl \<Rightarrow>
          if pl = Ended then Some (u, r, W_Out Look, tokens, False, False)
          else map_option (\<lambda>(r, pl, sent). (u, r, W_Flush pl, tokens, False, sent)) (wake_consumer r pl)
      | W_Failed e \<Rightarrow> None)"

definition processor_step :: "nat \<Rightarrow> bool \<Rightarrow> ('e \<Rightarrow> bool \<times> 'e \<times> 'r list) \<Rightarrow> nat \<Rightarrow> ('e, 'r) pipeline \<Rightarrow> ('e, 'r) pipeline option" where
  "processor_step n debug unpack i p =
     map_option (\<lambda>(u, r, w, t, to_reader, to_main).
         p\<lparr>pl_unpack := set_queue i u (pl_unpack p), pl_retire := set_queue i r (pl_retire p),
           pl_workers := (pl_workers p)[i := w], pl_worker_tokens := (pl_worker_tokens p)[i := t],
           pl_reader_tokens := pl_reader_tokens p + of_bool to_reader, pl_main_tokens := pl_main_tokens p + of_bool to_main\<rparr>)
       (worker_step n debug unpack (mq_queues (pl_unpack p) ! i) (mq_queues (pl_retire p) ! i) (pl_workers p ! i) (pl_worker_tokens p ! i))"

text \<open>
  The main thread: the loop that retires, and sleeping with a time limit when there is nothing to retire. After the
  item that ends the program it leaves the loop.
\<close>

definition main_step :: "nat \<Rightarrow> bool \<Rightarrow> ('e, 'r) pipeline \<Rightarrow> ('e, 'r) pipeline option" where
  "main_step n time_over p =
     (let mq = pl_retire p; q = next_queue mq in
      case pl_main p of
        M_Wait pl \<Rightarrow>
          if pl = Access then
            Some (case fan_in_next_remove n mq of
                    Inl e \<Rightarrow> p\<lparr>pl_main := M_Failed e\<rparr>
                  | Inr mq \<Rightarrow> p\<lparr>pl_retire := mq, pl_main := M_Use\<rparr>)
          else if pl = Asleep \<and> time_over then Some (p\<lparr>pl_main := M_Wait Look\<rparr>)
          else map_option (\<lambda>(q, pl, t). p\<lparr>pl_retire := set_next q mq, pl_main := M_Wait pl, pl_main_tokens := t\<rparr>)
                 (wait_remove n Look q pl (pl_main_tokens p))
      | M_Use \<Rightarrow>
          let item = ti_item (tq_items q ! remove_slot n q)
          in Some (p\<lparr>pl_retired := pl_retired p @ [item], pl_main := M_Remove (eq_info item AND EQ_INFO_DONE \<noteq> 0)\<rparr>)
      | M_Remove done \<Rightarrow>
          Some (case count_remove n q of
                  Inl e \<Rightarrow> p\<lparr>pl_main := M_Failed e\<rparr>
                | Inr q \<Rightarrow> p\<lparr>pl_retire := set_next q mq, pl_main := M_Wake done See_Need\<rparr>)
      | M_Wake done pl \<Rightarrow>
          if pl = Ended then
            Some (case take_next mq of
                    Inl e \<Rightarrow> p\<lparr>pl_main := M_Failed e\<rparr>
                  | Inr mq \<Rightarrow> p\<lparr>pl_retire := mq, pl_main := if done then M_Done else M_Wait Look\<rparr>)
          else map_option (\<lambda>(q, pl, sent). wake_worker (mq_next_item_queue mq) sent (p\<lparr>pl_retire := set_next q mq, pl_main := M_Wake done pl\<rparr>))
                 (wake_producer q pl)
      | M_Done \<Rightarrow> None
      | M_Failed e \<Rightarrow> None)"

text \<open>The errors that have ended the program.\<close>

fun place_error :: "place \<Rightarrow> cxx_error list" where
  "place_error (Crashed e) = [e]"
| "place_error _ = []"

definition reader_error :: "('e, 'r) reader_place \<Rightarrow> cxx_error list" where
  "reader_error w = (case w of R_Wait pl \<Rightarrow> place_error pl | R_Wake it pl \<Rightarrow> place_error pl | R_Flush i pl \<Rightarrow> place_error pl | R_Failed e \<Rightarrow> [e] | _ \<Rightarrow> [])"

definition worker_error :: "worker_place \<Rightarrow> cxx_error list" where
  "worker_error w =
     (case w of W_Out pl \<Rightarrow> place_error pl | W_In pl \<Rightarrow> place_error pl | W_Removed pl \<Rightarrow> place_error pl | W_Wake b pl \<Rightarrow> place_error pl
      | W_Flush pl \<Rightarrow> place_error pl | W_Failed e \<Rightarrow> [e] | _ \<Rightarrow> [])"

definition main_error :: "main_place \<Rightarrow> cxx_error list" where
  "main_error w = (case w of M_Wait pl \<Rightarrow> place_error pl | M_Wake b pl \<Rightarrow> place_error pl | M_Failed e \<Rightarrow> [e] | _ \<Rightarrow> [])"

definition pipeline_errors :: "('e, 'r) pipeline \<Rightarrow> cxx_error list" where
  "pipeline_errors p = reader_error (pl_reader p) @ concat (map worker_error (pl_workers p)) @ main_error (pl_main p)"

text \<open>Any thread may go next; the program ends with the first error.\<close>

inductive pipeline_step :: "nat \<Rightarrow> nat \<Rightarrow> bool \<Rightarrow> ('e \<Rightarrow> bool \<times> 'e \<times> 'r list) \<Rightarrow> ('e, 'r) pipeline \<Rightarrow> ('e, 'r) pipeline \<Rightarrow> bool"
  for n m debug unpack where
  read: "pipeline_errors p = [] \<Longrightarrow> next < m \<Longrightarrow> reader_step n print data next item p = Some p' \<Longrightarrow> pipeline_step n m debug unpack p p'"
| process: "pipeline_errors p = [] \<Longrightarrow> i < m \<Longrightarrow> processor_step n debug unpack i p = Some p' \<Longrightarrow> pipeline_step n m debug unpack p p'"
| retire: "pipeline_errors p = [] \<Longrightarrow> main_step n time_over p = Some p' \<Longrightarrow> pipeline_step n m debug unpack p p'"

inductive pipeline_reaches :: "nat \<Rightarrow> nat \<Rightarrow> bool \<Rightarrow> ('e \<Rightarrow> bool \<times> 'e \<times> 'r list) \<Rightarrow> ('e, 'r) eq_item thread_queue_item list \<Rightarrow> ('e, 'r) pipeline \<Rightarrow> bool"
  for n m debug unpack items where
  start: "pipeline_reaches n m debug unpack items (pipeline_start m items)"
| step: "pipeline_reaches n m debug unpack items p \<Longrightarrow> pipeline_step n m debug unpack p p' \<Longrightarrow> pipeline_reaches n m debug unpack items p'"

section \<open>The interface of a queue\<close>

text \<open>
  What the threads rely on, in the pieces that they call: an item that is written into the free slot is not yet in
  the queue; it enters at the end; the item at the front stays in its slot until it leaves.
\<close>

locale fifo =
  fixes good :: "'q \<Rightarrow> bool" and held :: "'q \<Rightarrow> 'a list" and limit :: nat and slot :: "'q \<Rightarrow> 'a"
    and room :: "'q \<Rightarrow> bool" and "write" :: "('a \<Rightarrow> 'a) \<Rightarrow> 'q \<Rightarrow> 'q" and enter :: "'q \<Rightarrow> 'q"
    and ready :: "'q \<Rightarrow> bool" and front :: "'q \<Rightarrow> 'a" and leave :: "'q \<Rightarrow> 'q"
  assumes room_iff: "good q \<Longrightarrow> room q \<longleftrightarrow> length (held q) < limit"
    and ready_iff: "good q \<Longrightarrow> ready q \<longleftrightarrow> held q \<noteq> []"
    and written: "good q \<Longrightarrow> room q \<Longrightarrow> good (write f q) \<and> held (write f q) = held q \<and> slot (write f q) = f (slot q)"
    and entered: "good q \<Longrightarrow> room q \<Longrightarrow> good (enter q) \<and> held (enter q) = held q @ [slot q]"
    and in_front: "good q \<Longrightarrow> ready q \<Longrightarrow> front q = hd (held q)"
    and left: "good q \<Longrightarrow> ready q \<Longrightarrow> good (leave q) \<and> held (leave q) = tl (held q) \<and> slot (leave q) = slot q"
begin

lemma written_tests: "good q \<Longrightarrow> room q \<Longrightarrow> room (write f q) \<and> ready (write f q) = ready q"
  using written [of q f] by (simp add: room_iff ready_iff)

lemma entered_ready: "good q \<Longrightarrow> room q \<Longrightarrow> ready (enter q)"
  using entered [of q] by (simp add: ready_iff)

lemma entered_front: "good q \<Longrightarrow> room q \<Longrightarrow> ready q \<Longrightarrow> front (enter q) = front q"
  using entered [of q] in_front [of "enter q"] in_front [of q] by (simp add: entered_ready ready_iff)

lemma left_room: "good q \<Longrightarrow> ready q \<Longrightarrow> room q \<Longrightarrow> room (leave q)"
  using left [of q] by (simp add: room_iff)

lemma handed_over:
  assumes "good q" "ready q" "good q'" "room q'"
  shows "held (enter (write (\<lambda>_. f (front q)) q')) @ map f (held (leave q)) = held q' @ map f (held q)"
  using assms written [of q' "\<lambda>_. f (front q)"] entered [of "write (\<lambda>_. f (front q)) q'"] left [of q] in_front [of q] ready_iff [of q]
  by (cases "held q") (auto simp: written_tests)

end

definition good_queue :: "nat \<Rightarrow> 'a thread_queue \<Rightarrow> bool" where
  "good_queue n q \<longleftrightarrow> queue_size n \<and> length (tq_items q) = n \<and> (\<exists>a d. counts n q a d)"

definition free_slot :: "nat \<Rightarrow> 'a thread_queue \<Rightarrow> 'a" where
  "free_slot n q = tq_items q ! insert_slot n q"

definition front_item :: "nat \<Rightarrow> 'a thread_queue \<Rightarrow> 'a" where
  "front_item n q = tq_items q ! remove_slot n q"

definition change_free :: "nat \<Rightarrow> ('a \<Rightarrow> 'a) \<Rightarrow> 'a thread_queue \<Rightarrow> 'a thread_queue" where
  "change_free n f q = change_slot (insert_slot n q) f q"

definition enter_item :: "'a thread_queue \<Rightarrow> 'a thread_queue" where
  "enter_item q = q\<lparr>tq_avail := tq_avail q + 1\<rparr>"

definition leave_item :: "'a thread_queue \<Rightarrow> 'a thread_queue" where
  "leave_item q = q\<lparr>tq_done := tq_done q + 1\<rparr>"

lemma waiting_counts:
  assumes "counts n q a d" "queue_size n"
  shows "waiting n q = map (\<lambda>i. tq_items q ! (i mod n)) [d..<a]"
proof -
  note ops = counts_ops [OF assms]
  have "map (\<lambda>i. tq_items q ! (i mod n)) [d..<a] = map (\<lambda>i. tq_items q ! ((d + i) mod n)) [0..<a - d]"
    by (rule nth_equalityI) auto
  then show ?thesis using ops by (simp add: waiting_def mod_add_left_eq)
qed

lemma ring_tests:
  assumes "good_queue n q"
  shows "can_insert n q \<longleftrightarrow> length (waiting n q) < n" "can_remove n q \<longleftrightarrow> waiting n q \<noteq> []"
proof -
  from assms obtain a d where c: "counts n q a d" and s: "queue_size n" by (auto simp: good_queue_def)
  show "can_insert n q \<longleftrightarrow> length (waiting n q) < n" "can_remove n q \<longleftrightarrow> waiting n q \<noteq> []"
    using counts_ops [OF c s] waiting_counts [OF c s] c by (auto simp: counts_def)
qed

lemma ring_written:
  assumes "good_queue n q" "can_insert n q"
  shows "good_queue n (change_free n f q) \<and> waiting n (change_free n f q) = waiting n q \<and> free_slot n (change_free n f q) = f (free_slot n q)"
proof -
  from assms(1) obtain a d where c: "counts n q a d" and g: "queue_size n" "length (tq_items q) = n" by (auto simp: good_queue_def)
  note ops = counts_ops [OF c g(1)]
  have lt: "a < d + n" "d \<le> a" using assms(2) ops c by (simp_all add: counts_def)
  have q: "change_free n f q = q\<lparr>tq_items := (tq_items q)[a mod n := f (tq_items q ! (a mod n))]\<rparr>" (is "_ = ?q")
    using ops(4) by (simp add: change_free_def change_slot_def)
  have c1: "counts n ?q a d" using c by simp
  have "tq_items ?q ! (i mod n) = tq_items q ! (i mod n)" if "d \<le> i" "i < a" for i
    using mod_neq_window [of i a n] that lt by simp
  then have "waiting n ?q = waiting n q" using waiting_counts [OF c g(1)] waiting_counts [OF c1 g(1)] by simp
  moreover have "good_queue n ?q" using c1 g unfolding good_queue_def by (intro conjI exI [of _ a] exI [of _ d]) simp_all
  moreover have "free_slot n ?q = f (free_slot n q)"
    using counts_ops(4) [OF c1 g(1)] ops(4,6) g(2) by (simp add: free_slot_def)
  ultimately show ?thesis using q by simp
qed

lemma ring_entered:
  assumes "good_queue n q" "can_insert n q"
  shows "good_queue n (enter_item q) \<and> waiting n (enter_item q) = waiting n q @ [free_slot n q]"
proof -
  from assms(1) obtain a d where c: "counts n q a d" and g: "queue_size n" "length (tq_items q) = n" by (auto simp: good_queue_def)
  note ops = counts_ops [OF c g(1)]
  have lt: "a < d + n" "d \<le> a" using assms(2) ops c by (simp_all add: counts_def)
  have c2: "counts n (enter_item q) (Suc a) d" using counts_avail [OF c lt(1)] by (simp add: enter_item_def)
  have "tq_items (enter_item q) = tq_items q" by (simp add: enter_item_def)
  then show ?thesis using waiting_counts [OF c g(1)] waiting_counts [OF c2 g(1)] ops(4) lt(2) g c2
    by (auto simp: free_slot_def good_queue_def)
qed

lemma ring_left:
  assumes "good_queue n q" "can_remove n q"
  shows "front_item n q = hd (waiting n q)"
    "good_queue n (leave_item q) \<and> waiting n (leave_item q) = tl (waiting n q) \<and> free_slot n (leave_item q) = free_slot n q"
proof -
  from assms(1) obtain a d where c: "counts n q a d" and g: "queue_size n" "length (tq_items q) = n" by (auto simp: good_queue_def)
  note ops = counts_ops [OF c g(1)]
  have lt: "d < a" using assms(2) ops by simp
  have c2: "counts n (leave_item q) a (Suc d)" using counts_done [OF c lt] by (simp add: leave_item_def)
  have up: "[d..<a] = d # [Suc d..<a]" using lt by (rule upt_conv_Cons)
  have i: "tq_items (leave_item q) = tq_items q" by (simp add: leave_item_def)
  show "front_item n q = hd (waiting n q)" using waiting_counts [OF c g(1)] up ops(5) by (simp add: front_item_def)
  show "good_queue n (leave_item q) \<and> waiting n (leave_item q) = tl (waiting n q) \<and> free_slot n (leave_item q) = free_slot n q"
    using waiting_counts [OF c g(1)] waiting_counts [OF c2 g(1)] up i g c2 counts_ops(4) [OF c2 g(1)] ops(4)
    by (auto simp: free_slot_def good_queue_def)
qed

interpretation ring: fifo "good_queue n" "waiting n" n "free_slot n" "can_insert n" "change_free n" enter_item
    "can_remove n" "front_item n" leave_item for n
  by unfold_locales (rule ring_tests ring_written ring_entered ring_left; assumption)+

lemmas ring_laws = ring.written ring.written_tests ring.entered ring.entered_ready ring.entered_front ring.left ring.left_room ring.in_front

text \<open>Waiting and waking touch neither the items nor the counters.\<close>

definition same_items :: "'a thread_queue \<Rightarrow> 'a thread_queue \<Rightarrow> bool" where
  "same_items q q' \<longleftrightarrow> tq_avail q' = tq_avail q \<and> tq_done q' = tq_done q \<and> tq_items q' = tq_items q"

lemma same_items_refl [simp]: "same_items q q"
  by (simp add: same_items_def)

lemma same_items_views:
  assumes "same_items q q'"
  shows "good_queue n q' = good_queue n q" "waiting n q' = waiting n q" "free_slot n q' = free_slot n q"
    "can_insert n q' = can_insert n q" "can_remove n q' = can_remove n q" "front_item n q' = front_item n q"
  using assms by (simp_all add: same_items_def good_queue_def counts_def waiting_def free_slot_def front_item_def can_insert_def can_remove_def
      fill_def insert_slot_def remove_slot_def)

lemma flags_same [simp]:
  "can_insert n (q\<lparr>tq_need_done_wakeup := b\<rparr>) = can_insert n q" "can_remove n (q\<lparr>tq_need_avail_wakeup := b\<rparr>) = can_remove n q"
  by (rule same_items_views; simp add: same_items_def)+

lemma wait_insert_same:
  assumes "wait_insert n q pl t = Some (q', pl', t')" "pl = Take_Back \<longrightarrow> can_insert n q"
  shows "same_items q q' \<and> (pl' \<in> {Access, Take_Back} \<longrightarrow> can_insert n q') \<and> place_error pl' = []"
  using assms by (cases pl) (auto simp: wait_insert_def wait_step_def same_items_def split: if_splits)

lemma wait_remove_same:
  assumes "wait_remove n resume q pl t = Some (q', pl', t')" "pl = Take_Back \<longrightarrow> can_remove n q \<or> resume = Look" "resume \<in> {Access, Look}"
  shows "same_items q q' \<and> (pl' \<in> {Access, Take_Back} \<longrightarrow> can_remove n q') \<and> place_error pl' = []"
  using assms by (cases pl) (auto simp: wait_remove_def wait_step_def same_items_def split: if_splits)

definition wake_fine :: "place \<Rightarrow> bool" where
  "wake_fine pl \<longleftrightarrow> set (place_error pl) \<subseteq> {Undef ''wakeup of a null pointer''}"

lemma wake_step_same:
  assumes "wake_step needs reached clear q pl = Some (q', pl', b)" "\<And>q. same_items q (clear q)"
  shows "same_items q q' \<and> wake_fine pl'"
  using assms by (cases pl) (auto simp: wake_step_def wake_fine_def split: if_splits)

lemma wake_same:
  "wake_consumer q pl = Some (q', pl', b) \<Longrightarrow> same_items q q' \<and> wake_fine pl'"
  "wake_producer q pl = Some (q', pl', b) \<Longrightarrow> same_items q q' \<and> wake_fine pl'"
  unfolding wake_consumer_def wake_producer_def by (erule wake_step_same, simp add: same_items_def)+

section \<open>One processing thread\<close>

definition processable :: "('e, 'r) eq_item \<Rightarrow> bool" where
  "processable item \<longleftrightarrow> eq_info item AND EQ_INFO_PROCESS = 0 \<or> eq_event item \<noteq> None"

definition processed :: "bool \<Rightarrow> ('e \<Rightarrow> bool \<times> 'e \<times> 'r list) \<Rightarrow> ('e, 'r) eq_item thread_queue_item \<Rightarrow> ('e, 'r) eq_item thread_queue_item" where
  "processed debug unpack slot = slot\<lparr>ti_item := (case process_item debug unpack (ti_item slot) of Inr item \<Rightarrow> item | Inl e \<Rightarrow> ti_item slot)\<rparr>"

lemma processable_item:
  assumes "processable item"
  shows "\<exists>item'. process_item debug unpack item = Inr item'"
  using assms by (auto simp: processable_def process_item_def Let_def split: prod.split)

lemma reader_item_processable [simp]: "processable (reader_item print data item)"
  by (cases item) (simp_all add: processable_def eq_info_defs)

lemma processed_next [simp]: "ti_next_item_queue (processed debug unpack slot) = ti_next_item_queue slot"
  by (simp add: processed_def)

text \<open>Between the release of the input slot and the insertion a thread has one item in the slot of its output.\<close>

definition in_hand :: "nat \<Rightarrow> bool \<Rightarrow> ('e \<Rightarrow> bool \<times> 'e \<times> 'r list) \<Rightarrow> worker_place \<Rightarrow> ('e, 'r) eq_queue \<Rightarrow> ('e, 'r) eq_item thread_queue_item list" where
  "in_hand n debug unpack w r =
     (case w of W_Removed pl \<Rightarrow> [processed debug unpack (free_slot n r)] | W_Process \<Rightarrow> [processed debug unpack (free_slot n r)]
      | W_Insert \<Rightarrow> [free_slot n r] | _ \<Rightarrow> [])"

definition worker_knows :: "nat \<Rightarrow> bool \<Rightarrow> ('e \<Rightarrow> bool \<times> 'e \<times> 'r list) \<Rightarrow> ('e, 'r) eq_queue \<Rightarrow> ('e, 'r) eq_queue \<Rightarrow> worker_place \<Rightarrow> bool" where
  "worker_knows n debug unpack u r w =
     (case w of
        W_Out pl \<Rightarrow> (pl \<in> {Access, Take_Back} \<longrightarrow> can_insert n r) \<and> place_error pl = []
      | W_In pl \<Rightarrow> can_insert n r \<and> (pl \<in> {Access, Take_Back} \<longrightarrow> can_remove n u) \<and> place_error pl = []
      | W_Next next \<Rightarrow> can_insert n r \<and> can_remove n u \<and> next = ti_next_item_queue (front_item n u)
      | W_Copy \<Rightarrow> can_insert n r \<and> can_remove n u \<and> ti_next_item_queue (free_slot n r) = ti_next_item_queue (front_item n u)
      | W_Remove \<Rightarrow> can_insert n r \<and> can_remove n u \<and> free_slot n r = front_item n u
      | W_Removed pl \<Rightarrow> can_insert n r \<and> processable (ti_item (free_slot n r)) \<and> wake_fine pl
      | W_Process \<Rightarrow> can_insert n r \<and> processable (ti_item (free_slot n r))
      | W_Insert \<Rightarrow> can_insert n r
      | W_Wake flush pl \<Rightarrow> wake_fine pl
      | W_Flush pl \<Rightarrow> wake_fine pl
      | W_Failed e \<Rightarrow> False)"

definition lane_inv :: "nat \<Rightarrow> bool \<Rightarrow> ('e \<Rightarrow> bool \<times> 'e \<times> 'r list) \<Rightarrow> ('e, 'r) eq_queue \<Rightarrow> ('e, 'r) eq_queue \<Rightarrow> worker_place \<Rightarrow>
    ('e, 'r) eq_item thread_queue_item list \<Rightarrow> bool" where
  "lane_inv n debug unpack u r w l \<longleftrightarrow>
     good_queue n u \<and> good_queue n r \<and> worker_knows n debug unpack u r w \<and>
     waiting n r @ in_hand n debug unpack w r @ map (processed debug unpack) (waiting n u) = l \<and>
     list_all (\<lambda>slot. processable (ti_item slot)) (waiting n u)"

lemmas lane_defs = lane_inv_def worker_knows_def in_hand_def

lemma lane_same:
  assumes "lane_inv n debug unpack u r w l" "same_items u u'" "same_items r r'"
  shows "lane_inv n debug unpack u' r' w l"
  using assms by (cases w) (simp_all add: lane_defs same_items_views [of u u'] same_items_views [of r r'])

lemma change_slot_free: "change_slot (insert_slot n q) f q = change_free n f q" "tq_items q ! insert_slot n q = free_slot n q"
    "tq_items q ! remove_slot n q = front_item n q"
  by (simp_all add: change_free_def free_slot_def front_item_def)

lemma queue_ops:
  "can_insert n q \<Longrightarrow> next_insert n q = Inr (insert_slot n q)" "can_remove n q \<Longrightarrow> next_remove n q = Inr (remove_slot n q)"
  "can_insert n q \<Longrightarrow> count_insert n q = Inr (enter_item q)" "can_remove n q \<Longrightarrow> count_remove n q = Inr (leave_item q)"
  by (simp_all add: next_insert_def next_remove_def count_insert_def count_remove_def enter_item_def leave_item_def)

text \<open>What the other threads may rely on: the reader keeps its free slot, and the main thread what is in front.\<close>

definition worker_keeps :: "nat \<Rightarrow> 'a thread_queue \<Rightarrow> 'a thread_queue \<Rightarrow> 'a thread_queue \<Rightarrow> 'a thread_queue \<Rightarrow> bool" where
  "worker_keeps n u r u' r' \<longleftrightarrow>
     free_slot n u' = free_slot n u \<and> (can_insert n u \<longrightarrow> can_insert n u') \<and>
     (can_remove n r \<longrightarrow> can_remove n r' \<and> front_item n r' = front_item n r)"

lemma worker_keeps_same: "same_items u u' \<Longrightarrow> same_items r r' \<Longrightarrow> worker_keeps n u r u' r'"
  by (simp add: worker_keeps_def same_items_views)

lemma worker_waits:
  assumes "lane_inv n debug unpack u r w l" "worker_step n debug unpack u r w t = Some (u', r', w', t', b, c)"
    and "(\<exists>pl. w = W_Out pl) \<or> (\<exists>pl. w = W_In pl) \<or> (\<exists>pl. w = W_Removed pl) \<or> (\<exists>f pl. w = W_Wake f pl) \<or> (\<exists>pl. w = W_Flush pl)"
  shows "lane_inv n debug unpack u' r' w' l \<and> worker_keeps n u r u' r'"
proof -
  have "same_items u u' \<and> same_items r r' \<and> lane_inv n debug unpack u r w' l"
    using assms
    by (elim disjE exE) (auto simp: worker_step_def Let_def lane_defs one_next_remove_def queue_ops change_slot_free same_items_views wake_fine_def
        dest!: wait_insert_same wait_remove_same wake_same split: if_splits)
  then show ?thesis using lane_same worker_keeps_same by blast
qed

lemma worker_copies:
  assumes "lane_inv n debug unpack u r w l" "worker_step n debug unpack u r w t = Some (u', r', w', t', b, c)" "(\<exists>k. w = W_Next k) \<or> w = W_Copy"
  shows "lane_inv n debug unpack u' r' w' l \<and> worker_keeps n u r u' r'"
proof -
  have g: "good_queue n r" "can_insert n r" using assms(1,3) by (auto simp: lane_defs)
  note w = ring.written [OF g] ring.written_tests [OF g]
  have front: "can_remove n r \<Longrightarrow> front_item n (change_free n f r) = front_item n r" for f
    using w [of f] ring.in_front [of n r] ring.in_front [of n "change_free n f r"] g by simp
  show ?thesis using assms w front
    by (auto simp: worker_step_def Let_def lane_defs worker_keeps_def one_next_insert_def queue_ops change_slot_free)
qed

lemma worker_removes:
  assumes "lane_inv n debug unpack u r W_Remove l" "worker_step n debug unpack u r W_Remove t = Some (u', r', w', t', b, c)"
  shows "lane_inv n debug unpack u' r' w' l \<and> worker_keeps n u r u' r'"
proof -
  have g: "good_queue n u" "can_remove n u" using assms(1) by (auto simp: lane_defs)
  obtain us where "waiting n u = front_item n u # us" using ring.in_front [OF g] ring.ready_iff [OF g(1)] g(2) by (cases "waiting n u") auto
  then show ?thesis using assms g ring.left [OF g] ring.left_room [OF g]
    by (auto simp: worker_step_def Let_def lane_defs worker_keeps_def queue_ops wake_fine_def)
qed

lemma worker_processes:
  assumes "lane_inv n debug unpack u r W_Process l" "worker_step n debug unpack u r W_Process t = Some (u', r', w', t', b, c)"
  shows "lane_inv n debug unpack u' r' w' l \<and> worker_keeps n u r u' r'"
proof -
  have g: "good_queue n r" "can_insert n r" "processable (ti_item (free_slot n r))" using assms(1) by (auto simp: lane_defs)
  obtain item where item: "process_item debug unpack (ti_item (free_slot n r)) = Inr item" using processable_item [OF g(3)] by blast
  note w = ring.written [OF g(1,2)] ring.written_tests [OF g(1,2)]
  have front: "can_remove n r \<Longrightarrow> front_item n (change_free n f r) = front_item n r" for f
    using w [of f] ring.in_front [of n r] ring.in_front [of n "change_free n f r"] g by simp
  show ?thesis using assms w front item
    by (auto simp: worker_step_def Let_def lane_defs worker_keeps_def change_slot_free processed_def)
qed

lemma worker_inserts:
  assumes "lane_inv n debug unpack u r W_Insert l" "worker_step n debug unpack u r W_Insert t = Some (u', r', w', t', b, c)"
  shows "lane_inv n debug unpack u' r' w' l \<and> worker_keeps n u r u' r'"
proof -
  have g: "good_queue n r" "can_insert n r" using assms(1) by (auto simp: lane_defs)
  show ?thesis using assms ring.entered [OF g] ring.entered_ready [OF g] ring.entered_front [OF g] g
    by (auto simp: worker_step_def Let_def lane_defs worker_keeps_def queue_ops wake_fine_def)
qed

lemma worker_lane:
  assumes "lane_inv n debug unpack u r w l" "worker_step n debug unpack u r w t = Some (u', r', w', t', b, c)"
  shows "lane_inv n debug unpack u' r' w' l \<and> worker_keeps n u r u' r'"
proof (cases w)
  case (W_Next k)
  then show ?thesis using worker_copies [OF assms] by blast
next
  case W_Copy
  then show ?thesis using worker_copies [OF assms] by blast
next
  case W_Remove
  then show ?thesis using worker_removes assms by blast
next
  case W_Process
  then show ?thesis using worker_processes assms by blast
next
  case W_Insert
  then show ?thesis using worker_inserts assms by blast
next
  case (W_Failed e)
  then show ?thesis using assms(1) by (simp add: lane_defs)
qed (use worker_waits [OF assms] in blast)+

text \<open>What the reader and the main thread do to a lane.\<close>

lemma lane_written:
  assumes "lane_inv n debug unpack u r w l" "can_insert n u"
  shows "lane_inv n debug unpack (change_free n f u) r w l"
proof -
  have g: "good_queue n u" using assms(1) by (simp add: lane_inv_def)
  note w = ring.written [OF g assms(2), of f] ring.written_tests [OF g assms(2), of f]
  have "can_remove n u \<Longrightarrow> front_item n (change_free n f u) = front_item n u"
    using w ring.in_front [of n u] ring.in_front [of n "change_free n f u"] g by simp
  then show ?thesis using assms(1) w by (cases w) (auto simp: lane_defs)
qed

lemma lane_entered:
  assumes "lane_inv n debug unpack u r w l" "can_insert n u" "processable (ti_item (free_slot n u))"
  shows "lane_inv n debug unpack (enter_item u) r w (l @ [processed debug unpack (free_slot n u)])"
proof -
  have g: "good_queue n u" using assms(1) by (simp add: lane_inv_def)
  show ?thesis using assms ring.entered [OF g assms(2)] ring.entered_ready [OF g assms(2)] ring.entered_front [OF g assms(2)]
    by (cases w) (auto simp: lane_defs)
qed

lemma lane_left:
  assumes "lane_inv n debug unpack u r w l" "can_remove n r"
  shows "lane_inv n debug unpack u (leave_item r) w (tl l)" "l \<noteq> [] \<and> hd l = front_item n r"
proof -
  have g: "good_queue n r" using assms(1) by (simp add: lane_inv_def)
  have ne: "waiting n r \<noteq> []" using ring.ready_iff [OF g] assms(2) by simp
  show "lane_inv n debug unpack u (leave_item r) w (tl l)" using assms ring.left [OF g assms(2)] ring.left_room [OF g assms(2)] ne
    by (cases w) (auto simp: lane_defs)
  show "l \<noteq> [] \<and> hd l = front_item n r" using assms(1) ring.in_front [OF g assms(2)] ne by (auto simp: lane_inv_def)
qed

section \<open>The order of events\<close>

fun route :: "nat \<Rightarrow> 'a thread_queue_item list \<Rightarrow> (nat \<times> 'a thread_queue_item) list" where
  "route r [] = []"
| "route r (e # es) = (r, e) # route (ti_next_item_queue e) es"

fun route_end :: "nat \<Rightarrow> 'a thread_queue_item list \<Rightarrow> nat" where
  "route_end r [] = r"
| "route_end r (e # es) = route_end (ti_next_item_queue e) es"

definition lane :: "nat \<Rightarrow> nat \<Rightarrow> 'a thread_queue_item list \<Rightarrow> 'a thread_queue_item list" where
  "lane i r es = map snd (filter (\<lambda>x. fst x = i) (route r es))"

lemma route_snoc: "route r (es @ [e]) = route r es @ [(route_end r es, e)]" "route_end r (es @ [e]) = ti_next_item_queue e"
  by (induction es arbitrary: r) auto

lemma lane_snoc: "lane i r (es @ [e]) = lane i r es @ (if route_end r es = i then [e] else [])"
  by (simp add: lane_def route_snoc)

lemma lane_Cons: "lane i r (e # es) = (if r = i then [e] else []) @ lane i (ti_next_item_queue e) es"
  by (simp add: lane_def)

lemma lane_first: "es \<noteq> [] \<Longrightarrow> lane r r es \<noteq> [] \<and> hd (lane r r es) = hd es"
  by (cases es) (simp_all add: lane_Cons)

lemma route_end_less: "r < m \<Longrightarrow> list_all (\<lambda>e. ti_next_item_queue e < m) es \<Longrightarrow> route_end r es < m"
  by (induction es arbitrary: r) auto

definition reader_knows :: "nat \<Rightarrow> nat \<Rightarrow> ('e, 'r) eq_queue \<Rightarrow> nat option \<Rightarrow> ('e, 'r) reader_place \<Rightarrow> bool" where
  "reader_knows n m q following w =
     (case w of
        R_Wait pl \<Rightarrow> (pl \<in> {Access, Take_Back} \<longrightarrow> can_insert n q) \<and> place_error pl = []
      | R_Fill \<Rightarrow> can_insert n q \<and> following = Some (ti_next_item_queue (free_slot n q)) \<and> ti_next_item_queue (free_slot n q) < m
      | R_Insert it \<Rightarrow> can_insert n q \<and> following = Some (ti_next_item_queue (free_slot n q)) \<and> ti_next_item_queue (free_slot n q) < m \<and>
          ti_item (free_slot n q) = it \<and> processable it
      | R_Wake it pl \<Rightarrow> (\<exists>next < m. following = Some next) \<and> wake_fine pl
      | R_Flush i pl \<Rightarrow> wake_fine pl
      | R_Failed e \<Rightarrow> False)"

definition main_knows :: "nat \<Rightarrow> nat \<Rightarrow> ('e, 'r) eq_queue \<Rightarrow> nat option \<Rightarrow> main_place \<Rightarrow> bool" where
  "main_knows n m q following w =
     (case w of
        M_Wait pl \<Rightarrow> (pl = Access \<longrightarrow> can_remove n q) \<and> place_error pl = []
      | M_Use \<Rightarrow> can_remove n q \<and> following = Some (ti_next_item_queue (front_item n q))
      | M_Remove d \<Rightarrow> can_remove n q \<and> following = Some (ti_next_item_queue (front_item n q))
      | M_Wake d pl \<Rightarrow> (\<exists>next < m. following = Some next) \<and> wake_fine pl
      | M_Done \<Rightarrow> True
      | M_Failed e \<Rightarrow> False)"

text \<open>While it is still inside \<^verbatim>\<open>insert\<close> or \<^verbatim>\<open>remove\<close>, a thread has counted the item but not gone on to the next queue.\<close>

definition unpack_end :: "('e, 'r) pipeline \<Rightarrow> nat" where
  "unpack_end p = (case pl_reader p of R_Wake it pl \<Rightarrow> the (mq_next_next_item_queue (pl_unpack p)) | _ \<Rightarrow> mq_next_item_queue (pl_unpack p))"

definition retire_first :: "('e, 'r) pipeline \<Rightarrow> nat" where
  "retire_first p = (case pl_main p of M_Wake d pl \<Rightarrow> the (mq_next_next_item_queue (pl_retire p)) | _ \<Rightarrow> mq_next_item_queue (pl_retire p))"

definition used :: "main_place \<Rightarrow> nat" where
  "used w = (case w of M_Remove d \<Rightarrow> 1 | _ \<Rightarrow> 0)"

text \<open>\<open>es\<close> are the items that are read and not removed yet, as they will be retired.\<close>

definition pipeline_inv :: "nat \<Rightarrow> nat \<Rightarrow> bool \<Rightarrow> ('e \<Rightarrow> bool \<times> 'e \<times> 'r list) \<Rightarrow> ('e, 'r) eq_item thread_queue_item list \<Rightarrow> ('e, 'r) pipeline \<Rightarrow> bool" where
  "pipeline_inv n m debug unpack es p \<longleftrightarrow>
     length (mq_queues (pl_unpack p)) = m \<and> length (mq_queues (pl_retire p)) = m \<and> length (pl_workers p) = m \<and>
     (\<forall>i < m. lane_inv n debug unpack (mq_queues (pl_unpack p) ! i) (mq_queues (pl_retire p) ! i) (pl_workers p ! i) (lane i (retire_first p) es)) \<and>
     mq_next_item_queue (pl_unpack p) < m \<and> mq_next_item_queue (pl_retire p) < m \<and>
     reader_knows n m (next_queue (pl_unpack p)) (mq_next_next_item_queue (pl_unpack p)) (pl_reader p) \<and>
     main_knows n m (next_queue (pl_retire p)) (mq_next_next_item_queue (pl_retire p)) (pl_main p) \<and>
     unpack_end p = route_end (retire_first p) es \<and> list_all (\<lambda>e. ti_next_item_queue e < m) es \<and>
     map Inr (pl_retired p @ map ti_item (drop (used (pl_main p)) es)) = map (process_item debug unpack) (pl_read p)"

lemma process_inv:
  assumes "pipeline_inv n m debug unpack es p" "i < m" "processor_step n debug unpack i p = Some p'"
  shows "pipeline_inv n m debug unpack es p'"
proof -
  let ?u = "mq_queues (pl_unpack p) ! i" and ?r = "mq_queues (pl_retire p) ! i"
  from assms(3) obtain u r w t b c where s: "worker_step n debug unpack ?u ?r (pl_workers p ! i) (pl_worker_tokens p ! i) = Some (u, r, w, t, b, c)"
    "p' = p\<lparr>pl_unpack := set_queue i u (pl_unpack p), pl_retire := set_queue i r (pl_retire p),
           pl_workers := (pl_workers p)[i := w], pl_worker_tokens := (pl_worker_tokens p)[i := t],
           pl_reader_tokens := pl_reader_tokens p + of_bool b, pl_main_tokens := pl_main_tokens p + of_bool c\<rparr>"
    by (auto simp: processor_step_def)
  have "lane_inv n debug unpack ?u ?r (pl_workers p ! i) (lane i (retire_first p) es)" using assms(1,2) by (simp add: pipeline_inv_def)
  from worker_lane [OF this s(1)] have w: "lane_inv n debug unpack u r w (lane i (retire_first p) es)" "worker_keeps n ?u ?r u r" by simp_all
  have f: "retire_first p' = retire_first p" "unpack_end p' = unpack_end p" using s(2) by (simp_all add: retire_first_def unpack_end_def set_queue_def split: main_place.splits reader_place.splits)
  have "reader_knows n m (next_queue (pl_unpack p')) (mq_next_next_item_queue (pl_unpack p')) (pl_reader p')"
    using assms(1,2) w(2) s(2) by (cases "mq_next_item_queue (pl_unpack p) = i"; cases "pl_reader p")
      (auto simp: pipeline_inv_def reader_knows_def worker_keeps_def next_queue_def set_queue_def)
  moreover have "main_knows n m (next_queue (pl_retire p')) (mq_next_next_item_queue (pl_retire p')) (pl_main p')"
    using assms(1,2) w(2) s(2) by (cases "mq_next_item_queue (pl_retire p) = i"; cases "pl_main p")
      (auto simp: pipeline_inv_def main_knows_def worker_keeps_def next_queue_def set_queue_def)
  ultimately show ?thesis using assms(1,2) w(1) f s(2) by (auto simp: pipeline_inv_def set_queue_def nth_list_update)
qed

lemma set_next_simps [simp]:
  "mq_next_item_queue (set_next q mq) = mq_next_item_queue mq" "mq_next_next_item_queue (set_next q mq) = mq_next_next_item_queue mq"
  "mq_queues (set_next q mq) = (mq_queues mq)[mq_next_item_queue mq := q]"
  "mq_next_item_queue mq < length (mq_queues mq) \<Longrightarrow> next_queue (set_next q mq) = q"
  by (simp_all add: set_next_def set_queue_def next_queue_def)

lemma wake_worker_simps [simp]:
  "pl_unpack (wake_worker i b p) = pl_unpack p" "pl_retire (wake_worker i b p) = pl_retire p" "pl_reader (wake_worker i b p) = pl_reader p"
  "pl_workers (wake_worker i b p) = pl_workers p" "pl_main (wake_worker i b p) = pl_main p" "pl_read (wake_worker i b p) = pl_read p"
  "pl_retired (wake_worker i b p) = pl_retired p"
  by (simp_all add: wake_worker_def)

text \<open>A step of the reader that leaves what is in the queues as it is.\<close>

lemma reader_keeps_inv:
  assumes "pipeline_inv n m debug unpack es p" "j < m"
    and "pl_retire p' = pl_retire p" "pl_workers p' = pl_workers p" "pl_main p' = pl_main p" "pl_read p' = pl_read p" "pl_retired p' = pl_retired p"
    and "mq_queues (pl_unpack p') = (mq_queues (pl_unpack p))[j := q]" "mq_next_item_queue (pl_unpack p') < m"
    and "lane_inv n debug unpack q (mq_queues (pl_retire p) ! j) (pl_workers p ! j) (lane j (retire_first p) es)"
    and "reader_knows n m (next_queue (pl_unpack p')) (mq_next_next_item_queue (pl_unpack p')) (pl_reader p')"
    and "unpack_end p' = unpack_end p"
  shows "pipeline_inv n m debug unpack es p'"
proof -
  have "retire_first p' = retire_first p" using assms(3,5) by (simp add: retire_first_def split: main_place.split)
  then show ?thesis using assms by (auto simp: pipeline_inv_def nth_list_update)
qed

lemma reader_wait_inv:
  assumes "pipeline_inv n m debug unpack es p" "pl_reader p = R_Wait pl" "next < m" "reader_step n print data next item p = Some p'"
  shows "pipeline_inv n m debug unpack es p'"
proof -
  let ?k = "mq_next_item_queue (pl_unpack p)" and ?q = "next_queue (pl_unpack p)"
  have k: "?k < m" "length (mq_queues (pl_unpack p)) = m" and ln: "lane_inv n debug unpack ?q (mq_queues (pl_retire p) ! ?k) (pl_workers p ! ?k) (lane ?k (retire_first p) es)"
    and rk: "reader_knows n m ?q (mq_next_next_item_queue (pl_unpack p)) (R_Wait pl)"
    using assms(1,2) by (auto simp: pipeline_inv_def next_queue_def)
  have g: "good_queue n ?q" using ln by (simp add: lane_inv_def)
  show ?thesis
  proof (cases "pl = Access")
    case True
    then have room: "can_insert n ?q" using rk by (simp add: reader_knows_def)
    let ?f = "\<lambda>slot. slot\<lparr>ti_next_item_queue := next\<rparr>"
    have p': "p' = p\<lparr>pl_unpack := (set_next (change_free n ?f ?q) (pl_unpack p))\<lparr>mq_next_next_item_queue := Some next\<rparr>, pl_reader := R_Fill\<rparr>"
      using assms(2,4) True room by (simp add: reader_step_def Let_def fan_out_next_insert_def queue_ops change_slot_free)
    have "next_queue (pl_unpack p') = change_free n ?f ?q" using p' k by (simp add: next_queue_def)
    then show ?thesis using p' assms(2,3) k ring.written [OF g room, of ?f] ring.written_tests [OF g room, of ?f]
      by (intro reader_keeps_inv [OF assms(1) k(1), where q = "change_free n ?f ?q"])
        (simp_all add: lane_written [OF ln room] reader_knows_def unpack_end_def)
  next
    case False
    then obtain q pl' t where w: "wait_insert n ?q pl (pl_reader_tokens p) = Some (q, pl', t)"
      "p' = p\<lparr>pl_unpack := set_next q (pl_unpack p), pl_reader := R_Wait pl', pl_reader_tokens := t\<rparr>"
      using assms(2,4) by (auto simp: reader_step_def Let_def)
    have "pl = Take_Back \<longrightarrow> can_insert n ?q" using rk by (simp add: reader_knows_def)
    note s = wait_insert_same [OF w(1) this]
    show ?thesis using w(2) assms(2) k s lane_same [OF ln, of q]
      by (intro reader_keeps_inv [OF assms(1) k(1), where q = q]) (simp_all add: reader_knows_def unpack_end_def)
  qed
qed

lemma reader_fill_inv:
  assumes "pipeline_inv n m debug unpack es p" "pl_reader p = R_Fill" "reader_step n print data next item p = Some p'"
  shows "pipeline_inv n m debug unpack es p'"
proof -
  let ?k = "mq_next_item_queue (pl_unpack p)" and ?q = "next_queue (pl_unpack p)"
  have k: "?k < m" "length (mq_queues (pl_unpack p)) = m" and ln: "lane_inv n debug unpack ?q (mq_queues (pl_retire p) ! ?k) (pl_workers p ! ?k) (lane ?k (retire_first p) es)"
    and rk: "reader_knows n m ?q (mq_next_next_item_queue (pl_unpack p)) R_Fill"
    using assms(1,2) by (auto simp: pipeline_inv_def next_queue_def)
  have g: "good_queue n ?q" "can_insert n ?q" using ln rk by (auto simp: lane_inv_def reader_knows_def)
  obtain it w where p': "p' = p\<lparr>pl_unpack := set_next (change_free n (\<lambda>slot. slot\<lparr>ti_item := it\<rparr>) ?q) (pl_unpack p), pl_reader := w\<rparr>"
    "w = R_Wait Look \<or> w = R_Insert it \<and> processable it"
    using assms(2,3) by (cases item) (auto simp: reader_step_def Let_def change_slot_free)
  let ?f = "\<lambda>slot. slot\<lparr>ti_item := it\<rparr>"
  show ?thesis using p' assms(2) k rk ring.written [OF g, of ?f] ring.written_tests [OF g, of ?f]
    by (intro reader_keeps_inv [OF assms(1) k(1), where q = "change_free n ?f ?q"])
      (auto simp: lane_written [OF ln g(2)] reader_knows_def unpack_end_def)
qed

lemma reader_wake_inv:
  assumes "pipeline_inv n m debug unpack es p" "pl_reader p = R_Wake it pl" "reader_step n print data next item p = Some p'"
  shows "pipeline_inv n m debug unpack es p'"
proof -
  let ?k = "mq_next_item_queue (pl_unpack p)" and ?q = "next_queue (pl_unpack p)"
  have k: "?k < m" "length (mq_queues (pl_unpack p)) = m" and ln: "lane_inv n debug unpack ?q (mq_queues (pl_retire p) ! ?k) (pl_workers p ! ?k) (lane ?k (retire_first p) es)"
    and rk: "reader_knows n m ?q (mq_next_next_item_queue (pl_unpack p)) (R_Wake it pl)"
    using assms(1,2) by (auto simp: pipeline_inv_def next_queue_def)
  obtain nx where nx: "nx < m" "mq_next_next_item_queue (pl_unpack p) = Some nx" using rk by (auto simp: reader_knows_def)
  show ?thesis
  proof (cases "pl = Ended")
    case True
    then have "p' = p\<lparr>pl_unpack := (pl_unpack p)\<lparr>mq_next_item_queue := nx\<rparr>,
        pl_reader := if eq_info it AND EQ_INFO_FLUSH \<noteq> 0 then R_Flush 0 Flush else R_Wait Look\<rparr>"
      using assms(2,3) nx by (simp add: reader_step_def Let_def take_next_def)
    then show ?thesis using assms(2) k nx ln
      by (intro reader_keeps_inv [OF assms(1) k(1), where q = ?q]) (simp_all add: reader_knows_def unpack_end_def wake_fine_def next_queue_def)
  next
    case False
    then obtain q pl' b where w: "wake_consumer ?q pl = Some (q, pl', b)"
      "p' = wake_worker ?k b (p\<lparr>pl_unpack := set_next q (pl_unpack p), pl_reader := R_Wake it pl'\<rparr>)"
      using assms(2,3) by (auto simp: reader_step_def Let_def)
    note s = wake_same(1) [OF w(1)]
    show ?thesis using w(2) assms(2) k s nx lane_same [OF ln, of q]
      by (intro reader_keeps_inv [OF assms(1) k(1), where q = q]) (simp_all add: reader_knows_def unpack_end_def)
  qed
qed

lemma reader_flush_inv:
  assumes "pipeline_inv n m debug unpack es p" "pl_reader p = R_Flush i pl" "reader_step n print data next item p = Some p'"
  shows "pipeline_inv n m debug unpack es p'"
proof -
  let ?k = "mq_next_item_queue (pl_unpack p)" and ?q = "mq_queues (pl_unpack p) ! i"
  have k: "?k < m" "length (mq_queues (pl_unpack p)) = m" using assms(1) by (simp_all add: pipeline_inv_def)
  show ?thesis
  proof (cases "i < m \<and> pl \<noteq> Ended")
    case False
    then have "\<exists>w. p' = p\<lparr>pl_reader := w\<rparr> \<and> (w = R_Wait Look \<or> w = R_Flush (Suc i) Flush)"
      using assms(2,3) k by (auto simp: reader_step_def Let_def split: if_splits)
    then show ?thesis using assms(1,2) by (auto simp: pipeline_inv_def reader_knows_def unpack_end_def retire_first_def wake_fine_def split: main_place.splits)
  next
    case True
    then obtain q pl' b where w: "wake_consumer ?q pl = Some (q, pl', b)"
      "p' = wake_worker i b (p\<lparr>pl_unpack := set_queue i q (pl_unpack p), pl_reader := R_Flush i pl'\<rparr>)"
      using assms(2,3) k by (auto simp: reader_step_def Let_def)
    note s = wake_same(1) [OF w(1)]
    have ln: "lane_inv n debug unpack ?q (mq_queues (pl_retire p) ! i) (pl_workers p ! i) (lane i (retire_first p) es)"
      using assms(1) True by (simp add: pipeline_inv_def)
    show ?thesis using w(2) assms(2) k s True lane_same [OF ln, of q]
      by (intro reader_keeps_inv [OF assms(1) conjunct1 [OF True], where q = q]) (simp_all add: reader_knows_def unpack_end_def set_queue_def)
  qed
qed

lemma main_front:
  assumes "pipeline_inv n m debug unpack es p" "can_remove n (next_queue (pl_retire p))" "retire_first p = mq_next_item_queue (pl_retire p)"
  shows "es \<noteq> [] \<and> hd es = front_item n (next_queue (pl_retire p))"
proof -
  let ?k = "mq_next_item_queue (pl_retire p)"
  have "lane_inv n debug unpack (mq_queues (pl_unpack p) ! ?k) (next_queue (pl_retire p)) (pl_workers p ! ?k) (lane ?k ?k es)"
    using assms(1,3) by (auto simp: pipeline_inv_def next_queue_def)
  from lane_left(2) [OF this assms(2)] have l: "lane ?k ?k es \<noteq> []" "hd (lane ?k ?k es) = front_item n (next_queue (pl_retire p))" by simp_all
  then have "es \<noteq> []" by (auto simp: lane_def)
  then show ?thesis using l lane_first [of es ?k] by simp
qed

lemma used_le: "pipeline_inv n m debug unpack es p \<Longrightarrow> used (pl_main p) \<le> length es"
proof (cases "pl_main p")
  case (M_Remove d)
  assume i: "pipeline_inv n m debug unpack es p"
  then have "can_remove n (next_queue (pl_retire p))" using M_Remove by (simp add: pipeline_inv_def main_knows_def)
  then have "es \<noteq> []" using main_front [OF i] M_Remove by (simp add: retire_first_def)
  then show ?thesis using M_Remove by (cases es) (auto simp: used_def)
qed (simp_all add: used_def)

lemma reader_insert_inv:
  assumes "pipeline_inv n m debug unpack es p" "pl_reader p = R_Insert it" "reader_step n print data next item p = Some p'"
  shows "\<exists>es'. pipeline_inv n m debug unpack es' p'"
proof -
  let ?k = "mq_next_item_queue (pl_unpack p)" and ?q = "next_queue (pl_unpack p)"
  have k: "?k < m" "length (mq_queues (pl_unpack p)) = m" "?k = route_end (retire_first p) es"
    and ln: "lane_inv n debug unpack ?q (mq_queues (pl_retire p) ! ?k) (pl_workers p ! ?k) (lane ?k (retire_first p) es)"
    and rk: "reader_knows n m ?q (mq_next_next_item_queue (pl_unpack p)) (R_Insert it)"
    and out: "map Inr (pl_retired p @ map ti_item (drop (used (pl_main p)) es)) = map (process_item debug unpack) (pl_read p)"
    using assms(1,2) by (auto simp: pipeline_inv_def next_queue_def unpack_end_def)
  let ?e = "free_slot n ?q" and ?e' = "processed debug unpack (free_slot n ?q)"
  have e: "can_insert n ?q" "ti_item ?e = it" "processable it" "ti_next_item_queue ?e < m" "mq_next_next_item_queue (pl_unpack p) = Some (ti_next_item_queue ?e)"
    using rk by (auto simp: reader_knows_def)
  obtain it' where it': "process_item debug unpack it = Inr it'" using processable_item [OF e(3)] by blast
  have p': "p' = p\<lparr>pl_unpack := set_next (enter_item ?q) (pl_unpack p), pl_read := pl_read p @ [it], pl_reader := R_Wake it See_Need\<rparr>"
    using assms(2,3) e(1) by (simp add: reader_step_def Let_def queue_ops)
  have ln': "lane_inv n debug unpack (enter_item ?q) (mq_queues (pl_retire p) ! ?k) (pl_workers p ! ?k) (lane ?k (retire_first p) es @ [?e'])"
    using lane_entered [OF ln e(1)] e(2,3) by simp
  have f: "retire_first p' = retire_first p" using p' by (simp add: retire_first_def split: main_place.split)
  have "used (pl_main p) \<le> length es" by (rule used_le [OF assms(1)])
  then have "map Inr (pl_retired p' @ map ti_item (drop (used (pl_main p')) (es @ [?e']))) = map (process_item debug unpack) (pl_read p')"
    using p' out it' e(2) by (simp add: processed_def flip: out)
  then have "pipeline_inv n m debug unpack (es @ [?e']) p'"
    using assms(1) p' k ln' e f by (auto simp: pipeline_inv_def nth_list_update lane_snoc route_snoc reader_knows_def wake_fine_def unpack_end_def)
  then show ?thesis by blast
qed

lemma read_inv:
  assumes "pipeline_inv n m debug unpack es p" "next < m" "reader_step n print data next item p = Some p'"
  shows "\<exists>es'. pipeline_inv n m debug unpack es' p'"
  using reader_wait_inv [OF assms(1) _ assms(2,3)] reader_fill_inv [OF assms(1) _ assms(3)] reader_insert_inv [OF assms(1) _ assms(3)]
    reader_wake_inv [OF assms(1) _ assms(3)] reader_flush_inv [OF assms(1) _ assms(3)] assms(1)
  by (cases "pl_reader p") (auto simp: pipeline_inv_def reader_knows_def)

text \<open>A step of the main thread that leaves what is in the queues as it is.\<close>

lemma main_keeps_inv:
  assumes "pipeline_inv n m debug unpack es p"
    and "pl_unpack p' = pl_unpack p" "pl_workers p' = pl_workers p" "pl_reader p' = pl_reader p" "pl_read p' = pl_read p"
    and "mq_queues (pl_retire p') = (mq_queues (pl_retire p))[mq_next_item_queue (pl_retire p) := q]" "mq_next_item_queue (pl_retire p') < m"
    and "same_items (next_queue (pl_retire p)) q"
    and "main_knows n m (next_queue (pl_retire p')) (mq_next_next_item_queue (pl_retire p')) (pl_main p')"
    and "retire_first p' = retire_first p"
    and "pl_retired p' @ map ti_item (drop (used (pl_main p')) es) = pl_retired p @ map ti_item (drop (used (pl_main p)) es)"
  shows "pipeline_inv n m debug unpack es p'"
proof -
  let ?k = "mq_next_item_queue (pl_retire p)"
  have "unpack_end p' = unpack_end p" using assms(2,4) by (simp add: unpack_end_def split: reader_place.split)
  moreover have "lane_inv n debug unpack (mq_queues (pl_unpack p) ! ?k) (next_queue (pl_retire p)) (pl_workers p ! ?k) (lane ?k (retire_first p) es)"
    using assms(1) by (auto simp: pipeline_inv_def next_queue_def)
  note lane_same [OF this _ assms(8), of "mq_queues (pl_unpack p) ! ?k"]
  ultimately show ?thesis using assms by (auto simp: pipeline_inv_def nth_list_update)
qed

lemma main_wait_inv:
  assumes "pipeline_inv n m debug unpack es p" "pl_main p = M_Wait pl" "main_step n time_over p = Some p'"
  shows "pipeline_inv n m debug unpack es p'"
proof -
  let ?k = "mq_next_item_queue (pl_retire p)" and ?q = "next_queue (pl_retire p)"
  have k: "?k < m" "length (mq_queues (pl_retire p)) = m" "main_knows n m ?q (mq_next_next_item_queue (pl_retire p)) (M_Wait pl)"
    using assms(1,2) by (auto simp: pipeline_inv_def)
  consider "pl = Access" | "pl \<noteq> Access" "pl = Asleep \<and> time_over" | "pl \<noteq> Access" "\<not> (pl = Asleep \<and> time_over)" by blast
  then show ?thesis
  proof cases
    case 1
    then have room: "can_remove n ?q" using k(3) by (simp add: main_knows_def)
    have "p' = p\<lparr>pl_retire := (pl_retire p)\<lparr>mq_next_next_item_queue := Some (ti_next_item_queue (front_item n ?q))\<rparr>, pl_main := M_Use\<rparr>"
      using assms(2,3) 1 room by (simp add: main_step_def Let_def fan_in_next_remove_def queue_ops change_slot_free)
    then show ?thesis using assms(2) k room by (intro main_keeps_inv [OF assms(1), where q = ?q]) (simp_all add: main_knows_def retire_first_def used_def next_queue_def)
  next
    case 2
    then have "p' = p\<lparr>pl_main := M_Wait Look\<rparr>" using assms(2,3) by (simp add: main_step_def Let_def)
    then show ?thesis using assms(2) k by (intro main_keeps_inv [OF assms(1), where q = ?q]) (simp_all add: main_knows_def retire_first_def used_def next_queue_def)
  next
    case 3
    then obtain q pl' t where w: "wait_remove n Look ?q pl (pl_main_tokens p) = Some (q, pl', t)"
      "p' = p\<lparr>pl_retire := set_next q (pl_retire p), pl_main := M_Wait pl', pl_main_tokens := t\<rparr>"
      using assms(2,3) by (auto simp: main_step_def Let_def)
    from wait_remove_same [OF w(1)] have s: "same_items ?q q" "pl' = Access \<longrightarrow> can_remove n q" "place_error pl' = []" by simp_all
    show ?thesis using w(2) assms(2) k s by (intro main_keeps_inv [OF assms(1), where q = q]) (simp_all add: main_knows_def retire_first_def used_def)
  qed
qed

lemma main_use_inv:
  assumes "pipeline_inv n m debug unpack es p" "pl_main p = M_Use" "main_step n time_over p = Some p'"
  shows "pipeline_inv n m debug unpack es p'"
proof -
  let ?k = "mq_next_item_queue (pl_retire p)" and ?q = "next_queue (pl_retire p)"
  have k: "?k < m" "length (mq_queues (pl_retire p)) = m" "main_knows n m ?q (mq_next_next_item_queue (pl_retire p)) M_Use"
    using assms(1,2) by (auto simp: pipeline_inv_def)
  obtain d where p': "p' = p\<lparr>pl_retired := pl_retired p @ [ti_item (front_item n ?q)], pl_main := M_Remove d\<rparr>"
    using assms(2,3) by (auto simp: main_step_def Let_def change_slot_free)
  have "can_remove n ?q" using k(3) by (simp add: main_knows_def)
  then have "es \<noteq> []" "hd es = front_item n ?q" using main_front [OF assms(1)] assms(2) by (simp_all add: retire_first_def)
  then have "es = front_item n ?q # tl es" by (cases es) auto
  then have "pl_retired p' @ map ti_item (drop (used (pl_main p')) es) = pl_retired p @ map ti_item (drop (used (pl_main p)) es)"
    using p' assms(2) by (cases es) (simp_all add: used_def)
  then show ?thesis using p' assms(2) k
    by (intro main_keeps_inv [OF assms(1), where q = ?q]) (simp_all add: main_knows_def retire_first_def next_queue_def)
qed

lemma main_wake_inv:
  assumes "pipeline_inv n m debug unpack es p" "pl_main p = M_Wake d pl" "main_step n time_over p = Some p'"
  shows "pipeline_inv n m debug unpack es p'"
proof -
  let ?k = "mq_next_item_queue (pl_retire p)" and ?q = "next_queue (pl_retire p)"
  have k: "?k < m" "length (mq_queues (pl_retire p)) = m" "main_knows n m ?q (mq_next_next_item_queue (pl_retire p)) (M_Wake d pl)"
    using assms(1,2) by (auto simp: pipeline_inv_def)
  obtain nx where nx: "nx < m" "mq_next_next_item_queue (pl_retire p) = Some nx" using k(3) by (auto simp: main_knows_def)
  show ?thesis
  proof (cases "pl = Ended")
    case True
    then have "p' = p\<lparr>pl_retire := (pl_retire p)\<lparr>mq_next_item_queue := nx\<rparr>, pl_main := if d then M_Done else M_Wait Look\<rparr>"
      using assms(2,3) nx by (simp add: main_step_def Let_def take_next_def)
    then show ?thesis using assms(2) k nx
      by (intro main_keeps_inv [OF assms(1), where q = ?q]) (simp_all add: main_knows_def retire_first_def used_def next_queue_def)
  next
    case False
    then obtain q pl' b where w: "wake_producer ?q pl = Some (q, pl', b)"
      "p' = wake_worker ?k b (p\<lparr>pl_retire := set_next q (pl_retire p), pl_main := M_Wake d pl'\<rparr>)"
      using assms(2,3) by (auto simp: main_step_def Let_def)
    note s = wake_same(2) [OF w(1)]
    show ?thesis using w(2) assms(2) k s nx by (intro main_keeps_inv [OF assms(1), where q = q]) (simp_all add: main_knows_def retire_first_def used_def)
  qed
qed

lemma main_remove_inv:
  assumes "pipeline_inv n m debug unpack es p" "pl_main p = M_Remove d" "main_step n time_over p = Some p'"
  shows "\<exists>es'. pipeline_inv n m debug unpack es' p'"
proof -
  let ?k = "mq_next_item_queue (pl_retire p)" and ?q = "next_queue (pl_retire p)"
  have k: "?k < m" "length (mq_queues (pl_retire p)) = m" and f: "retire_first p = ?k"
    and mk: "can_remove n ?q" "mq_next_next_item_queue (pl_retire p) = Some (ti_next_item_queue (front_item n ?q))"
    and ln: "lane_inv n debug unpack (mq_queues (pl_unpack p) ! ?k) ?q (pl_workers p ! ?k) (lane ?k ?k es)"
    using assms(1,2) by (auto simp: pipeline_inv_def main_knows_def retire_first_def next_queue_def)
  from main_front [OF assms(1) mk(1) f] obtain es' where es: "es = front_item n ?q # es'" by (cases es) auto
  have p': "p' = p\<lparr>pl_retire := set_next (leave_item ?q) (pl_retire p), pl_main := M_Wake d See_Need\<rparr>"
    using assms(2,3) mk(1) by (simp add: main_step_def Let_def queue_ops)
  have f': "retire_first p' = ti_next_item_queue (front_item n ?q)" "unpack_end p' = unpack_end p"
    using p' mk(2) by (simp_all add: retire_first_def unpack_end_def split: reader_place.split)
  have "lane_inv n debug unpack (mq_queues (pl_unpack p) ! ?k) (leave_item ?q) (pl_workers p ! ?k) (lane ?k (retire_first p') es')"
    using lane_left(1) [OF ln mk(1)] es f'(1) by (simp add: lane_Cons)
  then have "pipeline_inv n m debug unpack es' p'"
    using assms(1,2) p' k es f f' mk by (auto simp: pipeline_inv_def nth_list_update lane_Cons main_knows_def used_def wake_fine_def)
  then show ?thesis by blast
qed

lemma main_inv:
  assumes "pipeline_inv n m debug unpack es p" "main_step n time_over p = Some p'"
  shows "\<exists>es'. pipeline_inv n m debug unpack es' p'"
proof (cases "pl_main p")
  case (M_Remove d)
  then show ?thesis using main_remove_inv [OF assms(1) _ assms(2)] by blast
next
  case M_Done
  then show ?thesis using assms(2) by (simp add: main_step_def Let_def)
next
  case (M_Failed e)
  then show ?thesis using assms(1) by (simp add: pipeline_inv_def main_knows_def)
qed (use main_wait_inv [OF assms(1) _ assms(2)] main_use_inv [OF assms(1) _ assms(2)] main_wake_inv [OF assms(1) _ assms(2)] in blast)+

lemma pipeline_reachable_inv:
  assumes "pipeline_reaches n m debug unpack items p" "queue_size n" "length items = n" "0 < m"
  shows "\<exists>es. pipeline_inv n m debug unpack es p"
  using assms(1)
proof induction
  case start
  have c: "counts n (thread_queue_new items) 0 0" by (simp add: counts_def thread_queue_new_def)
  have "good_queue n (thread_queue_new items)" using c assms(2,3) by (auto simp: good_queue_def thread_queue_new_def)
  moreover have "waiting n (thread_queue_new items) = []" using waiting_counts [OF c assms(2)] by simp
  ultimately have "pipeline_inv n m debug unpack [] (pipeline_start m items)"
    using assms(4) by (simp add: pipeline_inv_def pipeline_start_def multi_init_def lane_def lane_defs next_queue_def
        reader_knows_def main_knows_def unpack_end_def retire_first_def used_def)
  then show ?case by blast
next
  case (step p p')
  then obtain es where i: "pipeline_inv n m debug unpack es p" by blast
  from step.hyps(2) show ?case
    by cases (use read_inv [OF i] process_inv [OF i] main_inv [OF i] in blast)+
qed

text \<open>Nothing is on its way: the queues are empty, and no thread has an item in hand.\<close>

definition pipeline_empty :: "nat \<Rightarrow> ('e, 'r) pipeline \<Rightarrow> bool" where
  "pipeline_empty n p \<longleftrightarrow>
     list_all (\<lambda>q. fill n q = 0) (mq_queues (pl_unpack p)) \<and> list_all (\<lambda>q. fill n q = 0) (mq_queues (pl_retire p)) \<and>
     list_all (\<lambda>w. case w of W_Removed pl \<Rightarrow> False | W_Process \<Rightarrow> False | W_Insert \<Rightarrow> False | _ \<Rightarrow> True) (pl_workers p)"

lemma pipeline_empty_inv:
  assumes "pipeline_inv n m debug unpack es p" "pipeline_empty n p" 
  shows "es = []"
proof (rule ccontr)
  assume "es \<noteq> []"
  let ?k = "retire_first p"
  have k: "?k < m" using assms(1) by (auto simp: pipeline_inv_def retire_first_def main_knows_def split: main_place.splits)
  then have "lane_inv n debug unpack (mq_queues (pl_unpack p) ! ?k) (mq_queues (pl_retire p) ! ?k) (pl_workers p ! ?k) (lane ?k ?k es)"
    using assms(1) by (simp add: pipeline_inv_def)
  moreover have "fill n (mq_queues (pl_unpack p) ! ?k) = 0" "fill n (mq_queues (pl_retire p) ! ?k) = 0"
    "case pl_workers p ! ?k of W_Removed pl \<Rightarrow> False | W_Process \<Rightarrow> False | W_Insert \<Rightarrow> False | _ \<Rightarrow> True"
    using assms k by (auto simp: pipeline_empty_def pipeline_inv_def list_all_length)
  ultimately have "lane ?k ?k es = []" by (auto simp: lane_inv_def waiting_def in_hand_def split: worker_place.splits)
  then show False using lane_first [OF \<open>es \<noteq> []\<close>, of ?k] by simp
qed

lemma pipeline_errors_inv:
  assumes "pipeline_inv n m debug unpack es p"
  shows "set (pipeline_errors p) \<subseteq> {Undef ''wakeup of a null pointer''}"
proof -
  have "set (worker_error w) \<subseteq> {Undef ''wakeup of a null pointer''}" if "w \<in> set (pl_workers p)" for w
  proof -
    from that assms obtain u r where "worker_knows n debug unpack u r w" by (auto simp: in_set_conv_nth pipeline_inv_def lane_inv_def)
    then show ?thesis by (auto simp: worker_knows_def worker_error_def wake_fine_def split: worker_place.splits)
  qed
  moreover have "set (reader_error (pl_reader p)) \<subseteq> {Undef ''wakeup of a null pointer''}" "set (main_error (pl_main p)) \<subseteq> {Undef ''wakeup of a null pointer''}"
    using assms by (auto simp: pipeline_inv_def reader_knows_def reader_error_def main_knows_def main_error_def wake_fine_def split: reader_place.splits main_place.splits)
  ultimately show ?thesis unfolding pipeline_errors_def by fastforce
qed

text \<open>A schedule: which thread goes next.\<close>

datatype ('e, 'r) turn = Reader_Turn nat "('e, 'r) read_item option" | Worker_Turn nat | Main_Turn bool

fun turn_step :: "nat \<Rightarrow> bool \<Rightarrow> ('e \<Rightarrow> bool \<times> 'e \<times> 'r list) \<Rightarrow> ('e, 'r) turn \<Rightarrow> ('e, 'r) pipeline \<Rightarrow> ('e, 'r) pipeline option" where
  "turn_step n debug unpack (Reader_Turn next item) p = reader_step n False False next item p"
| "turn_step n debug unpack (Worker_Turn i) p = processor_step n debug unpack i p"
| "turn_step n debug unpack (Main_Turn time_over) p = main_step n time_over p"

fun turns :: "nat \<Rightarrow> nat \<Rightarrow> bool \<Rightarrow> ('e \<Rightarrow> bool \<times> 'e \<times> 'r list) \<Rightarrow> ('e, 'r) turn list \<Rightarrow> ('e, 'r) pipeline \<Rightarrow> ('e, 'r) pipeline option" where
  "turns n m debug unpack [] p = Some p"
| "turns n m debug unpack (x # xs) p =
     (if pipeline_errors p = [] \<and> (case x of Reader_Turn next item \<Rightarrow> next < m | Worker_Turn i \<Rightarrow> i < m | Main_Turn b \<Rightarrow> True)
      then Option.bind (turn_step n debug unpack x p) (turns n m debug unpack xs) else None)"

lemma turns_reach:
  assumes "pipeline_reaches n m debug unpack items p" "turns n m debug unpack xs p = Some p'"
  shows "pipeline_reaches n m debug unpack items p'"
  using assms
proof (induction xs arbitrary: p)
  case (Cons x xs)
  then obtain p1 where s: "turn_step n debug unpack x p = Some p1" "turns n m debug unpack xs p1 = Some p'"
    by (auto simp: bind_eq_Some_conv split: if_splits)
  have "pipeline_step n m debug unpack p p1"
    using Cons.prems(2) s(1) by (cases x) (auto intro: pipeline_step.intros split: if_splits)
  then show ?case using Cons.IH [OF pipeline_reaches.step [OF Cons.prems(1)] s(2)] by simp
qed simp

definition sample_unpack :: "nat \<Rightarrow> bool \<times> nat \<times> string list" where
  "sample_unpack e = (e \<noteq> 8, e + 1, if e = 8 then [''bad''] else [])"

definition sample_start :: "(nat, string) pipeline" where
  "sample_start = pipeline_start 2 (replicate 4 \<lparr>ti_item = \<lparr>eq_info = 0, eq_event = None, eq_reclaim = []\<rparr>, ti_next_item_queue = 0\<rparr>)"

definition sample_turns :: "(nat, string) turn list" where
  "sample_turns =
     replicate 6 (Reader_Turn 1 (Some (Event 7 []))) @ replicate 6 (Reader_Turn 0 (Some (Event 8 []))) @
     replicate 13 (Worker_Turn 1) @ replicate 13 (Worker_Turn 0) @ replicate 12 (Main_Turn False)"



end
