(* ===== verification/Select_Event.thy ===== *)
theory Select_Event
  imports Lmd_Event Lmd_Event_Out Limit_File_Size
begin

text \<open>
  \<^verbatim>\<open>file_input/select_event.cc\<close> and \<^verbatim>\<open>select_event.hh\<close>: the requests of the user for the events and subevents that are
  to be kept (\<open>incl=procid=10-20:ctrl=3\<close>), their parsing and the decisions made from them, with \<^verbatim>\<open>get_wr_id\<close> of
  \<^verbatim>\<open>eventloop/event_loop.cc\<close>. The table of names that is generated for an experiment is a parameter.
\<close>

unbundle bit_operations_syntax

section \<open>Numbers in a request\<close>

text \<open>\<^verbatim>\<open>strtol\<close>: white space, a sign, digits of the base; the number, clamped to \<^verbatim>\<open>long\<close>, and the rest of the string.\<close>

definition isspace :: "char \<Rightarrow> bool" where
  "isspace c \<longleftrightarrow> of_char c = (32 :: nat) \<or> of_char c \<in> {9 :: nat..13}"

definition digit_in :: "nat \<Rightarrow> char \<Rightarrow> nat option" where
  "digit_in base c =
     (let n = of_char c :: nat;
          d = (if 48 \<le> n \<and> n \<le> 57 then Some (n - 48)
               else if 65 \<le> n \<and> n \<le> 70 then Some (n - 55)
               else if 97 \<le> n \<and> n \<le> 102 then Some (n - 87) else None)
      in case d of None \<Rightarrow> None | Some v \<Rightarrow> if v < base then Some v else None)"

fun strtol_digits :: "nat \<Rightarrow> nat \<Rightarrow> string \<Rightarrow> nat \<times> string" where
  "strtol_digits base v [] = (v, [])"
| "strtol_digits base v (c # s) = (case digit_in base c of None \<Rightarrow> (v, c # s) | Some d \<Rightarrow> strtol_digits base (base * v + d) s)"

definition strtol :: "nat \<Rightarrow> string \<Rightarrow> int \<times> string" where
  "strtol base s =
     (let t = dropWhile isspace s;
          neg = (take 1 t = ''-'');
          t = (if take 1 t = ''-'' \<or> take 1 t = ''+'' then drop 1 t else t);
          t = (if base = 16 \<and> take 2 t \<in> {''0x'', ''0X''} \<and> length t > 2 \<and> digit_in 16 (t ! 2) \<noteq> None then drop 2 t else t)
      in if t = [] \<or> digit_in base (hd t) = None then (0, s)
         else case strtol_digits base 0 t of (v, rest) \<Rightarrow>
           (if neg then max (- (2 ^ 63)) (- int v) else min (2 ^ 63 - 1) (int v), rest))"

definition int_of_long :: "int \<Rightarrow> int" where
  "int_of_long v = sint (of_int v :: 32 word)"

section \<open>Requests\<close>

record select_event_request_item =
  ri_offset :: int
  ri_size :: int
  ri_min :: int
  ri_max :: int

abbreviation (input) REQUEST_TYPE_EVENT :: nat where "REQUEST_TYPE_EVENT \<equiv> 1"
abbreviation (input) REQUEST_TYPE_SUBEVENT :: nat where "REQUEST_TYPE_SUBEVENT \<equiv> 2"

text \<open>
  The names with the offset and size of the member and what it is a member of, in a build for LMD input on a
  little-endian machine. The offset is -1 for the identifier of the White Rabbit time stamp.
\<close>

definition select_items :: "(string \<times> int \<times> int \<times> nat) list" where
  "select_items =
     [(''trig'', 10, -2, REQUEST_TYPE_EVENT), (''trigger'', 10, -2, REQUEST_TYPE_EVENT),
      (''wr_id'', -1, 0, REQUEST_TYPE_EVENT),
      (''type'', 4, -2, REQUEST_TYPE_SUBEVENT), (''subtype'', 6, -2, REQUEST_TYPE_SUBEVENT),
      (''procid'', 8, -2, REQUEST_TYPE_SUBEVENT), (''id'', 8, -2, REQUEST_TYPE_SUBEVENT),
      (''subcrate'', 10, -1, REQUEST_TYPE_SUBEVENT), (''crate'', 10, -1, REQUEST_TYPE_SUBEVENT),
      (''control'', 11, -1, REQUEST_TYPE_SUBEVENT), (''ctrl'', 11, -1, REQUEST_TYPE_SUBEVENT)]"

definition number_base :: "string \<Rightarrow> nat" where
  "number_base s = (if take 2 s = ''0x'' then 16 else 10)"

definition parse_range :: "string \<Rightarrow> cxx_error + int \<times> int" where
  "parse_range s =
     (case strtol (number_base s) s of (lo, end) \<Rightarrow>
        if take 1 end = ''-'' then
          (case strtol (number_base (drop 1 end)) (drop 1 end) of (hi, end) \<Rightarrow>
             if end \<noteq> [] then Inl (Err ''Malformed select request (bad max number)'') else Inr (int_of_long lo, int_of_long hi))
        else if end = [] then Inr (int_of_long lo, int_of_long lo)
        else Inl (Err ''Malformed select request (bad number)''))"

definition request_add_item :: "string \<Rightarrow> select_event_request_item list \<Rightarrow> (nat, select_event_request_item list) result" where
  "request_add_item cmd items =
     (let name = takeWhile (\<lambda>c. c \<noteq> CHR ''='') cmd in
      if name = cmd then (Inl (Err ''Malformed select request''), items)
      else case parse_range (drop (length name + 1) cmd) of
          Inl e \<Rightarrow> (Inl e, items)
        | Inr (lo, hi) \<Rightarrow>
            (case map_of select_items name of
               None \<Rightarrow> (Inl (Err ''Malformed select request (unknown item)''), items)
             | Some (offset, sz, request_type) \<Rightarrow>
                 (Inr request_type, items @ [\<lparr>ri_offset = offset, ri_size = sz, ri_min = lo, ri_max = hi\<rparr>])))"

record select_event_requests =
  sr_flags :: nat
  sr_items :: "select_event_request_item list list"

abbreviation (input) SELECT_FLAG_INCLUDE :: nat where "SELECT_FLAG_INCLUDE \<equiv> 1"
abbreviation (input) SELECT_FLAG_EXCLUDE :: nat where "SELECT_FLAG_EXCLUDE \<equiv> 2"

definition has_flag :: "nat \<Rightarrow> nat \<Rightarrow> bool" where
  "has_flag flags flag \<longleftrightarrow> and flags flag \<noteq> 0"

definition requests_add_item :: "select_event_request_item list \<Rightarrow> bool \<Rightarrow> select_event_requests \<Rightarrow> (unit, select_event_requests) result" where
  "requests_add_item item incl sr =
     (let flag = (if incl then SELECT_FLAG_INCLUDE else SELECT_FLAG_EXCLUDE) in
      if sr_flags sr \<noteq> 0 \<and> \<not> has_flag (sr_flags sr) flag then (Inl (Err ''Cannot mix include and exclude requests''), sr)
      else (Inr (), sr\<lparr>sr_flags := or (sr_flags sr) flag, sr_items := sr_items sr @ [item]\<rparr>))"

definition requests_has_selection :: "select_event_requests \<Rightarrow> bool" where
  "requests_has_selection sr \<longleftrightarrow> sr_flags sr \<noteq> 0 \<or> sr_items sr \<noteq> []"

record select_event =
  sel_event :: select_event_requests
  sel_subevent :: select_event_requests
  sel_omit_empty_payload :: bool

definition select_event_new :: select_event where
  "select_event_new =
     \<lparr>sel_event = \<lparr>sr_flags = 0, sr_items = []\<rparr>, sel_subevent = \<lparr>sr_flags = 0, sr_items = []\<rparr>, sel_omit_empty_payload = False\<rparr>"

definition has_selection :: "select_event \<Rightarrow> bool" where
  "has_selection sel \<longleftrightarrow>
     sel_omit_empty_payload sel \<or> requests_has_selection (sel_event sel) \<or> requests_has_selection (sel_subevent sel)"

text \<open>The pieces between colons.\<close>

fun split_colon :: "string \<Rightarrow> string list" where
  "split_colon [] = [[]]"
| "split_colon (c # s) =
     (if c = CHR '':'' then [] # split_colon s
      else case split_colon s of [] \<Rightarrow> [[c]] | piece # pieces \<Rightarrow> (c # piece) # pieces)"

fun add_pieces :: "string list \<Rightarrow> nat \<Rightarrow> select_event_request_item list \<Rightarrow> (nat, select_event_request_item list) result" where
  "add_pieces [] request_type items = (Inr request_type, items)"
| "add_pieces (cmd # cmds) request_type items =
     andthen (request_add_item cmd items) (\<lambda>t items. add_pieces cmds (or request_type t) items)"

definition add_request :: "string \<Rightarrow> bool \<Rightarrow> select_event \<Rightarrow> (unit, select_event) result" where
  "add_request command incl sel =
     (case add_pieces (split_colon command) 0 [] of
        (Inl e, _) \<Rightarrow> (Inl e, sel)
      | (Inr request_type, r) \<Rightarrow>
          if has_flag request_type REQUEST_TYPE_EVENT \<and> has_flag request_type REQUEST_TYPE_SUBEVENT then
            (Inl (Err ''Select request cannot be for both event and subevent''), sel)
          else
            andthen
              (if has_flag request_type REQUEST_TYPE_EVENT then
                 case requests_add_item r incl (sel_event sel) of (e, sr) \<Rightarrow> (e, sel\<lparr>sel_event := sr\<rparr>)
               else (Inr (), sel))
              (\<lambda>_ sel.
               if has_flag request_type REQUEST_TYPE_SUBEVENT then
                 case requests_add_item r incl (sel_subevent sel) of (e, sr) \<Rightarrow> (e, sel\<lparr>sel_subevent := sr\<rparr>)
               else (Inr (), sel)))"

text \<open>
  Names of subevents are a generated table. A command may be a name again; when that never ends, the stack
  overflows.
\<close>

fun parse_request :: "nat \<Rightarrow> (string \<times> string) list \<Rightarrow> string \<Rightarrow> bool \<Rightarrow> select_event \<Rightarrow> (unit, select_event) result" where
  "parse_request 0 names command incl sel = (Inl (Undef ''stack overflow''), sel)"
| "parse_request (Suc fuel) names command incl sel =
     (let matched = filter (\<lambda>(name, _). name = command) names in
      if matched \<noteq> [] then
        foldl (\<lambda>r (_, cmd). andthen r (\<lambda>_ sel. parse_request fuel names cmd incl sel)) (Inr (), sel) matched
      else add_request command incl sel)"

section \<open>The White Rabbit identifier\<close>

text \<open>
  \<^verbatim>\<open>get_wr_id\<close> of \<^verbatim>\<open>event_loop.cc\<close>: the identifier in the first words of the first subevent, whose other words must be
  those of a time stamp. The data is put together first where it is in pieces, and stays with the subevent.
\<close>

definition WR_STAMP_EBID_UNUSED :: u32 where "WR_STAMP_EBID_UNUSED = 0xffffffff XOR 0x00010000 XOR 0x00003f00"
definition WR_STAMP_EBID_BRANCH_ID_MASK :: u32 where "WR_STAMP_EBID_BRANCH_ID_MASK = 0x00003f00"
definition WR_STAMP_DATA_ID_MASK :: u32 where "WR_STAMP_DATA_ID_MASK = 0xffff0000"

definition wr_stamp_id :: "bool \<Rightarrow> bytes \<Rightarrow> cxx_error + int" where
  "wr_stamp_id swapping data =
     (let word = (!) (words32 (if swapping then swap32 data else data)) in
      if length data < 4 then Inl (Err ''First subevent does not have data enough for WR time stamp branch id.'')
      else if word 0 AND WR_STAMP_EBID_UNUSED \<noteq> 0 then Inl (Err ''Unused bits set in WR time stamp branch ID word'')
      else if length data < 20 then Inl (Err ''First subevent does not have data enough for WR time stamp values.'')
      else if word 1 AND WR_STAMP_DATA_ID_MASK \<noteq> 0x03e10000 \<or> word 2 AND WR_STAMP_DATA_ID_MASK \<noteq> 0x04e10000 \<or>
              word 3 AND WR_STAMP_DATA_ID_MASK \<noteq> 0x05e10000 \<or> word 4 AND WR_STAMP_DATA_ID_MASK \<noteq> 0x06e10000 then
        Inl (Err ''WR time stamp word has wrong marker.'')
      else Inr (uint (drop_bit 8 (word 0 AND WR_STAMP_EBID_BRANCH_ID_MASK))))"

definition get_wr_id :: "lmd_event \<Rightarrow> (int, lmd_event) result" where
  "get_wr_id ev =
     (case ev_subevents ev of
        Some (sub # subs) \<Rightarrow>
          (case get_subevent_data_src ev sub of (r, sub) \<Rightarrow>
             (case r of
                Inl e \<Rightarrow> Inl e
              | Inr data \<Rightarrow> wr_stamp_id (ev_swapping ev) (case data of None \<Rightarrow> [] | Some data \<Rightarrow> data),
              ev\<lparr>ev_subevents := Some (sub # subs)\<rparr>))
      | _ \<Rightarrow> (Inl (Err ''No subevents, cannot get a WR time stamp.''), ev))"

section \<open>Decisions\<close>

text \<open>
  A member of the header in memory, read as a signed number. The event is only used for its White Rabbit identifier; for subevents
  there is none (\<^verbatim>\<open>NULL\<close>).
\<close>

definition item_value :: "bytes \<Rightarrow> select_event_request_item \<Rightarrow> lmd_event option \<Rightarrow> (int, lmd_event option) result" where
  "item_value ptr item event =
     (if ri_offset item = -1 then
        (case event of
           None \<Rightarrow> (Inl (Undef ''event at a null pointer''), None)
         | Some ev \<Rightarrow> (case get_wr_id ev of (r, ev) \<Rightarrow> (r, Some ev)))
      else
        let p = drop (nat (ri_offset item)) ptr
        in (if ri_size item = -1 then Inr (sint (p ! 0))
            else if ri_size item = -2 then Inr (sint (u16_of (p ! 0) (p ! 1)))
            else if ri_size item = -4 then Inr (sint (u32_of (p ! 0) (p ! 1) (p ! 2) (p ! 3)))
            else Inl (Err ''Internal error.''), event))"

fun request_match :: "bytes \<Rightarrow> select_event_request_item list \<Rightarrow> lmd_event option \<Rightarrow> (bool, lmd_event option) result" where
  "request_match ptr [] event = (Inr True, event)"
| "request_match ptr (item # items) event =
     andthen (item_value ptr item event) (\<lambda>value event.
       if value < ri_min item \<or> value > ri_max item then (Inr False, event) else request_match ptr items event)"

fun requests_match :: "bytes \<Rightarrow> select_event_request_item list list \<Rightarrow> lmd_event option \<Rightarrow> (bool, lmd_event option) result" where
  "requests_match ptr [] event = (Inr False, event)"
| "requests_match ptr (item # items) event =
     andthen (request_match ptr item event) (\<lambda>matched event.
       if matched then (Inr True, event) else requests_match ptr items event)"

definition requests_accept :: "bytes \<Rightarrow> select_event_requests \<Rightarrow> lmd_event option \<Rightarrow> (bool, lmd_event option) result" where
  "requests_accept ptr sr event =
     (if sr_flags sr = 0 then (Inr True, event)
      else if has_flag (sr_flags sr) SELECT_FLAG_INCLUDE then requests_match ptr (sr_items sr) event
      else if has_flag (sr_flags sr) SELECT_FLAG_EXCLUDE then
        andthen (requests_match ptr (sr_items sr) event) (\<lambda>matched event. (Inr (\<not> matched), event))
      else (Inl (Assert ''false''), event))"

definition accept_event :: "select_event \<Rightarrow> lmd_event \<Rightarrow> (bool, lmd_event option) result" where
  "accept_event sel ev =
     (if is_event_sticky (ev_header ev) then (Inr True, Some ev)
      else requests_accept (mem (words_of_event_header (ev_header ev) @ words_of_event_info (ev_info ev))) (sel_event sel) (Some ev))"

definition accept_subevent :: "lmd_subevent_header \<Rightarrow> select_event \<Rightarrow> cxx_error + bool" where
  "accept_subevent header sel = fst (requests_accept (mem (words_of_subevent_header header)) (sel_subevent sel) None)"

definition accept_final_event :: "lmd_event_out \<Rightarrow> select_event \<Rightarrow> cxx_error + bool" where
  "accept_final_event event sel =
     (if is_clear event then Inr False
      else if sel_omit_empty_payload sel then has_subevents event
      else Inr True)"

section \<open>Texts of requests\<close>

text \<open>
  How a user writes numbers: decimal digits, or \<^verbatim>\<open>0x\<close> and hexadecimal digits; a request names a member with one number or
  a range of two.
\<close>

definition numeral_value :: "string \<Rightarrow> nat option" where
  "numeral_value s =
     (let (base, ds) = (if take 2 s = ''0x'' then (16, drop 2 s) else (10, s))
      in if ds \<noteq> [] \<and> list_all (\<lambda>c. digit_in base c \<noteq> None) ds
         then Some (foldl (\<lambda>n c. base * n + the (digit_in base c)) 0 ds) else None)"

type_synonym range_request = "string \<times> string \<times> string option"

definition range_text :: "range_request \<Rightarrow> string" where
  "range_text = (\<lambda>(name, lo, hi). name @ ''='' @ lo @ (case hi of None \<Rightarrow> [] | Some hi \<Rightarrow> ''-'' @ hi))"

fun request_text :: "range_request list \<Rightarrow> string" where
  "request_text [] = []"
| "request_text [x] = range_text x"
| "request_text (x # xs) = range_text x @ '':'' @ request_text xs"

definition small_number :: "string \<Rightarrow> bool" where
  "small_number s \<longleftrightarrow> (case numeral_value s of None \<Rightarrow> False | Some n \<Rightarrow> n < 2 ^ 31)"

definition range_lo :: "range_request \<Rightarrow> nat" where
  "range_lo = (\<lambda>(name, lo, hi). the (numeral_value lo))"

definition range_hi :: "range_request \<Rightarrow> nat" where
  "range_hi = (\<lambda>(name, lo, hi). the (numeral_value (case hi of None \<Rightarrow> lo | Some hi \<Rightarrow> hi)))"

lemma digit_plain:
  "digit_in base c = Some d \<Longrightarrow> \<not> isspace c \<and> c \<noteq> CHR ''-'' \<and> c \<noteq> CHR ''+'' \<and> c \<noteq> CHR ''x'' \<and> c \<noteq> CHR ''X'' \<and> c \<noteq> CHR '':'' \<and> c \<noteq> CHR ''=''"
  by (auto simp: digit_in_def isspace_def Let_def split: if_splits)

lemma minus_no_digit: "digit_in base (CHR ''-'') = None"
  by (simp add: digit_in_def)

lemma strtol_digits_all:
  "list_all (\<lambda>c. digit_in base c \<noteq> None) ds \<Longrightarrow> rest = [] \<or> digit_in base (hd rest) = None \<Longrightarrow>
   strtol_digits base v (ds @ rest) = (foldl (\<lambda>n c. base * n + the (digit_in base c)) v ds, rest)"
proof (induction ds arbitrary: v)
  case Nil
  then show ?case by (cases rest) auto
qed auto

lemma number_text:
  assumes "numeral_value s = Some n" "n < 2 ^ 63" "rest = [] \<or> hd rest = CHR ''-''"
  shows "strtol (number_base (s @ rest)) (s @ rest) = (int n, rest)"
proof (cases "take 2 s = ''0x''")
  case True
  then obtain ds where s: "s = ''0x'' @ ds" by (metis append_take_drop_id)
  then have ds: "ds \<noteq> []" "list_all (\<lambda>c. digit_in 16 c \<noteq> None) ds" "n = foldl (\<lambda>n c. 16 * n + the (digit_in 16 c)) 0 ds"
    using assms(1) by (auto simp: numeral_value_def split: if_splits)
  then obtain c cs where c: "ds = c # cs" "digit_in 16 c \<noteq> None" by (cases ds) auto
  have "strtol_digits 16 0 (ds @ rest) = (n, rest)"
    using strtol_digits_all [OF ds(2), of rest 0] assms(3) ds(3) minus_no_digit by (cases rest) auto
  then show ?thesis using s c assms(2) by (auto simp: strtol_def number_base_def Let_def isspace_def)
next
  case False
  then have ds: "s \<noteq> []" "list_all (\<lambda>c. digit_in 10 c \<noteq> None) s" "n = foldl (\<lambda>n c. 10 * n + the (digit_in 10 c)) 0 s"
    using assms(1) by (auto simp: numeral_value_def split: if_splits)
  then obtain c cs where c: "s = c # cs" "digit_in 10 c \<noteq> None" by (cases s) auto
  then have "take 2 (s @ rest) \<noteq> ''0x''" using False assms(3) by (cases cs; cases rest) auto
  moreover have "strtol_digits 10 0 (s @ rest) = (n, rest)"
    using strtol_digits_all [OF ds(2), of rest 0] assms(3) ds(3) minus_no_digit by (cases rest) auto
  moreover have "\<not> isspace c" "c \<noteq> CHR ''-''" "c \<noteq> CHR ''+''" using c(2) digit_plain by auto
  ultimately show ?thesis using c assms(2) by (auto simp: strtol_def number_base_def Let_def)
qed

lemma int_of_long_small: "n < 2 ^ 31 \<Longrightarrow> int_of_long (int n) = int n"
  unfolding int_of_long_def by (subst sint_sbintrunc') (simp add: signed_take_bit_int_eq_self)

lemma parse_range_text:
  assumes "small_number lo" "case hi of None \<Rightarrow> True | Some hi \<Rightarrow> small_number hi"
  shows "parse_range (lo @ (case hi of None \<Rightarrow> [] | Some hi \<Rightarrow> ''-'' @ hi)) = Inr (int (range_lo (name, lo, hi)), int (range_hi (name, lo, hi)))"
proof -
  obtain n where n: "numeral_value lo = Some n" "n < 2 ^ 31" using assms(1) by (auto simp: small_number_def split: option.splits)
  show ?thesis
  proof (cases hi)
    case None
    then show ?thesis using number_text [OF n(1), of "[]"] n by (simp add: parse_range_def int_of_long_small range_lo_def range_hi_def)
  next
    case (Some h)
    then obtain k where k: "numeral_value h = Some k" "k < 2 ^ 31" using assms(2) by (auto simp: small_number_def split: option.splits)
    then show ?thesis using Some number_text [OF n(1), of "''-'' @ h"] number_text [OF k(1), of "[]"] n
      by (simp add: parse_range_def int_of_long_small range_lo_def range_hi_def)
  qed
qed

definition known :: "range_request \<Rightarrow> bool" where
  "known = (\<lambda>(name, lo, hi). name \<in> fst ` set select_items \<and> small_number lo \<and> (case hi of None \<Rightarrow> True | Some hi \<Rightarrow> small_number hi))"

lemma names_plain: "name \<in> fst ` set select_items \<Longrightarrow> CHR ''='' \<notin> set name \<and> CHR '':'' \<notin> set name"
  by (auto simp: select_items_def)

definition request_item :: "range_request \<Rightarrow> select_event_request_item" where
  "request_item x = (case the (map_of select_items (fst x)) of (offset, sz, _) \<Rightarrow>
     \<lparr>ri_offset = offset, ri_size = sz, ri_min = int (range_lo x), ri_max = int (range_hi x)\<rparr>)"

definition request_type :: "range_request \<Rightarrow> nat" where
  "request_type x = snd (snd (the (map_of select_items (fst x))))"

lemma add_item_text:
  assumes "known x"
  shows "request_add_item (range_text x) items = (Inr (request_type x), items @ [request_item x])"
proof -
  obtain name lo hi where x: "x = (name, lo, hi)" by (cases x)
  have k: "name \<in> fst ` set select_items" "small_number lo" "case hi of None \<Rightarrow> True | Some hi \<Rightarrow> small_number hi" using assms x by (auto simp: known_def)
  have "CHR ''='' \<notin> set name" using names_plain [OF k(1)] by simp
  then have t: "takeWhile (\<lambda>c. c \<noteq> CHR ''='') (range_text x) = name" unfolding range_text_def x
    by (simp add: takeWhile_append)
  obtain v where v: "map_of select_items name = Some v" using k(1) by (metis map_of_eq_None_iff not_None_eq)
  have "parse_range (drop (length name + 1) (range_text x)) = Inr (int (range_lo x), int (range_hi x))"
    using parse_range_text [OF k(2,3)] by (simp add: range_text_def x)
  moreover have "name \<noteq> range_text x" by (simp add: range_text_def x)
  ultimately show ?thesis using t v
    by (cases v) (simp add: request_add_item_def Let_def request_item_def request_type_def x)
qed

lemma split_plain: "CHR '':'' \<notin> set s \<Longrightarrow> split_colon s = [s]"
  by (induction s) auto

lemma split_append: "CHR '':'' \<notin> set s \<Longrightarrow> split_colon (s @ '':'' @ t) = s # split_colon t"
  by (induction s) auto

lemma number_plain:
  assumes "small_number s"
  shows "CHR '':'' \<notin> set s"
proof
  assume c: "CHR '':'' \<in> set s"
  have no: "digit_in base (CHR '':'') = None" for base by (simp add: digit_in_def)
  have v: "numeral_value s \<noteq> None" using assms by (auto simp: small_number_def split: option.splits)
  show False
  proof (cases "take 2 s = ''0x''")
    case True
    have "CHR '':'' \<in> set (take 2 s @ drop 2 s)" using c by simp
    then have "CHR '':'' \<in> set (drop 2 s)" unfolding set_append Un_iff True by simp
    then show False using v True no by (auto simp: numeral_value_def list_all_iff split: if_splits)
  next
    case False
    then show False using v c no by (auto simp: numeral_value_def list_all_iff split: if_splits)
  qed
qed

lemma range_plain: "known x \<Longrightarrow> CHR '':'' \<notin> set (range_text x)"
  using number_plain names_plain by (auto simp: known_def range_text_def split: option.splits prod.splits)

lemma split_request: "list_all known xs \<Longrightarrow> xs \<noteq> [] \<Longrightarrow> split_colon (request_text xs) = map range_text xs"
proof (induction xs rule: request_text.induct)
  case (3 x y xs)
  then show ?case using split_append [OF range_plain, of x "request_text (y # xs)"] by simp
qed (simp_all add: split_plain range_plain)

lemma add_pieces_text:
  "list_all known xs \<Longrightarrow> add_pieces (map range_text xs) t items = (Inr (foldl or t (map request_type xs)), items @ map request_item xs)"
  by (induction xs arbitrary: t items) (auto simp: add_item_text)

section \<open>What a request selects\<close>

lemma u16_of_word: "u16_of (ucast w) (ucast (drop_bit 8 w)) = (ucast w :: u16)" for w :: u32
  by (rule bit_word_eqI) (auto simp: u16_of_def bit_simps)

lemma bytes_parts:
  "u16_of (bytes32 w ! 0) (bytes32 w ! 1) = lo16 w" "u16_of (bytes32 w ! 2) (bytes32 w ! 3) = hi16 w"
  "bytes32 w ! 2 = byte2 w" "bytes32 w ! 3 = byte3 w"
proof -
  show "u16_of (bytes32 w ! 0) (bytes32 w ! 1) = lo16 w" by (simp add: bytes32_def lo16_def u16_of_word)
  show "u16_of (bytes32 w ! 2) (bytes32 w ! 3) = hi16 w"
    using u16_of_word [of "drop_bit 16 w"] by (simp add: bytes32_def hi16_def)
qed (simp_all add: bytes32_def byte2_def byte3_def)

text \<open>The value that a name stands for, as the header declares it, and half of its range.\<close>

definition subevent_member :: "string \<Rightarrow> lmd_subevent_header \<Rightarrow> nat" where
  "subevent_member name h =
     (if name = ''type'' then unat (sh_type h) else if name = ''subtype'' then unat (sh_subtype h)
      else if name \<in> {''procid'', ''id''} then unat (sh_procid h)
      else if name \<in> {''subcrate'', ''crate''} then unat (sh_subcrate h)
      else unat (sh_control h))"

definition half_range :: "string \<Rightarrow> nat" where
  "half_range name = (if name \<in> {''subcrate'', ''crate'', ''control'', ''ctrl''} then 2 ^ 7 else 2 ^ 15)"

abbreviation (input) subevent_names :: "string set" where
  "subevent_names \<equiv> {''type'', ''subtype'', ''procid'', ''id'', ''subcrate'', ''crate'', ''control'', ''ctrl''}"

text \<open>The same as a signed number: a value of the upper half is negative.\<close>

lemma sint_half:
  fixes w :: "'a::len word"
  assumes "LENGTH('a) = Suc n"
  shows "sint w = (if unat w < 2 ^ n then int (unat w) else int (unat w) - 2 ^ Suc n)"
proof -
  have b: "uint w < 2 ^ Suc n" "0 \<le> uint w" using unsigned_less [where ?'a = int, of w] by (simp_all add: assms)
  then have "uint w div 2 ^ n = (if 2 ^ n \<le> uint w then 1 else 0)"
    using int_div_pos_eq [of "uint w" "2 ^ n" 1 "uint w - 2 ^ n"] by auto
  then have h: "bit (uint w) n \<longleftrightarrow> 2 ^ n \<le> uint w" by (simp add: bit_iff_odd)
  have "sint w = take_bit (Suc n) (uint w) - 2 ^ Suc n * of_bool (bit (uint w) n)"
    using assms by (simp add: sint_uint signed_take_bit_eq_take_bit_minus)
  also have "take_bit (Suc n) (uint w) = uint w" using b by (rule_tac take_bit_int_eq_self)
  finally have s: "sint w = uint w - 2 ^ Suc n * of_bool (2 ^ n \<le> uint w)" unfolding h .
  have u: "uint w = int (unat w)" by simp
  have "2 ^ n \<le> uint w \<longleftrightarrow> \<not> unat w < 2 ^ n" using of_nat_le_iff [where ?'a = int, of "2 ^ n" "unat w"] by (simp add: not_less)
  then show ?thesis using s by simp
qed
lemma header_bytes:
  "drop 4 (mem (words_of_subevent_header h)) = bytes32 (join16 (sh_type h) (sh_subtype h)) @ bytes32 (join16_8 (sh_procid h) (sh_subcrate h) (sh_control h))"
  "length (bytes32 w) = 4"
  by (simp_all add: words_of_subevent_header_def mem_def bytes32_def)

lemma nth_mem3:
  "k < 4 \<Longrightarrow> mem [a, b, c] ! (4 + k) = bytes32 b ! k" "k < 4 \<Longrightarrow> mem [a, b, c] ! (8 + k) = bytes32 c ! k"
  by (simp_all add: mem_def header_bytes(2) nth_append)

lemma item_value_member:
  assumes "fst x \<in> subevent_names"
  shows "\<exists>v. item_value (mem (words_of_subevent_header h)) (request_item x) event = (Inr v, event) \<and>
           v = (if subevent_member (fst x) h < half_range (fst x) then int (subevent_member (fst x) h)
                else int (subevent_member (fst x) h) - 2 * int (half_range (fst x)))"
proof -
  let ?p = "mem (words_of_subevent_header h)"
  let ?b = "join16 (sh_type h) (sh_subtype h)" and ?c = "join16_8 (sh_procid h) (sh_subcrate h) (sh_control h)"
  have l: "length ?p = 12" by simp
  have n: "?p ! 4 = bytes32 ?b ! 0" "?p ! 5 = bytes32 ?b ! 1" "?p ! 6 = bytes32 ?b ! 2" "?p ! 7 = bytes32 ?b ! 3"
    "?p ! 8 = bytes32 ?c ! 0" "?p ! 9 = bytes32 ?c ! 1" "?p ! 10 = bytes32 ?c ! 2" "?p ! 11 = bytes32 ?c ! 3"
    using nth_mem3 [of 0 "sh_dlen h" ?b ?c] nth_mem3 [of 1 "sh_dlen h" ?b ?c] nth_mem3 [of 2 "sh_dlen h" ?b ?c] nth_mem3 [of 3 "sh_dlen h" ?b ?c]
    by (simp_all add: words_of_subevent_header_def)
  have s: "sint (u16_of (?p ! 4) (?p ! 5)) = sint (sh_type h)" "sint (u16_of (?p ! 6) (?p ! 7)) = sint (sh_subtype h)"
    "sint (u16_of (?p ! 8) (?p ! 9)) = sint (sh_procid h)" "sint (?p ! 10) = sint (sh_subcrate h)" "sint (?p ! 11) = sint (sh_control h)"
    unfolding n using bytes_parts [of ?b] bytes_parts [of ?c] by simp_all
  have v: "item_value ?p \<lparr>ri_offset = 4, ri_size = -2, ri_min = lo', ri_max = hi'\<rparr> event = (Inr (sint (sh_type h)), event)"
    "item_value ?p \<lparr>ri_offset = 6, ri_size = -2, ri_min = lo', ri_max = hi'\<rparr> event = (Inr (sint (sh_subtype h)), event)"
    "item_value ?p \<lparr>ri_offset = 8, ri_size = -2, ri_min = lo', ri_max = hi'\<rparr> event = (Inr (sint (sh_procid h)), event)"
    "item_value ?p \<lparr>ri_offset = 10, ri_size = -1, ri_min = lo', ri_max = hi'\<rparr> event = (Inr (sint (sh_subcrate h)), event)"
    "item_value ?p \<lparr>ri_offset = 11, ri_size = -1, ri_min = lo', ri_max = hi'\<rparr> event = (Inr (sint (sh_control h)), event)" for lo' hi'
    using s l by (simp_all add: item_value_def Let_def)
  have h: "sint (w :: u16) = (if unat w < 2 ^ 15 then int (unat w) else int (unat w) - 2 ^ 16)"
    "sint (b :: u8) = (if unat b < 2 ^ 7 then int (unat b) else int (unat b) - 2 ^ 8)" for w b
    using sint_half [of 15 w] sint_half [of 7 b] by simp_all
  obtain name r where x: "x = (name, r)" by (cases x)
  have "name \<in> subevent_names" using assms x by simp
  then show ?thesis unfolding x
    by (elim insertE emptyE) (simp_all add: request_item_def select_items_def subevent_member_def half_range_def v h)
qed

definition in_range :: "range_request \<Rightarrow> lmd_subevent_header \<Rightarrow> bool" where
  "in_range x h \<longleftrightarrow> range_lo x \<le> subevent_member (fst x) h \<and> subevent_member (fst x) h \<le> range_hi x"

text \<open>What the comparison of signed numbers lets pass: of the values in the range those in the lower half of the member's.\<close>

definition selects :: "range_request list \<Rightarrow> lmd_subevent_header \<Rightarrow> bool" where
  "selects xs h \<longleftrightarrow> list_all (\<lambda>x. in_range x h \<and> subevent_member (fst x) h < half_range (fst x)) xs"

lemma member_below: "subevent_member name h < 2 * half_range name"
  using unsigned_less [where ?'a = nat, of "sh_type h"] unsigned_less [where ?'a = nat, of "sh_subtype h"] unsigned_less [where ?'a = nat, of "sh_procid h"]
    unsigned_less [where ?'a = nat, of "sh_subcrate h"] unsigned_less [where ?'a = nat, of "sh_control h"]
  by (simp add: subevent_member_def half_range_def)

lemma request_match_ranges:
  assumes "list_all (\<lambda>x. fst x \<in> subevent_names) xs"
  shows "request_match (mem (words_of_subevent_header h)) (map request_item xs) event = (Inr (selects xs h), event)"
  using assms
proof (induction xs)
  case (Cons x xs)
  have r: "ri_min (request_item x) = int (range_lo x)" "ri_max (request_item x) = int (range_hi x)" by (simp_all add: request_item_def split: prod.splits)
  from item_value_member [of x h event] Cons.prems obtain v where
    v: "item_value (mem (words_of_subevent_header h)) (request_item x) event = (Inr v, event)"
    "v = (if subevent_member (fst x) h < half_range (fst x) then int (subevent_member (fst x) h)
          else int (subevent_member (fst x) h) - 2 * int (half_range (fst x)))" by auto
  have "\<not> (v < int (range_lo x) \<or> v > int (range_hi x)) \<longleftrightarrow> in_range x h \<and> subevent_member (fst x) h < half_range (fst x)"
    using v(2) member_below [of "fst x" h] by (auto simp: in_range_def)
  then show ?case using Cons v(1) r by (auto simp: selects_def)
qed (simp add: selects_def)

lemma requests_match_any:
  assumes "list_all (list_all (\<lambda>x. fst x \<in> subevent_names)) reqs"
  shows "requests_match (mem (words_of_subevent_header h)) (map (map request_item) reqs) event = (Inr (list_ex (\<lambda>xs. selects xs h) reqs), event)"
  using assms by (induction reqs) (auto simp: request_match_ranges)

definition good_request :: "range_request list \<Rightarrow> bool" where
  "good_request xs \<longleftrightarrow> xs \<noteq> [] \<and> list_all known xs \<and> list_all (\<lambda>x. fst x \<in> subevent_names) xs"

lemma foldl_or_same: "xs \<noteq> [] \<Longrightarrow> list_all (\<lambda>x. x = t) xs \<Longrightarrow> foldl or s xs = or s t" for s t :: nat
proof (induction xs arbitrary: s)
  case (Cons x xs)
  then show ?case by (cases "xs = []") (auto simp: or.assoc)
qed simp

lemma add_request_text:
  assumes "good_request xs" "sr_flags (sel_subevent sel) \<in> {0, if incl then 1 else 2}"
  shows "add_request (request_text xs) incl sel = (Inr (), sel\<lparr>sel_subevent :=
           \<lparr>sr_flags = if incl then 1 else 2, sr_items = sr_items (sel_subevent sel) @ [map request_item xs]\<rparr>\<rparr>)"
proof -
  have g: "xs \<noteq> []" "list_all known xs" "list_all (\<lambda>x. fst x \<in> subevent_names) xs" using assms(1) by (simp_all add: good_request_def)
  have t: "list_all (\<lambda>t. t = 2) (map request_type xs)" using g(3) by (auto simp: list_all_iff request_type_def select_items_def)
  have "foldl or 0 (map request_type xs) = 2" using foldl_or_same [OF _ t] g(1) by simp
  then have p: "add_pieces (split_colon (request_text xs)) 0 [] = (Inr 2, map request_item xs)"
    using add_pieces_text [OF g(2)] split_request [OF g(2,1)] by simp
  have f: "\<not> has_flag 2 1" "has_flag 2 2" "has_flag 1 1" by (simp_all add: has_flag_def)
  show ?thesis using p f assms(2) by (cases incl) (auto simp: add_request_def requests_add_item_def Let_def)
qed


section \<open>Well-formed selections\<close>

text \<open>Items read a signed member of one or two bytes inside the header, of 16 bytes for an event and 12 for a subevent.\<close>

definition item_within :: "nat \<Rightarrow> select_event_request_item \<Rightarrow> bool" where
  "item_within limit item \<longleftrightarrow>
     limit = 16 \<and> ri_offset item = -1 \<or>
     ri_size item \<in> {-1, -2} \<and> 0 \<le> ri_offset item \<and> ri_offset item - ri_size item \<le> int limit"

definition requests_ok :: "nat \<Rightarrow> select_event_requests \<Rightarrow> bool" where
  "requests_ok limit sr \<longleftrightarrow> sr_flags sr \<in> {0, 1, 2} \<and> list_all (list_all (item_within limit)) (sr_items sr)"

definition select_ok :: "select_event \<Rightarrow> bool" where
  "select_ok sel \<longleftrightarrow> requests_ok 16 (sel_event sel) \<and> requests_ok 12 (sel_subevent sel)"

lemma flag_values: "has_flag 1 1" "has_flag (Suc 0) (Suc 0)" "\<not> has_flag 1 2" "\<not> has_flag (Suc 0) 2"
  "\<not> has_flag 2 1" "\<not> has_flag 2 (Suc 0)" "has_flag 2 2"
  by (simp_all add: has_flag_def)

lemma has_flag_or: "has_flag a f \<Longrightarrow> has_flag (or a b) f" "has_flag b f \<Longrightarrow> has_flag (or a b) f"
proof -
  have "and (or a b) f = or (and a f) (and b f)" for a b f :: nat by (rule bit_eqI) (auto simp: bit_simps)
  moreover have "or x y = 0 \<longleftrightarrow> x = 0 \<and> y = 0" for x y :: nat by (auto simp: bit_eq_iff bit_simps)
  ultimately show "has_flag a f \<Longrightarrow> has_flag (or a b) f" "has_flag b f \<Longrightarrow> has_flag (or a b) f" by (auto simp: has_flag_def)
qed

definition typed :: "nat \<Rightarrow> select_event_request_item list \<Rightarrow> bool" where
  "typed t items \<longleftrightarrow> (\<forall>item \<in> set items. item_within 16 item \<and> has_flag t 1 \<or> item_within 12 item \<and> has_flag t 2)"

lemma add_item_typed:
  assumes "request_add_item cmd items = (Inr t, items')" "typed t0 items"
  shows "typed (or t0 t) items'"
proof -
  let ?name = "takeWhile (\<lambda>c. c \<noteq> CHR ''='') cmd"
  from assms(1) obtain lo hi offset sz where
    i: "map_of select_items ?name = Some (offset, sz, t)" "items' = items @ [\<lparr>ri_offset = offset, ri_size = sz, ri_min = lo, ri_max = hi\<rparr>]"
    by (auto simp: request_add_item_def Let_def split: if_splits sum.splits prod.splits option.splits)
  from map_of_SomeD [OF i(1)] have "(offset, sz, t) \<in> {(10, -2, 1), (-1, 0, 1), (4, -2, 2), (6, -2, 2), (8, -2, 2), (10, -1, 2), (11, -1, 2)}"
    by (auto simp: select_items_def)
  then have "typed t [\<lparr>ri_offset = offset, ri_size = sz, ri_min = lo, ri_max = hi\<rparr>]" by (auto simp: typed_def item_within_def flag_values)
  then show ?thesis using assms(2) i(2) has_flag_or by (auto simp: typed_def)
qed

lemma add_pieces_typed:
  "add_pieces cmds t items = (Inr t', items') \<Longrightarrow> typed t items \<Longrightarrow> typed t' items'"
proof (induction cmds arbitrary: t items)
  case (Cons cmd cmds)
  from Cons.prems(1) obtain u items1 where "request_add_item cmd items = (Inr u, items1)" "add_pieces cmds (or t u) items1 = (Inr t', items')"
    by (auto simp: andthen_def split: prod.splits sum.splits)
  then show ?case using Cons.IH Cons.prems(2) add_item_typed by blast
qed simp

lemma requests_add_ok:
  assumes "requests_ok limit sr" "list_all (item_within limit) r"
  shows "requests_ok limit (snd (requests_add_item r incl sr))"
  using assms by (cases incl) (auto simp: requests_ok_def requests_add_item_def Let_def flag_values split: if_splits)

lemma add_request_ok:
  assumes "select_ok sel"
  shows "select_ok (snd (add_request command incl sel))"
proof (cases "add_pieces (split_colon command) 0 []")
  case (Pair r items)
  show ?thesis
  proof (cases r)
    case (Inl e)
    then show ?thesis using assms Pair by (simp add: add_request_def)
  next
    case (Inr t)
    have ty: "typed t items" using add_pieces_typed [of "split_colon command" 0 "[]" t items] Pair Inr by (simp add: typed_def)
    show ?thesis
    proof (cases "has_flag t 1"; cases "has_flag t 2")
      assume "has_flag t 1" "\<not> has_flag t 2"
      moreover from this have "list_all (item_within 16) items" using ty by (auto simp: typed_def list_all_iff)
      ultimately show ?thesis using assms Pair Inr requests_add_ok [of 16 "sel_event sel" items incl]
        by (auto simp: add_request_def select_ok_def andthen_def split: prod.splits sum.splits)
    next
      assume "\<not> has_flag t 1" "has_flag t 2"
      moreover from this have "list_all (item_within 12) items" using ty by (auto simp: typed_def list_all_iff)
      ultimately show ?thesis using assms Pair Inr requests_add_ok [of 12 "sel_subevent sel" items incl]
        by (auto simp: add_request_def select_ok_def andthen_def split: prod.splits sum.splits)
    qed (use assms Pair Inr in \<open>auto simp: add_request_def\<close>)
  qed
qed

lemma snd_andthen: "P (snd r) \<Longrightarrow> (\<And>x s. P s \<Longrightarrow> P (snd (f x s))) \<Longrightarrow> P (snd (andthen r f))"
  by (cases r; cases "fst r") auto

lemma parse_request_ok: "select_ok sel \<Longrightarrow> select_ok (snd (parse_request fuel names command incl sel))"
proof (induction fuel arbitrary: command sel)
  case (Suc fuel)
  have "select_ok (snd (foldl (\<lambda>r (_, cmd). andthen r (\<lambda>_ sel. parse_request fuel names cmd incl sel)) r ms))" if "select_ok (snd r)" for r ms
    using that
  proof (induction ms arbitrary: r)
    case (Cons m ms)
    have "select_ok (snd (andthen r (\<lambda>_ sel. parse_request fuel names (snd m) incl sel)))"
      by (rule snd_andthen [of select_ok, OF Cons.prems]) (rule Suc.IH)
    from Cons.IH [OF this] show ?case by (simp add: case_prod_beta)
  qed simp
  from this [of "(Inr (), sel)" "filter (\<lambda>(name, _). name = command) names"] show ?case
    using Suc.prems add_request_ok [OF Suc.prems, of command incl] unfolding parse_request.simps Let_def by (simp only: snd_conv split: if_split) simp
qed simp

text \<open>Asking for the identifier again gives the same one: only the data that was put together is kept.\<close>

lemma copy_frags_length: "copy_frags cs n = Some d \<Longrightarrow> length d = n"
proof (induction cs arbitrary: n d)
  case (Cons c cs)
  show ?case
  proof (cases "length c < n")
    case True
    then obtain d' where "copy_frags cs (n - length c) = Some d'" "d = c @ d'" using Cons.prems by auto
    then show ?thesis using Cons.IH [of "n - length c" d'] True by simp
  next
    case False
    then show ?thesis using Cons.prems by auto
  qed
qed simp

lemma get_subevent_data_src_again:
  assumes "get_subevent_data_src ev sub = (Inr d, sub')" "ev_status ev' = ev_status ev"
  shows "get_subevent_data_src ev' sub' = (Inr d, sub')"
proof -
  have st: "is_subevent_sticky_revoke ev' s = is_subevent_sticky_revoke ev s" for s using assms(2) by (simp add: is_subevent_sticky_revoke_def ev_has_status_def)
  let ?n = "SUBEVENT_DATA_LENGTH_FROM_DLEN_32 (sh_dlen (se_header sub))"
  show ?thesis
  proof (cases "is_subevent_sticky_revoke ev sub \<or> se_data sub \<noteq> None")
    case True
    then have "sub' = sub" using assms(1) by (auto simp: get_subevent_data_src_def Let_def split: if_splits option.splits)
    moreover have "get_subevent_data_src ev' sub = get_subevent_data_src ev sub" unfolding get_subevent_data_src_def st ..
    ultimately show ?thesis using assms(1) by simp
  next
    case False
    then obtain frag frags c where f: "se_frag sub = frag # frags" "se_offset sub \<le> length frag" "length frag - se_offset sub \<le> ?n"
      "copy_frags frags (?n - (length frag - se_offset sub)) = Some c" "d = Some (drop (se_offset sub) frag @ c)"
      "sub' = sub\<lparr>se_data := Some (drop (se_offset sub) frag @ c)\<rparr>"
      using assms(1) by (auto simp: get_subevent_data_src_def Let_def split: if_splits list.splits option.splits)
    have "length (drop (se_offset sub) frag @ c) = ?n" using copy_frags_length [OF f(4)] f(3) by simp
    moreover have "\<not> is_subevent_sticky_revoke ev sub'" using False f(6) by (simp add: is_subevent_sticky_revoke_def)
    ultimately show ?thesis using f(5,6) by (simp add: get_subevent_data_src_def st Let_def)
  qed
qed

lemma get_wr_id_again:
  assumes "get_wr_id ev = (Inr v, ev')"
  shows "get_wr_id ev' = (Inr v, ev')"
proof -
  from assms obtain sub subs d sub' where s: "ev_subevents ev = Some (sub # subs)" "get_subevent_data_src ev sub = (Inr d, sub')"
    "wr_stamp_id (ev_swapping ev) (case d of None \<Rightarrow> [] | Some data \<Rightarrow> data) = Inr v" "ev' = ev\<lparr>ev_subevents := Some (sub' # subs)\<rparr>"
    by (auto simp: get_wr_id_def split: option.splits list.splits prod.splits sum.splits)
  have "get_subevent_data_src ev' sub' = (Inr d, sub')" by (rule get_subevent_data_src_again [OF s(2)]) (simp add: s(4))
  then show ?thesis using s by (simp add: get_wr_id_def)
qed

definition same_wr_id :: "lmd_event \<Rightarrow> lmd_event option \<Rightarrow> bool" where
  "same_wr_id ev event \<longleftrightarrow> (\<exists>ev'. event = Some ev' \<and> fst (get_wr_id ev') = fst (get_wr_id ev))"

definition wr_id_item :: "select_event_request_item \<Rightarrow> bool" where
  "wr_id_item item \<longleftrightarrow> ri_offset item = -1"

lemma item_value_within:
  assumes "item_within limit item" "same_wr_id ev event"
  shows "case item_value ptr item event of (Inl e, _) \<Rightarrow> fst (get_wr_id ev) = Inl e \<and> wr_id_item item | (Inr v, event') \<Rightarrow> same_wr_id ev event'"
proof (cases "ri_offset item = -1")
  case True
  from assms(2) obtain ev' where e: "event = Some ev'" "fst (get_wr_id ev') = fst (get_wr_id ev)" by (auto simp: same_wr_id_def)
  obtain r ev2 where w: "get_wr_id ev' = (r, ev2)" by (cases "get_wr_id ev'")
  then have g: "fst (get_wr_id ev) = r" using e(2) by simp
  have v: "item_value ptr item event = (r, Some ev2)" using True e(1) w by (simp add: item_value_def)
  show ?thesis
  proof (cases r)
    case (Inr x)
    then have "fst (get_wr_id ev2) = fst (get_wr_id ev)" using get_wr_id_again [of ev' x ev2] w g by simp
    then show ?thesis using v Inr by (simp add: same_wr_id_def)
  qed (use v g True in \<open>simp add: wr_id_item_def\<close>)
next
  case False
  then show ?thesis using assms by (auto simp: item_value_def item_within_def Let_def)
qed

lemma request_match_within:
  assumes "list_all (item_within limit) items" "same_wr_id ev event"
  shows "case request_match ptr items event of (Inl e, _) \<Rightarrow> fst (get_wr_id ev) = Inl e \<and> list_ex wr_id_item items | (Inr b, event') \<Rightarrow> same_wr_id ev event'"
  using assms
proof (induction items arbitrary: event)
  case (Cons item items)
  have i: "item_within limit item" "list_all (item_within limit) items" using Cons.prems by auto
  obtain r event1 where v: "item_value ptr item event = (r, event1)" by (cases "item_value ptr item event")
  show ?case
  proof (cases r)
    case (Inl e)
    then show ?thesis using v item_value_within [OF i(1) Cons.prems(2), of ptr] by simp
  next
    case (Inr x)
    then have "same_wr_id ev event1" using v item_value_within [OF i(1) Cons.prems(2), of ptr] by simp
    from Cons.IH [OF i(2) this] show ?thesis using v Inr \<open>same_wr_id ev event1\<close> by (auto split: prod.splits sum.splits)
  qed
qed simp

lemma requests_match_within:
  assumes "list_all (list_all (item_within limit)) reqs" "same_wr_id ev event"
  shows "case requests_match ptr reqs event of (Inl e, _) \<Rightarrow> fst (get_wr_id ev) = Inl e \<and> list_ex (list_ex wr_id_item) reqs
         | (Inr b, event') \<Rightarrow> same_wr_id ev event'"
  using assms
proof (induction reqs arbitrary: event)
  case (Cons items reqs)
  have i: "list_all (item_within limit) items" "list_all (list_all (item_within limit)) reqs" using Cons.prems by auto
  obtain r event1 where v: "request_match ptr items event = (r, event1)" by (cases "request_match ptr items event")
  show ?case
  proof (cases r)
    case (Inl e)
    then show ?thesis using v request_match_within [OF i(1) Cons.prems(2), of ptr] by simp
  next
    case (Inr matched)
    then have "same_wr_id ev event1" using v request_match_within [OF i(1) Cons.prems(2), of ptr] by simp
    from Cons.IH [OF i(2) this] show ?thesis using v Inr \<open>same_wr_id ev event1\<close> by (cases matched) (auto split: prod.splits sum.splits)
  qed
qed simp

lemma requests_match_subevent:
  assumes "list_all (list_all (item_within 12)) reqs"
  shows "\<exists>b. requests_match ptr reqs event = (Inr b, event)"
proof -
  have one: "\<exists>b. request_match ptr items event = (Inr b, event)" if "list_all (item_within 12) items" for items
    using that
  proof (induction items)
    case (Cons item items)
    obtain v where "item_value ptr item event = (Inr v, event)" using Cons.prems by (auto simp: item_value_def item_within_def Let_def)
    then show ?case using Cons by (cases "v < ri_min item \<or> v > ri_max item") auto
  qed auto
  show ?thesis using assms
  proof (induction reqs)
    case (Cons r reqs)
    then obtain b where "request_match ptr r event = (Inr b, event)" using one [of r] by auto
    then show ?case using Cons by (cases b) auto
  qed auto
qed

text \<open>C26. Whatever texts are given as requests, in whatever order, and whether or not they are refused: the selection only holds
  items that read a member inside the header, and does not mix inclusion and exclusion. Decisions on subevents are made without an
  error. A decision on an event fails at most because of its White Rabbit identifier: only when that is requested, the event is not sticky, and with the
  error that looking for the identifier in this event gives; never by an internal error or a failed assertion.\<close>

theorem select_well_formed:
  "let sel = foldl (\<lambda>sel (command, incl). snd (parse_request fuel names command incl sel)) select_event_new requests
   in select_ok sel \<and> (\<exists>b. accept_subevent sub sel = Inr b) \<and>
      (case fst (accept_event sel ev) of
         Inr b \<Rightarrow> True
       | Inl e \<Rightarrow> fst (get_wr_id ev) = Inl e \<and> list_ex (list_ex wr_id_item) (sr_items (sel_event sel)) \<and> \<not> is_event_sticky (ev_header ev))"
proof -
  let ?sel = "foldl (\<lambda>sel (command, incl). snd (parse_request fuel names command incl sel)) select_event_new requests"
  have "select_ok (foldl (\<lambda>sel (command, incl). snd (parse_request fuel names command incl sel)) sel requests)" if "select_ok sel" for sel
    using that by (induction requests arbitrary: sel) (auto simp: parse_request_ok)
  moreover have "select_ok select_event_new" by (simp add: select_ok_def requests_ok_def select_event_new_def)
  ultimately have ok: "select_ok ?sel" by blast
  then have r: "requests_ok 16 (sel_event ?sel)" "requests_ok 12 (sel_subevent ?sel)" by (simp_all add: select_ok_def)
  have "\<exists>b. accept_subevent sub ?sel = Inr b"
    using r(2) requests_match_subevent [of "sr_items (sel_subevent ?sel)" "mem (words_of_subevent_header sub)" None]
    by (auto simp: accept_subevent_def requests_accept_def requests_ok_def flag_values)
  moreover have "case fst (accept_event ?sel ev) of Inr b \<Rightarrow> True
      | Inl e \<Rightarrow> fst (get_wr_id ev) = Inl e \<and> list_ex (list_ex wr_id_item) (sr_items (sel_event ?sel)) \<and> \<not> is_event_sticky (ev_header ev)"
  proof (cases "is_event_sticky (ev_header ev)")
    case False
    let ?p = "mem (words_of_event_header (ev_header ev) @ words_of_event_info (ev_info ev))"
    have "same_wr_id ev (Some ev)" by (simp add: same_wr_id_def)
    with r(1) have "case requests_match ?p (sr_items (sel_event ?sel)) (Some ev) of
        (Inl e, _) \<Rightarrow> fst (get_wr_id ev) = Inl e \<and> list_ex (list_ex wr_id_item) (sr_items (sel_event ?sel)) | (Inr b, event') \<Rightarrow> same_wr_id ev event'"
      by (intro requests_match_within) (auto simp: requests_ok_def)
    then show ?thesis using r(1) False
      by (auto simp: accept_event_def requests_accept_def requests_ok_def flag_values andthen_def split: prod.splits sum.splits)
  qed (simp add: accept_event_def)
  ultimately show ?thesis using ok unfolding Let_def by blast
qed

text \<open>An event with one subevent whose data is a time stamp with identifier 3, or too short for one.\<close>

definition wr_event :: "u32 list \<Rightarrow> lmd_event" where
  "wr_event ws =
     \<lparr>ev_header = \<lparr>eh_dlen = 0, eh_type = 10, eh_subtype = 1\<rparr>, ev_info = \<lparr>ei_dummy = 0, ei_trigger = 1, ei_count = 1\<rparr>, ev_status = 0, ev_swapping = False,
      ev_subevents = Some [\<lparr>se_header = \<lparr>sh_dlen = of_nat (2 + 2 * length ws), sh_type = 10, sh_subtype = 1, sh_procid = 15, sh_subcrate = 0, sh_control = 3\<rparr>,
        se_data = Some (mem ws), se_frag = [], se_offset = 0\<rparr>],
      ev_chunks = [], ev_chunk_alloc = 0, ev_chunk_cur = [], ev_offset_cur = 0, ev_warnings = []\<rparr>"

definition wr_selection :: select_event where
  "wr_selection = foldl (\<lambda>sel (command, incl). snd (parse_request 1 [] command incl sel)) select_event_new [(''wr_id=3'', True), (''trig'', True)]"

theorem select_well_formed_witness:
  "select_ok wr_selection \<and> (\<exists>b. accept_subevent \<lparr>sh_dlen = 4, sh_type = 10, sh_subtype = 1, sh_procid = 15, sh_subcrate = 0, sh_control = 3\<rparr> wr_selection = Inr b) \<and>
   fst (accept_event wr_selection (wr_event [0x300, 0x03e10000, 0x04e10000, 0x05e10000, 0x06e10000])) = Inr True \<and>
   fst (accept_event wr_selection (wr_event [0x300])) = Inl (Err ''First subevent does not have data enough for WR time stamp values.'') \<and>
   fst (get_wr_id (wr_event [0x300])) = Inl (Err ''First subevent does not have data enough for WR time stamp values.'')"
proof -
  note w = select_well_formed [where fuel = 1 and names = "[]" and requests = "[(''wr_id=3'', True), (''trig'', True)]", folded wr_selection_def, unfolded Let_def]
  have "fst (accept_event wr_selection (wr_event [0x300, 0x03e10000, 0x04e10000, 0x05e10000, 0x06e10000])) = Inr True" by code_simp
  moreover have e: "fst (accept_event wr_selection (wr_event [0x300])) = Inl (Err ''First subevent does not have data enough for WR time stamp values.'')"
    by code_simp
  moreover have "fst (get_wr_id (wr_event [0x300])) = Inl (Err ''First subevent does not have data enough for WR time stamp values.'')"
    using w [where ev = "wr_event [0x300]"] e by simp
  ultimately show ?thesis using w by blast
qed


end
