(* ===== verification/Bitsone.thy ===== *)
theory Bitsone
  imports Prelude
begin

text \<open>
  \<^verbatim>\<open>eventloop/bitsone.hh\<close>: a set of numbers kept as bits, with the iterator by which the containers of the events are
  walked. The bits are in 64-bit numbers.
\<close>

unbundle bit_operations_syntax

section \<open>Bits\<close>

abbreviation (input) CONTAINER_BITS :: nat where "CONTAINER_BITS \<equiv> 64"

definition bitsone_containers :: "nat \<Rightarrow> nat" where
  "bitsone_containers n = (n + CONTAINER_BITS - 1) div CONTAINER_BITS"

definition bitsone_clear :: "nat \<Rightarrow> 64 word list" where
  "bitsone_clear n = replicate (bitsone_containers n) 0"

definition bitsone_set :: "nat \<Rightarrow> nat \<Rightarrow> 64 word list \<Rightarrow> (unit, 64 word list) result" where
  "bitsone_set n i bits =
     (if \<not> i < n then (Inl (Assert ''i < n''), bits)
      else (Inr (), bits[i div CONTAINER_BITS := bits ! (i div CONTAINER_BITS) OR push_bit (i mod CONTAINER_BITS) 1]))"

definition bitsone_get :: "nat \<Rightarrow> nat \<Rightarrow> 64 word list \<Rightarrow> cxx_error + bool" where
  "bitsone_get n i bits =
     (if \<not> i < n then Inl (Assert ''i < n'')
      else Inr (drop_bit (i mod CONTAINER_BITS) (bits ! (i div CONTAINER_BITS)) AND 1 \<noteq> 0))"

definition bitsone_get_set :: "nat \<Rightarrow> nat \<Rightarrow> 64 word list \<Rightarrow> (bool, 64 word list) result" where
  "bitsone_get_set n i bits =
     (if \<not> i < n then (Inl (Assert ''i < n''), bits)
      else
        let shift = i mod CONTAINER_BITS;
            addr = i div CONTAINER_BITS;
            prev = bits ! addr
        in (Inr (drop_bit shift prev AND 1 \<noteq> 0), bits[addr := prev OR push_bit shift 1]))"

text \<open>The place of a bit for access as an array of 32-bit numbers, on a little-endian machine.\<close>

definition bitsone_get_set_ptr :: "nat \<Rightarrow> nat \<times> 32 word" where
  "bitsone_get_set_ptr i = ((i div 32) XOR 1, push_bit (i mod 32) 1)"

section \<open>The iterator\<close>

record bitsone_iterator =
  it_left :: "64 word"
  it_index :: nat
  it_i :: nat

definition bitsone_iterator_init :: bitsone_iterator where
  "bitsone_iterator_init = \<lparr>it_left = 0, it_index = 0, it_i = 0\<rparr>"

text \<open>The next container that is not empty, from number \<open>i\<close> on.\<close>

function next_container :: "64 word list \<Rightarrow> nat \<Rightarrow> (64 word \<times> nat) option" where
  "next_container bits i =
     (if i \<ge> length bits then None
      else if bits ! i \<noteq> 0 then Some (bits ! i, i)
      else next_container bits (i + 1))"
  by pat_completeness auto
termination by (relation "measure (\<lambda>(bits, i). length bits - i)") auto

declare next_container.simps [simp del]

text \<open>The search by steps of 8 bits; without a bit it would not end.\<close>

partial_function (option) skip_bytes :: "64 word \<Rightarrow> nat \<Rightarrow> (64 word \<times> nat) option" where
  "skip_bytes left index = (if left AND 0xff = 0 then skip_bytes (drop_bit 8 left) (index + 8) else Some (left, index))"

definition skip_empty :: "nat \<Rightarrow> 64 word \<times> nat \<Rightarrow> 64 word \<times> nat" where
  "skip_empty k = (\<lambda>(left, index). if left AND mask k = 0 then (drop_bit k left, index + k) else (left, index))"

definition find_bit :: "bitsone_iterator \<Rightarrow> (int \<times> bitsone_iterator) option" where
  "find_bit iter =
     (case skip_bytes (it_left iter) (it_index iter) of
        None \<Rightarrow> None
      | Some found \<Rightarrow>
          (case skip_empty 1 (skip_empty 2 (skip_empty 4 found)) of (left, index) \<Rightarrow>
             Some (int index, iter\<lparr>it_left := drop_bit 1 left, it_index := index + 1\<rparr>)))"

definition bitsone_next :: "64 word list \<Rightarrow> bitsone_iterator \<Rightarrow> (int \<times> bitsone_iterator) option" where
  "bitsone_next bits iter =
     (if it_left iter = 0 then
        (case next_container bits (it_i iter) of
           None \<Rightarrow> Some (-1, iter\<lparr>it_i := max (it_i iter) (length bits)\<rparr>)
         | Some (left, i) \<Rightarrow>
             find_bit (iter\<lparr>it_left := left, it_index := i * CONTAINER_BITS, it_i := i + 1\<rparr>))
      else find_bit iter)"

text \<open>The loop \<^verbatim>\<open>while ((i = _valid.next (iter)) >= 0)\<close>: the indices in the order in which it visits them.\<close>

partial_function (option) visit :: "64 word list \<Rightarrow> bitsone_iterator \<Rightarrow> nat list option" where
  "visit bits iter =
     (case bitsone_next bits iter of
        None \<Rightarrow> None
      | Some (i, iter') \<Rightarrow>
          if i \<ge> 0 then Option.bind (visit bits iter') (\<lambda>is. Some (nat i # is)) else Some [])"

declare skip_bytes.simps [simp del] visit.simps [simp del]

declare upt_rec_numeral [simp del]

section \<open>What the iterator finds\<close>

definition ones :: "64 word \<Rightarrow> nat \<Rightarrow> nat list" where
  "ones w base = map (\<lambda>k. base + k) (filter (bit w) [0..<64])"

lemma ones_zero [simp]: "ones 0 base = []"
  by (simp add: ones_def)

lemma ones_nonzero: "w \<noteq> 0 \<Longrightarrow> ones w base \<noteq> []"
proof -
  assume "w \<noteq> 0"
  then obtain k where "bit w k" "k < 64" using bit_imp_le_length [of w] by (auto simp: bit_eq_iff)
  then show ?thesis by (auto simp: ones_def filter_empty_conv)
qed

lemma upt_split: "a \<le> b \<Longrightarrow> b \<le> c \<Longrightarrow> [a..<c] = [a..<b] @ [b..<c]"
  by (metis le_add_diff_inverse upt_add_eq_append)

lemma upt_shift: "k \<le> 64 \<Longrightarrow> [k..<64] = map (\<lambda>j. j + k) [0..<64 - k]"
  by (simp add: map_add_upt)

lemma ones_from:
  assumes "k \<le> 64"
  shows "ones w base = map (\<lambda>j. base + j) (filter (bit w) [0..<k]) @ ones (drop_bit k w) (base + k)"
proof -
  have "filter (bit w) [0..<64] = filter (bit w) [0..<k] @ filter (bit w) [k..<64]"
    using assms upt_split [of 0 k 64] by simp
  moreover have "filter (bit w) [k..<64] = map (\<lambda>j. j + k) (filter (bit (drop_bit k w)) [0..<64 - k])"
    using assms by (simp add: upt_shift filter_map comp_def bit_drop_bit_eq add.commute)
  moreover have "filter (bit (drop_bit k w)) [0..<64] = filter (bit (drop_bit k w)) [0..<64 - k]"
  proof -
    have "[0..<64] = [0..<64 - k] @ [64 - k..<64]" by (rule upt_split) simp_all
    moreover have "filter (bit (drop_bit k w)) [64 - k..<64] = []" using bit_imp_le_length [of w] by (force simp: filter_empty_conv bit_drop_bit_eq)
    ultimately show ?thesis by simp
  qed
  ultimately show ?thesis by (simp add: ones_def add.assoc add.commute add.left_commute)
qed

lemma ones_shift:
  assumes "w AND mask k = 0" "k \<le> 64"
  shows "ones w base = ones (drop_bit k w) (base + k)"
proof -
  have "\<not> bit w j" if "j < k" for j
  proof -
    have "\<not> bit (w AND mask k) j" using assms(1) by simp
    then show ?thesis using that assms(2) by (simp add: bit_and_iff bit_mask_iff)
  qed
  then have "filter (bit w) [0..<k] = []" by (simp add: filter_empty_conv)
  then show ?thesis by (subst ones_from [OF assms(2)]) simp
qed

lemma ones_first: "bit w 0 \<Longrightarrow> ones w base = base # ones (drop_bit 1 w) (base + 1)"
  by (subst ones_from [of 1]) simp_all

lemma skip_bytes_ones:
  "left \<noteq> 0 \<Longrightarrow> \<exists>left' index'. skip_bytes left index = Some (left', index') \<and> left' AND mask 8 \<noteq> 0 \<and> ones left' index' = ones left index"
proof (induction "unat left" arbitrary: left index rule: less_induct)
  case less
  have m: "(0xff :: 64 word) = mask 8" by (simp add: mask_eq_decr_exp)
  show ?case
  proof (cases "left AND mask 8 = 0")
    case True
    have nz: "drop_bit 8 left \<noteq> 0"
    proof
      assume "drop_bit 8 left = 0"
      then have "ones left index = []" by (subst ones_shift [OF True]) simp_all
      then show False using ones_nonzero [OF less.prems] by simp
    qed
    have "unat (drop_bit 8 left) < unat left" using less.prems by (simp add: unat_drop_bit_eq drop_bit_nat_def unat_gt_0)
    from less.hyps [OF this nz, of "index + 8"] obtain left' index' where
      "skip_bytes (drop_bit 8 left) (index + 8) = Some (left', index')" "left' AND mask 8 \<noteq> 0" "ones left' index' = ones (drop_bit 8 left) (index + 8)"
      by blast
    moreover have "skip_bytes left index = skip_bytes (drop_bit 8 left) (index + 8)" using True by (subst skip_bytes.simps) (simp add: m)
    moreover have "ones (drop_bit 8 left) (index + 8) = ones left index" by (rule ones_shift [OF True, symmetric]) simp
    ultimately show ?thesis by metis
  next
    case False
    then show ?thesis by (subst skip_bytes.simps) (simp add: m)
  qed
qed

lemma skip_empty_ones:
  assumes "fst p AND mask (k + k) \<noteq> 0" "k \<le> 32"
  shows "fst (skip_empty k p) AND mask k \<noteq> 0" "ones (fst (skip_empty k p)) (snd (skip_empty k p)) = ones (fst p) (snd p)"
proof -
  obtain left index where p: "p = (left, index)" by (cases p)
  obtain j where j: "bit left j" "j < k + k" using assms(1) by (auto simp: p bit_eq_iff bit_and_iff bit_mask_iff)
  show "fst (skip_empty k p) AND mask k \<noteq> 0"
  proof (cases "left AND mask k = 0")
    case True
    have "k \<le> j"
    proof (rule ccontr)
      assume "\<not> k \<le> j"
      then have "bit (left AND mask k) j" using j assms(2) by (simp add: bit_and_iff bit_mask_iff)
      then show False using True by simp
    qed
    then have "bit (drop_bit k left AND mask k) (j - k)" using j assms(2) by (simp add: bit_and_iff bit_mask_iff bit_drop_bit_eq) linarith
    then show ?thesis using True by (auto simp: skip_empty_def p)
  qed (simp add: skip_empty_def p)
  show "ones (fst (skip_empty k p)) (snd (skip_empty k p)) = ones (fst p) (snd p)"
  proof (cases "left AND mask k = 0")
    case True
    show ?thesis unfolding skip_empty_def p using True ones_shift [OF True, of index, symmetric] assms(2) by simp
  qed (simp add: skip_empty_def p)
qed

lemma find_bit_ones:
  assumes "it_left iter \<noteq> 0"
  shows "\<exists>i iter'. find_bit iter = Some (int i, iter') \<and> it_i iter' = it_i iter \<and>
           ones (it_left iter) (it_index iter) = i # ones (it_left iter') (it_index iter')"
proof -
  from skip_bytes_ones [OF assms, of "it_index iter"] obtain left index where
    s: "skip_bytes (it_left iter) (it_index iter) = Some (left, index)" "left AND mask (4 + 4) \<noteq> 0" "ones left index = ones (it_left iter) (it_index iter)"
    by auto
  let ?p4 = "skip_empty 4 (left, index)" and ?p2 = "skip_empty 2 (skip_empty 4 (left, index))"
  let ?p1 = "skip_empty 1 ?p2"
  have 4: "fst ?p4 AND mask (2 + 2) \<noteq> 0" "ones (fst ?p4) (snd ?p4) = ones left index" using skip_empty_ones [of "(left, index)" 4] s(2) by simp_all
  have 2: "fst ?p2 AND mask (1 + 1) \<noteq> 0" "ones (fst ?p2) (snd ?p2) = ones left index" using skip_empty_ones [OF 4(1)] 4(2) by (simp_all add: numeral_2_eq_2)
  have 1: "fst ?p1 AND mask 1 \<noteq> 0" "ones (fst ?p1) (snd ?p1) = ones left index" using skip_empty_ones [OF 2(1)] 2(2) by simp_all
  from 1(1) obtain n where "bit (fst ?p1 AND mask 1) n" using bit_eqI [of "fst ?p1 AND mask 1" 0] by auto
  then have "bit (fst ?p1) 0" by (cases n) (simp_all add: bit_and_iff bit_mask_iff)
  from ones_first [OF this, of "snd ?p1"] 1(2) s(1,3) show ?thesis
    by (cases ?p1) (simp add: find_bit_def)
qed

fun ones_all :: "nat \<Rightarrow> 64 word list \<Rightarrow> nat list" where
  "ones_all i [] = []"
| "ones_all i (w # ws) = ones w (i * 64) @ ones_all (i + 1) ws"

lemma next_container_ones:
  fixes bits :: "64 word list" and i :: nat
  shows "(case next_container bits i of None \<Rightarrow> ones_all i (drop i bits) = []
    | Some (left, k) \<Rightarrow> left \<noteq> 0 \<and> ones_all i (drop i bits) = ones left (k * 64) @ ones_all (k + 1) (drop (k + 1) bits))"
proof (induction bits i rule: next_container.induct)
  case (1 bits i)
  show ?case
  proof (cases "i < length bits")
    case True
    then have d: "drop i bits = bits ! i # drop (i + 1) bits" by (simp add: Cons_nth_drop_Suc)
    show ?thesis
    proof (cases "bits ! i = 0")
      case z: True
      have "next_container bits i = next_container bits (i + 1)" using True z by (subst next_container.simps) simp
      moreover have "ones_all i (drop i bits) = ones_all (i + 1) (drop (i + 1) bits)" unfolding d using z by simp
      ultimately show ?thesis using 1 True z by (cases "next_container bits (i + 1)") (auto simp: case_prod_beta)
    next
      case False
      then have "next_container bits i = Some (bits ! i, i)" using True by (subst next_container.simps) simp
      then show ?thesis using False unfolding d by simp
    qed
  next
    case False
    then show ?thesis by (subst next_container.simps) simp
  qed
qed

definition remaining_ones :: "64 word list \<Rightarrow> bitsone_iterator \<Rightarrow> nat list" where
  "remaining_ones bits iter = ones (it_left iter) (it_index iter) @ ones_all (it_i iter) (drop (it_i iter) bits)"

lemma next_ones:
  "\<exists>iter'. bitsone_next bits iter = (case remaining_ones bits iter of [] \<Rightarrow> Some (-1, iter') | i # is \<Rightarrow> Some (int i, iter')) \<and>
     remaining_ones bits iter' = tl (remaining_ones bits iter)"
proof (cases "it_left iter = 0")
  case True
  show ?thesis
  proof (cases "next_container bits (it_i iter)")
    case None
    then show ?thesis using True next_container_ones [where bits = bits and i = "it_i iter"] by (simp add: bitsone_next_def remaining_ones_def)
  next
    case (Some p)
    obtain left k where p: "p = (left, k)" by (cases p)
    have c: "left \<noteq> 0" "ones_all (it_i iter) (drop (it_i iter) bits) = ones left (k * 64) @ ones_all (k + 1) (drop (k + 1) bits)"
      using next_container_ones [where bits = bits and i = "it_i iter"] Some p by simp_all
    let ?iter = "iter\<lparr>it_left := left, it_index := k * 64, it_i := k + 1\<rparr>"
    from find_bit_ones [of ?iter] c(1) obtain i iter' where
      "find_bit ?iter = Some (int i, iter')" "it_i iter' = k + 1" "ones left (k * 64) = i # ones (it_left iter') (it_index iter')" by auto
    then show ?thesis using True Some p c(2) by (simp add: bitsone_next_def remaining_ones_def)
  qed
next
  case False
  from find_bit_ones [OF this] obtain i iter' where
    "find_bit iter = Some (int i, iter')" "it_i iter' = it_i iter" "ones (it_left iter) (it_index iter) = i # ones (it_left iter') (it_index iter')" by auto
  then show ?thesis using False by (simp add: bitsone_next_def remaining_ones_def)
qed

lemma visit_ones: "visit bits iter = Some (remaining_ones bits iter)"
proof (induction "remaining_ones bits iter" arbitrary: iter)
  case Nil
  then show ?case using next_ones [of bits iter] by (auto simp: visit.simps [of bits iter])
next
  case (Cons i js)
  from next_ones [of bits iter] Cons.hyps(2) [symmetric] obtain iter' where
    "bitsone_next bits iter = Some (int i, iter')" "remaining_ones bits iter' = js" by auto
  then show ?case using Cons.hyps by (simp add: visit.simps [of bits iter])
qed

lemma ones_all_nth:
  "ones_all i ws = map (\<lambda>k. i * 64 + k) (filter (\<lambda>k. bit (ws ! (k div 64)) (k mod 64)) [0..<64 * length ws])"
proof (induction ws arbitrary: i)
  case (Cons w ws)
  let ?P = "\<lambda>ws k. bit (ws ! (k div 64)) (k mod 64)"
  have u: "[0..<64 * length (w # ws)] = [0..<64] @ map (\<lambda>k. k + 64) [0..<64 * length ws]"
    using upt_split [of 0 64 "64 * length (w # ws)"] map_add_upt [of 64 "64 * length ws"] by (simp add: add.commute)
  have a: "filter (?P (w # ws)) [0..<64] = filter (bit w) [0..<64]" by (rule filter_cong) simp_all
  have b: "filter (?P (w # ws)) (map (\<lambda>k. k + 64) [0..<64 * length ws]) = map (\<lambda>k. k + 64) (filter (?P ws) [0..<64 * length ws])"
    by (simp add: filter_map comp_def div_add_self2)
  show ?case unfolding ones_all.simps Cons.IH u filter_append a b by (simp add: ones_def add.commute add.left_commute)
qed simp

lemma visit_bits:
  "visit bits bitsone_iterator_init = Some (filter (\<lambda>k. bit (bits ! (k div 64)) (k mod 64)) [0..<64 * length bits])"
  by (simp add: visit_ones remaining_ones_def bitsone_iterator_init_def ones_all_nth)

section \<open>The set of the bits\<close>

definition bits_view :: "64 word list \<Rightarrow> nat set" where
  "bits_view bits = {k. k < 64 * length bits \<and> bit (bits ! (k div 64)) (k mod 64)}"

definition bits_ok :: "nat \<Rightarrow> 64 word list \<Rightarrow> bool" where
  "bits_ok n bits \<longleftrightarrow> length bits = bitsone_containers n \<and> bits_view bits \<subseteq> {..<n}"

lemma containers_enough: "i < n \<Longrightarrow> i div 64 < bitsone_containers n"
proof -
  assume "i < n"
  moreover have "(n + 64 - 1) div 64 * 64 + (n + 64 - 1) mod 64 = n + 64 - 1" "(n + 64 - 1) mod 64 < 64" by (rule div_mult_mod_eq) simp
  ultimately have "i < bitsone_containers n * 64" unfolding bitsone_containers_def by linarith
  then show ?thesis by (simp add: less_mult_imp_div_less)
qed

lemma bits_ok_view [simp]: "bits_ok n bits \<Longrightarrow> finite (bits_view bits)" "bits_ok n bits \<Longrightarrow> i \<in> bits_view bits \<Longrightarrow> i < n"
  by (auto simp: bits_ok_def intro: finite_subset)

lemma bits_clear: "bits_ok n (bitsone_clear n)" "bits_view (bitsone_clear n) = {}"
proof -
  show v: "bits_view (bitsone_clear n) = {}" by (auto simp: bits_view_def bitsone_clear_def)
  show "bits_ok n (bitsone_clear n)" unfolding bits_ok_def v by (simp add: bitsone_clear_def)
qed

lemma bits_view_set:
  assumes "i < 64 * length bits"
  shows "bits_view (bits[i div 64 := bits ! (i div 64) OR push_bit (i mod 64) 1]) = insert i (bits_view bits)"
proof -
  have l: "i div 64 < length bits" using assms by (simp add: less_mult_imp_div_less mult.commute)
  have "k \<in> bits_view (bits[i div 64 := bits ! (i div 64) OR push_bit (i mod 64) 1]) \<longleftrightarrow> k = i \<or> k \<in> bits_view bits" for k
  proof (cases "k div 64 = i div 64")
    case True
    moreover have "k mod 64 = i mod 64 \<longleftrightarrow> k = i" using True by (metis div_mult_mod_eq)
    ultimately show ?thesis using l assms by (auto simp: bits_view_def bit_simps)
  next
    case False
    then show ?thesis using l by (auto simp: bits_view_def)
  qed
  then show ?thesis by auto
qed

lemma bits_get: "bits_ok n bits \<Longrightarrow> i < n \<Longrightarrow> (drop_bit (i mod 64) (bits ! (i div 64)) AND 1 \<noteq> 0) = (i \<in> bits_view bits)"
proof -
  assume a: "bits_ok n bits" "i < n"
  then have "i < 64 * length bits" using containers_enough [OF a(2)] by (simp add: bits_ok_def div_less_iff_less_mult mult.commute)
  then show ?thesis by (simp add: bits_view_def and_one_eq bit_iff_odd_drop_bit odd_iff_mod_2_eq_one)
qed

lemma get_set_view:
  assumes "bits_ok n bits" "i < n"
  shows "\<exists>bits'. bitsone_get_set n i bits = (Inr (i \<in> bits_view bits), bits') \<and> bits_ok n bits' \<and> bits_view bits' = insert i (bits_view bits)"
proof -
  have "i < 64 * length bits" using containers_enough [OF assms(2)] assms(1) by (simp add: bits_ok_def div_less_iff_less_mult mult.commute)
  from bits_view_set [OF this] show ?thesis using assms bits_get [OF assms] by (simp add: bitsone_get_set_def Let_def bits_ok_def)
qed

lemma visit_view:
  "visit bits bitsone_iterator_init = Some (sorted_list_of_set (bits_view bits))"
proof -
  let ?l = "filter (\<lambda>k. bit (bits ! (k div 64)) (k mod 64)) [0..<64 * length bits]"
  have s: "set ?l = bits_view bits" by (auto simp: bits_view_def)
  have "sorted ?l" "distinct ?l" by (simp_all add: sorted_wrt_filter)
  from sorted_list_of_set.idem_if_sorted_distinct [OF this] show ?thesis unfolding visit_bits s by simp
qed

lemma get_set_ptr_other: "32 * fst (bitsone_get_set_ptr i) + i mod 32 \<noteq> i"
proof
  assume "32 * fst (bitsone_get_set_ptr i) + i mod 32 = i"
  then have "32 * ((i div 32) XOR 1) = 32 * (i div 32)" using mult_div_mod_eq [of 32 i] by (simp only: bitsone_get_set_ptr_def fst_conv)
  then have "(i div 32) XOR 1 = i div 32" by simp
  then have "bit ((i div 32) XOR 1) 0 = bit (i div 32) 0" by simp
  then show False by (simp add: bit_xor_iff bit_Suc_0_iff)
qed

text \<open>C24. The iterator ends, and visits exactly the numbers whose bit is set, each once and in ascending order, whatever the
  bits are.\<close>

theorem bits_visited: "visit bits bitsone_iterator_init = Some (sorted_list_of_set (bits_view bits))"
  by (rule visit_view)

end
