(* ===== verification/Zero_Suppress.thy ===== *)
theory Zero_Suppress
  imports Bitsone
begin

text \<open>
  \<^verbatim>\<open>eventloop/zero_suppress.hh\<close>: the containers in which unpacked events keep the data of channels, for which
  only those with data are to be looked at. The types of the items come from generated code.
\<close>

section \<open>Plain arrays\<close>

text \<open>
  The number of items \<open>n\<close> is a template argument. The reference to an item that an operation returns is the
  number of the item. What cleaning makes of an item depends on the type of the items.
\<close>

definition raw_array_insert_index :: "nat \<Rightarrow> nat \<Rightarrow> 'a list \<Rightarrow> (nat, 'a list) result" where
  "raw_array_insert_index n i items =
     (if i \<ge> n then (Inl (Err ''Attempt to index outside array''), items) else (Inr i, items))"

definition raw_array_clean :: "('a \<Rightarrow> 'a) \<Rightarrow> 'a list \<Rightarrow> 'a list" where
  "raw_array_clean clean items = map clean items"

section \<open>Arrays with marks\<close>

record 'a raw_array_zero_suppress =
  za_valid :: "64 word list"
  za_items :: "'a list"

definition array_clean :: "nat \<Rightarrow> 'a raw_array_zero_suppress \<Rightarrow> 'a raw_array_zero_suppress" where
  "array_clean n s = s\<lparr>za_valid := bitsone_clear n\<rparr>"

definition array_on_insert_index ::
  "nat \<Rightarrow> ('a \<Rightarrow> 'a) \<Rightarrow> nat \<Rightarrow> 'a raw_array_zero_suppress \<Rightarrow> (nat, 'a raw_array_zero_suppress) result" where
  "array_on_insert_index n clean i s =
     (case bitsone_get_set n i (za_valid s) of
        (Inl e, valid) \<Rightarrow> (Inl e, s)
      | (Inr True, valid) \<Rightarrow> (Inr i, s\<lparr>za_valid := valid\<rparr>)
      | (Inr False, valid) \<Rightarrow> (Inr i, s\<lparr>za_valid := valid, za_items := (za_items s)[i := clean (za_items s ! i)]\<rparr>))"

definition array_insert_index ::
  "nat \<Rightarrow> ('a \<Rightarrow> 'a) \<Rightarrow> nat \<Rightarrow> 'a raw_array_zero_suppress \<Rightarrow> (nat, 'a raw_array_zero_suppress) result" where
  "array_insert_index n clean i s =
     (if i \<ge> n then (Inl (Err ''Attempt to index outside list''), s) else array_on_insert_index n clean i s)"

definition array_dump :: "'a raw_array_zero_suppress \<Rightarrow> (nat \<times> 'a) list option" where
  "array_dump s = map_option (map (\<lambda>i. (i, za_items s ! i))) (visit (za_valid s) bitsone_iterator_init)"

section \<open>Arrays with several entries for an index\<close>

record 'a raw_array_multi_zero_suppress =
  zm_valid :: "64 word list"
  zm_num_entries :: "nat list"
  zm_items :: "'a list list"

definition multi_clean :: "nat \<Rightarrow> 'a raw_array_multi_zero_suppress \<Rightarrow> 'a raw_array_multi_zero_suppress" where
  "multi_clean n s = s\<lparr>zm_valid := bitsone_clear n\<rparr>"

definition multi_on_insert_index ::
  "nat \<Rightarrow> nat \<Rightarrow> ('a \<Rightarrow> 'a) \<Rightarrow> nat \<Rightarrow> 'a raw_array_multi_zero_suppress \<Rightarrow> (nat \<times> nat, 'a raw_array_multi_zero_suppress) result" where
  "multi_on_insert_index n max_entries clean i s =
     (case bitsone_get_set n i (zm_valid s) of
        (Inl e, valid) \<Rightarrow> (Inl e, s)
      | (Inr known, valid) \<Rightarrow>
          let s = s\<lparr>zm_valid := valid\<rparr>;
              s = (if \<not> known then s\<lparr>zm_num_entries := (zm_num_entries s)[i := 0]\<rparr> else s);
              num = zm_num_entries s ! i
          in if num \<ge> max_entries then (Inl (Err ''Attempt to insert too many items in multi-entry list''), s)
             else (Inr (i, num), s\<lparr>zm_num_entries := (zm_num_entries s)[i := num + 1],
                     zm_items := (zm_items s)[i := (zm_items s ! i)[num := clean (zm_items s ! i ! num)]]\<rparr>))"

definition multi_insert_index ::
  "nat \<Rightarrow> nat \<Rightarrow> ('a \<Rightarrow> 'a) \<Rightarrow> nat \<Rightarrow> 'a raw_array_multi_zero_suppress \<Rightarrow> (nat \<times> nat, 'a raw_array_multi_zero_suppress) result" where
  "multi_insert_index n max_entries clean i s =
     (if i \<ge> n then (Inl (Err ''Attempt to index outside list''), s) else multi_on_insert_index n max_entries clean i s)"

definition multi_dump :: "'a raw_array_multi_zero_suppress \<Rightarrow> (nat \<times> 'a) list option" where
  "multi_dump s =
     map_option (\<lambda>is. concat (map (\<lambda>i. map (\<lambda>j. (i, zm_items s ! i ! j)) [0..<zm_num_entries s ! i]) is))
       (visit (zm_valid s) bitsone_iterator_init)"

section \<open>Lists sorted by index\<close>

record 'a suppressed_item =
  sup_index :: nat
  sup_item :: 'a

definition clear_set_index :: "('a \<Rightarrow> 'a) \<Rightarrow> nat \<Rightarrow> 'a suppressed_item \<Rightarrow> 'a suppressed_item" where
  "clear_set_index clean i item = \<lparr>sup_index = i, sup_item = clean (sup_item item)\<rparr>"

record 'a raw_list_zero_suppress =
  zl_num_items :: nat
  zl_items :: "'a suppressed_item list"

definition list_clean :: "'a raw_list_zero_suppress \<Rightarrow> 'a raw_list_zero_suppress" where
  "list_clean s = s\<lparr>zl_num_items := 0\<rparr>"

text \<open>The binary search: the place of the index, or the place where it belongs.\<close>

function index_search :: "'a suppressed_item list \<Rightarrow> nat \<Rightarrow> nat \<Rightarrow> nat \<Rightarrow> nat + nat" where
  "index_search items i first past =
     (if first < past then
        let check = (first + past) div 2 in
        if sup_index (items ! check) = i then Inl check
        else if sup_index (items ! check) > i then index_search items i first check
        else index_search items i (check + 1) past
      else Inr past)"
  by pat_completeness auto
termination by (relation "measure (\<lambda>(items, i, first, past). past - first)") auto

declare index_search.simps [simp del]

definition list_do_insert_index ::
  "nat \<Rightarrow> ('a \<Rightarrow> 'a) \<Rightarrow> nat \<Rightarrow> 'a raw_list_zero_suppress \<Rightarrow> (nat, 'a raw_list_zero_suppress) result" where
  "list_do_insert_index n clean i s =
     (let items = zl_items s; num = zl_num_items s in
      if num = 0 \<or> sup_index (items ! (num - 1)) < i then
        (if \<not> num < n then (Inl (Assert ''_num_items < n''), s)
         else (Inr num, s\<lparr>zl_num_items := num + 1, zl_items := items[num := clear_set_index clean i (items ! num)]\<rparr>))
      else if sup_index (items ! (num - 1)) = i then (Inr (num - 1), s)
      else
        case index_search items i 0 num of
          Inl check \<Rightarrow> (Inr check, s)
        | Inr past \<Rightarrow>
            if \<not> (past = num \<or> sup_index (items ! past) > i) then (Inl (Assert ''_items[last]._index > i''), s)
            else if \<not> (past = 0 \<or> sup_index (items ! (past - 1)) < i) then (Inl (Assert ''_items[last-1]._index < i''), s)
            else if num + 1 > length items then (Inl (Undef ''move past the end of the items''), s)
            else
              let items = take (past + 1) items @ slice past (num - past) items @ drop (num + 1) items
              in (Inr past, s\<lparr>zl_num_items := num + 1, zl_items := items[past := clear_set_index clean i (items ! past)]\<rparr>))"

definition list_insert_index ::
  "nat \<Rightarrow> ('a \<Rightarrow> 'a) \<Rightarrow> nat \<Rightarrow> 'a raw_list_zero_suppress \<Rightarrow> (nat, 'a raw_list_zero_suppress) result" where
  "list_insert_index n clean i s =
     (if i \<ge> n then (Inl (Err ''Attempt to index outside list''), s) else list_do_insert_index n clean i s)"

definition list_dump :: "'a raw_list_zero_suppress \<Rightarrow> (nat \<times> 'a) list" where
  "list_dump s = map (\<lambda>k. (sup_index (zl_items s ! k), sup_item (zl_items s ! k))) [0..<zl_num_items s]"

section \<open>Lists without an index\<close>

record 'a raw_list_ii_zero_suppress =
  zi_num_items :: nat
  zi_items :: "'a list"

definition list_ii_clean :: "'a raw_list_ii_zero_suppress \<Rightarrow> 'a raw_list_ii_zero_suppress" where
  "list_ii_clean s = s\<lparr>zi_num_items := 0\<rparr>"

definition list_ii_append_item ::
  "nat \<Rightarrow> ('a \<Rightarrow> 'a) \<Rightarrow> 'a raw_list_ii_zero_suppress \<Rightarrow> (nat, 'a raw_list_ii_zero_suppress) result" where
  "list_ii_append_item n clean s =
     (let num = zi_num_items s in
      if num \<ge> n then (Inl (Err ''Attempt to append too many items''), s)
      else (Inr num, s\<lparr>zi_num_items := num + 1, zi_items := (zi_items s)[num := clean (zi_items s ! num)]\<rparr>))"

definition list_ii_dump :: "'a raw_list_ii_zero_suppress \<Rightarrow> 'a list" where
  "list_ii_dump s = map (\<lambda>k. zi_items s ! k) [0..<zi_num_items s]"

section \<open>Containers as maps from index to item\<close>

text \<open>
  A hit is an index with what is done to its item. The items of an index that was not seen before are clean.
  The result of an insertion is where the item is, and through it the caller changes the item.
\<close>

definition touch :: "'a \<Rightarrow> nat \<times> ('a \<Rightarrow> 'a) \<Rightarrow> (nat \<rightharpoonup> 'a) \<Rightarrow> (nat \<rightharpoonup> 'a)" where
  "touch c = (\<lambda>(i, f) m. m(i \<mapsto> f (case m i of None \<Rightarrow> c | Some x \<Rightarrow> x)))"

definition unpack_hit ::
  "(nat \<Rightarrow> 's \<Rightarrow> ('r, 's) result) \<Rightarrow> ('r \<Rightarrow> ('a \<Rightarrow> 'a) \<Rightarrow> 's \<Rightarrow> 's) \<Rightarrow> nat \<times> ('a \<Rightarrow> 'a) \<Rightarrow> 's \<Rightarrow> (unit, 's) result" where
  "unpack_hit ins modify = (\<lambda>(i, f) s. andthen (ins i s) (\<lambda>r s. (Inr (), modify r f s)))"

definition entries_of :: "(nat \<rightharpoonup> 'a) \<Rightarrow> (nat \<times> 'a) list" where
  "entries_of m = map (\<lambda>i. (i, the (m i))) (sorted_list_of_set (dom m))"

lemma entries_unique:
  assumes "sorted_wrt (<) (map fst xs)"
  shows "xs = entries_of (map_of xs)"
proof -
  have d: "distinct (map fst xs)" "sorted (map fst xs)" using assms by (simp_all add: strict_sorted_iff)
  have "sorted_list_of_set (dom (map_of xs)) = map fst xs"
    using d sorted_list_of_set.idem_if_sorted_distinct [of "map fst xs"] by (simp add: dom_map_of_conv_image_fst)
  moreover have "map (\<lambda>i. (i, the (map_of xs i))) (map fst xs) = xs" using d(1) by (auto intro: map_idI)
  ultimately show ?thesis by (simp add: entries_of_def)
qed

locale suppressed =
  fixes n :: nat and c :: 'a and inv :: "'s \<Rightarrow> bool" and entries :: "'s \<Rightarrow> (nat \<times> 'a) list"
    and insert_index :: "nat \<Rightarrow> 's \<Rightarrow> ('r, 's) result" and modify :: "'r \<Rightarrow> ('a \<Rightarrow> 'a) \<Rightarrow> 's \<Rightarrow> 's"
  assumes ordered: "inv s \<Longrightarrow> sorted_wrt (<) (map fst (entries s))"
    and inside: "inv s \<Longrightarrow> i < n \<Longrightarrow> \<exists>r s'. insert_index i s = (Inr r, s') \<and>
      inv (modify r f s') \<and> map_of (entries (modify r f s')) = touch c (i, f) (map_of (entries s))"
begin

lemma hit:
  assumes "inv s" "fst h < n"
  shows "\<exists>s'. unpack_hit insert_index modify h s = (Inr (), s') \<and> inv s' \<and> map_of (entries s') = touch c h (map_of (entries s))"
  using inside [OF assms, of "snd h"] by (cases h) (auto simp: unpack_hit_def)

lemma hits:
  "inv s \<Longrightarrow> list_all (\<lambda>h. fst h < n) hs \<Longrightarrow>
   \<exists>s'. each (unpack_hit insert_index modify) hs s = (Inr (), s') \<and> inv s' \<and> map_of (entries s') = fold (touch c) hs (map_of (entries s))"
proof (induction hs arbitrary: s)
  case (Cons h hs)
  from hit [OF Cons.prems(1), of h] Cons.prems(2) obtain s1 where
    s1: "unpack_hit insert_index modify h s = (Inr (), s1)" "inv s1" "map_of (entries s1) = touch c h (map_of (entries s))" by auto
  from Cons.IH [OF s1(2)] Cons.prems(2) s1 show ?case by simp
qed simp

lemma listing:
  assumes "inv s" "entries s = []" "list_all (\<lambda>h. fst h < n) hs"
  shows "\<exists>s'. each (unpack_hit insert_index modify) hs s = (Inr (), s') \<and> inv s' \<and> entries s' = entries_of (fold (touch c) hs Map.empty)"
proof -
  from hits [OF assms(1,3)] assms(2) obtain s' where
    s': "each (unpack_hit insert_index modify) hs s = (Inr (), s')" "inv s'" "map_of (entries s') = fold (touch c) hs Map.empty" by auto
  moreover from entries_unique [OF ordered [OF s'(2)]] s'(3) have "entries s' = entries_of (fold (touch c) hs Map.empty)" by simp
  ultimately show ?thesis by blast
qed

end

section \<open>The array\<close>

definition array_ok :: "nat \<Rightarrow> 'a raw_array_zero_suppress \<Rightarrow> bool" where
  "array_ok n s \<longleftrightarrow> bits_ok n (za_valid s) \<and> length (za_items s) = n"

definition array_modify :: "nat \<Rightarrow> ('a \<Rightarrow> 'a) \<Rightarrow> 'a raw_array_zero_suppress \<Rightarrow> 'a raw_array_zero_suppress" where
  "array_modify i f s = s\<lparr>za_items := (za_items s)[i := f (za_items s ! i)]\<rparr>"

definition array_entries :: "'a raw_array_zero_suppress \<Rightarrow> (nat \<times> 'a) list" where
  "array_entries s = map (\<lambda>i. (i, za_items s ! i)) (sorted_list_of_set (bits_view (za_valid s)))"

lemma array_dump_entries: "array_ok n s \<Longrightarrow> array_dump s = Some (array_entries s)"
  by (simp add: array_dump_def array_ok_def visit_view array_entries_def)

lemma map_of_array_entries:
  "finite (bits_view (za_valid s)) \<Longrightarrow> map_of (array_entries s) i = (if i \<in> bits_view (za_valid s) then Some (za_items s ! i) else None)"
  by (auto simp: array_entries_def map_of_map_keys map_of_eq_None_iff image_iff intro!: map_of_is_SomeI) (auto simp: comp_def)

lemma array_insert_touch:
  assumes "array_ok n s" "i < n"
  shows "\<exists>s'. array_insert_index n (\<lambda>_. c) i s = (Inr i, s') \<and> array_ok n (array_modify i f s') \<and>
           map_of (array_entries (array_modify i f s')) = touch c (i, f) (map_of (array_entries s))"
proof -
  have o: "bits_ok n (za_valid s)" "length (za_items s) = n" using assms(1) by (simp_all add: array_ok_def)
  from get_set_view [OF o(1) assms(2)] obtain valid where
    v: "bitsone_get_set n i (za_valid s) = (Inr (i \<in> bits_view (za_valid s)), valid)" "bits_ok n valid" "bits_view valid = insert i (bits_view (za_valid s))" by auto
  let ?items = "if i \<in> bits_view (za_valid s) then za_items s else (za_items s)[i := c]"
  have "array_insert_index n (\<lambda>_. c) i s = (Inr i, s\<lparr>za_valid := valid, za_items := ?items\<rparr>)"
    using v(1) assms(2) by (simp add: array_insert_index_def array_on_insert_index_def split: bool.splits)
  moreover have "array_ok n (array_modify i f (s\<lparr>za_valid := valid, za_items := ?items\<rparr>))"
    using v(2) o by (simp add: array_ok_def array_modify_def)
  moreover have "map_of (array_entries (array_modify i f (s\<lparr>za_valid := valid, za_items := ?items\<rparr>))) = touch c (i, f) (map_of (array_entries s))"
    using v(2,3) o assms(2) by (auto simp: fun_eq_iff map_of_array_entries array_modify_def touch_def nth_list_update)
  ultimately show ?thesis by blast
qed

interpretation arr: suppressed n c "array_ok n" array_entries "array_insert_index n (\<lambda>_. c)" array_modify for n c
proof
  show "sorted_wrt (<) (map fst (array_entries s))" if "array_ok n s" for s :: "'a raw_array_zero_suppress"
    by (simp add: array_entries_def comp_def)
  show "\<exists>r s'. array_insert_index n (\<lambda>_. c) i s = (Inr r, s') \<and> array_ok n (array_modify r f s') \<and>
      map_of (array_entries (array_modify r f s')) = touch c (i, f) (map_of (array_entries s))"
    if "array_ok n s" "i < n" for s :: "'a raw_array_zero_suppress" and i f
    using array_insert_touch [OF that] by blast
qed

section \<open>The sorted list\<close>

definition index_at :: "'a suppressed_item list \<Rightarrow> nat \<Rightarrow> nat" where
  "index_at items k = sup_index (items ! k)"

definition list_ok :: "nat \<Rightarrow> 'a raw_list_zero_suppress \<Rightarrow> bool" where
  "list_ok n s \<longleftrightarrow> zl_num_items s \<le> n \<and> length (zl_items s) = n \<and>
     sorted_wrt (<) (map sup_index (take (zl_num_items s) (zl_items s))) \<and>
     list_all (\<lambda>x. sup_index x < n) (take (zl_num_items s) (zl_items s))"

definition list_modify :: "nat \<Rightarrow> ('a \<Rightarrow> 'a) \<Rightarrow> 'a raw_list_zero_suppress \<Rightarrow> 'a raw_list_zero_suppress" where
  "list_modify k f s = s\<lparr>zl_items := (zl_items s)[k := (zl_items s ! k)\<lparr>sup_item := f (sup_item (zl_items s ! k))\<rparr>]\<rparr>"

definition pairs :: "'a suppressed_item list \<Rightarrow> (nat \<times> 'a) list" where
  "pairs = map (\<lambda>x. (sup_index x, sup_item x))"

lemma map_fst_pairs [simp]: "map fst (pairs xs) = map sup_index xs" "fst ` set (pairs xs) = sup_index ` set xs"
  by (simp_all add: pairs_def comp_def image_image)

lemma list_dump_pairs: "zl_num_items s \<le> length (zl_items s) \<Longrightarrow> list_dump s = pairs (take (zl_num_items s) (zl_items s))"
  by (auto simp: list_dump_def pairs_def intro!: nth_equalityI)

lemma search_found: "index_search items i first past = Inl k \<Longrightarrow> first \<le> k \<and> k < past \<and> sup_index (items ! k) = i"
proof (induction items i first past rule: index_search.induct)
  case (1 items i first past)
  let ?check = "(first + past) div 2"
  have b: "first < past \<Longrightarrow> first \<le> ?check \<and> ?check < past" by auto
  from 1 show ?case
    by (cases "first < past") (use b in \<open>fastforce simp: index_search.simps [of items i first past] Let_def split: if_splits\<close>)+
qed

lemma sorted_indices:
  "sorted_wrt (<) (map sup_index (take num items)) \<Longrightarrow> num \<le> length items \<Longrightarrow> a < b \<Longrightarrow> b < num \<Longrightarrow> sup_index (items ! a) < sup_index (items ! b)"
  using sorted_wrt_nth_less [of "(<)" "map sup_index (take num items)" a b] by simp

lemma search_place:
  assumes "\<And>a b. a < b \<Longrightarrow> b < num \<Longrightarrow> sup_index (items ! a) < sup_index (items ! b)"
  shows "index_search items i first past = Inr p \<Longrightarrow> first \<le> past \<Longrightarrow> past \<le> num \<Longrightarrow>
    (\<And>k. k < first \<Longrightarrow> sup_index (items ! k) < i) \<Longrightarrow> (\<And>k. past \<le> k \<Longrightarrow> k < num \<Longrightarrow> i < sup_index (items ! k)) \<Longrightarrow>
    p \<le> num \<and> (\<forall>k < p. sup_index (items ! k) < i) \<and> (\<forall>k. p \<le> k \<longrightarrow> k < num \<longrightarrow> i < sup_index (items ! k))"
  using assms
proof (induction items i first past rule: index_search.induct)
  case (1 items i first past)
  let ?check = "(first + past) div 2"
  have eq: "index_search items i first past = (if first < past then
        if sup_index (items ! ?check) = i then Inl ?check
        else if sup_index (items ! ?check) > i then index_search items i first ?check
        else index_search items i (?check + 1) past
      else Inr past)" by (subst index_search.simps) (simp add: Let_def)
  show ?case
  proof (cases "first < past")
    case True
    then have b: "first \<le> ?check" "?check < past" "?check < num" using "1.prems"(3) by auto
    have up: "i < sup_index (items ! k)" if "i < sup_index (items ! ?check)" "?check \<le> k" "k < num" for k
      using that "1.prems"(6) [of ?check k] by (cases "k = ?check") auto
    have down: "sup_index (items ! k) < i" if "sup_index (items ! ?check) < i" "k < ?check + 1" for k
      using that "1.prems"(6) [of k ?check] b by (cases "k = ?check") auto
    show ?thesis
    proof (cases "i < sup_index (items ! ?check)")
      case lt: True
      have "index_search items i first ?check = Inr p" using "1.prems"(1) eq True lt by simp
      from "1.IH"(1) [OF True refl _ lt this] lt b up "1.prems"(4,6) show ?thesis by simp
    next
      case ge: False
      then have gt: "sup_index (items ! ?check) < i" using "1.prems"(1) eq True by (cases "sup_index (items ! ?check) = i") auto
      have "index_search items i (?check + 1) past = Inr p" using "1.prems"(1) eq True ge gt by simp
      from "1.IH"(2) [OF True refl _ ge this] gt b down "1.prems"(3,5,6) show ?thesis by simp
    qed
  next
    case False
    then show ?thesis using "1.prems" eq by auto
  qed
qed

lemma map_of_insert: "i \<notin> fst ` set (a @ b) \<Longrightarrow> map_of (a @ (i, v) # b) = (map_of (a @ b))(i \<mapsto> v)"
  by (induction a) (auto simp: fun_upd_twist)

lemma map_of_replace:
  "distinct (map fst xs) \<Longrightarrow> k < length xs \<Longrightarrow> map_of (xs[k := (fst (xs ! k), v)]) = (map_of xs)(fst (xs ! k) \<mapsto> v)"
proof (induction xs arbitrary: k)
  case (Cons x xs)
  then show ?case by (cases k) (auto simp: fun_upd_twist image_iff nth_mem)
qed simp

lemma pairs_nth [simp]: "k < length xs \<Longrightarrow> pairs xs ! k = (sup_index (xs ! k), sup_item (xs ! k))" "length (pairs xs) = length xs"
  "pairs (xs @ ys) = pairs xs @ pairs ys" "pairs [x] = [(sup_index x, sup_item x)]" "pairs (x # xs) = (sup_index x, sup_item x) # pairs xs"
  by (simp_all add: pairs_def)

text \<open>An item that is there, and a new item at its place.\<close>

lemma modify_there:
  assumes "list_ok n s" "k < zl_num_items s" "sup_index (zl_items s ! k) = i"
  shows "list_ok n (list_modify k f s) \<and> map_of (list_dump (list_modify k f s)) = touch c (i, f) (map_of (list_dump s))"
proof -
  let ?num = "zl_num_items s" and ?items = "zl_items s"
  let ?xs = "take ?num ?items"
  let ?x = "(?items ! k)\<lparr>sup_item := f (sup_item (?items ! k))\<rparr>"
  have o: "?num \<le> n" "length ?items = n" "sorted_wrt (<) (map sup_index ?xs)" "list_all (\<lambda>x. sup_index x < n) ?xs"
    using assms(1) by (simp_all add: list_ok_def)
  have t: "take ?num (?items[k := ?x]) = ?xs[k := ?x]" by (simp add: take_update_swap)
  have m: "map sup_index (?xs[k := ?x]) = map sup_index ?xs" using assms(2) o by (auto intro!: nth_equalityI simp: nth_list_update)
  have p: "pairs (?xs[k := ?x]) = (pairs ?xs)[k := (fst (pairs ?xs ! k), f (snd (pairs ?xs ! k)))]"
    using assms(2) o by (simp add: pairs_def map_update)
  have d: "distinct (map fst (pairs ?xs))" using o(3) by (simp add: strict_sorted_iff)
  have l: "map_of (pairs ?xs) i = Some (snd (pairs ?xs ! k))"
    using d assms(2,3) o by (intro map_of_is_SomeI) (auto simp: in_set_conv_nth intro!: exI [of _ k])
  have "list_ok n (list_modify k f s)"
    using o m unfolding list_ok_def list_modify_def by (simp add: t list_all_length assms(2) nth_list_update)
  moreover have "map_of (list_dump (list_modify k f s)) = touch c (i, f) (map_of (list_dump s))"
    using map_of_replace [OF d, of k "f (snd (pairs ?xs ! k))"] assms(2,3) o l t p
    by (simp add: list_dump_pairs list_modify_def touch_def)
  ultimately show ?thesis by simp
qed

lemma room_for_new:
  assumes "list_ok n s" "i < n" "i \<notin> sup_index ` set (take (zl_num_items s) (zl_items s))"
  shows "zl_num_items s < n"
proof -
  let ?is = "map sup_index (take (zl_num_items s) (zl_items s))"
  have o: "zl_num_items s \<le> n" "length (zl_items s) = n" "sorted_wrt (<) ?is" "set ?is \<subseteq> {..<n}"
    using assms(1) by (auto simp: list_ok_def list_all_iff)
  have "set ?is \<subset> {..<n}" using o(4) assms(2,3) by auto
  then have "card (set ?is) < n" using psubset_card_mono [of "{..<n}" "set ?is"] by simp
  moreover have "card (set ?is) = zl_num_items s" using o(1-3) distinct_card [of ?is] by (simp only: strict_sorted_iff) simp
  ultimately show ?thesis by simp
qed

lemma insert_new:
  assumes "list_ok n s" "i < n" "p \<le> zl_num_items s" "\<forall>k < p. sup_index (zl_items s ! k) < i"
    and "\<forall>k. p \<le> k \<longrightarrow> k < zl_num_items s \<longrightarrow> i < sup_index (zl_items s ! k)"
    and "length items = n" "take (zl_num_items s + 1) items = take p (zl_items s) @ \<lparr>sup_index = i, sup_item = c\<rparr> # slice p (zl_num_items s - p) (zl_items s)"
  shows "zl_num_items s < n \<Longrightarrow> list_ok n (s\<lparr>zl_num_items := zl_num_items s + 1, zl_items := items\<rparr>)"
    and "zl_num_items s < n \<Longrightarrow> map_of (list_dump (s\<lparr>zl_num_items := zl_num_items s + 1, zl_items := items\<rparr>)) = (map_of (list_dump s))(i \<mapsto> c)"
    and "map_of (list_dump s) i = None" "zl_num_items s < n"
proof -
  let ?num = "zl_num_items s" and ?items = "zl_items s"
  let ?a = "take p ?items" and ?b = "slice p (?num - p) ?items"
  have o: "?num \<le> n" "length ?items = n" "sorted_wrt (<) (map sup_index (take ?num ?items))" "list_all (\<lambda>x. sup_index x < n) (take ?num ?items)"
    using assms(1) by (simp_all add: list_ok_def)
  have x: "take ?num ?items = ?a @ ?b" using assms(3) by (simp add: slice_def take_add [symmetric])
  have a: "\<forall>y \<in> set ?a. sup_index y < i" using assms(3,4) o by (auto simp: in_set_conv_nth)
  have b: "\<forall>y \<in> set ?b. i < sup_index y" using assms(3,5) o by (auto simp: in_set_conv_nth slice_def)
  have n: "i \<notin> sup_index ` set (take ?num ?items)" using a b unfolding x by fastforce
  show r: "?num < n" by (rule room_for_new [OF assms(1,2) n])
  show ok: "list_ok n (s\<lparr>zl_num_items := ?num + 1, zl_items := items\<rparr>)"
    using o(3,4) assms(2,6) a b r unfolding list_ok_def x by (simp add: assms(7) [simplified] sorted_wrt_append)
  have "list_dump s = pairs (?a @ ?b)" using o list_dump_pairs [of s] x by simp
  moreover have "list_dump (s\<lparr>zl_num_items := ?num + 1, zl_items := items\<rparr>) = pairs ?a @ (i, c) # pairs ?b"
    using list_dump_pairs [of "s\<lparr>zl_num_items := ?num + 1, zl_items := items\<rparr>"] r assms(6,7) by simp
  ultimately show "map_of (list_dump (s\<lparr>zl_num_items := ?num + 1, zl_items := items\<rparr>)) = (map_of (list_dump s))(i \<mapsto> c)"
    using map_of_insert [of i "pairs ?a" "pairs ?b" c] n unfolding x by (simp add: image_Un)
  show "map_of (list_dump s) i = None" using \<open>list_dump s = pairs (?a @ ?b)\<close> n unfolding x by (simp add: map_of_eq_None_iff image_Un)
qed

lemma modify_new:
  assumes "list_ok n s" "i < n" "p \<le> zl_num_items s" "\<forall>k < p. sup_index (zl_items s ! k) < i"
    and "\<forall>k. p \<le> k \<longrightarrow> k < zl_num_items s \<longrightarrow> i < sup_index (zl_items s ! k)"
    and "length items = n" "take (zl_num_items s + 1) items = take p (zl_items s) @ \<lparr>sup_index = i, sup_item = c\<rparr> # slice p (zl_num_items s - p) (zl_items s)"
  shows "list_ok n (list_modify p f (s\<lparr>zl_num_items := zl_num_items s + 1, zl_items := items\<rparr>)) \<and>
    map_of (list_dump (list_modify p f (s\<lparr>zl_num_items := zl_num_items s + 1, zl_items := items\<rparr>))) = touch c (i, f) (map_of (list_dump s))"
proof -
  note new = insert_new [OF assms]
  let ?s = "s\<lparr>zl_num_items := zl_num_items s + 1, zl_items := items\<rparr>"
  have l: "length (take p (zl_items s)) = p" using assms(1,3) by (simp add: list_ok_def)
  have "items ! p = take (zl_num_items s + 1) items ! p" using assms(3) by simp
  also have "\<dots> = \<lparr>sup_index = i, sup_item = c\<rparr>" using l unfolding assms(7) by (simp add: nth_append)
  finally have "sup_index (items ! p) = i" by simp
  with modify_there [OF new(1) [OF new(4)], of p i f c] assms(3) show ?thesis
    unfolding new(2) [OF new(4)] using new(3) by (simp add: touch_def)
qed

lemma list_insert_touch:
  assumes "list_ok n s" "i < n"
  shows "\<exists>k s'. list_insert_index n (\<lambda>_. c) i s = (Inr k, s') \<and> list_ok n (list_modify k f s') \<and>
           map_of (list_dump (list_modify k f s')) = touch c (i, f) (map_of (list_dump s))"
proof -
  let ?num = "zl_num_items s" and ?items = "zl_items s" and ?new = "\<lparr>sup_index = i, sup_item = c\<rparr>"
  have o: "?num \<le> n" "length ?items = n" "sorted_wrt (<) (map sup_index (take ?num ?items))" using assms(1) by (simp_all add: list_ok_def)
  have lt: "sup_index (?items ! a) < sup_index (?items ! b)" if "a < b" "b < ?num" for a b using sorted_indices [OF o(3) _ that] o by simp
  have ins: "list_insert_index n (\<lambda>_. c) i s = list_do_insert_index n (\<lambda>_. c) i s" using assms(2) by (simp add: list_insert_index_def)
  consider (at_end) "?num = 0 \<or> sup_index (?items ! (?num - 1)) < i"
    | (is_last) "?num \<noteq> 0" "sup_index (?items ! (?num - 1)) = i"
    | (found) k where "?num \<noteq> 0" "i < sup_index (?items ! (?num - 1))" "index_search ?items i 0 ?num = Inl k"
    | (place) p where "?num \<noteq> 0" "i < sup_index (?items ! (?num - 1))" "index_search ?items i 0 ?num = Inr p"
    using linorder_less_linear [of i "sup_index (?items ! (?num - 1))"] by (cases "index_search ?items i 0 ?num") blast+
  then show ?thesis
  proof cases
    case at_end
    have below: "\<forall>k < ?num. sup_index (?items ! k) < i"
    proof (intro allI impI)
      fix k
      assume k: "k < ?num"
      then have "k = ?num - 1 \<or> k < ?num - 1" by linarith
      then show "sup_index (?items ! k) < i" using at_end k lt [of k "?num - 1"] by auto
    qed
    have "i \<notin> sup_index ` set (take ?num ?items)" using below o by (fastforce simp: in_set_conv_nth)
    from room_for_new [OF assms this] have r: "?num < n" .
    let ?items' = "?items[?num := ?new]"
    have t: "take (?num + 1) ?items' = take ?num ?items @ ?new # slice ?num (?num - ?num) ?items"
      using r o by (simp add: take_Suc_conv_app_nth slice_def)
    have "list_do_insert_index n (\<lambda>_. c) i s = (Inr ?num, s\<lparr>zl_num_items := ?num + 1, zl_items := ?items'\<rparr>)"
      using at_end r by (auto simp: list_do_insert_index_def Let_def clear_set_index_def)
    moreover from modify_new [OF assms order_refl below _ _ t] o r have
      "list_ok n (list_modify ?num f (s\<lparr>zl_num_items := ?num + 1, zl_items := ?items'\<rparr>)) \<and>
       map_of (list_dump (list_modify ?num f (s\<lparr>zl_num_items := ?num + 1, zl_items := ?items'\<rparr>))) = touch c (i, f) (map_of (list_dump s))" by simp
    ultimately show ?thesis using ins by auto
  next
    case is_last
    then have "list_do_insert_index n (\<lambda>_. c) i s = (Inr (?num - 1), s)" by (simp add: list_do_insert_index_def Let_def)
    with modify_there [OF assms(1), of "?num - 1" i f c] is_last ins show ?thesis by auto
  next
    case found
    then have "list_do_insert_index n (\<lambda>_. c) i s = (Inr k, s)" by (auto simp: list_do_insert_index_def Let_def)
    with modify_there [OF assms(1), of k i f c] search_found [OF found(3)] ins show ?thesis by auto
  next
    case place
    from search_place [OF lt place(3)] have p: "p \<le> ?num" "\<forall>k < p. sup_index (?items ! k) < i"
      "\<forall>k. p \<le> k \<longrightarrow> k < ?num \<longrightarrow> i < sup_index (?items ! k)" by auto
    have "i \<notin> sup_index ` set (take ?num ?items)" using p(2,3) o by (auto simp: in_set_conv_nth) (metis less_irrefl not_less)
    from room_for_new [OF assms this] have r: "?num < n" .
    let ?moved = "take (p + 1) ?items @ slice p (?num - p) ?items @ drop (?num + 1) ?items"
    let ?items' = "?moved[p := ?new]"
    have lp: "length (take p ?items) = p" using p(1) o by simp
    have m: "take (p + 1) ?items = take p ?items @ [?items ! p]" using p(1) r o by (simp add: take_Suc_conv_app_nth)
    have e: "?items' = take p ?items @ ?new # slice p (?num - p) ?items @ drop (?num + 1) ?items"
      unfolding m using list_update_length [of "take p ?items" "?items ! p" "slice p (?num - p) ?items @ drop (?num + 1) ?items" ?new]
      by (simp only: lp append_assoc append_Cons append_Nil)
    have ls: "length (slice p (?num - p) ?items) = ?num - p" using o p(1) by (simp add: slice_def)
    have t: "take (?num + 1) ?items' = take p ?items @ ?new # slice p (?num - p) ?items"
      unfolding e using lp ls p(1) by (simp add: Suc_diff_le)
    have l: "length ?items' = n" unfolding e using lp ls p(1) o r by simp
    have pos: "p < ?num" using place(1,2) p(2) p(1) by (metis diff_less le_neq_implies_less less_asym' neq0_conv zero_less_one)
    have "list_do_insert_index n (\<lambda>_. c) i s = (Inr p, s\<lparr>zl_num_items := ?num + 1, zl_items := ?items'\<rparr>)"
    proof -
      have "\<not> (?num = 0 \<or> sup_index (?items ! (?num - 1)) < i)" "sup_index (?items ! (?num - 1)) \<noteq> i" using place(1,2) by simp_all
      moreover have "sup_index (?items ! p) > i" "p = 0 \<or> sup_index (?items ! (p - 1)) < i" using p pos by (simp, cases p) auto
      ultimately show ?thesis using place(3) r o
        unfolding list_do_insert_index_def Let_def clear_set_index_def by (simp only: if_False if_True sum.case simp_thms) simp
    qed
    with modify_new [OF assms p l t, of f] ins show ?thesis by auto
  qed
qed

interpretation lst: suppressed n c "list_ok n" list_dump "list_insert_index n (\<lambda>_. c)" list_modify for n c
proof
  show "sorted_wrt (<) (map fst (list_dump s))" if "list_ok n s" for s :: "'a raw_list_zero_suppress"
    using that by (simp add: list_ok_def list_dump_pairs)
  show "\<exists>r s'. list_insert_index n (\<lambda>_. c) i s = (Inr r, s') \<and> list_ok n (list_modify r f s') \<and>
      map_of (list_dump (list_modify r f s')) = touch c (i, f) (map_of (list_dump s))"
    if "list_ok n s" "i < n" for s :: "'a raw_list_zero_suppress" and i f
    by (rule list_insert_touch [OF that])
qed

section \<open>Arrays and lists agree\<close>

text \<open>C22. The two containers for data that are mostly empty, the array with marks and the sorted list, are
  equivalent: after any sequence of hits, in whatever order of the indices, both hold the same entries, and these are the ones
  of a map from index to item, in ascending order. No assertion fails and nothing is written outside of the items. The content
  from earlier events is not seen.\<close>

theorem suppressed_agree:
  assumes "\<forall>x. clean x = c" "length (za_items a) = n" "length (zl_items l) = n" "list_all (\<lambda>h. fst h < n) hs"
  shows "\<exists>a' l'. each (unpack_hit (array_insert_index n clean) array_modify) hs (array_clean n a) = (Inr (), a') \<and>
    each (unpack_hit (list_insert_index n clean) list_modify) hs (list_clean l) = (Inr (), l') \<and>
    array_dump a' = Some (list_dump l') \<and> list_dump l' = entries_of (fold (touch c) hs Map.empty)"
proof -
  have cl: "clean = (\<lambda>_. c)" using assms(1) by auto
  have a: "array_ok n (array_clean n a)" "array_entries (array_clean n a) = []"
    using assms(2) bits_clear by (simp_all add: array_ok_def array_clean_def array_entries_def)
  have l: "list_ok n (list_clean l)" "list_dump (list_clean l) = []"
    using assms(3) by (simp_all add: list_ok_def list_clean_def list_dump_def)
  from arr.listing [OF a assms(4), of c] lst.listing [OF l assms(4), of c] show ?thesis
    unfolding cl using array_dump_entries by fastforce
qed

section \<open>Several entries for an index\<close>

definition multi_ok :: "nat \<Rightarrow> nat \<Rightarrow> 'a raw_array_multi_zero_suppress \<Rightarrow> bool" where
  "multi_ok n m s \<longleftrightarrow> bits_ok n (zm_valid s) \<and> length (zm_num_entries s) = n \<and> length (zm_items s) = n \<and>
     list_all (\<lambda>row. length row = m) (zm_items s) \<and> (\<forall>i \<in> bits_view (zm_valid s). zm_num_entries s ! i \<le> m)"

definition multi_view :: "'a raw_array_multi_zero_suppress \<Rightarrow> nat \<Rightarrow> 'a list" where
  "multi_view s i = (if i \<in> bits_view (zm_valid s) then take (zm_num_entries s ! i) (zm_items s ! i) else [])"

definition multi_modify :: "nat \<times> nat \<Rightarrow> ('a \<Rightarrow> 'a) \<Rightarrow> 'a raw_array_multi_zero_suppress \<Rightarrow> 'a raw_array_multi_zero_suppress" where
  "multi_modify = (\<lambda>(i, j) f s. s\<lparr>zm_items := (zm_items s)[i := (zm_items s ! i)[j := f (zm_items s ! i ! j)]]\<rparr>)"

definition hit_items :: "'a \<Rightarrow> nat \<Rightarrow> (nat \<times> ('a \<Rightarrow> 'a)) list \<Rightarrow> 'a list" where
  "hit_items c i hs = map (\<lambda>h. snd h c) (filter (\<lambda>h. fst h = i) hs)"

lemma multi_hit:
  assumes "multi_ok n m s" "i < n"
  shows "\<exists>r s'. unpack_hit (multi_insert_index n m (\<lambda>_. c)) multi_modify (i, f) s = (r, s') \<and>
    (if length (multi_view s i) < m then r = Inr () \<and> multi_ok n m s' \<and> multi_view s' = (multi_view s)(i := multi_view s i @ [f c])
     else r = Inl (Err ''Attempt to insert too many items in multi-entry list''))"
proof -
  have o: "bits_ok n (zm_valid s)" "length (zm_num_entries s) = n" "length (zm_items s) = n" "length (zm_items s ! k) = m" if "k < n" for k
    using assms(1) that by (auto simp: multi_ok_def list_all_length)
  have e: "\<forall>i \<in> bits_view (zm_valid s). zm_num_entries s ! i \<le> m" using assms(1) by (simp add: multi_ok_def)
  from get_set_view [OF o(1) [OF assms(2)] assms(2)] obtain valid where
    v: "bitsone_get_set n i (zm_valid s) = (Inr (i \<in> bits_view (zm_valid s)), valid)" "bits_ok n valid" "bits_view valid = insert i (bits_view (zm_valid s))" by auto
  define entries where "entries = (if i \<in> bits_view (zm_valid s) then zm_num_entries s else (zm_num_entries s)[i := 0])"
  let ?num = "entries ! i"
  have num: "?num = length (multi_view s i)" using o [OF assms(2)] e assms(2) by (auto simp: multi_view_def entries_def)
  have others: "length entries = n" "\<And>k. k \<noteq> i \<Longrightarrow> entries ! k = zm_num_entries s ! k" using o(2) [OF assms(2)] by (simp_all add: entries_def)
  have ins: "multi_insert_index n m (\<lambda>_. c) i s =
     (if ?num \<ge> m then (Inl (Err ''Attempt to insert too many items in multi-entry list''), s\<lparr>zm_valid := valid, zm_num_entries := entries\<rparr>)
      else (Inr (i, ?num), s\<lparr>zm_valid := valid, zm_num_entries := entries[i := ?num + 1],
         zm_items := (zm_items s)[i := (zm_items s ! i)[?num := c]]\<rparr>))"
    using v(1) assms(2) by (simp add: multi_insert_index_def multi_on_insert_index_def Let_def entries_def)
  show ?thesis
  proof (cases "?num < m")
    case True
    let ?row = "(zm_items s ! i)[?num := f c]"
    let ?s = "s\<lparr>zm_valid := valid, zm_num_entries := entries[i := ?num + 1], zm_items := (zm_items s)[i := ?row]\<rparr>"
    have u: "unpack_hit (multi_insert_index n m (\<lambda>_. c)) multi_modify (i, f) s = (Inr (), ?s)"
      using True o [OF assms(2)] assms(2) unfolding unpack_hit_def by (simp add: ins multi_modify_def)
    have ok: "multi_ok n m ?s"
      using v(2,3) o [OF assms(2)] o(4) e True assms(1,2) others by (auto simp: multi_ok_def list_all_length nth_list_update)
    have "take (?num + 1) ?row = take ?num (zm_items s ! i) @ [f c]" using True o(4) [OF assms(2)] by (simp add: take_Suc_conv_app_nth)
    moreover have "multi_view s i = take ?num (zm_items s ! i)" using assms(2) o(2) [OF assms(2)] by (simp add: multi_view_def entries_def)
    ultimately have "multi_view ?s i = multi_view s i @ [f c]" using v(3) assms(2) o [OF assms(2)] others by (simp add: multi_view_def)
    moreover have "multi_view ?s k = multi_view s k" if "k \<noteq> i" for k using v(3) that others by (simp add: multi_view_def)
    ultimately have "multi_view ?s = (multi_view s)(i := multi_view s i @ [f c])" by (auto simp: fun_eq_iff)
    then show ?thesis using u ok True num by auto
  next
    case False
    then show ?thesis using num unfolding unpack_hit_def by (simp add: ins)
  qed
qed

lemma multi_hits:
  "multi_ok n m s \<Longrightarrow> list_all (\<lambda>h. fst h < n) hs \<Longrightarrow>
   \<exists>r s'. each (unpack_hit (multi_insert_index n m (\<lambda>_. c)) multi_modify) hs s = (r, s') \<and>
     (if \<forall>i < n. length (multi_view s i @ hit_items c i hs) \<le> m
      then r = Inr () \<and> multi_ok n m s' \<and> (\<forall>i. multi_view s' i = multi_view s i @ hit_items c i hs)
      else r = Inl (Err ''Attempt to insert too many items in multi-entry list''))"
proof (induction hs arbitrary: s)
  case Nil
  then have "\<forall>i < n. length (multi_view s i) \<le> m" by (auto simp: multi_view_def multi_ok_def)
  then show ?case using Nil by (simp add: hit_items_def)
next
  case (Cons h hs)
  obtain i f where h: "h = (i, f)" by (cases h)
  have i: "i < n" using Cons.prems(2) h by simp
  from multi_hit [OF Cons.prems(1) i, of c f] obtain r s1 where
    u: "unpack_hit (multi_insert_index n m (\<lambda>_. c)) multi_modify h s = (r, s1)"
    and r: "if length (multi_view s i) < m then r = Inr () \<and> multi_ok n m s1 \<and> multi_view s1 = (multi_view s)(i := multi_view s i @ [f c])
       else r = Inl (Err ''Attempt to insert too many items in multi-entry list'')" unfolding h by blast
  show ?case
  proof (cases "length (multi_view s i) < m")
    case True
    then have r': "r = Inr ()" "multi_ok n m s1" "multi_view s1 = (multi_view s)(i := multi_view s i @ [f c])" using r by auto
    have "multi_view s1 k @ hit_items c k hs = multi_view s k @ hit_items c k (h # hs)" for k by (simp add: r'(3) hit_items_def h)
    then show ?thesis using Cons.IH [OF r'(2)] Cons.prems(2) u r'(1) by (simp only: each.simps andthen_simps) simp
  next
    case False
    then have "\<not> length (multi_view s i @ hit_items c i (h # hs)) \<le> m" by (simp add: hit_items_def h)
    then have "\<not> (\<forall>i < n. length (multi_view s i @ hit_items c i (h # hs)) \<le> m)" using i by blast
    then show ?thesis using False r u by (simp only: each.simps if_False) simp
  qed
qed

lemma multi_dump_view:
  assumes "multi_ok n m s"
  shows "multi_dump s = Some (concat (map (\<lambda>i. map (Pair i) (multi_view s i)) [0..<n]))"
proof -
  let ?v = "bits_view (zm_valid s)"
  have v: "finite ?v" "?v \<subseteq> {..<n}" using assms bits_ok_view by (auto simp: multi_ok_def)
  have l: "sorted_list_of_set ?v = filter (\<lambda>i. i \<in> ?v) [0..<n]"
  proof -
    have "set (filter (\<lambda>i. i \<in> ?v) [0..<n]) = ?v" using v(2) by auto
    then show ?thesis using sorted_list_of_set.idem_if_sorted_distinct [of "filter (\<lambda>i. i \<in> ?v) [0..<n]"] by (simp add: sorted_wrt_filter)
  qed
  have "map (\<lambda>j. (i, zm_items s ! i ! j)) [0..<zm_num_entries s ! i] = map (Pair i) (multi_view s i)" if "i \<in> ?v" for i
  proof -
    have "i < n" using v(2) that by auto
    then have "zm_num_entries s ! i \<le> length (zm_items s ! i)" using assms that by (auto simp: multi_ok_def list_all_length)
    then have "map (\<lambda>j. zm_items s ! i ! j) [0..<zm_num_entries s ! i] = multi_view s i"
      using that by (auto simp: multi_view_def intro!: nth_equalityI)
    then show ?thesis using map_map [of "Pair i" "\<lambda>j. zm_items s ! i ! j" "[0..<zm_num_entries s ! i]"] by (simp add: comp_def)
  qed
  then have "concat (map (\<lambda>i. map (\<lambda>j. (i, zm_items s ! i ! j)) [0..<zm_num_entries s ! i]) (filter (\<lambda>i. i \<in> ?v) [0..<n])) =
      concat (map (\<lambda>i. map (Pair i) (multi_view s i)) (filter (\<lambda>i. i \<in> ?v) [0..<n]))" by (intro arg_cong [of _ _ concat] map_cong) auto
  also have "\<dots> = concat (map (\<lambda>i. map (Pair i) (multi_view s i)) [0..<n])"
    by (induction n) (auto simp: multi_view_def)
  finally show ?thesis by (simp add: multi_dump_def visit_view l)
qed

text \<open>C23. The array with several entries for an index holds, for each index, the items of its hits in the order of the
  hits, as long as no index has more hits than the limit; otherwise the event is refused with an error.\<close>

theorem multi_entries:
  assumes "\<forall>x. clean x = c" "length (zm_num_entries s) = n" "length (zm_items s) = n" "list_all (\<lambda>row. length row = m) (zm_items s)"
    and "list_all (\<lambda>h. fst h < n) hs"
  shows "\<exists>r s'. each (unpack_hit (multi_insert_index n m clean) multi_modify) hs (multi_clean n s) = (r, s') \<and>
    (if \<forall>i < n. length (hit_items c i hs) \<le> m
     then r = Inr () \<and> multi_dump s' = Some (concat (map (\<lambda>i. map (Pair i) (hit_items c i hs)) [0..<n]))
     else r = Inl (Err ''Attempt to insert too many items in multi-entry list''))"
proof -
  have cl: "clean = (\<lambda>_. c)" using assms(1) by auto
  have ok: "multi_ok n m (multi_clean n s)" "\<And>i. multi_view (multi_clean n s) i = []"
    using assms bits_clear by (simp_all add: multi_ok_def multi_clean_def multi_view_def)
  from multi_hits [OF ok(1) assms(5), of c] obtain r s' where
    e: "each (unpack_hit (multi_insert_index n m (\<lambda>_. c)) multi_modify) hs (multi_clean n s) = (r, s')"
    and r: "if \<forall>i < n. length (hit_items c i hs) \<le> m then r = Inr () \<and> multi_ok n m s' \<and> (\<forall>i. multi_view s' i = hit_items c i hs)
       else r = Inl (Err ''Attempt to insert too many items in multi-entry list'')" unfolding ok(2) append_Nil by blast
  then show ?thesis unfolding cl using multi_dump_view [of n m s'] by (cases "\<forall>i < n. length (hit_items c i hs) \<le> m") auto
qed

section \<open>Lists without an index\<close>

definition list_ii_modify :: "nat \<Rightarrow> ('a \<Rightarrow> 'a) \<Rightarrow> 'a raw_list_ii_zero_suppress \<Rightarrow> 'a raw_list_ii_zero_suppress" where
  "list_ii_modify k f s = s\<lparr>zi_items := (zi_items s)[k := f (zi_items s ! k)]\<rparr>"

definition unpack_item :: "nat \<Rightarrow> ('a \<Rightarrow> 'a) \<Rightarrow> ('a \<Rightarrow> 'a) \<Rightarrow> 'a raw_list_ii_zero_suppress \<Rightarrow> (unit, 'a raw_list_ii_zero_suppress) result" where
  "unpack_item n clean f s = andthen (list_ii_append_item n clean s) (\<lambda>k s. (Inr (), list_ii_modify k f s))"

lemma list_ii_dump_take: "zi_num_items s \<le> length (zi_items s) \<Longrightarrow> list_ii_dump s = take (zi_num_items s) (zi_items s)"
  by (auto simp: list_ii_dump_def intro!: nth_equalityI)

lemma append_items:
  assumes "\<forall>x. clean x = c" "length (zi_items s) = n" "zi_num_items s \<le> n"
  shows "\<exists>r s'. each (unpack_item n clean) fs s = (r, s') \<and>
    (if length (list_ii_dump s) + length fs \<le> n then r = Inr () \<and> list_ii_dump s' = list_ii_dump s @ map (\<lambda>f. f c) fs
     else r = Inl (Err ''Attempt to append too many items''))"
  using assms(2,3)
proof (induction fs arbitrary: s)
  case Nil
  then show ?case by (simp add: list_ii_dump_take)
next
  case (Cons f fs)
  let ?num = "zi_num_items s"
  have d: "list_ii_dump s = take ?num (zi_items s)" "length (list_ii_dump s) = ?num" using Cons.prems by (simp_all add: list_ii_dump_take)
  show ?case
  proof (cases "?num < n")
    case True
    let ?s = "s\<lparr>zi_num_items := ?num + 1, zi_items := (zi_items s)[?num := f c]\<rparr>"
    have u: "unpack_item n clean f s = (Inr (), ?s)"
      using True Cons.prems assms(1) by (simp add: unpack_item_def list_ii_append_item_def list_ii_modify_def Let_def)
    have e: "list_ii_dump ?s = list_ii_dump s @ [f c]" using True Cons.prems d by (simp add: list_ii_dump_take take_Suc_conv_app_nth)
    have s: "length (zi_items ?s) = n" "zi_num_items ?s \<le> n" using Cons.prems True by simp_all
    have "each (unpack_item n clean) (f # fs) s = each (unpack_item n clean) fs ?s" using u by simp
    with Cons.IH [OF s] show ?thesis unfolding e by (cases "length (list_ii_dump s) + length (f # fs) \<le> n") auto
  next
    case False
    then have "unpack_item n clean f s = (Inl (Err ''Attempt to append too many items''), s)" by (simp add: unpack_item_def list_ii_append_item_def Let_def)
    then show ?thesis using False d(2) by simp
  qed
qed

theorem suppressed_agree_witness:
  "\<exists>a' l'. each (unpack_hit (array_insert_index 70 (\<lambda>_. 0)) array_modify) [(66, \<lambda>x. x + 5), (3, \<lambda>x. x + 1), (66, \<lambda>x. x + 2 :: nat)]
      (array_clean 70 \<lparr>za_valid = [], za_items = replicate 70 9\<rparr>) = (Inr (), a') \<and>
    each (unpack_hit (list_insert_index 70 (\<lambda>_. 0)) list_modify) [(66, \<lambda>x. x + 5), (3, \<lambda>x. x + 1), (66, \<lambda>x. x + 2 :: nat)]
      (list_clean \<lparr>zl_num_items = 1, zl_items = replicate 70 \<lparr>sup_index = 8, sup_item = 9\<rparr>\<rparr>) = (Inr (), l') \<and>
    array_dump a' = Some [(3, 1), (66, 7)] \<and> list_dump l' = [(3, 1), (66, 7)]"
proof -
  let ?hs = "[(66, \<lambda>x. x + 5), (3, \<lambda>x. x + 1), (66, \<lambda>x. x + 2)] :: (nat \<times> (nat \<Rightarrow> nat)) list"
  have m: "fold (touch 0) ?hs Map.empty = [3 \<mapsto> 1, 66 \<mapsto> 7]" by (auto simp: touch_def fun_eq_iff)
  have "dom [3 \<mapsto> 1, 66 \<mapsto> 7 :: nat] = {3, 66 :: nat}" by auto
  then have "sorted_list_of_set (dom [3 \<mapsto> 1, 66 \<mapsto> 7 :: nat]) = [3, 66 :: nat]" by simp
  then have e: "entries_of (fold (touch 0) ?hs Map.empty) = [(3, 1), (66, 7)]" unfolding m entries_of_def by simp
  from suppressed_agree [of "\<lambda>_. 0" 0 "\<lparr>za_valid = [], za_items = replicate 70 9\<rparr>" 70
      "\<lparr>zl_num_items = 1, zl_items = replicate 70 \<lparr>sup_index = 8, sup_item = 9\<rparr>\<rparr>" ?hs] e
  show ?thesis by (simp only: length_replicate raw_array_zero_suppress.simps raw_list_zero_suppress.simps) force
qed

theorem multi_entries_witness:
  "\<exists>s'. each (unpack_hit (multi_insert_index 3 2 (\<lambda>_. 0)) multi_modify) [(1, \<lambda>x. x + 5), (0, \<lambda>x. x + 1), (1, \<lambda>x. x + 2 :: nat)]
      (multi_clean 3 \<lparr>zm_valid = [], zm_num_entries = [9, 9, 9], zm_items = [[7, 7], [7, 7], [7, 7]]\<rparr>) = (Inr (), s') \<and>
    multi_dump s' = Some [(0, 1), (1, 5), (1, 2)]"
proof -
  let ?hs = "[(1, \<lambda>x. x + 5), (0, \<lambda>x. x + 1), (1, \<lambda>x. x + 2)] :: (nat \<times> (nat \<Rightarrow> nat)) list"
  have f: "\<forall>i < 3. length (hit_items 0 i ?hs) \<le> 2" by (auto simp: hit_items_def)
  have d: "concat (map (\<lambda>i. map (Pair i) (hit_items 0 i ?hs)) [0..<3]) = [(0, 1), (1, 5), (1, 2)]" by (simp add: hit_items_def upt_rec)
  from multi_entries [of "\<lambda>_. 0" 0 "\<lparr>zm_valid = [], zm_num_entries = [9, 9, 9], zm_items = [[7, 7], [7, 7], [7, 7]]\<rparr>" 3 2 ?hs] f d show ?thesis by simp
qed

end
