(* ===== verification/Hld_Input.thy ===== *)
theory Hld_Input
  imports Lmd_Event Pipe_Buffer
begin

text \<open>
  The reader of HADES list-mode data, \<^verbatim>\<open>file_input/hld_input.cc\<close>, \<^verbatim>\<open>hld_input.hh\<close> and \<^verbatim>\<open>hld_event.hh\<close>: \<^verbatim>\<open>get_event\<close>,
  \<^verbatim>\<open>locate_subevents\<close> and \<^verbatim>\<open>get_subevent_data_src\<close>, in the build without threads. Events directly follow each
  other, each header tells its own byte order, and subevents are padded to an alignment. What is written on request only (\<^verbatim>\<open>print_event\<close>) is
  left out. Lengths are computed modulo \<open>2 ^ 64\<close>, as the source does.
\<close>

unbundle bit_operations_syntax

section \<open>Headers\<close>

record hld_event_header =
  hh_size :: u32
  hh_decoding :: u32
  hh_id :: u32
  hh_seq_no :: u32
  hh_date :: u32
  hh_time :: u32
  hh_file_no :: u32
  hh_pad :: u32

record hld_subevent_header =
  hs_size :: u32
  hs_decoding :: u32
  hs_id :: u32
  hs_trig_no :: u32

abbreviation (input) sizeof_hld_event_header :: nat where "sizeof_hld_event_header \<equiv> 32"
abbreviation (input) sizeof_hld_subevent_header :: nat where "sizeof_hld_subevent_header \<equiv> 16"

definition words_of_hld_event_header :: "hld_event_header \<Rightarrow> u32 list" where
  "words_of_hld_event_header h =
     [hh_size h, hh_decoding h, hh_id h, hh_seq_no h, hh_date h, hh_time h, hh_file_no h, hh_pad h]"

definition hld_event_header_of_words :: "u32 list \<Rightarrow> hld_event_header" where
  "hld_event_header_of_words ws =
     \<lparr>hh_size = ws ! 0, hh_decoding = ws ! 1, hh_id = ws ! 2, hh_seq_no = ws ! 3, hh_date = ws ! 4, hh_time = ws ! 5,
       hh_file_no = ws ! 6, hh_pad = ws ! 7\<rparr>"

definition words_of_hld_subevent_header :: "hld_subevent_header \<Rightarrow> u32 list" where
  "words_of_hld_subevent_header h = [hs_size h, hs_decoding h, hs_id h, hs_trig_no h]"

definition hld_subevent_header_of_words :: "u32 list \<Rightarrow> hld_subevent_header" where
  "hld_subevent_header_of_words ws = \<lparr>hs_size = ws ! 0, hs_decoding = ws ! 1, hs_id = ws ! 2, hs_trig_no = ws ! 3\<rparr>"

text \<open>The members of \<^verbatim>\<open>hld_decoding\<close>.\<close>

definition decoding_align :: "u32 \<Rightarrow> nat" where
  "decoding_align decoding = unat (drop_bit 16 decoding AND 0xff)"

text \<open>The decoding is the second word of both headers; it tells whether the whole header is to be swapped.\<close>

definition swap_hld_header :: "u32 list \<Rightarrow> cxx_error + bool \<times> u32 list" where
  "swap_hld_header header =
     (let decoding = header ! 1;
          high_byte = decoding AND 0xff000000;
          low_byte = decoding AND 0x000000ff
      in if high_byte = 0 \<and> low_byte \<noteq> 0 then Inr (False, header)
         else if high_byte \<noteq> 0 \<and> low_byte = 0 then Inr (True, map bswap_32 header)
         else Inl (Err ''decoding marker broken, cannot determine endianness.''))"

text \<open>\<^verbatim>\<open>(-size) & (alignment - 1)\<close>\<close>

definition hld_padding :: "nat \<Rightarrow> u32 \<Rightarrow> nat" where
  "hld_padding align n = unat (- n) mod 2 ^ align"

section \<open>Events\<close>

record hld_subevent =
  hb_header :: hld_subevent_header
  hb_data :: "bytes option"
  hb_frag :: "buf_chunk list"
  hb_offset :: nat
  hb_swapping :: bool

record hld_event =
  hv_header :: hld_event_header
  hv_status :: u32
  hv_unused :: nat
  hv_subevents :: "hld_subevent list option"
  hv_chunks :: "buf_chunk list"
  hv_chunk_cur :: "buf_chunk list"
  hv_offset_cur :: nat

record 's hld_source =
  hd_input :: "'s input_buffer_cont"
  hd_last_seq_no :: int
  hd_file_event :: hld_event

definition hld_new_file :: "'s hld_source \<Rightarrow> 's hld_source" where
  "hld_new_file src = src\<lparr>hd_last_seq_no := 0\<rparr>"

definition hld_check_header :: "hld_event_header \<Rightarrow> cxx_error option" where
  "hld_check_header h =
     (if decoding_align (hh_decoding h) > 4 then Some (Err ''Strange alignment, > 4 (which would be 128 bits)'')
      else if hh_date h AND NOT 0x00ff0f1f \<noteq> 0 then Some (Err ''Date specification invalid.'')
      else if hh_time h AND NOT 0x001f3f3f \<noteq> 0 then Some (Err ''Time specification invalid.'')
      else if hh_size h > 0x40000000 then Some (Err ''Data length very large, refusing.'')
      else None)"

definition hld_set_event :: "(hld_event \<Rightarrow> hld_event) \<Rightarrow> 's hld_source \<Rightarrow> 's hld_source" where
  "hld_set_event f src = src\<lparr>hd_file_event := f (hd_file_event src)\<rparr>"

definition hld_read_range :: "'s input_buffer \<Rightarrow> nat \<Rightarrow> 's hld_source \<Rightarrow> (bytes option, 's hld_source) result" where
  "hld_read_range vt n src = (case cont_read_range vt (hd_input src) n of (r, ic) \<Rightarrow> (r, src\<lparr>hd_input := ic\<rparr>))"

definition hld_map_range :: "'s input_buffer \<Rightarrow> nat \<Rightarrow> 's hld_source \<Rightarrow> (buf_chunk list, 's hld_source) result" where
  "hld_map_range vt n src = (case cont_map_range vt (hd_input src) n of (r, ic) \<Rightarrow> (r, src\<lparr>hd_input := ic\<rparr>))"

text \<open>The data of the event whose header was read and checked.\<close>

definition hld_map_data :: "'s input_buffer \<Rightarrow> hld_event_header \<Rightarrow> 's hld_source \<Rightarrow> (hld_event option, 's hld_source) result" where
  "hld_map_data vt header src =
     (let unused = hld_padding (decoding_align (hh_decoding header)) (hh_size header);
          src = hld_set_event (\<lambda>ev. ev\<lparr>hv_chunks := [], hv_chunk_cur := [], hv_offset_cur := 0, hv_unused := unused\<rparr>) src;
          data_size = sub64 (unat (hh_size header)) sizeof_hld_event_header;
          data_size = wrap64 (data_size + unused)
      in if data_size = 0 then (Inr (Some (hd_file_event src)), src)
         else andthen (hld_map_range vt data_size src) (\<lambda>chunks src.
           if chunks = [] then (Inl (Err ''Error while reading subevent data.''), src)
           else
             let src = hld_set_event (\<lambda>ev. ev\<lparr>hv_chunks := chunks, hv_chunk_cur := chunks\<rparr>) src
             in (Inr (Some (hd_file_event src)), src)))"

definition hld_get_event :: "'s input_buffer \<Rightarrow> 's hld_source \<Rightarrow> (hld_event option, 's hld_source) result" where
  "hld_get_event vt src =
     (let src = hld_set_event (\<lambda>ev. ev\<lparr>hv_status := 0, hv_subevents := None\<rparr>) src;
          src = src\<lparr>hd_input := cont_release_to vt (hd_input src) (ic_cur (hd_input src))\<rparr>
      in andthen (hld_read_range vt sizeof_hld_event_header src) (\<lambda>got src.
        case got of
          None \<Rightarrow> (Inr None, src)
        | Some b \<Rightarrow>
            (case swap_hld_header (words32 b) of
               Inl e \<Rightarrow> (Inl e, src)
             | Inr (swapped, ws) \<Rightarrow>
                 let header = hld_event_header_of_words ws;
                     src = hld_set_event (\<lambda>ev. ev\<lparr>hv_header := header\<rparr>) src
                 in case hld_check_header header of
                      Some e \<Rightarrow> (Inl e, src)
                    | None \<Rightarrow> hld_map_data vt header src)))"

section \<open>Subevents\<close>

abbreviation (input) HLD_EVENT_LOCATE_SUBEVENTS_ATTEMPT :: u32 where "HLD_EVENT_LOCATE_SUBEVENTS_ATTEMPT \<equiv> 0x0004"
abbreviation (input) HLD_MAX_SUBEVENTS :: nat where "HLD_MAX_SUBEVENTS \<equiv> 100"

text \<open>
  One subevent, the position after it and the padding that was skipped. A pointer to data is what can be read from it up to
  the end of its chunk. With no data, a pointer is given that may not be used.
\<close>

definition hld_locate_subevent ::
  "nat \<Rightarrow> buf_chunk list \<Rightarrow> nat \<Rightarrow> cxx_error + hld_subevent \<times> nat \<times> buf_chunk list \<times> nat" where
  "hld_locate_subevent align chunk_cur offset_cur =
     (let (got, chunk_cur, offset_cur) = get_range_many chunk_cur offset_cur sizeof_hld_subevent_header in
      case got of
        None \<Rightarrow> Inl (Err ''Subevent header not complete before end of event.'')
      | Some b \<Rightarrow>
          (case swap_hld_header (words32 b) of
             Inl e \<Rightarrow> Inl e
           | Inr (swapping, ws) \<Rightarrow>
               let header = hld_subevent_header_of_words ws in
               if decoding_align (hs_decoding header) > 3 then Inl (Err ''Strange subevent data size, > 3 (which would be 64 bits)'')
               else
                 let data_length = sub64 (unat (hs_size header)) sizeof_hld_subevent_header;
                     unused = hld_padding align (hs_size header);
                     chunk_left = (case chunk_cur of [] \<Rightarrow> 0 | c # _ \<Rightarrow> length c - offset_cur);
                     padded = wrap64 (data_length + unused)
                 in if padded \<le> chunk_left then
                      if data_length \<noteq> 0 \<and> chunk_cur = [] then Inl (Undef ''chunk after the last'')
                      else
                        let data = (if data_length = 0 then [] else drop offset_cur (hd chunk_cur));
                            sub = \<lparr>hb_header = header, hb_data = Some data, hb_frag = [], hb_offset = 0, hb_swapping = swapping\<rparr>
                        in if chunk_left = padded then Inr (sub, unused, tl chunk_cur, 0)
                           else Inr (sub, unused, chunk_cur, offset_cur + padded)
                    else
                      let sub = \<lparr>hb_header = header, hb_data = None, hb_frag = chunk_cur, hb_offset = offset_cur, hb_swapping = swapping\<rparr>;
                          remain = padded - chunk_left
                      in case tl chunk_cur of
                           [] \<Rightarrow> Inl (Err ''Subevent not complete before end of event'')
                         | c # cs \<Rightarrow>
                             if remain > length c then Inl (Err ''Subevent not complete before end of event'')
                             else if length c = remain then Inr (sub, unused, cs, 0)
                             else Inr (sub, unused, c # cs, remain)))"

lemma hld_locate_subevent_left:
  assumes "hld_locate_subevent align cs off = Inr (sub, unused, cs', off')"
  shows "left_in cs' off' < left_in cs off"
proof -
  obtain g cs1 off1 where g: "get_range_many cs off 16 = (g, cs1, off1)" by (metis prod_cases3)
  then obtain b where b: "g = Some b" using assms by (cases g) (auto simp: hld_locate_subevent_def)
  have "left_in cs1 off1 + 16 \<le> left_in cs off" using get_range_many_left [of cs off 16] g b by simp
  moreover have "left_in cs' off' \<le> left_in cs1 off1"
    using assms g b left_in_tl [of cs1 off1] left_in_offset [of off1 "off1 + m" cs1 for m]
    by (cases cs1; cases "tl cs1")
      (auto simp: hld_locate_subevent_def Let_def left_in_def split: if_splits sum.splits prod.splits list.splits; linarith)+
  ultimately show ?thesis by linarith
qed

text \<open>The loop over the subevents; the result is the padding of the last.\<close>

function hld_locate_loop :: "nat \<Rightarrow> hld_event \<Rightarrow> (nat, hld_event) result" where
  "hld_locate_loop unused ev =
     (if hv_chunk_cur ev = [] then (Inr unused, ev)
      else
        let subevents = (case hv_subevents ev of None \<Rightarrow> [] | Some ss \<Rightarrow> ss) in
        if \<not> length subevents < HLD_MAX_SUBEVENTS then (Inl (Undef ''subevent outside the allocated array''), ev)
        else case hld_locate_subevent (decoding_align (hh_decoding (hv_header ev))) (hv_chunk_cur ev) (hv_offset_cur ev) of
            Inl e \<Rightarrow> (Inl e, ev)
          | Inr (sub, unused, chunk_cur, offset_cur) \<Rightarrow>
              hld_locate_loop unused
                (ev\<lparr>hv_subevents := Some (subevents @ [sub]), hv_chunk_cur := chunk_cur, hv_offset_cur := offset_cur\<rparr>))"
  by pat_completeness auto
termination hld_locate_loop
  by (relation "measure (\<lambda>(_, ev). left_in (hv_chunk_cur ev) (hv_offset_cur ev))") (auto intro: hld_locate_subevent_left)

declare hld_locate_loop.simps [simp del]

definition hld_locate_subevents :: "hld_event \<Rightarrow> (unit, hld_event) result" where
  "hld_locate_subevents ev =
     (if hv_status ev AND HLD_EVENT_LOCATE_SUBEVENTS_ATTEMPT \<noteq> 0 then (Inr (), ev)
      else
        let ev = ev\<lparr>hv_status := hv_status ev OR HLD_EVENT_LOCATE_SUBEVENTS_ATTEMPT\<rparr> in
        if hv_subevents ev \<noteq> None then (Inl (Assert ''!_subevents''), ev)
        else andthen (hld_locate_loop 0 (ev\<lparr>hv_subevents := Some []\<rparr>)) (\<lambda>unused ev.
          if unused \<noteq> hv_unused ev \<and> hv_unused ev \<noteq> 0
          then (Inl (Err ''Last subevent padding does not match event padding.''), ev)
          else (Inr (), ev)))"

definition hld_get_subevent_data_src :: "hld_subevent \<Rightarrow> (bytes, hld_subevent) result" where
  "hld_get_subevent_data_src sub =
     (let data_length = sub64 (unat (hs_size (hb_header sub))) sizeof_hld_subevent_header in
      case hb_data sub of
        Some data \<Rightarrow>
          if data_length \<le> length data then (Inr (take data_length data), sub)
          else (Inl (Undef ''data after the end of the chunk''), sub)
      | None \<Rightarrow>
          (case hb_frag sub of
             [] \<Rightarrow> (Inl (Undef ''no fragment''), sub)
           | frag # frags \<Rightarrow>
               let size0 = length frag - hb_offset sub in
               if size0 > data_length then (Inl (Undef ''copy outside the defragment buffer''), sub)
               else case frags of
                   [] \<Rightarrow> (Inl (Undef ''fragment after the last''), sub)
                 | frag2 # _ \<Rightarrow>
                     let length2 = data_length - size0 in
                     if \<not> length2 \<le> length frag2 then (Inl (Assert ''length <= frag->_length''), sub)
                     else
                       let data = drop (hb_offset sub) frag @ take length2 frag2
                       in (Inr data, sub\<lparr>hb_data := Some data\<rparr>)))"

section \<open>Encoded subevents\<close>

definition marker_ok :: "u32 \<Rightarrow> bool" where
  "marker_ok decoding \<longleftrightarrow> decoding AND 0xff000000 = 0 \<and> decoding AND 0xff \<noteq> 0"

definition hld_mem :: "bool \<Rightarrow> u32 list \<Rightarrow> bytes" where
  "hld_mem swapping ws = mem (if swapping then map bswap_32 ws else ws)"

lemma u32_of_ends: "u32_of a b c d AND 0xff = ucast a" "u32_of a b c d AND 0xff000000 = push_bit 24 (ucast d)"
proof -
  have hi: "bit (0xff000000 :: u32) n \<longleftrightarrow> 24 \<le> n \<and> n < 32" for n
  proof -
    have e: "(0xff000000 :: u32) = push_bit 24 (mask 8)" by (simp add: mask_eq_decr_exp)
    show ?thesis unfolding e by (auto simp: bit_simps)
  qed
  have lo: "bit (0xff :: u32) n \<longleftrightarrow> n < 8" for n
  proof -
    have e: "(0xff :: u32) = mask 8" by (simp add: mask_eq_decr_exp)
    show ?thesis unfolding e by (auto simp: bit_simps)
  qed
  show "u32_of a b c d AND 0xff = ucast a"
  proof (rule bit_word_eqI)
    fix n
    assume "n < LENGTH(32)"
    then show "bit (u32_of a b c d AND 0xff) n = bit (ucast a :: u32) n" using u8_bit_high [of n a] unfolding bit_and_iff lo
      by (cases "n < 8") (simp_all add: u32_of_def bit_simps)
  qed
  show "u32_of a b c d AND 0xff000000 = push_bit 24 (ucast d)"
  proof (rule bit_word_eqI)
    fix n
    assume "n < LENGTH(32)"
    then show "bit (u32_of a b c d AND 0xff000000) n = bit (push_bit 24 (ucast d) :: u32) n"
      using u8_bit_high [of n a] u8_bit_high [of "n - 8" b] u8_bit_high [of "n - 16" c] unfolding bit_and_iff hi
      by (cases "24 \<le> n") (simp_all add: u32_of_def bit_simps)
  qed
qed

lemma u32_of_ends_zero: "u32_of a b c d AND 0xff = 0 \<longleftrightarrow> a = 0" "u32_of a b c d AND 0xff000000 = 0 \<longleftrightarrow> d = 0"
proof -
  show "u32_of a b c d AND 0xff = 0 \<longleftrightarrow> a = 0" unfolding u32_of_ends using u8_bit_high [of _ a] by (auto simp: bit_eq_iff bit_simps) (metis not_less)
  have "bit (push_bit 24 (ucast d :: u32)) (24 + k) \<longleftrightarrow> bit d k" for k using u8_bit_high [of k d] by (cases "k < 8") (simp_all add: bit_simps)
  then show "u32_of a b c d AND 0xff000000 = 0 \<longleftrightarrow> d = 0" unfolding u32_of_ends by (metis bit_eqI bit_0_eq bot_apply push_bit_of_0 ucast_0)
qed

lemma marker_swap: "marker_ok w \<Longrightarrow> bswap_32 w AND 0xff000000 \<noteq> 0 \<and> bswap_32 w AND 0xff = 0"
proof -
  assume m: "marker_ok w"
  obtain a b c d where w: "w = u32_of a b c d" using u32_of_bytes [of w] by metis
  show ?thesis using m by (simp add: marker_ok_def w u32_of_ends_zero)
qed

lemma swap_header_mem:
  assumes "1 < length ws" "marker_ok (ws ! 1)"
  shows "swap_hld_header (words32 (hld_mem sw ws)) = Inr (sw, ws)"
  using assms marker_swap [OF assms(2)] by (cases sw) (auto simp: hld_mem_def swap_hld_header_def Let_def marker_ok_def comp_def)

lemma header_words:
  "hld_subevent_header_of_words (words_of_hld_subevent_header sh) = sh" "hld_event_header_of_words (words_of_hld_event_header eh) = eh"
  "length (words_of_hld_subevent_header sh) = 4" "length (words_of_hld_event_header eh) = 8"
  "words_of_hld_subevent_header sh ! 1 = hs_decoding sh" "words_of_hld_event_header eh ! 1 = hh_decoding eh"
  by (simp_all add: hld_subevent_header_of_words_def words_of_hld_subevent_header_def hld_event_header_of_words_def words_of_hld_event_header_def)

lemma length_hld_mem [simp]: "length (hld_mem sw ws) = 4 * length ws"
  by (simp add: hld_mem_def)

type_synonym hld_content = "bool \<times> hld_subevent_header \<times> bytes"

definition encode_hld_subevent :: "nat \<Rightarrow> hld_content \<Rightarrow> bytes" where
  "encode_hld_subevent align = (\<lambda>(sw, h, d). hld_mem sw (words_of_hld_subevent_header h) @ d @ replicate (hld_padding align (hs_size h)) 0)"

definition good_hld :: "hld_content \<Rightarrow> bool" where
  "good_hld = (\<lambda>(sw, h, d). marker_ok (hs_decoding h) \<and> decoding_align (hs_decoding h) \<le> 3 \<and> unat (hs_size h) = 16 + length d)"

lemma padding_small: "align \<le> 4 \<Longrightarrow> hld_padding align n < 16"
proof -
  assume "align \<le> 4"
  then have "(2 :: nat) ^ align \<le> 2 ^ 4" by (intro power_increasing) simp_all
  moreover have "hld_padding align n < 2 ^ align" by (simp add: hld_padding_def)
  ultimately show ?thesis by simp
qed

text \<open>Where the data of a subevent is, when the chunks are cut; within the padding of a subevent is no good place.\<close>

fun cut_ok :: "nat \<Rightarrow> nat \<Rightarrow> hld_content list \<Rightarrow> bool" where
  "cut_ok align b [] = True"
| "cut_ok align b (s # ss) =
     (\<not> (16 + length (snd (snd s)) < b \<and> b < length (encode_hld_subevent align s)) \<and>
      cut_ok align (b - length (encode_hld_subevent align s)) ss)"

definition first_left :: "buf_chunk list \<Rightarrow> nat \<Rightarrow> nat" where
  "first_left cs off = (case cs of [] \<Rightarrow> 0 | c # _ \<Rightarrow> length c - off)"

definition sub_holds :: "hld_subevent \<Rightarrow> hld_content \<Rightarrow> bool" where
  "sub_holds sub = (\<lambda>(sw, h, d). hb_header sub = h \<and> hb_swapping sub = sw \<and> fst (hld_get_subevent_data_src sub) = Inr d)"

lemma get_range_many_first:
  assumes "position cs off bs" "two_chunks cs" "0 < n" "get_range_many cs off n = (Some b, cs', off')"
  shows "if n < first_left cs off then cs' = cs \<and> off' = off + n else length cs' \<le> 1"
proof (cases cs)
  case Nil
  then show ?thesis using assms by (simp add: get_range_many_def)
next
  case (Cons c ds)
  have off: "off < length c" using assms(1) Cons by (simp add: position_def)
  show ?thesis
  proof (cases "off + n < length c")
    case True
    then show ?thesis using assms(4) Cons by (auto simp: get_range_many_def first_left_def)
  next
    case False
    have l: "length ds \<le> 1" using assms(2) Cons by simp
    have "length cs' \<le> length ds"
    proof (cases "n - (length c - off) = 0")
      case True
      then show ?thesis using assms(4) Cons False by (simp add: get_range_many_def Let_def)
    next
      case more: False
      then have "get_range_many_loop (slice off (length c - off) c) ds (n - (length c - off)) = (Some b, cs', off')"
        using assms(4) Cons False by (simp add: get_range_many_def Let_def del: diff_diff_right)
      from get_range_many_loop_SomeD [OF _ this] more show ?thesis by simp
    qed
    then show ?thesis using l False off Cons by (auto simp: first_left_def)
  qed
qed

text \<open>The data and padding that follow the header, at a position.\<close>

definition located :: "bool \<Rightarrow> hld_subevent_header \<Rightarrow> nat \<Rightarrow> buf_chunk list \<Rightarrow> nat \<Rightarrow> cxx_error + hld_subevent \<times> nat \<times> buf_chunk list \<times> nat" where
  "located swapping header unused chunk_cur offset_cur =
     (let data_length = sub64 (unat (hs_size header)) 16;
          chunk_left = first_left chunk_cur offset_cur;
          padded = wrap64 (data_length + unused)
      in if padded \<le> chunk_left then
           if data_length \<noteq> 0 \<and> chunk_cur = [] then Inl (Undef ''chunk after the last'')
           else
             let data = (if data_length = 0 then [] else drop offset_cur (hd chunk_cur));
                 sub = \<lparr>hb_header = header, hb_data = Some data, hb_frag = [], hb_offset = 0, hb_swapping = swapping\<rparr>
             in if chunk_left = padded then Inr (sub, unused, tl chunk_cur, 0)
                else Inr (sub, unused, chunk_cur, offset_cur + padded)
         else
           let sub = \<lparr>hb_header = header, hb_data = None, hb_frag = chunk_cur, hb_offset = offset_cur, hb_swapping = swapping\<rparr>;
               remain = padded - chunk_left
           in case tl chunk_cur of
                [] \<Rightarrow> Inl (Err ''Subevent not complete before end of event'')
              | c # cs \<Rightarrow>
                  if remain > length c then Inl (Err ''Subevent not complete before end of event'')
                  else if length c = remain then Inr (sub, unused, cs, 0)
                  else Inr (sub, unused, c # cs, remain))"

lemma locate_header:
  assumes "position cs off (hld_mem sw (words_of_hld_subevent_header h) @ rest)" "two_chunks cs"
    and "marker_ok (hs_decoding h)" "decoding_align (hs_decoding h) \<le> 3"
  shows "\<exists>cs1 off1. hld_locate_subevent align cs off = located sw h (hld_padding align (hs_size h)) cs1 off1 \<and>
    position cs1 off1 rest \<and> two_chunks cs1 \<and>
    (if 16 < first_left cs off then cs1 = cs \<and> off1 = off + 16 else length cs1 \<le> 1)"
proof -
  let ?b = "hld_mem sw (words_of_hld_subevent_header h)"
  have lb: "length ?b = 16" by (simp add: header_words)
  obtain g cs1 off1 where g: "get_range_many cs off 16 = (g, cs1, off1)" by (metis prod_cases3)
  have "g \<noteq> None" using position_read_None [OF assms(1), of 16] g lb by simp
  then obtain b where b: "get_range_many cs off 16 = (Some b, cs1, off1)" using g by auto
  from position_read [OF assms(1) _ b] lb have r: "b = ?b" "position cs1 off1 rest" by simp_all
  have "offset_ok cs off" by (rule position_offset_ok [OF assms(1)])
  from get_range_many_SomeD [OF this _ b] assms(2) have "two_chunks cs1" by auto
  moreover have "swap_hld_header (words32 b) = Inr (sw, words_of_hld_subevent_header h)"
    unfolding r(1) using swap_header_mem [of "words_of_hld_subevent_header h" sw] by (simp only: header_words assms(3))
  then have "hld_locate_subevent align cs off = located sw h (hld_padding align (hs_size h)) cs1 off1"
    using assms(4) by (simp add: hld_locate_subevent_def b located_def header_words first_left_def Let_def)
  ultimately show ?thesis using r(2) get_range_many_first [OF assms(1,2) _ b] by (intro exI [of _ cs1] exI [of _ off1]) simp
qed

lemma located_spec:
  assumes "position cs off (d @ replicate u 0 @ rest)" "two_chunks cs" "unat (hs_size h) = 16 + length d" "u < 16"
  shows "\<exists>sub cs' off'. located sw h u cs off = Inr (sub, u, cs', off') \<and> position cs' off' rest \<and> two_chunks cs' \<and>
    (if length d + u < first_left cs off then cs' = cs \<and> off' = off + (length d + u) else length cs' \<le> 1) \<and>
    (\<not> (length d < first_left cs off \<and> first_left cs off < length d + u) \<or> length cs \<le> 1 \<longrightarrow> sub_holds sub (sw, h, d))"
proof -
  have n: "sub64 (unat (hs_size h)) 16 = length d" "wrap64 (length d + u) = length d + u"
    using assms(3,4) unat_u32 [of "hs_size h"] by (simp_all add: sub64_le)
  from assms(2) show ?thesis
  proof (cases rule: two_chunks_cases)
    case 1
    then have "d = []" "u = 0" "rest = []" using assms(1) by (simp_all add: position_def)
    then show ?thesis using 1 n assms(3) by (simp add: located_def first_left_def Let_def position_def sub_holds_def hld_get_subevent_data_src_def)
  next
    case (2 c)
    have p: "drop off c = d @ replicate u 0 @ rest" "off < length c" using assms(1) 2 by (simp_all add: position_def)
    have l: "length c - off = length d + u + length rest" using arg_cong [OF p(1), of length] by simp
    have t: "drop (off + (length d + u)) c = rest" using arg_cong [OF p(1), of "drop (length d + u)"] by (simp add: add.commute)
    let ?sub = "\<lparr>hb_header = h, hb_data = Some (if length d = 0 then [] else drop off c), hb_frag = [], hb_offset = 0, hb_swapping = sw\<rparr>"
    have h: "sub_holds ?sub (sw, h, d)" using n p by (auto simp: sub_holds_def hld_get_subevent_data_src_def)
    show ?thesis
    proof (cases "rest = []")
      case True
      then have "located sw h u cs off = Inr (?sub, u, [], 0)" using 2 n l by (simp add: located_def first_left_def)
      then show ?thesis using h True 2 l by (simp add: position_def first_left_def)
    next
      case False
      then have "located sw h u cs off = Inr (?sub, u, cs, off + (length d + u))" using 2 n l by (simp add: located_def first_left_def)
      moreover have "position cs (off + (length d + u)) rest" using 2 t False p l by (auto simp: position_def)
      ultimately show ?thesis using h 2 False l by (simp add: first_left_def)
    qed
  next
    case (3 c e)
    have ne: "c \<noteq> []" "e \<noteq> []" and off: "off < length c" using assms(1) 3 by (auto simp: position_def)
    have p: "drop off c @ e = d @ replicate u 0 @ rest" using assms(1) 3 off by (simp add: position_def)
    have l: "length c - off + length e = length d + u + length rest" using arg_cong [OF p, of length] by simp
    have f: "first_left cs off = length c - off" using 3 by (simp add: first_left_def)
    have dt: "take (length d) (drop off c @ e) = d" using p by simp
    have t: "drop (length d + u) (drop off c @ e) = rest" using p by simp
    show ?thesis
    proof (cases "length d + u \<le> length c - off")
      case True
      let ?sub = "\<lparr>hb_header = h, hb_data = Some (if length d = 0 then [] else drop off c), hb_frag = [], hb_offset = 0, hb_swapping = sw\<rparr>"
      have "take (length d) (drop off c) = d" using dt True by simp
      then have h: "sub_holds ?sub (sw, h, d)" using n True by (auto simp: sub_holds_def hld_get_subevent_data_src_def)
      show ?thesis
      proof (cases "length c - off = length d + u")
        case eq: True
        then have "located sw h u cs off = Inr (?sub, u, [e], 0)" using 3 n by (simp add: located_def first_left_def)
        moreover have "rest = e" using t eq by simp
        ultimately show ?thesis using h eq f ne by (simp add: position_def)
      next
        case ne': False
        then have "located sw h u cs off = Inr (?sub, u, cs, off + (length d + u))" using 3 n True by (simp add: located_def first_left_def)
        moreover have "position cs (off + (length d + u)) rest" using t True ne' 3 ne off by (auto simp: position_def add.commute)
        ultimately show ?thesis using h f True ne' assms(2) by simp
      qed
    next
      case False
      let ?sub = "\<lparr>hb_header = h, hb_data = None, hb_frag = cs, hb_offset = off, hb_swapping = sw\<rparr>"
      let ?remain = "length d + u - (length c - off)"
      have r: "?remain \<le> length e" using l False by linarith
      have h: "sub_holds ?sub (sw, h, d)" if "length c - off \<le> length d"
      proof -
        have "length d - (length c - off) \<le> length e" using l that by linarith
        moreover have "drop off c @ take (length d - (length c - off)) e = d" using dt that by simp
        ultimately show ?thesis using that n 3 by (simp add: sub_holds_def hld_get_subevent_data_src_def)
      qed
      have t': "drop ?remain e = rest" using t False by (simp add: drop_append)
      have loc: "located sw h u cs off = Inr (if length e = ?remain then (?sub, u, [], 0) else (?sub, u, [e], ?remain))"
        using 3 n False r by (simp add: located_def first_left_def Let_def)
      have pos: "if length e = ?remain then position [] 0 rest else position [e] ?remain rest"
        using t' r ne by (auto simp: position_def)
      show ?thesis using loc pos h f False 3 by (cases "length e = ?remain") auto
    qed
  qed
qed

end
