(* ===== verification/Hld_Events.thy ===== *)
theory Hld_Events
  imports Hld_Input
begin

text \<open>
  What the reader of HADES data delivers: the subevents of an event and whole files, and the inputs that it does not guard against.
\<close>

lemma locate_one:
  assumes "position cs off (encode_hld_subevent align s @ rest)" "two_chunks cs" "good_hld s" "align \<le> 4"
    and "length cs \<le> 1 \<or> cut_ok align (first_left cs off) (s # ss)"
  shows "\<exists>sub cs' off'. hld_locate_subevent align cs off = Inr (sub, hld_padding align (hs_size (fst (snd s))), cs', off') \<and>
    position cs' off' rest \<and> two_chunks cs' \<and> sub_holds sub s \<and> (length cs' \<le> 1 \<or> cut_ok align (first_left cs' off') ss)"
proof -
  obtain sw h d where s: "s = (sw, h, d)" by (metis prod_cases3)
  have g: "marker_ok (hs_decoding h)" "decoding_align (hs_decoding h) \<le> 3" "unat (hs_size h) = 16 + length d"
    using assms(3) by (simp_all add: good_hld_def s)
  let ?u = "hld_padding align (hs_size h)"
  have le: "length (encode_hld_subevent align s) = 16 + length d + ?u" by (simp add: s encode_hld_subevent_def header_words)
  have p: "position cs off (hld_mem sw (words_of_hld_subevent_header h) @ d @ replicate ?u 0 @ rest)"
    using assms(1) by (simp add: s encode_hld_subevent_def)
  from locate_header [OF p assms(2) g(1,2), of align] obtain cs1 off1 where
    1: "hld_locate_subevent align cs off = located sw h ?u cs1 off1" "position cs1 off1 (d @ replicate ?u 0 @ rest)" "two_chunks cs1"
      "if 16 < first_left cs off then cs1 = cs \<and> off1 = off + 16 else length cs1 \<le> 1" by auto
  from located_spec [OF 1(2,3) g(3) padding_small [OF assms(4)], of sw] obtain sub cs' off' where
    2: "located sw h ?u cs1 off1 = Inr (sub, ?u, cs', off')" "position cs' off' rest" "two_chunks cs'"
      "if length d + ?u < first_left cs1 off1 then cs' = cs1 \<and> off' = off1 + (length d + ?u) else length cs' \<le> 1"
      "\<not> (length d < first_left cs1 off1 \<and> first_left cs1 off1 < length d + ?u) \<or> length cs1 \<le> 1 \<longrightarrow> sub_holds sub (sw, h, d)" by auto
  have f1: "first_left cs1 off1 = first_left cs off - 16" if "16 < first_left cs off"
    using 1(4) that by (auto simp: first_left_def split: list.splits)
  have one: "length cs1 \<le> 1" if "length cs \<le> 1" using 1(4) that by (auto split: if_splits)
  have "sub_holds sub s"
  proof (cases "length cs1 \<le> 1")
    case False
    then have c: "cut_ok align (first_left cs off) (s # ss)" "16 < first_left cs off" using assms(5) one 1(4) by (auto split: if_splits)
    then show ?thesis using 2(5) f1 le by (auto simp: s)
  qed (use 2(5) s in simp)
  moreover have "length cs' \<le> 1 \<or> cut_ok align (first_left cs' off') ss"
  proof (cases "length cs' \<le> 1")
    case False
    then have b: "length d + ?u < first_left cs1 off1" "cs' = cs1" "off' = off1 + (length d + ?u)" using 2(4) by (auto split: if_splits)
    then have "\<not> length cs \<le> 1" "16 < first_left cs off" using False one 1(4) by (auto split: if_splits)
    moreover have "first_left cs' off' = first_left cs1 off1 - (length d + ?u)" using b by (auto simp: first_left_def split: list.splits)
    ultimately show ?thesis using assms(5) f1 le by (simp add: add.assoc)
  qed simp
  ultimately show ?thesis using 1(1) 2(1-3) s by auto
qed

lemma locate_all:
  assumes "align = decoding_align (hh_decoding (hv_header ev))" "align \<le> 4"
  shows "position (hv_chunk_cur ev) (hv_offset_cur ev) (concat (map (encode_hld_subevent align) ss)) \<Longrightarrow> two_chunks (hv_chunk_cur ev) \<Longrightarrow>
    list_all good_hld ss \<Longrightarrow> length (hv_chunk_cur ev) \<le> 1 \<or> cut_ok align (first_left (hv_chunk_cur ev) (hv_offset_cur ev)) ss \<Longrightarrow>
    hv_subevents ev = Some pre \<Longrightarrow>
    \<exists>r ev'. hld_locate_loop u ev = (r, ev') \<and> hv_unused ev' = hv_unused ev \<and>
      (if length pre + length ss \<le> 100
       then r = Inr (if ss = [] then u else hld_padding align (hs_size (fst (snd (last ss))))) \<and>
         (\<exists>subs. hv_subevents ev' = Some (pre @ subs) \<and> list_all2 sub_holds subs ss)
       else length pre \<le> 100 \<longrightarrow> r = Inl (Undef ''subevent outside the allocated array''))"
  using assms(1)
proof (induction ss arbitrary: ev pre u)
  case Nil
  then have "hv_chunk_cur ev = []" using position_Nil by fastforce
  then show ?case using Nil by (subst hld_locate_loop.simps) simp
next
  case (Cons s ss)
  let ?cs = "hv_chunk_cur ev" and ?off = "hv_offset_cur ev"
  have "encode_hld_subevent align s \<noteq> []" by (cases s) (auto simp: encode_hld_subevent_def hld_mem_def words_of_hld_subevent_header_def mem_def bytes32_def)
  then have ne: "?cs \<noteq> []" using position_Nil [OF Cons.prems(1)] by simp
  show ?case
  proof (cases "length pre < 100")
    case True
    have "position ?cs ?off (encode_hld_subevent align s @ concat (map (encode_hld_subevent align) ss))" using Cons.prems(1) by simp
    from locate_one [OF this Cons.prems(2) _ assms(2) Cons.prems(4)] Cons.prems(3) obtain sub cs' off' where
      l: "hld_locate_subevent align ?cs ?off = Inr (sub, hld_padding align (hs_size (fst (snd s))), cs', off')"
        "position cs' off' (concat (map (encode_hld_subevent align) ss))" "two_chunks cs'" "sub_holds sub s"
        "length cs' \<le> 1 \<or> cut_ok align (first_left cs' off') ss" by auto
    let ?ev = "ev\<lparr>hv_subevents := Some (pre @ [sub]), hv_chunk_cur := cs', hv_offset_cur := off'\<rparr>"
    have step: "hld_locate_loop u ev = hld_locate_loop (hld_padding align (hs_size (fst (snd s)))) ?ev"
      using ne True l(1) Cons.prems(5,6) by (subst hld_locate_loop.simps) simp
    from Cons.IH [of ?ev "pre @ [sub]" "hld_padding align (hs_size (fst (snd s)))"] l(2-5) Cons.prems(3,6) obtain r ev' where
      i: "hld_locate_loop (hld_padding align (hs_size (fst (snd s)))) ?ev = (r, ev')" "hv_unused ev' = hv_unused ev"
      "if length (pre @ [sub]) + length ss \<le> 100
       then r = Inr (if ss = [] then hld_padding align (hs_size (fst (snd s))) else hld_padding align (hs_size (fst (snd (last ss))))) \<and>
         (\<exists>subs. hv_subevents ev' = Some ((pre @ [sub]) @ subs) \<and> list_all2 sub_holds subs ss)
       else length (pre @ [sub]) \<le> 100 \<longrightarrow> r = Inl (Undef ''subevent outside the allocated array'')" by auto
    show ?thesis
    proof (cases "length pre + length (s # ss) \<le> 100")
      case fits: True
      then obtain subs where "r = Inr (if ss = [] then hld_padding align (hs_size (fst (snd s))) else hld_padding align (hs_size (fst (snd (last ss)))))"
        "hv_subevents ev' = Some (pre @ sub # subs)" "list_all2 sub_holds subs ss" using i(3) by auto
      then show ?thesis using step i(1,2) fits l(4) by (intro exI [of _ r] exI [of _ ev']) (auto intro!: exI [of _ "sub # subs"])
    next
      case over: False
      then show ?thesis using step i True by auto
    qed
  next
    case False
    then have "hld_locate_loop u ev = (Inl (Undef ''subevent outside the allocated array''), ev)"
      using ne Cons.prems(5) by (subst hld_locate_loop.simps) simp
    then show ?thesis using False by auto
  qed
qed

definition fresh_hld :: "hld_event \<Rightarrow> bool" where
  "fresh_hld ev \<longleftrightarrow> hv_status ev = 0 \<and> hv_subevents ev = None \<and> hv_offset_cur ev = 0 \<and> hv_chunk_cur ev = hv_chunks ev \<and>
     two_chunks (hv_chunks ev) \<and> [] \<notin> set (hv_chunks ev) \<and> decoding_align (hh_decoding (hv_header ev)) \<le> 4"

lemma locate_fresh:
  assumes "fresh_hld ev" "align = decoding_align (hh_decoding (hv_header ev))" "concat (hv_chunks ev) = concat (map (encode_hld_subevent align) ss)"
    and "list_all good_hld ss" "cut_ok align (length (concat (take 1 (hv_chunks ev)))) ss"
  shows "\<exists>r ev'. hld_locate_loop 0 (ev\<lparr>hv_status := st, hv_subevents := Some []\<rparr>) = (r, ev') \<and> hv_unused ev' = hv_unused ev \<and>
    (if length ss \<le> 100
     then r = Inr (if ss = [] then 0 else hld_padding align (hs_size (fst (snd (last ss))))) \<and>
       (\<exists>subs. hv_subevents ev' = Some subs \<and> list_all2 sub_holds subs ss)
     else r = Inl (Undef ''subevent outside the allocated array''))"
proof -
  let ?ev = "ev\<lparr>hv_status := st, hv_subevents := Some []\<rparr>"
  have f: "hv_offset_cur ev = 0" "hv_chunk_cur ev = hv_chunks ev" "two_chunks (hv_chunks ev)" "[] \<notin> set (hv_chunks ev)" "align \<le> 4"
    using assms(1,2) by (simp_all add: fresh_hld_def)
  have p: "position (hv_chunk_cur ?ev) (hv_offset_cur ?ev) (concat (map (encode_hld_subevent align) ss))"
    using f assms(3) by (auto simp: position_def split: list.splits)
  have "first_left (hv_chunks ev) 0 = length (concat (take 1 (hv_chunks ev)))" by (cases "hv_chunks ev") (simp_all add: first_left_def)
  then have c: "length (hv_chunk_cur ?ev) \<le> 1 \<or> cut_ok align (first_left (hv_chunk_cur ?ev) (hv_offset_cur ?ev)) ss"
    using f assms(5) by simp
  have e: "align = decoding_align (hh_decoding (hv_header ?ev))" "two_chunks (hv_chunk_cur ?ev)" "hv_subevents ?ev = Some []"
    using assms(2) f(2,3) by simp_all
  from locate_all [OF e(1) f(5) p e(2) assms(4) c e(3), of 0] obtain r ev' where
    l: "hld_locate_loop 0 ?ev = (r, ev')" "hv_unused ev' = hv_unused ?ev"
    and r: "if length ([] :: hld_subevent list) + length ss \<le> 100
      then r = Inr (if ss = [] then 0 else hld_padding align (hs_size (fst (snd (last ss))))) \<and>
        (\<exists>subs. hv_subevents ev' = Some ([] @ subs) \<and> list_all2 sub_holds subs ss)
      else length ([] :: hld_subevent list) \<le> 100 \<longrightarrow> r = Inl (Undef ''subevent outside the allocated array'')" by blast
  then show ?thesis by (intro exI [of _ r] exI [of _ ev'], cases "length ss \<le> 100") (simp_all only: list.size add_0 append_Nil le0 simp_thms if_True if_False, simp_all)
qed

lemma locate_found:
  assumes "fresh_hld ev" "align = decoding_align (hh_decoding (hv_header ev))" "concat (hv_chunks ev) = concat (map (encode_hld_subevent align) ss)"
    and "list_all good_hld ss" "cut_ok align (length (concat (take 1 (hv_chunks ev)))) ss" "length ss \<le> 100"
    and "hv_unused ev = 0 \<or> ss \<noteq> [] \<and> hv_unused ev = hld_padding align (hs_size (fst (snd (last ss))))"
  shows "\<exists>ev' subs. hld_locate_subevents ev = (Inr (), ev') \<and> hv_subevents ev' = Some subs \<and> list_all2 sub_holds subs ss"
proof -
  have "hv_status ev = 0" "hv_subevents ev = None" using assms(1) by (simp_all add: fresh_hld_def)
  with locate_fresh [OF assms(1-5), of "0 OR HLD_EVENT_LOCATE_SUBEVENTS_ATTEMPT"] assms(6,7) show ?thesis
    by (auto simp: hld_locate_subevents_def Let_def split: if_splits)
qed

text \<open>C39. An event with more than 100 well-formed subevents is not refused: the subevent after the last that the array has room for is written
  outside of it.\<close>

theorem hld_too_many:
  assumes "fresh_hld ev" "align = decoding_align (hh_decoding (hv_header ev))" "concat (hv_chunks ev) = concat (map (encode_hld_subevent align) ss)"
    and "list_all good_hld ss" "cut_ok align (length (concat (take 1 (hv_chunks ev)))) ss" "100 < length ss"
  shows "fst (hld_locate_subevents ev) = Inl (Undef ''subevent outside the allocated array'')"
proof -
  have "hv_status ev = 0" "hv_subevents ev = None" using assms(1) by (simp_all add: fresh_hld_def)
  with locate_fresh [OF assms(1-5), of "0 OR HLD_EVENT_LOCATE_SUBEVENTS_ATTEMPT"] assms(6) show ?thesis
    by (auto simp: hld_locate_subevents_def Let_def)
qed

text \<open>C10. The subevents of an event are found, with their headers, byte orders and data, however the data of the event is cut into two chunks, and
  with any padding, unless the cut is in the middle of the padding of a subevent. The padding of the last subevent may be counted in the
  length of the event or not.\<close>

theorem hld_subevents_found:
  assumes "fresh_hld ev" "align = decoding_align (hh_decoding (hv_header ev))" "concat (hv_chunks ev) = concat (map (encode_hld_subevent align) ss)"
    and "list_all good_hld ss" "cut_ok align (length (concat (take 1 (hv_chunks ev)))) ss" "length ss \<le> 100"
    and "hv_unused ev = 0 \<or> ss \<noteq> [] \<and> hv_unused ev = hld_padding align (hs_size (fst (snd (last ss))))"
  shows "\<exists>ev' subs. hld_locate_subevents ev = (Inr (), ev') \<and> hv_subevents ev' = Some subs \<and> list_all2 sub_holds subs ss"
  using assms by (rule locate_found)

section \<open>A file of events\<close>

type_synonym hld_record = "bool \<times> hld_event_header \<times> hld_content list"

definition encode_hld_event :: "hld_record \<Rightarrow> bytes" where
  "encode_hld_event = (\<lambda>(sw, h, ss). hld_mem sw (words_of_hld_event_header h) @
     concat (map (encode_hld_subevent (decoding_align (hh_decoding h))) ss))"

text \<open>
  The length in the event header may or may not count the padding of the last subevent.
\<close>

definition good_hld_event :: "hld_record \<Rightarrow> bool" where
  "good_hld_event = (\<lambda>(sw, h, ss).
     let align = decoding_align (hh_decoding h); unused = hld_padding align (hh_size h) in
     marker_ok (hh_decoding h) \<and> hld_check_header h = None \<and> list_all good_hld ss \<and> length ss \<le> 100 \<and>
     unat (hh_size h) + unused = length (encode_hld_event (sw, h, ss)) \<and>
     (unused = 0 \<or> ss \<noteq> [] \<and> unused = hld_padding align (hs_size (fst (snd (last ss))))))"

lemma cut_anywhere: "list_all (\<lambda>(_, sh, _). hld_padding align (hs_size sh) \<le> 1) ss \<Longrightarrow> cut_ok align b ss"
  by (induction ss arbitrary: b) (auto simp: encode_hld_subevent_def header_words)

text \<open>
  The ring buffer wraps at the multiples of its size, and only there a range of the file comes in two chunks. \<open>paddings_whole w align p ss\<close>:
  no multiple of \<open>w\<close> is in the middle of the padding of a subevent, for subevents that start at position \<open>p\<close> of the file.
\<close>

fun paddings_whole :: "nat \<Rightarrow> nat \<Rightarrow> nat \<Rightarrow> hld_content list \<Rightarrow> bool" where
  "paddings_whole w align p [] = True"
| "paddings_whole w align p (s # ss) =
     (let q = p + length (encode_hld_subevent align s)
      in list_all (\<lambda>c. \<not> w dvd c) [p + 16 + length (snd (snd s)) + 1 ..< q] \<and> paddings_whole w align q ss)"

fun file_paddings_whole :: "nat \<Rightarrow> nat \<Rightarrow> hld_record list \<Rightarrow> bool" where
  "file_paddings_whole w p [] = True"
| "file_paddings_whole w p (r # recs) =
     (paddings_whole w (decoding_align (hh_decoding (fst (snd r)))) (p + 32) (snd (snd r)) \<and>
      file_paddings_whole w (p + length (encode_hld_event r)) recs)"

lemma cut_at_end: "length (concat (map (encode_hld_subevent align) ss)) \<le> b \<Longrightarrow> cut_ok align b ss"
  by (induction ss arbitrary: b) auto

lemma cut_at_start: "cut_ok align 0 ss"
  by (induction ss) auto

lemma cut_at_wrap: "paddings_whole w align p ss \<Longrightarrow> w dvd p + b \<Longrightarrow> cut_ok align b ss"
proof (induction ss arbitrary: p b)
  case (Cons s ss)
  let ?l = "length (encode_hld_subevent align s)"
  have "\<not> (16 + length (snd (snd s)) < b \<and> b < ?l)" using Cons.prems by (auto simp: Let_def list_all_iff)
  moreover have "cut_ok align (b - ?l) ss"
  proof (cases "?l \<le> b")
    case True
    then show ?thesis using Cons.prems by (intro Cons.IH [of "p + ?l"]) (simp_all add: Let_def)
  qed (simp add: cut_at_start)
  ultimately show ?case by simp
qed simp

fun hld_contents :: "hld_subevent list \<Rightarrow> cxx_error + hld_content list" where
  "hld_contents [] = Inr []"
| "hld_contents (sub # subs) =
     (case fst (hld_get_subevent_data_src sub) of
        Inl e \<Rightarrow> Inl e
      | Inr d \<Rightarrow> (case hld_contents subs of Inl e \<Rightarrow> Inl e | Inr ss \<Rightarrow> Inr ((hb_swapping sub, hb_header sub, d) # ss)))"

lemma contents_hold: "list_all2 sub_holds subs ss \<Longrightarrow> hld_contents subs = Inr ss"
  by (induction rule: list_all2_induct) (auto simp: sub_holds_def)

text \<open>Reading of a whole file: each event, its subevents and their data, up to the end of the input.\<close>

fun hld_read_all :: "'s input_buffer \<Rightarrow> nat \<Rightarrow> 's hld_source \<Rightarrow> ((hld_event_header \<times> hld_content list) list, 's hld_source) result" where
  "hld_read_all vt 0 src = (Inl Fuel, src)"
| "hld_read_all vt (Suc n) src =
     andthen (hld_get_event vt src) (\<lambda>got src.
       case got of
         None \<Rightarrow> (Inr [], src)
       | Some ev \<Rightarrow>
           (case hld_locate_subevents ev of
              (Inl e, _) \<Rightarrow> (Inl e, src)
            | (Inr _, ev) \<Rightarrow>
                (case hld_contents (case hv_subevents ev of None \<Rightarrow> [] | Some subs \<Rightarrow> subs) of
                   Inl e \<Rightarrow> (Inl e, src)
                 | Inr ss \<Rightarrow> andthen (hld_read_all vt n src) (\<lambda>r src. (Inr ((hv_header ev, ss) # r), src)))))"

lemma loop_header: "hld_locate_loop u ev = (r, ev') \<Longrightarrow> hv_header ev' = hv_header ev"
proof (induction u ev rule: hld_locate_loop.induct)
  case (1 u ev)
  from "1.prems" show ?case
    by (subst (asm) hld_locate_loop.simps) (auto simp: Let_def split: if_splits sum.splits prod.splits dest!: "1.IH" [rotated -1])
qed

lemma locate_header_kept: "hld_locate_subevents ev = (r, ev') \<Longrightarrow> hv_header ev' = hv_header ev"
  by (auto simp: hld_locate_subevents_def Let_def andthen_def split: if_splits sum.splits prod.splits dest: loop_header)

lemma wrapped_size: "a + u = 32 + n \<Longrightarrow> n < 2 ^ 64 \<Longrightarrow> wrap64 (sub64 a 32 + u) = n"
proof -
  assume a: "a + u = 32 + n" "n < 2 ^ 64"
  have "wrap64 (sub64 a 32 + u) = (a + (2 ^ 64 - 32) + u) mod 2 ^ 64" by (simp add: wrap64_def sub64_def mod_simps)
  also have "a + (2 ^ 64 - 32) + u = n + 2 ^ 64" using a(1) by simp
  finally show ?thesis using a(2) by simp
qed

context input_source
begin

definition hld_at :: "bytes \<Rightarrow> nat \<Rightarrow> nat \<Rightarrow> 's hld_source \<Rightarrow> bool" where
  "hld_at S w p src \<longleftrightarrow>
     (let s = ic_input (hd_input src) in invar s \<and> stream s = S \<and> window s = w \<and> released s \<le> int p \<and> int p \<le> mapped s \<and>
        ic_cur (hd_input src) = int p)"

lemma hld_map_range_at:
  assumes "hld_at S w p src" "int (p + n) \<le> released (ic_input (hd_input src)) + int w" "p + n \<le> length S"
  shows "\<exists>cs ic. hld_map_range vt n src = (Inr cs, src\<lparr>hd_input := ic\<rparr>) \<and> cs \<noteq> [] \<and> two_chunks cs \<and> (length cs = 2 \<longrightarrow> [] \<notin> set cs) \<and>
    (length cs = 2 \<longrightarrow> w dvd p + length (hd cs)) \<and>
    concat cs = slice p n S \<and> hld_at S w (p + n) (src\<lparr>hd_input := ic\<rparr>) \<and> released (ic_input ic) = released (ic_input (hd_input src))"
proof -
  let ?s = "ic_input (hd_input src)"
  have a: "invar ?s" "stream ?s = S" "window ?s = w" "released ?s \<le> int p" "ic_cur (hd_input src) = int p"
    using assms(1) by (simp_all add: hld_at_def Let_def)
  have "int (length S) < 2 ^ 62" using stream_length [OF a(1)] a(2) by simp
  then have off: "off_add (int p) n = int p + int n" using assms(3) by (intro off_add_small) auto
  from map_range_mapped [OF a(1), of "int p" "int p + int n"] a(2-4) assms(2,3) obtain cs s' where
    m: "map_range vt ?s (int p) (int p + int n) = (Inr cs, s')" "cs \<noteq> []" "two_chunks cs" "length cs = 2 \<longrightarrow> [] \<notin> set cs"
      "length cs = 2 \<longrightarrow> w dvd p + length (hd cs)" "concat cs = slice p n S" "invar s'" "stream s' = S" "released s' = released ?s" "window s' = w" "int p + int n \<le> mapped s'" by auto
  then show ?thesis using a off
    by (intro exI [of _ cs] exI [of _ "\<lparr>ic_input = s', ic_cur = int p + int n\<rparr>"]) (simp add: hld_map_range_def cont_map_range_def hld_at_def Let_def)
qed

lemma hld_read_as_map:
  "hld_read_range vt n src = andthen (hld_map_range vt n src) (\<lambda>chunks s. (Inr (if chunks = [] then None else Some (concat chunks)), s))"
  by (auto simp: hld_read_range_def hld_map_range_def cont_read_range_def cont_map_range_def read_range_def andthen_def Let_def split: prod.splits sum.splits)

lemma hld_read_at_end:
  assumes "hld_at S w (length S) src" "0 < n" "int (length S + n) \<le> released (ic_input (hd_input src)) + int w"
  shows "\<exists>src'. hld_read_range vt n src = (Inr None, src')"
proof -
  let ?s = "ic_input (hd_input src)"
  have a: "invar ?s" "stream ?s = S" "window ?s = w" "released ?s \<le> int (length S)" "ic_cur (hd_input src) = int (length S)"
    using assms(1) by (simp_all add: hld_at_def Let_def)
  have "int (length S) + int n < 2 ^ 63"
    using stream_length [OF a(1)] window_length [OF a(1)] a(2,3,4) assms(3) by simp
  from read_range_eof [OF a(1) a(4), of n] a(2,3) assms(2,3) this obtain s' where "read_range vt ?s (int (length S)) n = (Inr None, s')" by auto
  then show ?thesis using a(5) by (simp add: hld_read_range_def cont_read_range_def)
qed

definition hld_prepared :: "'s hld_source \<Rightarrow> 's hld_source" where
  "hld_prepared src = (let src = hld_set_event (\<lambda>ev. ev\<lparr>hv_status := 0, hv_subevents := None\<rparr>) src
     in src\<lparr>hd_input := cont_release_to vt (hd_input src) (ic_cur (hd_input src))\<rparr>)"

lemma hld_prepared_at:
  assumes "hld_at S w p src"
  shows "hld_at S w p (hld_prepared src)" "released (ic_input (hd_input (hld_prepared src))) = int p"
    "hv_status (hd_file_event (hld_prepared src)) = 0" "hv_subevents (hd_file_event (hld_prepared src)) = None"
  using assms release_to_moves [of "ic_input (hd_input src)" "int p"]
  by (simp_all add: hld_prepared_def hld_at_def Let_def hld_set_event_def cont_release_to_def)

lemma hld_get_event_at:
  assumes "hld_at S w p src" "drop p S = encode_hld_event (sw, h, ss) @ rest" "good_hld_event (sw, h, ss)" "length (encode_hld_event (sw, h, ss)) \<le> w"
  shows "\<exists>ev src'. hld_get_event vt src = (Inr (Some ev), src') \<and> hld_at S w (p + length (encode_hld_event (sw, h, ss))) src' \<and>
    fresh_hld ev \<and> hv_header ev = h \<and> hv_unused ev = hld_padding (decoding_align (hh_decoding h)) (hh_size h) \<and>
    concat (hv_chunks ev) = concat (map (encode_hld_subevent (decoding_align (hh_decoding h))) ss) \<and>
    (length (hv_chunks ev) = 2 \<longrightarrow> w dvd p + 32 + length (hd (hv_chunks ev)))"
proof -
  let ?p = "hld_prepared src" and ?b = "hld_mem sw (words_of_hld_event_header h)" and ?align = "decoding_align (hh_decoding h)"
  let ?unused = "hld_padding ?align (hh_size h)"
  define d where "d = concat (map (encode_hld_subevent ?align) ss)"
  have enc: "encode_hld_event (sw, h, ss) = ?b @ d" by (simp add: encode_hld_event_def d_def)
  have lb: "length ?b = 32" by (simp add: header_words)
  have g: "marker_ok (hh_decoding h)" "hld_check_header h = None" "unat (hh_size h) + ?unused = 32 + length d"
    using assms(3) lb by (simp_all add: good_hld_event_def Let_def enc)
  have al: "?align \<le> 4" using g(2) by (auto simp: hld_check_header_def split: if_splits)
  note prep = hld_prepared_at [OF assms(1)]
  have len: "p + 32 + length d \<le> length S" using arg_cong [OF assms(2), of length] lb unfolding enc by simp
  have w: "32 + length d \<le> w" using assms(4) lb unfolding enc by simp
  from hld_map_range_at [OF prep(1), of 32] len w prep(2) obtain cs ic where
    h: "hld_map_range vt 32 ?p = (Inr cs, ?p\<lparr>hd_input := ic\<rparr>)" "cs \<noteq> []" "concat cs = slice p 32 S" "hld_at S w (p + 32) (?p\<lparr>hd_input := ic\<rparr>)"
      "released (ic_input ic) = int p" by auto
  have "slice p 32 S = ?b" using assms(2) lb unfolding enc slice_def by simp
  then have read: "hld_read_range vt 32 ?p = (Inr (Some ?b), ?p\<lparr>hd_input := ic\<rparr>)" using h(1-3) by (simp add: hld_read_as_map)
  have sw: "swap_hld_header (words32 ?b) = Inr (sw, words_of_hld_event_header h)"
    using swap_header_mem [of "words_of_hld_event_header h" sw] by (simp only: header_words g(1))
  let ?src = "hld_set_event (\<lambda>ev. ev\<lparr>hv_header := h\<rparr>) (?p\<lparr>hd_input := ic\<rparr>)"
  have get: "hld_get_event vt src = hld_map_data vt h ?src"
    using read sw g(2) by (simp add: hld_get_event_def hld_prepared_def Let_def header_words)
  let ?src1 = "hld_set_event (\<lambda>ev. ev\<lparr>hv_chunks := [], hv_chunk_cur := [], hv_offset_cur := 0, hv_unused := ?unused\<rparr>) ?src"
  have small: "length d < 2 ^ 62" using len stream_length [of "ic_input (hd_input src)"] assms(1) by (simp add: hld_at_def Let_def)
  have size: "wrap64 (sub64 (unat (hh_size h)) 32 + ?unused) = length d" by (rule wrapped_size [OF g(3)]) (use small in simp)
  have at1: "hld_at S w (p + 32) ?src1" "released (ic_input (hd_input ?src1)) = int p"
    using h(4,5) by (simp_all add: hld_at_def hld_set_event_def)
  have fresh: "hv_status (hd_file_event ?src1) = 0" "hv_subevents (hd_file_event ?src1) = None" using prep(3,4) by (simp_all add: hld_set_event_def)
  show ?thesis
  proof (cases "d = []")
    case True
    have "hld_get_event vt src = (Inr (Some (hd_file_event ?src1)), ?src1)" unfolding get hld_map_data_def Let_def size using True by simp
    moreover have "fresh_hld (hd_file_event ?src1)" using fresh al by (simp add: fresh_hld_def hld_set_event_def)
    moreover have "length (encode_hld_event (sw, h, ss)) = 32" unfolding enc True using lb by simp
    moreover have "hv_header (hd_file_event ?src1) = h" "hv_unused (hd_file_event ?src1) = ?unused" "hv_chunks (hd_file_event ?src1) = []"
      by (simp_all add: hld_set_event_def)
    ultimately show ?thesis unfolding d_def [symmetric] using True at1(1) by (intro exI [of _ "hd_file_event ?src1"] exI [of _ ?src1]) simp
  next
    case False
    from hld_map_range_at [OF at1(1), of "length d"] len w at1(2) obtain cs2 ic2 where
      m: "hld_map_range vt (length d) ?src1 = (Inr cs2, ?src1\<lparr>hd_input := ic2\<rparr>)" "cs2 \<noteq> []" "two_chunks cs2" "length cs2 = 2 \<longrightarrow> [] \<notin> set cs2"
        "length cs2 = 2 \<longrightarrow> w dvd p + 32 + length (hd cs2)" "concat cs2 = slice (p + 32) (length d) S" "hld_at S w (p + 32 + length d) (?src1\<lparr>hd_input := ic2\<rparr>)" by auto
    have "slice (p + 32) (length d) S = d"
      using arg_cong [OF assms(2), of "\<lambda>x. take (length d) (drop 32 x)"] lb unfolding enc slice_def by (simp add: add.commute)
    then have c: "concat cs2 = d" using m(6) by simp
    have "[] \<notin> set cs2" using m(2-4) c False by (auto elim!: two_chunks_cases)
    let ?src2 = "hld_set_event (\<lambda>ev. ev\<lparr>hv_chunks := cs2, hv_chunk_cur := cs2\<rparr>) (?src1\<lparr>hd_input := ic2\<rparr>)"
    have "hld_get_event vt src = (Inr (Some (hd_file_event ?src2)), ?src2)"
      unfolding get hld_map_data_def Let_def size using False m(1,2) by simp
    moreover have "fresh_hld (hd_file_event ?src2)" using fresh al m(3) \<open>[] \<notin> set cs2\<close> by (simp add: fresh_hld_def hld_set_event_def)
    moreover have "hld_at S w (p + length (encode_hld_event (sw, h, ss))) ?src2" using m(7) lb enc by (simp add: hld_at_def hld_set_event_def add.assoc)
    ultimately show ?thesis unfolding d_def [symmetric] using c m(5) by (simp add: hld_set_event_def)
  qed
qed

end

lemma hld_event_located:
  assumes "good_hld_event (sw, h, ss)" "fresh_hld ev" "hv_header ev = h"
    and "hv_unused ev = hld_padding (decoding_align (hh_decoding h)) (hh_size h)"
    and "concat (hv_chunks ev) = concat (map (encode_hld_subevent (decoding_align (hh_decoding h))) ss)"
    and "length (hv_chunks ev) = 2 \<longrightarrow> w dvd p + length (hd (hv_chunks ev))" "paddings_whole w (decoding_align (hh_decoding h)) p ss"
  shows "\<exists>ev' subs. hld_locate_subevents ev = (Inr (), ev') \<and> hv_subevents ev' = Some subs \<and> hld_contents subs = Inr ss \<and> hv_header ev' = h"
proof -
  let ?align = "decoding_align (hh_decoding h)"
  have "two_chunks (hv_chunks ev)" using assms(2) by (simp add: fresh_hld_def)
  then have cut: "cut_ok ?align (length (concat (take 1 (hv_chunks ev)))) ss"
  proof (cases "length (hv_chunks ev) = 2")
    case True
    then have "concat (take 1 (hv_chunks ev)) = hd (hv_chunks ev)" by (cases "hv_chunks ev") auto
    then show ?thesis using assms(6,7) True cut_at_wrap by metis
  next
    case False
    then have "concat (take 1 (hv_chunks ev)) = concat (hv_chunks ev)"
      using \<open>two_chunks (hv_chunks ev)\<close> by (auto elim!: two_chunks_cases)
    then show ?thesis using assms(5) cut_at_end by simp
  qed
  have g: "list_all good_hld ss" "length ss \<le> 100"
    "hv_unused ev = 0 \<or> ss \<noteq> [] \<and> hv_unused ev = hld_padding ?align (hs_size (fst (snd (last ss))))"
    using assms(1,4) by (auto simp: good_hld_event_def Let_def)
  from locate_found [OF assms(2) _ assms(5) g(1) cut g(2,3)] assms(3) obtain ev' subs where
    "hld_locate_subevents ev = (Inr (), ev')" "hv_subevents ev' = Some subs" "list_all2 sub_holds subs ss" by auto
  then show ?thesis using contents_hold locate_header_kept assms(3) by blast
qed

context input_source
begin

lemma hld_read_file:
  assumes "32 \<le> w"
  shows "hld_at S w p src \<Longrightarrow> drop p S = concat (map encode_hld_event recs) \<Longrightarrow> list_all good_hld_event recs \<Longrightarrow> p \<le> length S \<Longrightarrow>
    list_all (\<lambda>r. length (encode_hld_event r) \<le> w) recs \<Longrightarrow> length recs < n \<Longrightarrow> file_paddings_whole w p recs \<Longrightarrow>
    \<exists>src'. hld_read_all vt n src = (Inr (map snd recs), src')"
proof (induction recs arbitrary: p src n)
  case Nil
  then have p: "p = length S" by simp
  obtain m where n: "n = Suc m" using Nil.prems(6) by (cases n) auto
  note prep = hld_prepared_at [OF Nil.prems(1)]
  from hld_read_at_end [of S w "hld_prepared src" 32] prep p assms obtain src' where "hld_read_range vt 32 (hld_prepared src) = (Inr None, src')" by auto
  then have "hld_get_event vt src = (Inr None, src')" by (simp add: hld_get_event_def hld_prepared_def Let_def)
  then show ?case by (simp add: n)
next
  case (Cons r recs)
  obtain sw h ss where r: "r = (sw, h, ss)" by (metis prod_cases3)
  obtain m where n: "n = Suc m" using Cons.prems(6) by (cases n) auto
  have d: "drop p S = encode_hld_event (sw, h, ss) @ concat (map encode_hld_event recs)" using Cons.prems(2) r by simp
  have g: "good_hld_event (sw, h, ss)" "length (encode_hld_event (sw, h, ss)) \<le> w" using Cons.prems(3,5) r by simp_all
  from hld_get_event_at [OF Cons.prems(1) d g] obtain ev src1 where
    1: "hld_get_event vt src = (Inr (Some ev), src1)" "hld_at S w (p + length (encode_hld_event (sw, h, ss))) src1" "fresh_hld ev" "hv_header ev = h"
      "hv_unused ev = hld_padding (decoding_align (hh_decoding h)) (hh_size h)"
      "concat (hv_chunks ev) = concat (map (encode_hld_subevent (decoding_align (hh_decoding h))) ss)"
      "length (hv_chunks ev) = 2 \<longrightarrow> w dvd p + 32 + length (hd (hv_chunks ev))" by auto
  have "paddings_whole w (decoding_align (hh_decoding h)) (p + 32) ss" using Cons.prems(7) r by simp
  from hld_event_located [OF g(1) 1(3-7) this] obtain ev' subs where
    2: "hld_locate_subevents ev = (Inr (), ev')" "hv_subevents ev' = Some subs" "hld_contents subs = Inr ss" "hv_header ev' = h" by auto
  have d': "drop (p + length (encode_hld_event (sw, h, ss))) S = concat (map encode_hld_event recs)"
    using arg_cong [OF d, of "drop (length (encode_hld_event (sw, h, ss)))"] by (simp add: add.commute)
  have "p + length (encode_hld_event (sw, h, ss)) \<le> length S" using arg_cong [OF d, of length] Cons.prems(4) by simp
  from Cons.IH [OF 1(2) d' _ this, of m] Cons.prems(3,5,6,7) n r obtain src' where "hld_read_all vt m src1 = (Inr (map snd recs), src')" by auto
  then show ?case using 1(1) 2 by (simp add: n r)
qed

end

text \<open>C9. A file of events is read back completely through the buffered input: all headers and all subevents with their data, in order, and then
  the end of the input, for each choice of the byte order of each header and with any alignment and padding. Assumed are: well-formed headers, at most
  100 subevents per event (with more, one is written outside of the array), a buffer that holds the longest event, and that the ring buffer does not wrap in the
  middle of the padding of a subevent (then the copy of its data overflows, as shown below); it may wrap anywhere else.\<close>

theorem hld_roundtrip:
  assumes "pipe_inv pb" "pb_done pb = 0" "hd_input src = \<lparr>ic_input = pb, ic_cur = 0\<rparr>" "pipe_stream pb = concat (map encode_hld_event recs)"
    and "list_all good_hld_event recs" "list_all (\<lambda>r. length (encode_hld_event r) \<le> pb_size pb) recs" "32 \<le> pb_size pb" "length recs < n"
    and "file_paddings_whole (pb_size pb) 0 recs"
  shows "\<exists>src'. hld_read_all pipe_vt n src = (Inr (map snd recs), src')"
proof -
  have "pipe.hld_at (pipe_stream pb) (pb_size pb) 0 src" using assms(1-3) by (simp add: pipe.hld_at_def Let_def)
  from pipe.hld_read_file [OF assms(7) this] assms(4,5,6,8,9) show ?thesis by simp
qed

section \<open>A cut in the padding\<close>

text \<open>C38. When the cut between the two chunks is in the middle of the padding of a subevent, the subevent is accepted although its data
  is contiguous, and asking for its data copies more than the subevent has.\<close>

theorem hld_padding_cut:
  assumes "good_hld (sw, h, d)" "align \<le> 4" "c @ e = encode_hld_subevent align (sw, h, d) @ rest" "e \<noteq> []"
    and "16 + length d < length c" "length c < length (encode_hld_subevent align (sw, h, d))"
  shows "\<exists>sub u cs off. hld_locate_subevent align [c, e] 0 = Inr (sub, u, cs, off) \<and>
    fst (hld_get_subevent_data_src sub) = Inl (Undef ''copy outside the defragment buffer'')"
proof -
  let ?u = "hld_padding align (hs_size h)"
  have g: "marker_ok (hs_decoding h)" "decoding_align (hs_decoding h) \<le> 3" "unat (hs_size h) = 16 + length d"
    using assms(1) by (simp_all add: good_hld_def)
  have p: "position [c, e] 0 (hld_mem sw (words_of_hld_subevent_header h) @ d @ replicate ?u 0 @ rest)"
    using assms(3-5) by (auto simp: position_def encode_hld_subevent_def)
  from locate_header [OF p _ g(1,2), of align] assms(5) have
    l: "hld_locate_subevent align [c, e] 0 = located sw h ?u [c, e] 16" by (auto simp: first_left_def)
  have n: "sub64 (unat (hs_size h)) 16 = length d" "wrap64 (length d + ?u) = length d + ?u"
    using g(3) padding_small [OF assms(2), of "hs_size h"] unat_u32 [of "hs_size h"] by (simp_all add: sub64_le)
  have t: "length (encode_hld_subevent align (sw, h, d)) = 16 + length d + ?u" by (simp add: encode_hld_subevent_def header_words)
  have r: "length d + ?u - (length c - 16) \<le> length e" using arg_cong [OF assms(3), of length] t assms(5) by simp
  let ?sub = "\<lparr>hb_header = h, hb_data = None, hb_frag = [c, e], hb_offset = 16, hb_swapping = sw\<rparr>"
  have "\<exists>u cs off. located sw h ?u [c, e] 16 = Inr (?sub, u, cs, off)"
    using n r assms(5,6) t by (simp add: located_def first_left_def Let_def)
  moreover have "fst (hld_get_subevent_data_src ?sub) = Inl (Undef ''copy outside the defragment buffer'')"
    using n assms(5) by (simp add: hld_get_subevent_data_src_def Let_def less_diff_conv)
  ultimately show ?thesis unfolding l by blast
qed

section \<open>Subevents smaller than their header\<close>

lemma unat_negative: "n \<noteq> 0 \<Longrightarrow> unat (- n) = 2 ^ 32 - unat n" for n :: u32
proof -
  assume "n \<noteq> 0"
  then have b: "0 < uint n" "uint n < 2 ^ 32" using uint_lt2p [of n] uint_ge_0 [of n] by (auto simp: less_le uint_0_iff)
  have "uint (- n) = (- uint n) mod 2 ^ 32" by (simp add: uint_word_ariths)
  also have "\<dots> = 2 ^ 32 - uint n" using b by (simp add: zmod_zminus1_eq_if)
  finally have "nat (uint (- n)) = nat (2 ^ 32) - nat (uint n)" using b by (simp only: nat_diff_distrib)
  then show ?thesis by simp
qed

text \<open>A subevent whose length is smaller than its header is accepted when the alignment is 16: the length of its data wraps and the
  padding wraps it back, the reader goes on after the header, and the data reaches past the end of the chunk.\<close>

lemma hld_small_size:
  assumes "0 < hs_size h" "hs_size h < 16" "marker_ok (hs_decoding h)" "decoding_align (hs_decoding h) \<le> 3"
    and "position cs off (hld_mem sw (words_of_hld_subevent_header h) @ rest)" "two_chunks cs" "rest \<noteq> []" "length rest < 2 ^ 63"
  shows "\<exists>sub u cs' off'. hld_locate_subevent 4 cs off = Inr (sub, u, cs', off') \<and> position cs' off' rest \<and>
    fst (hld_get_subevent_data_src sub) = Inl (Undef ''data after the end of the chunk'')"
proof -
  let ?n = "unat (hs_size h)"
  have n: "0 < ?n" "?n < 16" using assms(1,2) by (simp_all add: unat_gt_0 word_less_nat_alt)
  have u: "hld_padding 4 (hs_size h) = 16 - ?n"
  proof -
    have "unat (- hs_size h) = 2 ^ 32 - ?n" using assms(1) by (intro unat_negative) auto
    also have "\<dots> = (16 - ?n) + 16 * (2 ^ 28 - 1)" using n by simp
    finally have "unat (- hs_size h) mod 16 = ((16 - ?n) + 16 * (2 ^ 28 - 1)) mod 16" by (rule arg_cong)
    also have "\<dots> = (16 - ?n) mod 16" by (rule mod_mult_self2)
    finally show ?thesis using n by (simp add: hld_padding_def)
  qed
  have dl: "sub64 ?n 16 = 2 ^ 64 - (16 - ?n)" using n by (simp add: sub64_gr)
  have z: "wrap64 (2 ^ 64 - (16 - ?n) + (16 - ?n)) = 0" using n by (simp add: wrap64_def)
  from locate_header [OF assms(5,6,3,4), of 4] obtain cs1 off1 where
    l: "hld_locate_subevent 4 cs off = located sw h (16 - ?n) cs1 off1" "position cs1 off1 rest" unfolding u by auto
  obtain c ds where c: "cs1 = c # ds" using position_Nil [OF l(2)] assms(7) by (cases cs1) auto
  have o: "off1 < length c" "length (drop off1 c) \<le> length rest" using l(2) c by (auto simp: position_def)
  let ?sub = "\<lparr>hb_header = h, hb_data = Some (drop off1 c), hb_frag = [], hb_offset = 0, hb_swapping = sw\<rparr>"
  have "located sw h (16 - ?n) cs1 off1 = Inr (?sub, 16 - ?n, cs1, off1)"
    using z dl n o c unfolding located_def Let_def dl z by (simp add: first_left_def)
  moreover have "length (drop off1 c) < 2 ^ 64 - (16 - ?n)" using o(2) assms(8) n by simp
  then have "fst (hld_get_subevent_data_src ?sub) = Inl (Undef ''data after the end of the chunk'')"
    by (simp only: hld_get_subevent_data_src_def Let_def dl hld_subevent.simps option.case) simp
  ultimately show ?thesis using l by auto
qed

section \<open>Examples\<close>

definition hld_sub_example :: hld_subevent_header where
  "hld_sub_example = \<lparr>hs_size = 20, hs_decoding = 0x00020001, hs_id = 7, hs_trig_no = 1\<rparr>"

definition hld_event_header_example :: hld_event_header where
  "hld_event_header_example = \<lparr>hh_size = 72, hh_decoding = 0x00020001, hh_id = 3, hh_seq_no = 1, hh_date = 0, hh_time = 0, hh_file_no = 0, hh_pad = 0\<rparr>"

definition hld_example :: hld_record where
  "hld_example = (True, hld_event_header_example, [(False, hld_sub_example, [1, 2, 3, 4]), (True, hld_sub_example\<lparr>hs_size := 17\<rparr>, [5])])"

lemma hld_sub_example_facts:
  "marker_ok 0x00020001" "decoding_align 0x00020001 = 2" "unat (hs_size hld_sub_example) = 20" "hs_decoding hld_sub_example = 0x00020001"
  "hld_padding 2 (hs_size hld_sub_example) = 0" "hld_padding 2 17 = 3"
  by (simp_all add: marker_ok_def decoding_align_def hld_sub_example_def hld_padding_def unat_negative drop_bit_eq_div)

lemma hld_example_good: "good_hld_event hld_example" "length (encode_hld_event hld_example) = 72"
proof -
  show l: "length (encode_hld_event hld_example) = 72"
    by (simp add: hld_example_def encode_hld_event_def encode_hld_subevent_def header_words hld_event_header_example_def hld_sub_example_facts)
  have "hld_check_header hld_event_header_example = None"
    by (simp add: hld_check_header_def hld_event_header_example_def hld_sub_example_facts)
  moreover have "hld_padding 2 (hh_size hld_event_header_example) = 0" by (simp add: hld_padding_def hld_event_header_example_def unat_negative)
  moreover have "hh_decoding hld_event_header_example = 0x00020001" "unat (hh_size hld_event_header_example) = 72" by (simp_all add: hld_event_header_example_def)
  ultimately show "good_hld_event hld_example"
    using l by (simp add: good_hld_event_def hld_example_def Let_def good_hld_def hld_sub_example_facts)
qed

lemma hld_example_whole: "file_paddings_whole 128 0 [hld_example, hld_example]"
proof -
  have "length (encode_hld_subevent 2 (sw, hld_sub_example, [a, b, c, d])) = 20" "length (encode_hld_subevent 2 (sw, hld_sub_example\<lparr>hs_size := 17\<rparr>, [e])) = 20"
    for sw a b c d e by (simp_all add: encode_hld_subevent_def header_words hld_sub_example_facts)
  moreover have "decoding_align (hh_decoding hld_event_header_example) = 2" by (simp add: hld_event_header_example_def hld_sub_example_facts)
  moreover have "\<forall>c\<in>{70..<72 :: nat}. \<not> 128 dvd c" "\<forall>c\<in>{142..<144 :: nat}. \<not> 128 dvd c" by (auto simp: dvd_def)
  ultimately show ?thesis using hld_example_good(2) by (simp add: hld_example_def Let_def list_all_iff set_upt)
qed

definition hld_event_example :: "buf_chunk list \<Rightarrow> hld_event" where
  "hld_event_example cs = \<lparr>hv_header = hld_event_header_example, hv_status = 0, hv_unused = 0, hv_subevents = None, hv_chunks = cs, hv_chunk_cur = cs,
     hv_offset_cur = 0\<rparr>"

lemma hld_event_example_fresh:
  "two_chunks cs \<Longrightarrow> [] \<notin> set cs \<Longrightarrow> fresh_hld (hld_event_example cs)" "decoding_align (hh_decoding (hv_header (hld_event_example cs))) = 2"
  "hv_chunks (hld_event_example cs) = cs" "hv_unused (hld_event_example cs) = 0"
  by (simp_all add: fresh_hld_def hld_event_example_def hld_event_header_example_def hld_sub_example_facts)

lemma hld_sub_example_good: "length d = 4 \<Longrightarrow> good_hld (sw, hld_sub_example, d)" "length d = 4 \<Longrightarrow> length (encode_hld_subevent 2 (sw, hld_sub_example, d)) = 20"
  by (simp_all add: good_hld_def hld_sub_example_facts encode_hld_subevent_def header_words)

lemma hld_sub_example_uncut: "list_all (\<lambda>(_, sh, _). sh = hld_sub_example) ss \<Longrightarrow> cut_ok 2 b ss"
  by (rule cut_anywhere) (auto simp: list_all_iff hld_sub_example_facts)

theorem hld_roundtrip_witness:
  "\<exists>src'. hld_read_all pipe_vt 3 \<lparr>hd_input = \<lparr>ic_input = pipe_on 7 (concat (map encode_hld_event [hld_example, hld_example])), ic_cur = 0\<rparr>,
       hd_last_seq_no = 0, hd_file_event = hld_event_example []\<rparr> =
     (Inr [snd hld_example, snd hld_example], src')"
proof -
  let ?recs = "[hld_example, hld_example]"
  let ?pb = "pipe_on 7 (concat (map encode_hld_event ?recs))"
  have "pipe_inv ?pb" by (rule pipe_on_inv) (simp_all add: hld_example_good)
  from hld_roundtrip [OF this, of "\<lparr>hd_input = \<lparr>ic_input = ?pb, ic_cur = 0\<rparr>, hd_last_seq_no = 0, hd_file_event = hld_event_example []\<rparr>" ?recs 3]
  show ?thesis using hld_example_whole by (simp add: hld_example_good)
qed

theorem hld_subevents_found_witness:
  "\<exists>ev' subs. hld_locate_subevents (hld_event_example
       [take 30 (concat (map (encode_hld_subevent 2) [(False, hld_sub_example, [1, 2, 3, 4]), (True, hld_sub_example, [5, 6, 7, 8])])),
        drop 30 (concat (map (encode_hld_subevent 2) [(False, hld_sub_example, [1, 2, 3, 4]), (True, hld_sub_example, [5, 6, 7, 8])]))]) = (Inr (), ev') \<and>
     hv_subevents ev' = Some subs \<and> list_all2 sub_holds subs [(False, hld_sub_example, [1, 2, 3, 4]), (True, hld_sub_example, [5, 6, 7, 8])]"
proof -
  let ?ss = "[(False, hld_sub_example, [1, 2, 3, 4]), (True, hld_sub_example, [5, 6, 7, 8])] :: hld_content list"
  define b where "b = concat (map (encode_hld_subevent 2) ?ss)"
  have l: "length b = 40" by (simp add: b_def hld_sub_example_good)
  let ?ev = "hld_event_example [take 30 b, drop 30 b]"
  have f: "fresh_hld ?ev" using l by (intro hld_event_example_fresh) auto
  have "concat (hv_chunks ?ev) = concat (map (encode_hld_subevent 2) ?ss)" unfolding b_def [symmetric] by (simp add: hld_event_example_fresh)
  from hld_subevents_found [OF f hld_event_example_fresh(2) [symmetric] this] show ?thesis
    unfolding b_def [symmetric] by (simp add: l hld_sub_example_good hld_sub_example_uncut hld_event_example_fresh)
qed

theorem hld_too_many_witness:
  "fst (hld_locate_subevents (hld_event_example [concat (map (encode_hld_subevent 2) (replicate 101 (False, hld_sub_example, [1, 2, 3, 4])))])) =
     Inl (Undef ''subevent outside the allocated array'')"
proof -
  define ss :: "hld_content list" where "ss = replicate 101 (False, hld_sub_example, [1, 2, 3, 4])"
  have s: "list_all good_hld ss" "length ss = 101" "list_all (\<lambda>(_, sh, _). sh = hld_sub_example) ss"
    by (simp_all add: ss_def list_all_iff hld_sub_example_good)
  let ?ev = "hld_event_example [concat (map (encode_hld_subevent 2) ss)]"
  have "concat (map (encode_hld_subevent 2) ss) \<noteq> []"
  proof
    assume "concat (map (encode_hld_subevent 2) ss) = []"
    then have "encode_hld_subevent 2 (False, hld_sub_example, [1, 2, 3, 4]) = []" unfolding concat_eq_Nil_conv using s(2) by (auto simp: ss_def)
    then show False using hld_sub_example_good(2) [of "[1, 2, 3, 4]" False] by simp
  qed
  then have "fresh_hld ?ev" by (intro hld_event_example_fresh) auto
  from hld_too_many [OF this hld_event_example_fresh(2) [symmetric] _ s(1)] s hld_sub_example_uncut [OF s(3)] show ?thesis
    unfolding ss_def [symmetric] by (simp add: hld_event_example_fresh)
qed

theorem hld_padding_cut_witness:
  "\<exists>sub u cs off. hld_locate_subevent 2 [take 18 (encode_hld_subevent 2 (False, hld_sub_example\<lparr>hs_size := 17\<rparr>, [9])),
        drop 18 (encode_hld_subevent 2 (False, hld_sub_example\<lparr>hs_size := 17\<rparr>, [9]))] 0 = Inr (sub, u, cs, off) \<and>
     fst (hld_get_subevent_data_src sub) = Inl (Undef ''copy outside the defragment buffer'')"
proof -
  let ?h = "hld_sub_example\<lparr>hs_size := 17\<rparr>"
  define b where "b = encode_hld_subevent 2 (False, ?h, [9])"
  have "hld_padding 2 17 = 3" by (simp add: hld_padding_def unat_negative)
  then have l: "length b = 20" by (simp add: b_def encode_hld_subevent_def header_words)
  have g: "good_hld (False, ?h, [9])" using hld_sub_example_facts by (simp add: good_hld_def)
  from hld_padding_cut [OF g, of 2 "take 18 b" "drop 18 b" "[]"] l show ?thesis unfolding b_def [symmetric] by simp
qed

lemma hld_small_size_witness:
  "\<exists>sub u cs' off'. hld_locate_subevent 4 [hld_mem False (words_of_hld_subevent_header (hld_sub_example\<lparr>hs_size := 5\<rparr>)) @ [1, 2, 3]] 0 = Inr (sub, u, cs', off') \<and>
     fst (hld_get_subevent_data_src sub) = Inl (Undef ''data after the end of the chunk'')"
proof -
  let ?h = "hld_sub_example\<lparr>hs_size := 5\<rparr>"
  let ?c = "hld_mem False (words_of_hld_subevent_header ?h) @ [1, 2, 3]"
  have "position [?c] 0 ?c" by (simp add: position_def)
  moreover have "0 < hs_size ?h" "hs_size ?h < 16" by simp_all
  ultimately show ?thesis using hld_small_size [of ?h "[?c]" 0 False "[1, 2, 3]"] hld_sub_example_facts by auto
qed

end
