(* ===== verification/Pax_Input.thy ===== *)
theory Pax_Input
  imports Pipe_Buffer
begin

text \<open>
  The reader of PAX records, \<^verbatim>\<open>file_input/pax_input.cc\<close>, \<^verbatim>\<open>pax_input.hh\<close> and \<^verbatim>\<open>pax_event.hh\<close>, and the swapping of headers,
  \<^verbatim>\<open>eventloop/swapping.hh\<close>: \<^verbatim>\<open>read_record\<close>, \<^verbatim>\<open>skip_record\<close>, \<^verbatim>\<open>get_event\<close> and \<^verbatim>\<open>get_data_src\<close>, in the build without threads. A file is a
  sequence of records of at most 32764 bytes, a record a sequence of events after what is left of an event of the record before. What is
  printed on request is left out. The search for an event takes fuel: \<^verbatim>\<open>Pax_Events\<close> shows that the number of bytes of the input is enough.
\<close>

section \<open>Headers\<close>

record pax_record_header =
  pr_length :: u16
  pr_type :: u16
  pr_seqno :: u16
  pr_off_nonfrag :: u16

record pax_event_header =
  px_length :: u16
  px_type :: u16

abbreviation (input) sizeof_pax_record_header :: nat where "sizeof_pax_record_header \<equiv> 8"
abbreviation (input) sizeof_pax_event_header :: nat where "sizeof_pax_event_header \<equiv> 4"
abbreviation (input) PAX_RECORD_MAX_LENGTH :: u16 where "PAX_RECORD_MAX_LENGTH \<equiv> 32764"
abbreviation (input) PAX_RECORD_TYPE_STD :: u16 where "PAX_RECORD_TYPE_STD \<equiv> 0x0001"
abbreviation (input) PAX_RECORD_TYPE_STD_SWAP :: u16 where "PAX_RECORD_TYPE_STD_SWAP \<equiv> 0x0100"

definition pax_record_header_of_mem :: "bytes \<Rightarrow> pax_record_header" where
  "pax_record_header_of_mem b =
     \<lparr>pr_length = u16_of (b ! 0) (b ! 1), pr_type = u16_of (b ! 2) (b ! 3), pr_seqno = u16_of (b ! 4) (b ! 5),
       pr_off_nonfrag = u16_of (b ! 6) (b ! 7)\<rparr>"

definition pax_event_header_of_mem :: "bytes \<Rightarrow> pax_event_header" where
  "pax_event_header_of_mem b = \<lparr>px_length = u16_of (b ! 0) (b ! 1), px_type = u16_of (b ! 2) (b ! 3)\<rparr>"

text \<open>
  \<^verbatim>\<open>byteswap<T>\<close> of \<^verbatim>\<open>swapping.hh\<close> on an object: it visits as many words as there are elements of type \<open>T\<close> (of \<open>sz\<close> bytes), but its
  pointer is to words of 4 bytes whatever \<open>T\<close> is.
\<close>

definition byteswap :: "nat \<Rightarrow> bytes \<Rightarrow> cxx_error + bytes" where
  "byteswap sz b =
     (if length b mod sz \<noteq> 0 then Inl (Assert ''len % sizeof(T) == 0'')
      else if 4 * (length b div sz) > length b then Inl (Undef ''byteswap after the end of the object'')
      else Inr (swap32 (take (4 * (length b div sz)) b) @ drop (4 * (length b div sz)) b))"

section \<open>Records\<close>

record pax_event =
  pe_header :: pax_event_header
  pe_data :: "bytes option"
  pe_chunks :: "buf_chunk list"
  pe_swapping :: bool

record 's pax_source =
  pa_input :: "'s input_buffer_cont"
  pa_record_header :: pax_record_header
  pa_swapping :: bool
  pa_last_seq_no :: int
  pa_chunks :: "buf_chunk list"
  pa_file_event :: pax_event
  pa_warnings :: "string list"

definition pax_new_file :: "'s pax_source \<Rightarrow> 's pax_source" where
  "pax_new_file src = src\<lparr>pa_chunks := []\<rparr>"

text \<open>The header of a record, in the order of the host; a swapped header is recognised by its type.\<close>

definition pax_swap_record :: "bytes \<Rightarrow> 's pax_source \<Rightarrow> (unit, 's pax_source) result" where
  "pax_swap_record b src =
     (let header = pax_record_header_of_mem b;
          src = src\<lparr>pa_record_header := header, pa_swapping := False\<rparr>
      in if pr_type header = PAX_RECORD_TYPE_STD then (Inr (), src)
         else if pr_type header = PAX_RECORD_TYPE_STD_SWAP then
           (let src = src\<lparr>pa_swapping := True\<rparr> in
            case byteswap 2 b of
              Inl e \<Rightarrow> (Inl e, src)
            | Inr b \<Rightarrow> (Inr (), src\<lparr>pa_record_header := pax_record_header_of_mem b\<rparr>))
         else (Inl (Err ''Unknown/unhandled record type''), src))"

definition pax_check_seqno :: "'s pax_source \<Rightarrow> 's pax_source" where
  "pax_check_seqno src =
     (let seqno = pr_seqno (pa_record_header src);
          src = (if seqno \<noteq> of_int (pa_last_seq_no src + 1)
                 then src\<lparr>pa_warnings := pa_warnings src @ [''Record sequence number mismatch'']\<rparr> else src)
      in src\<lparr>pa_last_seq_no := uint seqno\<rparr>)"

definition pax_map_data :: "'s input_buffer \<Rightarrow> 's pax_source \<Rightarrow> (unit, 's pax_source) result" where
  "pax_map_data vt src =
     (let src = src\<lparr>pa_chunks := []\<rparr>;
          data_size = sub64 (unat (pr_length (pa_record_header src))) sizeof_pax_record_header
      in case cont_map_range vt (pa_input src) data_size of
           (Inl e, ic) \<Rightarrow> (Inl e, src\<lparr>pa_input := ic\<rparr>)
         | (Inr chunks, ic) \<Rightarrow>
             if chunks = [] then (Inl (Err ''Error while reading record data.''), src\<lparr>pa_input := ic\<rparr>)
             else (Inr (), src\<lparr>pa_input := ic, pa_chunks := chunks\<rparr>))"

text \<open>The rest of an event of the record before is passed over.\<close>

definition pax_skip_fragment :: "'s pax_source \<Rightarrow> (bool, 's pax_source) result" where
  "pax_skip_fragment src =
     (let header = pa_record_header src in
      if pr_off_nonfrag header > pr_length header then (Inl (Err ''Non-frag pointer outside record (too large)''), src)
      else if unat (pr_off_nonfrag header) < sizeof_pax_record_header then
        (Inl (Err ''Non-frag pointer outside record (too small)''), src)
      else
        case skip_range (pa_chunks src) (unat (pr_off_nonfrag header) - sizeof_pax_record_header) of
          (ok, cs) \<Rightarrow>
            let src = src\<lparr>pa_chunks := cs\<rparr>
            in if ok then (Inr True, src) else (Inl (Err ''Internal error.''), src))"

definition pax_map_record :: "'s input_buffer \<Rightarrow> 's pax_source \<Rightarrow> (bool, 's pax_source) result" where
  "pax_map_record vt src =
     (if pr_length (pa_record_header src) > PAX_RECORD_MAX_LENGTH then (Inl (Err ''Record length too large.''), src)
      else andthen (pax_map_data vt (pax_check_seqno src)) (\<lambda>_ src. pax_skip_fragment src))"

lemma pax_check_seqno_simps [simp]:
  "pa_input (pax_check_seqno src) = pa_input src" "pa_record_header (pax_check_seqno src) = pa_record_header src"
  "pa_swapping (pax_check_seqno src) = pa_swapping src" "pa_chunks (pax_check_seqno src) = pa_chunks src"
  by (simp_all add: pax_check_seqno_def Let_def)

definition pax_read_record :: "'s input_buffer \<Rightarrow> 's pax_source \<Rightarrow> (bool, 's pax_source) result" where
  "pax_read_record vt src =
     (let ic = cont_release_to vt (pa_input src) (ic_cur (pa_input src));
          (r, ic) = cont_read_range vt ic sizeof_pax_record_header;
          src = src\<lparr>pa_input := ic\<rparr>
      in case r of
           Inl e \<Rightarrow> (Inl e, src)
         | Inr None \<Rightarrow> (Inr False, src)
         | Inr (Some b) \<Rightarrow> andthen (pax_swap_record b src) (\<lambda>_ src. pax_map_record vt src))"

definition pax_skip_record :: "'s pax_source \<Rightarrow> (bool, 's pax_source) result" where
  "pax_skip_record src = (Inr True, src\<lparr>pa_chunks := []\<rparr>)"

section \<open>Events\<close>

definition pax_set_header :: "pax_event_header \<Rightarrow> 's pax_source \<Rightarrow> 's pax_source" where
  "pax_set_header h src = src\<lparr>pa_file_event := (pa_file_event src)\<lparr>pe_header := h\<rparr>\<rparr>"

definition pax_swap_event :: "bytes \<Rightarrow> bool \<Rightarrow> cxx_error + pax_event_header" where
  "pax_swap_event b swapping =
     (if swapping then case byteswap 2 b of Inl e \<Rightarrow> Inl e | Inr b \<Rightarrow> Inr (pax_event_header_of_mem b)
      else Inr (pax_event_header_of_mem b))"

text \<open>The data of the event after its header, as a pointer when it is in one chunk.\<close>

definition pax_take_data :: "pax_event_header \<Rightarrow> 's pax_source \<Rightarrow> (pax_event option, 's pax_source) result" where
  "pax_take_data h src =
     (if unat (px_length h) < sizeof_pax_event_header then (Inl (Err ''Event smaller than header.''), src)
      else
        case get_range_cont (pa_chunks src) (unat (px_length h) - sizeof_pax_event_header) of
          (None, cs) \<Rightarrow> (Inl (Err ''Event larger than record.  (spanned events not supported).''), src\<lparr>pa_chunks := cs\<rparr>)
        | (Some got, cs) \<Rightarrow>
            let ev = (pa_file_event src)
                  \<lparr>pe_data := (case got of Inl d \<Rightarrow> Some d | Inr _ \<Rightarrow> None),
                   pe_chunks := (case got of Inl d \<Rightarrow> [d] | Inr (c, d) \<Rightarrow> [c, d]), pe_swapping := pa_swapping src\<rparr>
            in (Inr (Some ev), src\<lparr>pa_chunks := cs, pa_file_event := ev\<rparr>))"

fun pax_get_event :: "'s input_buffer \<Rightarrow> nat \<Rightarrow> 's pax_source \<Rightarrow> (pax_event option, 's pax_source) result" where
  "pax_get_event vt 0 src = (Inl Fuel, src)"
| "pax_get_event vt (Suc fuel) src =
     (if pa_chunks src = [] then
        andthen (pax_read_record vt src) (\<lambda>ok src. if \<not> ok then (Inr None, src) else pax_get_event vt fuel src)
      else
        case get_range (pa_chunks src) sizeof_pax_event_header of
          (None, cs) \<Rightarrow>
            let src = src\<lparr>pa_chunks := cs\<rparr> in
            if cs = [] then pax_get_event vt fuel src else (Inl (Err ''Failure reading event header.''), src)
        | (Some b, cs) \<Rightarrow>
            let src = src\<lparr>pa_chunks := cs\<rparr> in
            (case pax_swap_event b (pa_swapping src) of
               Inl e \<Rightarrow> (Inl e, src)
             | Inr h \<Rightarrow>
                 let src = pax_set_header h src in
                 if px_length h = 0 then pax_get_event vt fuel (src\<lparr>pa_chunks := []\<rparr>)
                 else pax_take_data h src))"

definition pax_get_data_src :: "pax_event \<Rightarrow> bytes \<times> pax_event" where
  "pax_get_data_src ev =
     (case pe_data ev of
        Some d \<Rightarrow> (d, ev)
      | None \<Rightarrow> let d = concat (pe_chunks ev) in (d, ev\<lparr>pe_data := Some d, pe_chunks := d # tl (pe_chunks ev)\<rparr>))"

section \<open>A file of records\<close>

type_synonym pax_content = "u16 \<times> bytes"
type_synonym pax_record = "u16 \<times> bytes \<times> pax_content list"

definition encode_pax_event :: "pax_content \<Rightarrow> bytes" where
  "encode_pax_event = (\<lambda>(t, d). bytes16 (of_nat (4 + length d)) @ bytes16 t @ d)"

text \<open>A record starts with what is left of an event of the record before; it is skipped.\<close>

definition encode_pax_record :: "pax_record \<Rightarrow> bytes" where
  "encode_pax_record = (\<lambda>(seqno, tail, evs).
     bytes16 (of_nat (8 + length tail + length (concat (map encode_pax_event evs)))) @ bytes16 PAX_RECORD_TYPE_STD @ bytes16 seqno @
     bytes16 (of_nat (8 + length tail)) @ tail @ concat (map encode_pax_event evs))"

text \<open>A record has at most 32764 bytes, and its last event has data: an event without data is refused at the end of a record.\<close>

definition good_pax_record :: "pax_record \<Rightarrow> bool" where
  "good_pax_record = (\<lambda>(seqno, tail, evs).
     length (encode_pax_record (seqno, tail, evs)) \<le> 32764 \<and> (evs \<noteq> [] \<longrightarrow> snd (last evs) \<noteq> []))"

definition chunks_ok :: "buf_chunk list \<Rightarrow> bool" where
  "chunks_ok cs \<longleftrightarrow> two_chunks cs \<and> (length cs = 2 \<longrightarrow> hd cs \<noteq> [])"

lemma chunks_ok_rest:
  assumes "chunks_ok cs"
  shows "chunks_ok (snd (get_range cs n))" "chunks_ok (snd (get_range_cont cs n))" "chunks_ok (snd (skip_range cs n))"
proof -
  from assms have "two_chunks cs" by (simp add: chunks_ok_def)
  then show "chunks_ok (snd (get_range cs n))" "chunks_ok (snd (get_range_cont cs n))" "chunks_ok (snd (skip_range cs n))"
    by (cases rule: two_chunks_cases; auto simp: chunks_ok_def get_range_def get_range_cont_def skip_range_def Let_def)+
qed

lemma unat_of_nat16: "n < 2 ^ 16 \<Longrightarrow> unat (of_nat n :: u16) = n"
  by (simp add: unat_of_nat)

lemma record_header_mem:
  "pax_record_header_of_mem (bytes16 a @ bytes16 b @ bytes16 c @ bytes16 d) = \<lparr>pr_length = a, pr_type = b, pr_seqno = c, pr_off_nonfrag = d\<rparr>"
  "pax_event_header_of_mem (bytes16 a @ bytes16 b) = \<lparr>px_length = a, px_type = b\<rparr>"
  by (simp_all add: pax_record_header_of_mem_def pax_event_header_of_mem_def bytes16_def)

definition pax_event_of :: "pax_event \<Rightarrow> pax_content" where
  "pax_event_of ev = (px_type (pe_header ev), fst (pax_get_data_src ev))"

lemma pax_take_event:
  assumes "chunks_ok (pa_chunks src)" "concat (pa_chunks src) = encode_pax_event (t, d) @ rest" "\<not> pa_swapping src" "d \<noteq> [] \<or> rest \<noteq> []" "4 + length d < 2 ^ 16"
  shows "\<exists>ev src'. pax_get_event vt (Suc fuel) src = (Inr (Some ev), src') \<and> pax_event_of ev = (t, d) \<and> pa_input src' = pa_input src \<and>
    chunks_ok (pa_chunks src') \<and> concat (pa_chunks src') = rest \<and> \<not> pa_swapping src'"
proof -
  let ?h = "bytes16 (of_nat (4 + length d)) @ bytes16 t"
  have e: "concat (pa_chunks src) = ?h @ d @ rest" using assms(2) by (simp add: encode_pax_event_def)
  have two: "two_chunks (pa_chunks src)" and ne: "pa_chunks src \<noteq> []" using assms(1,4) e by (auto simp: chunks_ok_def bytes16_def)
  from get_range_Some [OF two ne, of 4] e obtain cs where
    g: "get_range (pa_chunks src) 4 = (Some ?h, cs)" "concat cs = d @ rest" "length cs \<le> length (pa_chunks src)" by auto
  have ok: "chunks_ok cs" using chunks_ok_rest(1) [OF assms(1), of 4] g(1) by simp
  then have two': "two_chunks cs" and ne': "cs \<noteq> []" using g(2) assms(4) by (auto simp: chunks_ok_def)
  have "fst (get_range_chunks cs (length d)) \<noteq> None" using get_range_chunks_None [OF two', of "length d"] ne' g(2) by simp
  then obtain ds cs' where c: "get_range_chunks cs (length d) = (Some ds, cs')" by (cases "get_range_chunks cs (length d)") auto
  note r = get_range_chunks_SomeD [OF two' c]
  from get_range_cont_chunks [OF two', of "length d"] c obtain got where
    k: "get_range_cont cs (length d) = (Some got, cs')" "cont_bytes got = concat ds" by (cases "get_range_cont cs (length d)") auto
  have ok': "chunks_ok cs'" using chunks_ok_rest(2) [OF ok, of "length d"] k(1) by simp
  have data: "cont_bytes got = d" "concat cs' = rest" using k(2) r g(2) by simp_all
  let ?hd = "\<lparr>px_length = of_nat (4 + length d), px_type = t\<rparr> :: pax_event_header"
  have len: "unat (px_length ?hd) = 4 + length d" using unat_of_nat16 [OF assms(5)] by (simp only: pax_event_header.simps)
  then have nz: "px_length ?hd \<noteq> 0" by (metis add_is_0 unat_0 zero_neq_numeral)
  let ?src = "pax_set_header ?hd (src\<lparr>pa_chunks := cs\<rparr>)"
  have get: "pax_get_event vt (Suc fuel) src = pax_take_data ?hd ?src"
    using ne g(1) assms(3) nz by (simp add: pax_swap_event_def record_header_mem)
  have "\<not> unat (px_length ?hd) < 4" "unat (px_length ?hd) - 4 = length d" using len by simp_all
  then show ?thesis unfolding get pax_take_data_def using k(1) data ok' assms(3)
    by (auto simp: pax_set_header_def pax_event_of_def pax_get_data_src_def cont_bytes_def Let_def split: sum.splits prod.splits)
qed

lemma no_event_left:
  assumes "chunks_ok (pa_chunks src)" "concat (pa_chunks src) = []" "pa_chunks src \<noteq> []"
  shows "pax_get_event vt (Suc fuel) src = pax_get_event vt fuel (src\<lparr>pa_chunks := []\<rparr>)"
proof -
  have "two_chunks (pa_chunks src)" using assms(1) by (simp add: chunks_ok_def)
  then have "pa_chunks src = [[]]" using assms by (cases rule: two_chunks_cases) (auto simp: chunks_ok_def)
  then show ?thesis by (simp add: get_range_def)
qed

context input_source
begin

lemma pax_read_record_at:
  assumes "cont_at S w p (pa_input src)" "drop p S = encode_pax_record (seqno, tail, evs) @ rest" "good_pax_record (seqno, tail, evs)"
    and "length (encode_pax_record (seqno, tail, evs)) \<le> w"
  shows "\<exists>src'. pax_read_record vt src = (Inr True, src') \<and> cont_at S w (p + length (encode_pax_record (seqno, tail, evs))) (pa_input src') \<and>
    chunks_ok (pa_chunks src') \<and> concat (pa_chunks src') = concat (map encode_pax_event evs) \<and> \<not> pa_swapping src'"
proof -
  define d where "d = concat (map encode_pax_event evs)"
  let ?n = "8 + length tail + length d"
  define hb where "hb = bytes16 (of_nat ?n) @ bytes16 1 @ bytes16 seqno @ bytes16 (of_nat (8 + length tail))"
  have enc: "encode_pax_record (seqno, tail, evs) = hb @ tail @ d" by (simp add: encode_pax_record_def d_def hb_def)
  have lh: "length hb = 8" by (simp add: hb_def)
  have n: "?n \<le> 32764" "length (encode_pax_record (seqno, tail, evs)) = ?n" using assms(3) lh unfolding good_pax_record_def by (simp_all add: enc)
  have len: "p + ?n \<le> length S" using arg_cong [OF assms(2), of length] lh unfolding enc by simp
  note rel = cont_release_at [OF assms(1)]
  let ?ic = "cont_release_to vt (pa_input src) (ic_cur (pa_input src))"
  from cont_read_at [OF cont_at_pos [OF rel(1)], of 8] rel(2) len assms(4) n(2) obtain ic1 where
    r: "cont_read_range vt ?ic 8 = (Inr (Some (slice p 8 S)), ic1)" "cont_at S w (p + 8) ic1" "released (ic_input ic1) = int p" by auto
  have s1: "slice p 8 S = hb" using assms(2) lh unfolding enc slice_def by simp
  have s2: "slice (p + 8) (length tail + length d) S = tail @ d"
    using arg_cong [OF assms(2), of "\<lambda>x. take (length tail + length d) (drop 8 x)"] lh unfolding enc slice_def by (simp add: add.commute)
  from cont_map_at [OF cont_at_pos [OF r(2)], of "length tail + length d"] r(3) len assms(4) n(2) obtain cs ic2 where
    m: "cont_map_range vt ic1 (length tail + length d) = (Inr cs, ic2)" "cs \<noteq> []" "two_chunks cs" "length cs = 2 \<longrightarrow> [] \<notin> set cs"
      "concat cs = tail @ d" "cont_at S w (p + 8 + (length tail + length d)) ic2" unfolding s2 by auto
  have ok: "chunks_ok cs" using m(3,4) by (auto simp: chunks_ok_def elim: two_chunks_cases)
  from get_range_Some [OF m(3,2), of "length tail"] m(5) obtain cs' where
    g: "get_range cs (length tail) = (Some tail, cs')" "concat cs' = d" by auto
  have sk: "skip_range cs (length tail) = (True, cs')" using skip_range_iff [OF m(3), of "length tail"] g(1) by simp
  have ok': "chunks_ok cs'" using chunks_ok_rest(1) [OF ok, of "length tail"] g(1) by simp
  let ?h = "\<lparr>pr_length = of_nat ?n, pr_type = 1, pr_seqno = seqno, pr_off_nonfrag = of_nat (8 + length tail)\<rparr> :: pax_record_header"
  have un: "unat (of_nat ?n :: u16) = ?n" "unat (of_nat (8 + length tail) :: u16) = 8 + length tail" using n(1) by (intro unat_of_nat16; simp)+
  have c: "\<not> pr_length ?h > 32764" "\<not> pr_off_nonfrag ?h > pr_length ?h" "\<not> unat (pr_off_nonfrag ?h) < 8"
    "sub64 (unat (pr_length ?h)) 8 = length tail + length d" "unat (pr_off_nonfrag ?h) - 8 = length tail"
    using n(1) un by (simp_all add: word_less_nat_alt word_le_nat_alt not_less sub64_le del: of_nat_add)
  let ?src = "src\<lparr>pa_input := ic1, pa_record_header := ?h, pa_swapping := False\<rparr>"
  have sw: "pax_swap_record hb (src\<lparr>pa_input := ic1\<rparr>) = (Inr (), ?src)" by (simp add: pax_swap_record_def hb_def record_header_mem)
  have "pax_read_record vt src = pax_map_record vt ?src" using r(1) s1 sw by (simp add: pax_read_record_def Let_def)
  moreover have "\<exists>src'. pax_map_record vt ?src = (Inr True, src') \<and> pa_input src' = ic2 \<and> pa_chunks src' = cs' \<and> \<not> pa_swapping src'"
  proof -
    let ?src1 = "pax_check_seqno ?src"
    have h: "pa_record_header ?src1 = ?h" "pa_input ?src1 = ic1" "\<not> pa_swapping ?src1" by simp_all
    let ?src2 = "?src1\<lparr>pa_input := ic2, pa_chunks := cs\<rparr>"
    have "pax_map_data vt ?src1 = (Inr (), ?src2)" unfolding pax_map_data_def Let_def using h c(4) m(1,2) by (simp del: of_nat_add)
    moreover have "pax_skip_fragment ?src2 = (Inr True, ?src2\<lparr>pa_chunks := cs'\<rparr>)"
      unfolding pax_skip_fragment_def Let_def using h c(2,3,5) sk by (simp del: of_nat_add)
    ultimately show ?thesis using c(1) h(3) by (simp add: pax_map_record_def del: of_nat_add)
  qed
  ultimately show ?thesis using m(6) ok' g(2) n(2) d_def by (auto simp: add.assoc)
qed

end

end
