(* ===== verification/Pax_Events.thy ===== *)
theory Pax_Events
  imports Pax_Input
begin

text \<open>
  What the reader of PAX records delivers: whole files in the encoding of \<^verbatim>\<open>Pax_Input\<close>, any input, and the headers that it does not
  guard against. The first part is proved for each source of the locale \<open>input_source\<close>.
\<close>

declare pax_get_event.simps(2) [simp del]

fun pax_read_all :: "'s input_buffer \<Rightarrow> nat \<Rightarrow> nat \<Rightarrow> 's pax_source \<Rightarrow> (pax_content list, 's pax_source) result" where
  "pax_read_all vt fuel 0 src = (Inl Fuel, src)"
| "pax_read_all vt fuel (Suc n) src =
     andthen (pax_get_event vt fuel src) (\<lambda>got src.
       case got of
         None \<Rightarrow> (Inr [], src)
       | Some ev \<Rightarrow> andthen (pax_read_all vt fuel n src) (\<lambda>r src. (Inr (pax_event_of ev # r), src)))"

definition record_events :: "pax_record \<Rightarrow> pax_content list" where
  "record_events = (\<lambda>(seqno, tail, evs). evs)"

lemma good_event_size:
  assumes "good_pax_record (seqno, tail, evs)" "(t, d) \<in> set evs"
  shows "4 + length d < 2 ^ 16"
proof -
  have "length (encode_pax_event (t, d)) \<le> length (concat (map encode_pax_event evs))"
    using assms(2) by (simp add: length_concat member_le_sum_list)
  then have "4 + length d \<le> length (encode_pax_record (seqno, tail, evs))" by (simp add: encode_pax_record_def encode_pax_event_def)
  then show ?thesis using assms(1) by (simp add: good_pax_record_def)
qed

definition sized_events :: "pax_content list \<Rightarrow> bool" where
  "sized_events evs \<longleftrightarrow> list_all (\<lambda>(t, d). 4 + length d < 2 ^ 16) evs \<and> (evs \<noteq> [] \<longrightarrow> snd (last evs) \<noteq> [])"

lemma sized_events_Cons:
  assumes "sized_events ((t, d) # evs)"
  shows "4 + length d < 2 ^ 16" "d \<noteq> [] \<or> concat (map encode_pax_event evs) \<noteq> []" "sized_events evs"
proof -
  have "encode_pax_event e \<noteq> []" for e by (cases e) (simp add: encode_pax_event_def bytes16_def)
  then show "d \<noteq> [] \<or> concat (map encode_pax_event evs) \<noteq> []" using assms by (cases evs) (auto simp: sized_events_def)
qed (use assms in \<open>auto simp: sized_events_def split: if_splits\<close>)

context input_source
begin

text \<open>The events that are left: those in the chunks and those in the records that follow.\<close>

definition pax_here :: "bytes \<Rightarrow> nat \<Rightarrow> pax_content list \<Rightarrow> pax_record list \<Rightarrow> 's pax_source \<Rightarrow> bool" where
  "pax_here S w evs recs src \<longleftrightarrow>
     (\<exists>p. cont_at S w p (pa_input src) \<and> p \<le> length S \<and> drop p S = concat (map encode_pax_record recs)) \<and>
     chunks_ok (pa_chunks src) \<and> concat (pa_chunks src) = concat (map encode_pax_event evs) \<and> (pa_chunks src \<noteq> [] \<longrightarrow> \<not> pa_swapping src) \<and>
     sized_events evs \<and> list_all good_pax_record recs \<and> list_all (\<lambda>r. length (encode_pax_record r) \<le> w) recs"

lemma pax_take:
  assumes "pax_here S w (e # es) recs src"
  shows "\<exists>ev src'. pax_get_event vt (Suc fuel) src = (Inr (Some ev), src') \<and> pax_event_of ev = e \<and> pax_here S w es recs src'"
proof -
  obtain t d where e: "e = (t, d)" by (cases e)
  have "pa_chunks src \<noteq> []" using assms by (auto simp: pax_here_def e encode_pax_event_def bytes16_def)
  then have a: "chunks_ok (pa_chunks src)" "concat (pa_chunks src) = encode_pax_event (t, d) @ concat (map encode_pax_event es)" "\<not> pa_swapping src"
    "sized_events ((t, d) # es)" using assms by (simp_all add: pax_here_def e)
  note s = sized_events_Cons [OF a(4)]
  from pax_take_event [OF a(1-3) s(2,1), of vt fuel] obtain ev src' where
    "pax_get_event vt (Suc fuel) src = (Inr (Some ev), src')" "pax_event_of ev = (t, d)" "pa_input src' = pa_input src" "chunks_ok (pa_chunks src')"
    "concat (pa_chunks src') = concat (map encode_pax_event es)" "\<not> pa_swapping src'" by auto
  then show ?thesis using assms e s(3) by (auto simp: pax_here_def)
qed

lemma pax_no_more:
  assumes "pax_here S w [] recs src" "2 \<le> fuel"
  shows "\<exists>g src2. pax_get_event vt fuel src = pax_get_event vt (Suc g) src2 \<and> pa_chunks src2 = [] \<and> pa_input src2 = pa_input src \<and> fuel - 1 \<le> Suc g"
proof (cases "pa_chunks src = []")
  case True
  then show ?thesis using assms(2) by (intro exI [of _ "fuel - 1"] exI [of _ src]) simp
next
  case False
  obtain g where g: "fuel = Suc (Suc g)" using assms(2) by (metis Suc_le_D numeral_2_eq_2 Suc_le_mono)
  have c: "chunks_ok (pa_chunks src)" "concat (pa_chunks src) = []" using assms(1) by (simp_all add: pax_here_def)
  show ?thesis using no_event_left [OF c False, of vt "Suc g"] g by (intro exI [of _ g] exI [of _ "src\<lparr>pa_chunks := []\<rparr>"]) simp
qed

lemma pax_next_record:
  assumes "pax_here S w [] (r # recs) src" "2 \<le> fuel"
  shows "\<exists>g src'. pax_get_event vt fuel src = pax_get_event vt g src' \<and> pax_here S w (record_events r) recs src' \<and> fuel - 2 \<le> g"
proof -
  from pax_no_more [OF assms] obtain g src2 where
    2: "pax_get_event vt fuel src = pax_get_event vt (Suc g) src2" "pa_chunks src2 = []" "pa_input src2 = pa_input src" "fuel - 1 \<le> Suc g" by auto
  obtain seqno tail evs where r: "r = (seqno, tail, evs)" by (metis prod_cases3)
  from assms(1) obtain p where p: "cont_at S w p (pa_input src2)" "p \<le> length S" "drop p S = encode_pax_record (seqno, tail, evs) @ concat (map encode_pax_record recs)"
    "good_pax_record (seqno, tail, evs)" "length (encode_pax_record (seqno, tail, evs)) \<le> w" using 2(3) r by (auto simp: pax_here_def)
  from pax_read_record_at [OF p(1,3,4,5)] obtain src3 where
    3: "pax_read_record vt src2 = (Inr True, src3)" "cont_at S w (p + length (encode_pax_record (seqno, tail, evs))) (pa_input src3)"
      "chunks_ok (pa_chunks src3)" "concat (pa_chunks src3) = concat (map encode_pax_event evs)" "\<not> pa_swapping src3" by auto
  have "pax_get_event vt (Suc g) src2 = pax_get_event vt g src3" using 2(2) 3(1) by (simp add: pax_get_event.simps(2))
  moreover have "drop (p + length (encode_pax_record (seqno, tail, evs))) S = concat (map encode_pax_record recs)"
    using arg_cong [OF p(3), of "drop (length (encode_pax_record (seqno, tail, evs)))"] by (simp add: add.commute)
  moreover have "p + length (encode_pax_record (seqno, tail, evs)) \<le> length S" using arg_cong [OF p(3), of length] p(2) by simp
  moreover have "sized_events evs" using good_event_size [OF p(4)] p(4) by (auto simp: list_all_iff sized_events_def good_pax_record_def)
  ultimately have "pax_here S w (record_events r) recs src3" using 3 assms(1) unfolding pax_here_def r record_events_def by auto
  then show ?thesis using 2(1,4) \<open>pax_get_event vt (Suc g) src2 = pax_get_event vt g src3\<close> by (intro exI [of _ g] exI [of _ src3]) simp
qed

lemma pax_at_end:
  assumes "pax_here S w [] [] src" "2 \<le> fuel" "8 \<le> w"
  shows "\<exists>src'. pax_get_event vt fuel src = (Inr None, src')"
proof -
  from pax_no_more [OF assms(1,2)] obtain g src2 where
    2: "pax_get_event vt fuel src = pax_get_event vt (Suc g) src2" "pa_chunks src2 = []" "pa_input src2 = pa_input src" by auto
  obtain p where p: "cont_at S w p (pa_input src)" "p = length S" using assms(1) by (auto simp: pax_here_def)
  note rel = cont_release_at [OF p(1)]
  from cont_read_end [OF cont_at_pos [OF rel(1)], of 8] rel(2) p(2) assms(3) obtain ic where
    "cont_read_range vt (cont_release_to vt (pa_input src) (ic_cur (pa_input src))) 8 = (Inr None, ic)" by auto
  then show ?thesis using 2 by (simp add: pax_get_event.simps(2) pax_read_record_def Let_def)
qed

lemma pax_next:
  assumes "8 \<le> w"
  shows "pax_here S w evs recs src \<Longrightarrow> 2 * length recs + 2 \<le> fuel \<Longrightarrow>
    (case evs @ concat (map record_events recs) of
       [] \<Rightarrow> \<exists>src'. pax_get_event vt fuel src = (Inr None, src')
     | e # es \<Rightarrow> \<exists>ev src' evs' recs'. pax_get_event vt fuel src = (Inr (Some ev), src') \<and> pax_event_of ev = e \<and> pax_here S w evs' recs' src' \<and>
         es = evs' @ concat (map record_events recs') \<and> length recs' \<le> length recs)"
proof (induction recs arbitrary: evs src fuel)
  case Nil
  then show ?case using pax_at_end [OF _ _ assms] pax_take [of S w _ _ "[]" src "fuel - 1"] by (cases evs) fastforce+
next
  case (Cons r recs)
  show ?case
  proof (cases evs)
    case e: Nil
    from pax_next_record [of S w r recs src fuel] Cons.prems e obtain g src' where
      n: "pax_get_event vt fuel src = pax_get_event vt g src'" "pax_here S w (record_events r) recs src'" "2 * length recs + 2 \<le> g" by fastforce
    have all: "[] @ concat (map record_events (r # recs)) = record_events r @ concat (map record_events recs)" by simp
    from Cons.IH [OF n(2,3)] show ?thesis unfolding e n(1) all
      by (cases "record_events r @ concat (map record_events recs)") (simp_all only: list.case, use le_SucI in force)
  next
    case (Cons e es)
    from pax_take [of S w e es "r # recs" src "fuel - 1"] Cons.prems Cons obtain ev src' where
      "pax_get_event vt fuel src = (Inr (Some ev), src')" "pax_event_of ev = e" "pax_here S w es (r # recs) src'" by fastforce
    then show ?thesis unfolding Cons by fastforce
  qed
qed

lemma pax_read_file:
  assumes "8 \<le> w"
  shows "pax_here S w evs recs src \<Longrightarrow> 2 * length recs + 2 \<le> fuel \<Longrightarrow> length (evs @ concat (map record_events recs)) < n \<Longrightarrow>
    \<exists>src'. pax_read_all vt fuel n src = (Inr (evs @ concat (map record_events recs)), src')"
proof (induction n arbitrary: evs recs src)
  case (Suc n)
  show ?case
  proof (cases "evs @ concat (map record_events recs)")
    case Nil
    from pax_next [OF assms Suc.prems(1,2)] show ?thesis unfolding Nil by auto
  next
    case (Cons e es)
    with pax_next [OF assms Suc.prems(1,2)] obtain ev src' evs' recs' where
      s: "pax_get_event vt fuel src = (Inr (Some ev), src')" "pax_event_of ev = e" "pax_here S w evs' recs' src'"
        "es = evs' @ concat (map record_events recs')" "length recs' \<le> length recs" by auto
    have "length (evs' @ concat (map record_events recs')) < n" using Suc.prems(3) Cons s(4) by simp
    from Suc.IH [OF s(3) _ this] Suc.prems(2) s(5) obtain src'' where "pax_read_all vt fuel n src' = (Inr es, src'')" using s(4) by auto
    then show ?thesis using s(1,2) Cons by simp
  qed
qed simp

end

text \<open>C11. A file of records in the byte order of the host is read back completely through the buffered input: the type and the data of each event, in
  order, and then the end of the input, wherever the ring buffer wraps. What a record has left of an event before it is passed over. An event may
  have no data, unless it is the last of its record (there it is refused, \<open>pax_empty_event\<close> below). Records of the other byte order are outside of this
  statement, since swapping their header is undefined (below). The buffer has to hold one record, and the search for an event needs two rounds for a
  record.\<close>

theorem pax_roundtrip:
  assumes "pipe_inv pb" "pb_done pb = 0" "pa_input src = \<lparr>ic_input = pb, ic_cur = 0\<rparr>" "pa_chunks src = []"
    and "pipe_stream pb = concat (map encode_pax_record recs)" "list_all good_pax_record recs"
    and "list_all (\<lambda>r. length (encode_pax_record r) \<le> pb_size pb) recs" "8 \<le> pb_size pb" "2 * length recs + 2 \<le> fuel"
    and "length (concat (map record_events recs)) < n"
  shows "\<exists>src'. pax_read_all pipe_vt fuel n src = (Inr (concat (map record_events recs)), src')"
proof -
  have "pipe.pax_here (pipe_stream pb) (pb_size pb) [] recs src"
    using assms(1-7) by (auto simp: pipe.pax_here_def sized_events_def pipe.cont_at_def Let_def chunks_ok_def intro!: exI [of _ 0])
  from pipe.pax_read_file [OF assms(8) this assms(9)] assms(10) show ?thesis by simp
qed

section \<open>Any input\<close>

definition pax_error :: "cxx_error \<Rightarrow> bool" where
  "pax_error e \<longleftrightarrow> (\<exists>m. e = Err m) \<or> e = Undef ''byteswap after the end of the object'' \<or> e = Undef ''chunk outside the buffer''"

lemma pax_error_simps [simp]: "pax_error (Err m)" "pax_error (Undef ''byteswap after the end of the object'')"
  "pax_error (Undef ''chunk outside the buffer'')" "\<not> pax_error Fuel" "\<not> pax_error (Assert m)"
  by (simp_all add: pax_error_def)

text \<open>A record shorter than its header asks for a range that ends before its begin.\<close>

lemma off_add_back: "k \<le> 8 \<Longrightarrow> p < 2 ^ 62 \<Longrightarrow> off_add (int p + 8) (2 ^ 64 - k) = int p + 8 - int k"
proof -
  assume "k \<le> 8" "p < 2 ^ 62"
  then have "int p + 8 + int (2 ^ 64 - k) + 2 ^ 63 = (int p + 8 - int k + 2 ^ 63) + 2 ^ 64" by (simp add: of_nat_diff)
  moreover have "(int p + 8 - int k + 2 ^ 63) mod 2 ^ 64 = int p + 8 - int k + 2 ^ 63"
    using \<open>k \<le> 8\<close> \<open>p < 2 ^ 62\<close> by (intro mod_pos_pos_trivial) auto
  ultimately have "(int p + 8 + int (2 ^ 64 - k) + 2 ^ 63) mod 2 ^ 64 = int p + 8 - int k + 2 ^ 63" by (metis mod_add_self2)
  then show ?thesis unfolding off_add_def by linarith
qed

lemma pipe_map_back:
  assumes "pipe.cont_at S w (p + 8) ic" "p + 8 \<le> length S" "0 < k" "k \<le> 8"
  shows "\<exists>ic'. cont_map_range pipe_vt ic (2 ^ 64 - k) = (Inl (Undef ''chunk outside the buffer''), ic') \<and> pipe.cont_held S ic' \<and> ic_cur ic' = int (p + 8 - k)"
proof -
  let ?pb = "ic_input ic"
  have a: "pipe_inv ?pb" "pipe_stream ?pb = S" "int p + 8 \<le> int (pb_avail ?pb)" "ic_cur ic = int p + 8"
    using assms(1) by (simp_all add: pipe.cont_at_def Let_def)
  have len: "length S < 2 ^ 62" "pb_size ?pb < 2 ^ 61" using a(1,2) by (simp_all add: pipe_inv_def)
  have "int p + 8 - int k \<le> int (pb_avail ?pb)" using a(3) assms(3) by linarith
  then have r: "read_now (int p + 8 - int k) ?pb = (Inr True, ?pb)" by (intro read_now_done) simp
  have "(int p + 8 - int k - (int p + 8)) mod 2 ^ 64 = 2 ^ 64 - int k"
  proof -
    have "(- int k) mod 2 ^ 64 = (2 ^ 64 - int k) mod 2 ^ 64" by (simp add: mod_diff_eq [symmetric])
    also have "\<dots> = 2 ^ 64 - int k" using assms(3,4) by (intro mod_pos_pos_trivial) auto
    finally show ?thesis by simp
  qed
  then have size: "nat ((int p + 8 - int k - (int p + 8)) mod 2 ^ 64) = 2 ^ 64 - k" using assms(4) by (simp add: nat_diff_distrib)
  have big: "\<not> 2 ^ 64 - k \<le> pb_size ?pb - x" "2 ^ 64 - k - (pb_size ?pb - x) > pb_size ?pb" for x using len(2) assms(4) by simp_all
  have off: "off_add (int p + 8) (2 ^ 64 - k) = int p + 8 - int k" using assms(2,4) len(1) by (intro off_add_back) auto
  have "\<exists>f. pipe_map_range ?pb (int p + 8) (int p + 8 - int k) = (Inl (Undef ''chunk outside the buffer''), ?pb\<lparr>pb_front := f\<rparr>)"
    unfolding pipe_map_range_def r andthen_simps Let_def pipe_buffer.simps size using big by auto
  then obtain f where m: "map_range pipe_vt ?pb (int p + 8) (int p + 8 - int k) = (Inl (Undef ''chunk outside the buffer''), ?pb\<lparr>pb_front := f\<rparr>)"
    by (auto simp: pipe_vt_def)
  have inv: "pipe_inv (?pb\<lparr>pb_front := f\<rparr>)" "pipe_stream (?pb\<lparr>pb_front := f\<rparr>) = S"
    using a(1,2) by (simp_all add: pipe_inv_def pipe_stream_def)
  show ?thesis unfolding cont_map_range_def Let_def a(4) off m using inv assms(4) by (simp add: pipe.cont_held_def of_nat_diff)
qed

text \<open>The reader after a record from position \<open>p\<close>, and after an error.\<close>

definition pax_moved :: "bytes \<Rightarrow> nat \<Rightarrow> nat \<Rightarrow> pipe_buffer pax_source \<Rightarrow> bool" where
  "pax_moved S w p src \<longleftrightarrow>
     two_chunks (pa_chunks src) \<and> pipe.cont_held S (pa_input src) \<and> (\<exists>q. p + 8 \<le> q \<and> q \<le> length S \<and> pipe.cont_at S w q (pa_input src))"

definition pax_fails :: "bytes \<Rightarrow> cxx_error \<Rightarrow> pipe_buffer pax_source \<Rightarrow> bool" where
  "pax_fails S e src \<longleftrightarrow> pax_error e \<and> pipe.cont_held S (pa_input src)"

lemma pax_map_data_any:
  assumes "pipe.cont_at S w (p + 8) (pa_input src)" "p + 8 \<le> length S"
  shows "outcome (\<lambda>_. pax_moved S w p) (pax_fails S) (pax_map_data pipe_vt src)"
proof -
  let ?n = "unat (pr_length (pa_record_header src))"
  obtain r ic where m: "cont_map_range pipe_vt (pa_input src) (sub64 ?n 8) = (r, ic)" by fastforce
  have "outcome (\<lambda>cs ic'. pipe.cont_held S ic' \<and> (cs \<noteq> [] \<longrightarrow> two_chunks cs \<and> (\<exists>q. p + 8 \<le> q \<and> q \<le> length S \<and> pipe.cont_at S w q ic')))
    (\<lambda>e ic'. pipe.cont_held S ic' \<and> pax_error e) (r, ic)"
  proof (cases "?n < 8")
    case True
    then have "sub64 ?n 8 = 2 ^ 64 - (8 - ?n)" by (intro sub64_gr) simp_all
    then show ?thesis using pipe_map_back [OF assms, of "8 - ?n"] True m by auto
  next
    case False
    have "?n < 2 ^ LENGTH(16)" by (rule unsigned_less)
    then have s: "sub64 ?n 8 = ?n - 8" "?n - 8 \<le> 2 ^ 33" using False by (auto intro: sub64_le)
    show ?thesis unfolding m [unfolded s(1), symmetric]
      by (rule outcome_mono [OF pipe.cont_map_any [OF pipe.cont_at_pos [OF assms(1)] _ s(2)]]) (use assms(2) le_add1 in \<open>simp, blast, auto\<close>)
  qed
  then show ?thesis using m by (cases r) (auto simp: pax_map_data_def Let_def pax_moved_def pax_fails_def)
qed

lemma pax_skip_fragment_any:
  assumes "two_chunks (pa_chunks src)"
  shows "outcome (\<lambda>ok src'. ok \<and> two_chunks (pa_chunks src') \<and> pa_input src' = pa_input src)
    (\<lambda>e src'. pax_error e \<and> pa_input src' = pa_input src) (pax_skip_fragment src)"
  using two_chunks_rest(1) [OF assms, of "unat (pr_off_nonfrag (pa_record_header src)) - 8"]
  by (auto simp: pax_skip_fragment_def Let_def split: prod.splits)

lemma pax_map_record_any:
  assumes "pipe.cont_at S w (p + 8) (pa_input src)" "p + 8 \<le> length S"
  shows "outcome (\<lambda>ok src'. ok \<and> pax_moved S w p src') (pax_fails S) (pax_map_record pipe_vt src)"
proof (cases "pr_length (pa_record_header src) > 32764")
  case True
  then show ?thesis using pipe.cont_at_holds [OF assms(1)] by (simp add: pax_map_record_def pax_fails_def)
next
  case False
  have "outcome (\<lambda>ok src'. ok \<and> pax_moved S w p src') (pax_fails S) (pax_skip_fragment src')" if "pax_moved S w p src'" for src'
    using that by (intro outcome_mono [OF pax_skip_fragment_any]) (auto simp: pax_moved_def pax_fails_def)
  then show ?thesis unfolding pax_map_record_def if_not_P [OF False] using assms
    by (intro outcome_andthen [OF pax_map_data_any]) simp_all
qed

lemma pax_read_record_any:
  assumes "pipe.cont_at S w p (pa_input src)" "p \<le> length S"
  shows "outcome (\<lambda>ok src'. pipe.cont_held S (pa_input src') \<and> (ok \<longrightarrow> pax_moved S w p src')) (pax_fails S) (pax_read_record pipe_vt src)"
proof -
  let ?ic = "cont_release_to pipe_vt (pa_input src) (ic_cur (pa_input src))"
  note rel = pipe.cont_release_at [OF assms(1)]
  obtain r ic where r: "cont_read_range pipe_vt ?ic 8 = (r, ic)" by fastforce
  have o: "outcome (\<lambda>b ic'. pipe.cont_held S ic' \<and> (\<forall>d. b = Some d \<longrightarrow> p + 8 \<le> length S \<and> length d = 8 \<and> pipe.cont_at S w (p + 8) ic'))
    (\<lambda>e ic'. pipe.cont_held S ic' \<and> (\<exists>m. e = Err m)) (r, ic)"
    unfolding r [symmetric] by (rule outcome_mono [OF pipe.cont_read_any [OF pipe.cont_at_pos [OF rel(1)]]]) (use assms(2) in auto)
  show ?thesis
  proof (cases "\<exists>b. r = Inr (Some b)")
    case True
    then obtain b where b: "r = Inr (Some b)" by auto
    then have a: "p + 8 \<le> length S" "length b = 8" "pipe.cont_at S w (p + 8) ic" "pipe.cont_held S ic" using o by auto
    have sw: "outcome (\<lambda>_ src'. pa_input src' = ic) (pax_fails S) (pax_swap_record b (src\<lparr>pa_input := ic\<rparr>))"
      using a by (simp add: pax_swap_record_def byteswap_def Let_def pax_fails_def)
    have "outcome (\<lambda>ok src'. pipe.cont_held S (pa_input src') \<and> (ok \<longrightarrow> pax_moved S w p src')) (pax_fails S) (pax_map_record pipe_vt src1)"
      if "pa_input src1 = ic" for src1
      using that a by (intro outcome_mono [OF pax_map_record_any]) (auto simp: pax_moved_def)
    from outcome_andthen [OF sw, of _ "\<lambda>_. pax_map_record pipe_vt", OF this] show ?thesis
      using r b by (simp add: pax_read_record_def Let_def)
  next
    case False
    then show ?thesis using r o by (cases r) (auto simp: pax_read_record_def Let_def pax_fails_def split: option.splits)
  qed
qed

lemma pax_take_data_any:
  assumes "two_chunks (pa_chunks src)"
  shows "outcome (\<lambda>ev src'. ev = Some (pa_file_event src') \<and> two_chunks (pa_chunks src') \<and> pa_input src' = pa_input src \<and>
      pe_header (pa_file_event src') = pe_header (pa_file_event src) \<and> length (fst (pax_get_data_src (pa_file_event src'))) + 4 = unat (px_length h))
    (\<lambda>e src'. pax_error e \<and> pa_input src' = pa_input src) (pax_take_data h src)"
proof (cases "unat (px_length h) < 4")
  case False
  let ?n = "unat (px_length h) - 4"
  obtain got cs where g: "get_range_cont (pa_chunks src) ?n = (got, cs)" by fastforce
  have two: "two_chunks cs" using two_chunks_rest(3) [OF assms, of ?n] g by simp
  have "length (cont_bytes x) = ?n" if "got = Some x" for x
    using assms g that by (elim two_chunks_cases) (auto simp: get_range_cont_def cont_bytes_def Let_def slice_def split: if_splits)
  then show ?thesis using False g two
    by (auto simp: pax_take_data_def Let_def pax_get_data_src_def cont_bytes_def split: option.splits sum.splits prod.splits)
qed (simp add: pax_take_data_def)

text \<open>The bytes that are left bound the rounds: a round ends the search, reads a record or gives up the rest of one.\<close>

definition pax_rounds :: "bytes \<Rightarrow> pipe_buffer pax_source \<Rightarrow> nat \<Rightarrow> nat" where
  "pax_rounds S src p = length S - p + (if pa_chunks src = [] then 0 else 1)"

definition pax_got :: "bytes \<Rightarrow> nat \<Rightarrow> pax_event option \<Rightarrow> pipe_buffer pax_source \<Rightarrow> bool" where
  "pax_got S w got src \<longleftrightarrow> pipe.cont_held S (pa_input src) \<and>
     (\<forall>ev. got = Some ev \<longrightarrow> ev = pa_file_event src \<and> two_chunks (pa_chunks src) \<and> (\<exists>q. q \<le> length S \<and> pipe.cont_at S w q (pa_input src)) \<and>
        length (fst (pax_get_data_src ev)) + 4 = unat (px_length (pe_header ev)))"

lemma pax_get_event_any:
  assumes "pipe.cont_at S w p (pa_input src)" "p \<le> length S" "two_chunks (pa_chunks src)" "pax_rounds S src p < fuel"
  shows "outcome (pax_got S w) (pax_fails S) (pax_get_event pipe_vt fuel src)"
  using assms
proof (induction fuel arbitrary: src p)
  case (Suc fuel)
  note held = pipe.cont_at_holds [OF Suc.prems(1)]
  show ?case
  proof (cases "pa_chunks src = []")
    case True
    have "outcome (pax_got S w) (pax_fails S) (if \<not> ok then (Inr None, src') else pax_get_event pipe_vt fuel src')"
      if "pipe.cont_held S (pa_input src') \<and> (ok \<longrightarrow> pax_moved S w p src')" for ok src'
    proof (cases ok)
      case True
      with that obtain q where q: "pipe.cont_at S w q (pa_input src')" "q \<le> length S" "two_chunks (pa_chunks src')" "p + 8 \<le> q"
        by (auto simp: pax_moved_def)
      have "pax_rounds S src' q < fuel" using Suc.prems(4) q(2,4) by (auto simp: pax_rounds_def split: if_splits)
      from Suc.IH [OF q(1,2,3) this] show ?thesis using True by simp
    qed (use that in \<open>simp add: pax_got_def\<close>)
    from outcome_andthen [OF pax_read_record_any [OF Suc.prems(1,2)] this] show ?thesis using True by (simp add: pax_get_event.simps(2))
  next
    case False
    obtain got cs where g: "get_range (pa_chunks src) 4 = (got, cs)" by fastforce
    have two: "two_chunks cs" using two_chunks_rest(2) [OF Suc.prems(3), of 4] g by simp
    have again: "pax_rounds S (src'\<lparr>pa_chunks := []\<rparr>) p < fuel" for src' using Suc.prems(4) False by (simp add: pax_rounds_def)
    note IH = Suc.IH [OF _ Suc.prems(2) _ again]
    show ?thesis
    proof (cases got)
      case None
      then show ?thesis using False g held IH [of src] Suc.prems(1) by (simp add: pax_get_event.simps(2) pax_fails_def Let_def)
    next
      case (Some b)
      then have b: "length b = 4" using g False Suc.prems(3)
        by (elim two_chunks_cases) (auto simp: get_range_def Let_def slice_def split: if_splits)
      show ?thesis
      proof (cases "pax_swap_event b (pa_swapping src)")
        case (Inl e)
        then have "pax_error e" using b by (auto simp: pax_swap_event_def byteswap_def split: if_splits)
        then show ?thesis using False g Some Inl held by (simp add: pax_get_event.simps(2) pax_fails_def Let_def)
      next
        case (Inr h)
        let ?src = "pax_set_header h (src\<lparr>pa_chunks := cs\<rparr>)"
        have s: "two_chunks (pa_chunks ?src)" "pa_input ?src = pa_input src" "pe_header (pa_file_event ?src) = h" using two by (simp_all add: pax_set_header_def)
        have "pax_get_event pipe_vt (Suc fuel) src = (if px_length h = 0 then pax_get_event pipe_vt fuel (?src\<lparr>pa_chunks := []\<rparr>) else pax_take_data h ?src)"
          using False g Some Inr by (simp add: pax_get_event.simps(2) Let_def)
        moreover have "outcome (pax_got S w) (pax_fails S) (pax_take_data h ?src)"
          by (rule outcome_mono [OF pax_take_data_any [OF s(1)]]) (use s(2,3) held Suc.prems(1,2) in \<open>auto simp: pax_fails_def pax_got_def\<close>)
        ultimately show ?thesis using IH [of ?src] Suc.prems(1) s(2) by simp
      qed
    qed
  qed
qed simp

definition pax_ready :: "pipe_buffer pax_source \<Rightarrow> bool" where
  "pax_ready src \<longleftrightarrow>
     (let pb = ic_input (pa_input src) in
      pipe_inv pb \<and> int (pb_done pb) \<le> ic_cur (pa_input src) \<and> ic_cur (pa_input src) \<le> int (pb_avail pb) \<and> two_chunks (pa_chunks src))"

lemma pax_ready_at:
  assumes "pax_ready src"
  obtains p where "pipe.cont_at (pipe_stream (ic_input (pa_input src))) (pb_size (ic_input (pa_input src))) p (pa_input src)"
    "p \<le> length (pipe_stream (ic_input (pa_input src)))" "ic_cur (pa_input src) = int p" "two_chunks (pa_chunks src)"
proof (rule that [of "nat (ic_cur (pa_input src))"])
  have "0 \<le> ic_cur (pa_input src)" using assms by (auto simp: pax_ready_def Let_def)
  then show "pipe.cont_at (pipe_stream (ic_input (pa_input src))) (pb_size (ic_input (pa_input src))) (nat (ic_cur (pa_input src))) (pa_input src)"
    "nat (ic_cur (pa_input src)) \<le> length (pipe_stream (ic_input (pa_input src)))" "ic_cur (pa_input src) = int (nat (ic_cur (pa_input src)))"
    using assms by (auto simp: pax_ready_def pipe.cont_at_def pipe_inv_def Let_def)
qed (use assms in \<open>simp add: pax_ready_def Let_def\<close>)

text \<open>C12. Whatever the input holds, \<^verbatim>\<open>get_event\<close> ends after at most as many rounds as the input has bytes, and two more, and fails no
  assertion: it returns an event with as much data as its header says, reports the end of the input, or throws. The only undefined steps are the
  swapping of a header and a record shorter than its header. The buffer keeps its invariant, and after an event the reader is ready for the next call.\<close>

theorem pax_get_event_safe:
  assumes "pax_ready src" "length (pipe_stream (ic_input (pa_input src))) + 2 \<le> fuel" "pax_get_event pipe_vt fuel src = (r, src')"
  shows "pipe_inv (ic_input (pa_input src')) \<and> pipe_stream (ic_input (pa_input src')) = pipe_stream (ic_input (pa_input src)) \<and>
    (case r of
       Inl e \<Rightarrow> (\<exists>m. e = Err m) \<or> e = Undef ''byteswap after the end of the object'' \<or> e = Undef ''chunk outside the buffer''
     | Inr None \<Rightarrow> True
     | Inr (Some ev) \<Rightarrow>
         pax_ready src' \<and> pa_file_event src' = ev \<and> length (fst (pax_get_data_src ev)) + sizeof_pax_event_header = unat (px_length (pe_header ev)))"
proof -
  let ?S = "pipe_stream (ic_input (pa_input src))"
  obtain p where p: "pipe.cont_at ?S (pb_size (ic_input (pa_input src))) p (pa_input src)" "p \<le> length ?S" "two_chunks (pa_chunks src)"
    by (rule pax_ready_at [OF assms(1)])
  have "pax_rounds ?S src p < fuel" using assms(2) by (auto simp: pax_rounds_def)
  from pax_get_event_any [OF p this] show ?thesis unfolding assms(3)
    by (auto simp: pax_fails_def pax_got_def pax_error_def pipe.cont_held_def pax_ready_def pipe.cont_at_def Let_def split: sum.splits option.splits)
qed

section \<open>What is not read\<close>


lemma pax_empty_event:
  assumes "pa_chunks src = [bytes16 4 @ bytes16 t]" "\<not> pa_swapping src"
  shows "\<exists>src'. pax_get_event vt (Suc fuel) src = (Inl (Err ''Event larger than record.  (spanned events not supported).''), src')"
proof -
  have "get_range (pa_chunks src) 4 = (Some (bytes16 4 @ bytes16 t), [])" using assms(1) by (simp add: get_range_def bytes16_def)
  then show ?thesis using assms by (simp add: pax_get_event.simps(2) pax_swap_event_def record_header_mem pax_take_data_def pax_set_header_def get_range_cont_def)
qed

section \<open>Witnesses\<close>

definition pax_source_on :: "pipe_buffer \<Rightarrow> pipe_buffer pax_source" where
  "pax_source_on pb =
     pax_new_file \<lparr>pa_input = \<lparr>ic_input = pb, ic_cur = 0\<rparr>, pa_record_header = pax_record_header_of_mem (replicate 8 0), pa_swapping = False,
       pa_last_seq_no = 0, pa_chunks = [],
       pa_file_event = \<lparr>pe_header = pax_event_header_of_mem (replicate 4 0), pe_data = None, pe_chunks = [], pe_swapping = False\<rparr>, pa_warnings = []\<rparr>"

lemma pax_source_on_simps [simp]: "pa_input (pax_source_on pb) = \<lparr>ic_input = pb, ic_cur = 0\<rparr>" "pa_chunks (pax_source_on pb) = []"
  by (simp_all add: pax_source_on_def pax_new_file_def)

lemma pax_source_on_ready: "pipe_inv pb \<Longrightarrow> pb_done pb = 0 \<Longrightarrow> pax_ready (pax_source_on pb)"
  by (simp add: pax_ready_def Let_def)

theorem pax_roundtrip_witness:
  "\<exists>src'. pax_read_all pipe_vt 6 4 (pax_source_on (pipe_on 5 (concat (map encode_pax_record [(1, [], [(7, []), (8, [3, 1, 2])]), (2, [9], [(7, [4, 5, 6])])])))) =
     (Inr [(7, []), (8, [3, 1, 2]), (7, [4, 5, 6])], src')"
proof -
  define recs :: "pax_record list" where "recs = [(1, [], [(7, []), (8, [3, 1, 2])]), (2, [9], [(7, [4, 5, 6])])]"
  let ?pb = "pipe_on 5 (concat (map encode_pax_record recs))"
  have len: "list_all (\<lambda>r. length (encode_pax_record r) \<le> 19) recs" "length (concat (map encode_pax_record recs)) = 35"
    by (simp_all add: recs_def encode_pax_record_def encode_pax_event_def)
  have g: "list_all good_pax_record recs" by (simp add: recs_def good_pax_record_def encode_pax_record_def encode_pax_event_def)
  have "pipe_inv ?pb" by (rule pipe_on_inv) (simp_all only: len, simp_all)
  moreover have "list_all (\<lambda>r. length (encode_pax_record r) \<le> pb_size ?pb) recs" using len(1) by (fastforce simp: list_all_iff)
  moreover have "2 * length recs + 2 \<le> 6" "length (concat (map record_events recs)) < 4" by (simp_all add: recs_def record_events_def)
  ultimately have "\<exists>src'. pax_read_all pipe_vt 6 4 (pax_source_on ?pb) = (Inr (concat (map record_events recs)), src')"
    using pax_roundtrip [of ?pb "pax_source_on ?pb" recs 6 4] g by simp
  then show ?thesis by (simp add: recs_def record_events_def)
qed

theorem pax_get_event_safe_witness:
  "fst (pax_get_event pipe_vt 7 (pax_source_on (pipe_on 3 [0, 0, 7, 0, 1]))) \<noteq> Inl Fuel"
proof -
  let ?src = "pax_source_on (pipe_on 3 [0, 0, 7, 0, 1])"
  have ready: "pax_ready ?src" by (rule pax_source_on_ready [OF pipe_on_inv]) simp_all
  obtain r src' where r: "pax_get_event pipe_vt 7 ?src = (r, src')" by fastforce
  from pax_get_event_safe [OF ready _ r] show ?thesis using r by auto
qed


end
