(* ===== verification/Ebye_Input.thy ===== *)
theory Ebye_Input
  imports Pipe_Buffer
begin

text \<open>
  The reader of EBYE records, \<^verbatim>\<open>file_input/ebye_input.cc\<close>, \<^verbatim>\<open>ebye_input.hh\<close> and \<^verbatim>\<open>ebye_event.hh\<close>: \<^verbatim>\<open>read_record\<close> with its search
  for the next header, \<^verbatim>\<open>skip_record\<close>, \<^verbatim>\<open>get_event\<close> and \<^verbatim>\<open>get_data_src\<close>, in the build without threads, for each of its three kinds of data. Records
  start at multiples of 1024 bytes after filler; the header and the data of a record have byte orders of their own. What is printed on request is
  left out. The two searches take fuel: \<^verbatim>\<open>Ebye_Events\<close> shows that the number of bytes of the input is enough.
\<close>

unbundle bit_operations_syntax

section \<open>Headers\<close>

record ebye_record_header =
  er_id :: bytes
  er_sequence :: u32
  er_tape :: u16
  er_stream :: u16
  er_endian_tape :: u16
  er_endian_data :: u16
  er_data_length :: u32

abbreviation (input) sizeof_ebye_record_header :: nat where "sizeof_ebye_record_header \<equiv> 24"
abbreviation (input) sizeof_ebye_event_header :: nat where "sizeof_ebye_event_header \<equiv> 4"

definition EBYE_RECORD_ID :: bytes where
  "EBYE_RECORD_ID = map of_char ''EBYEDATA''"

definition ebye_record_header_of_mem :: "bytes \<Rightarrow> ebye_record_header" where
  "ebye_record_header_of_mem b =
     \<lparr>er_id = take 8 b, er_sequence = u32_of (b ! 8) (b ! 9) (b ! 10) (b ! 11), er_tape = u16_of (b ! 12) (b ! 13),
       er_stream = u16_of (b ! 14) (b ! 15), er_endian_tape = u16_of (b ! 16) (b ! 17), er_endian_data = u16_of (b ! 18) (b ! 19),
       er_data_length = u32_of (b ! 20) (b ! 21) (b ! 22) (b ! 23)\<rparr>"

text \<open>The reader is built for one of three kinds of data.\<close>

datatype ebye_build = Ebye_16 | Ebye_32 | Ebye_timestamped

datatype ebye_event_header =
  Header_16 (start_end_token: u16) (token_length: u16)
| Header_32 (start_end_token_length: u32)

definition ebye_event_header_of_mem :: "ebye_build \<Rightarrow> bytes \<Rightarrow> ebye_event_header" where
  "ebye_event_header_of_mem build b =
     (if build = Ebye_16 then Header_16 (u16_of (b ! 0) (b ! 1)) (u16_of (b ! 2) (b ! 3))
      else Header_32 (u32_of (b ! 0) (b ! 1) (b ! 2) (b ! 3)))"

fun ebye_swap_event_header :: "ebye_event_header \<Rightarrow> ebye_event_header" where
  "ebye_swap_event_header (Header_16 t l) = Header_16 (bswap_16 t) (bswap_16 l)"
| "ebye_swap_event_header (Header_32 w) = Header_32 (bswap_32 w)"

fun ebye_token :: "ebye_event_header \<Rightarrow> u16" where
  "ebye_token (Header_16 t l) = t"
| "ebye_token (Header_32 w) = ucast (drop_bit 16 w)"

fun ebye_length :: "ebye_event_header \<Rightarrow> u16" where
  "ebye_length (Header_16 t l) = l"
| "ebye_length (Header_32 w) = ucast (w AND 0x0000ffff)"

section \<open>Records\<close>

record ebye_event =
  ee_header :: ebye_event_header
  ee_data :: "bytes option"
  ee_chunks :: "buf_chunk list"
  ee_swapping :: bool

record 's ebye_source =
  eb_input :: "'s input_buffer_cont"
  eb_record_header :: ebye_record_header
  eb_swapping :: bool
  eb_last_seq_no :: u32
  eb_chunks :: "buf_chunk list"
  eb_file_event :: ebye_event
  eb_warnings :: "string list"

definition ebye_new_file :: "'s ebye_source \<Rightarrow> 's ebye_source" where
  "ebye_new_file src = src\<lparr>eb_chunks := []\<rparr>"

definition next_kilobyte :: "int \<Rightarrow> int" where
  "next_kilobyte pos = (pos AND NOT 0x3ff) + 0x400"

text \<open>The search for the header of a record: filler is passed over up to the next multiple of 1024 bytes.\<close>

fun ebye_read_header :: "'s input_buffer \<Rightarrow> nat \<Rightarrow> 's ebye_source \<Rightarrow> (bool, 's ebye_source) result" where
  "ebye_read_header vt 0 src = (Inl Fuel, src)"
| "ebye_read_header vt (Suc fuel) src =
     (case cont_read_range vt (eb_input src) sizeof_ebye_record_header of
        (Inl e, ic) \<Rightarrow> (Inl e, src\<lparr>eb_input := ic\<rparr>)
      | (Inr None, ic) \<Rightarrow> (Inr False, src\<lparr>eb_input := ic\<rparr>)
      | (Inr (Some b), ic) \<Rightarrow>
          let header = ebye_record_header_of_mem b;
              src = src\<lparr>eb_input := ic, eb_record_header := header\<rparr>
          in if er_id header \<noteq> EBYE_RECORD_ID then
               if er_id header ! 0 \<noteq> 0x5e then (Inl (Err ''Record ID not EBYEDATA.''), src)
               else
                 let header_start = ic_cur ic - int sizeof_ebye_record_header
                 in ebye_read_header vt fuel (src\<lparr>eb_input := ic\<lparr>ic_cur := next_kilobyte header_start\<rparr>\<rparr>)
             else (Inr True, src))"

definition ebye_swap_header :: "'s ebye_source \<Rightarrow> (unit, 's ebye_source) result" where
  "ebye_swap_header src =
     (let h = eb_record_header src in
      if er_endian_tape h = 0x0001 then (Inr (), src)
      else if er_endian_tape h = 0x0100 then
        (Inr (), src\<lparr>eb_record_header :=
           h\<lparr>er_sequence := bswap_32 (er_sequence h), er_stream := bswap_16 (er_stream h), er_tape := bswap_16 (er_tape h),
             er_data_length := bswap_32 (er_data_length h)\<rparr>\<rparr>)
      else (Inl (Err ''Unexpected tape endianness''), src))"

definition ebye_check_header :: "'s ebye_source \<Rightarrow> (unit, 's ebye_source) result" where
  "ebye_check_header src =
     (let h = eb_record_header src;
          seq_no = eb_last_seq_no src + 1;
          src = (if er_sequence h \<noteq> seq_no \<and> er_sequence h \<noteq> ucast (ucast seq_no :: u16)
                 then src\<lparr>eb_warnings := eb_warnings src @ [''Record sequence number mismatch'']\<rparr> else src);
          src = src\<lparr>eb_last_seq_no := er_sequence h\<rparr>
      in if er_stream h > 4 then (Inl (Err ''Unexpected stream number''), src)
         else if er_tape h \<noteq> 1 then (Inl (Err ''Unexpected tape''), src)
         else if er_data_length h > 0x40000000 then (Inl (Err ''Data length very large, refusing.''), src)
         else (Inr (), src))"

definition ebye_map_data :: "'s input_buffer \<Rightarrow> 's ebye_source \<Rightarrow> (unit, 's ebye_source) result" where
  "ebye_map_data vt src =
     (let src = src\<lparr>eb_chunks := []\<rparr> in
      case cont_map_range vt (eb_input src) (unat (er_data_length (eb_record_header src))) of
        (Inl e, ic) \<Rightarrow> (Inl e, src\<lparr>eb_input := ic\<rparr>)
      | (Inr chunks, ic) \<Rightarrow>
          if chunks = [] then (Inl (Err ''Error while reading record data.''), src\<lparr>eb_input := ic\<rparr>)
          else (Inr (), src\<lparr>eb_input := ic, eb_chunks := chunks\<rparr>))"

definition ebye_data_order :: "'s ebye_source \<Rightarrow> (bool, 's ebye_source) result" where
  "ebye_data_order src =
     (let src = src\<lparr>eb_swapping := False\<rparr>; endian_data = er_endian_data (eb_record_header src) in
      if endian_data = 0x0001 then (Inr True, src)
      else if endian_data = 0x0100 then (Inr True, src\<lparr>eb_swapping := True\<rparr>)
      else (Inl (Err ''Unexpected data endianness''), src))"

definition ebye_read_record :: "'s input_buffer \<Rightarrow> nat \<Rightarrow> 's ebye_source \<Rightarrow> (bool, 's ebye_source) result" where
  "ebye_read_record vt fuel src =
     andthen (ebye_read_header vt fuel (src\<lparr>eb_input := cont_release_to vt (eb_input src) (ic_cur (eb_input src))\<rparr>)) (\<lambda>found src.
       if \<not> found then (Inr False, src)
       else
         andthen (ebye_swap_header src) (\<lambda>_ src.
         andthen (ebye_check_header src) (\<lambda>_ src.
         andthen (ebye_map_data vt src) (\<lambda>_ src. ebye_data_order src))))"

definition ebye_skip_record :: "'s ebye_source \<Rightarrow> (bool, 's ebye_source) result" where
  "ebye_skip_record src =
     (let ic = eb_input src in (Inr True, src\<lparr>eb_input := ic\<lparr>ic_cur := next_kilobyte (ic_cur ic)\<rparr>, eb_chunks := []\<rparr>))"

section \<open>Events\<close>

text \<open>The next bytes of the record as the data of an event, as a pointer when they are in one chunk.\<close>

definition ebye_take_data :: "nat \<Rightarrow> 's ebye_source \<Rightarrow> (ebye_event option, 's ebye_source) result" where
  "ebye_take_data n src =
     (case get_range_cont (eb_chunks src) n of
        (None, cs) \<Rightarrow> (Inl (Err ''Event longer''), src\<lparr>eb_chunks := cs\<rparr>)
      | (Some got, cs) \<Rightarrow>
          let ev = (eb_file_event src)
                \<lparr>ee_data := (case got of Inl d \<Rightarrow> Some d | Inr _ \<Rightarrow> None),
                 ee_chunks := (case got of Inl d \<Rightarrow> [d] | Inr (c, d) \<Rightarrow> [c, d]), ee_swapping := eb_swapping src\<rparr>
          in (Inr (Some ev), src\<lparr>eb_chunks := cs, eb_file_event := ev\<rparr>))"

definition ebye_set_header :: "ebye_event_header \<Rightarrow> 's ebye_source \<Rightarrow> 's ebye_source" where
  "ebye_set_header h src = src\<lparr>eb_file_event := (eb_file_event src)\<lparr>ee_header := h\<rparr>\<rparr>"

text \<open>The event after its header; \<open>None\<close> is the end of the block, from where the search goes on.\<close>

definition ebye_take_event :: "ebye_event_header \<Rightarrow> 's ebye_source \<Rightarrow> (ebye_event option, 's ebye_source) result" where
  "ebye_take_event h src =
     (let length = ebye_length h - of_nat sizeof_ebye_event_header in
      if ebye_token h \<noteq> 0xffff then (Inl (Err ''Expected start event/end block token''), src\<lparr>eb_chunks := []\<rparr>)
      else if ebye_length h = 0 then
        (let src = (if eb_chunks src \<noteq> [] then src\<lparr>eb_warnings := eb_warnings src @ [''Unused data in record, >0 bytes.'']\<rparr> else src)
         in (Inr None, src\<lparr>eb_chunks := []\<rparr>))
      else if length AND 3 \<noteq> 0 then (Inl (Err ''Event length not 32 bit aligned.''), src\<lparr>eb_chunks := []\<rparr>)
      else ebye_take_data (unat length) src)"

fun ebye_get_event :: "'s input_buffer \<Rightarrow> ebye_build \<Rightarrow> nat \<Rightarrow> 's ebye_source \<Rightarrow> (ebye_event option, 's ebye_source) result" where
  "ebye_get_event vt build 0 src = (Inl Fuel, src)"
| "ebye_get_event vt build (Suc fuel) src =
     (if eb_chunks src = [] then
        andthen (ebye_read_record vt (Suc fuel) src) (\<lambda>ok src. if \<not> ok then (Inr None, src) else ebye_get_event vt build fuel src)
      else if build = Ebye_timestamped then
        (let len = er_data_length (eb_record_header src) in ebye_take_data (unat len) (ebye_set_header (Header_32 len) src))
      else
        case get_range (eb_chunks src) sizeof_ebye_event_header of
          (None, cs) \<Rightarrow> (Inl (Err ''Failure reading event header.''), src\<lparr>eb_chunks := cs\<rparr>)
        | (Some b, cs) \<Rightarrow>
            let h = ebye_event_header_of_mem build b;
                h = (if eb_swapping src then ebye_swap_event_header h else h)
            in andthen (ebye_take_event h (ebye_set_header h (src\<lparr>eb_chunks := cs\<rparr>))) (\<lambda>got src.
                 case got of None \<Rightarrow> ebye_get_event vt build fuel src | Some ev \<Rightarrow> (Inr (Some ev), src)))"

definition ebye_get_data_src :: "ebye_event \<Rightarrow> bytes \<times> ebye_event" where
  "ebye_get_data_src ev =
     (case ee_data ev of
        Some d \<Rightarrow> (d, ev)
      | None \<Rightarrow> let d = concat (ee_chunks ev) in (d, ev\<lparr>ee_data := Some d, ee_chunks := d # tl (ee_chunks ev)\<rparr>))"

lemma next_kilobyte_eq: "next_kilobyte (int p) = int (p div 1024 * 1024 + 1024)"
proof -
  have "int p AND NOT (mask 10) = push_bit 10 (drop_bit 10 (int p))" by (rule bit_eqI) (auto simp: bit_simps)
  then have "int p AND NOT 0x3ff = int p div 1024 * 1024" by (simp add: push_bit_eq_mult drop_bit_eq_div mask_eq_exp_minus_1)
  then show ?thesis unfolding next_kilobyte_def by (simp add: zdiv_int)
qed

text \<open>Chunks none of which is empty.\<close>

definition chunks_full :: "buf_chunk list \<Rightarrow> bool" where
  "chunks_full cs \<longleftrightarrow> two_chunks cs \<and> [] \<notin> set cs"

lemma chunks_full_Nil: "chunks_full cs \<Longrightarrow> concat cs = [] \<longleftrightarrow> cs = []"
  by (cases cs) (auto simp: chunks_full_def)

lemma chunks_full_get:
  assumes "chunks_full cs" "concat cs = h @ rest" "h \<noteq> []"
  shows "\<exists>cs'. get_range cs (length h) = (Some h, cs') \<and> two_chunks cs' \<and> concat cs' = rest \<and> (rest \<noteq> [] \<longrightarrow> chunks_full cs')"
proof -
  have two: "two_chunks cs" and ne: "cs \<noteq> []" using assms by (auto simp: chunks_full_def)
  from get_range_Some [OF two ne, of "length h"] assms(2) obtain cs' where
    g: "get_range cs (length h) = (Some h, cs')" "concat cs' = rest" "length cs' \<le> length cs" by auto
  have "[] \<notin> set cs'" if "rest \<noteq> []" using two g(1,2) that assms(1,3)
    by (elim two_chunks_cases) (auto simp: get_range_def chunks_full_def Let_def split: if_splits)
  then show ?thesis using g two by (auto simp: chunks_full_def)
qed

lemma chunks_full_cont:
  assumes "chunks_full cs" "concat cs = d @ rest" "d \<noteq> []"
  shows "\<exists>got cs'. get_range_cont cs (length d) = (Some got, cs') \<and> cont_bytes got = d \<and> concat cs' = rest \<and> chunks_full cs'"
proof -
  have two: "two_chunks cs" and ne: "cs \<noteq> []" using assms by (auto simp: chunks_full_def)
  have "fst (get_range_chunks cs (length d)) \<noteq> None" using get_range_chunks_None [OF two, of "length d"] ne assms(2) by simp
  then obtain ds cs' where c: "get_range_chunks cs (length d) = (Some ds, cs')" by (cases "get_range_chunks cs (length d)") auto
  note r = get_range_chunks_SomeD [OF two c]
  from get_range_cont_chunks [OF two, of "length d"] c obtain got where
    k: "get_range_cont cs (length d) = (Some got, cs')" "cont_bytes got = concat ds" by (cases "get_range_cont cs (length d)") auto
  have "[] \<notin> set cs'" using two k(1) assms(1,3)
    by (elim two_chunks_cases) (auto simp: get_range_cont_def chunks_full_def Let_def split: if_splits)
  then show ?thesis using k r two assms(2) by (auto simp: chunks_full_def)
qed

section \<open>A file of records\<close>

text \<open>A number in memory, in the order of the host or in the other one.\<close>

definition mem16 :: "bool \<Rightarrow> u16 \<Rightarrow> bytes" where
  "mem16 swapped w = (if swapped then rev (bytes16 w) else bytes16 w)"

definition mem32 :: "bool \<Rightarrow> u32 \<Rightarrow> bytes" where
  "mem32 swapped w = (if swapped then rev (bytes32 w) else bytes32 w)"

definition encode_token :: "ebye_build \<Rightarrow> bool \<Rightarrow> nat \<Rightarrow> bytes" where
  "encode_token build swapped n =
     (if build = Ebye_16 then mem16 swapped 0xffff @ mem16 swapped (of_nat n) else mem32 swapped (0xffff0000 + of_nat n))"

definition encode_ebye_event :: "ebye_build \<Rightarrow> bool \<Rightarrow> bytes \<Rightarrow> bytes" where
  "encode_ebye_event build swapped d = encode_token build swapped (4 + length d) @ d"

text \<open>
  A record: whether its header and its data are in the other byte order, sequence number, stream, its events, and what follows them: nothing, or the
  end of the block and unused bytes.
\<close>

record ebye_content =
  ec_tape :: bool
  ec_data :: bool
  ec_sequence :: u32
  ec_stream :: u16
  ec_events :: "bytes list"
  ec_unused :: "bytes option"

definition ebye_block :: "ebye_build \<Rightarrow> ebye_content \<Rightarrow> bytes" where
  "ebye_block build r =
     concat (map (encode_ebye_event build (ec_data r)) (ec_events r)) @
     (case ec_unused r of None \<Rightarrow> [] | Some u \<Rightarrow> encode_token build (ec_data r) 0 @ u)"

definition filler :: "nat \<Rightarrow> bytes" where
  "filler n = replicate ((1024 - n mod 1024) mod 1024) 0x5e"

definition encode_ebye_header :: "nat \<Rightarrow> ebye_content \<Rightarrow> bytes" where
  "encode_ebye_header n r =
     EBYE_RECORD_ID @ mem32 (ec_tape r) (ec_sequence r) @ mem16 (ec_tape r) 1 @ mem16 (ec_tape r) (ec_stream r) @ mem16 (ec_tape r) 1 @
     mem16 (ec_data r) 1 @ mem32 (ec_tape r) (of_nat n)"

definition encode_ebye_record :: "ebye_build \<Rightarrow> ebye_content \<Rightarrow> bytes" where
  "encode_ebye_record build r =
     (let b = ebye_block build r in encode_ebye_header (length b) r @ b @ filler (24 + length b))"

definition good_ebye_record :: "ebye_build \<Rightarrow> ebye_content \<Rightarrow> bool" where
  "good_ebye_record build r \<longleftrightarrow>
     ec_stream r \<le> 4 \<and> ebye_block build r \<noteq> [] \<and> length (ebye_block build r) \<le> 0x40000000 \<and>
     list_all (\<lambda>d. d \<noteq> [] \<and> length d mod 4 = 0 \<and> 4 + length d < 2 ^ 16) (ec_events r)"

text \<open>What the reader is to deliver: whether to swap, and the data.\<close>

definition ebye_record_events :: "ebye_build \<Rightarrow> ebye_content \<Rightarrow> (bool \<times> bytes) list" where
  "ebye_record_events build r = map (Pair (ec_data r)) (if build = Ebye_timestamped then [ebye_block build r] else ec_events r)"

definition ebye_event_of :: "ebye_event \<Rightarrow> bool \<times> bytes" where
  "ebye_event_of ev = (ee_swapping ev, fst (ebye_get_data_src ev))"

lemma length_swapped_mem [simp]: "length (mem16 s w) = 2" "length (mem32 s v) = 4"
  by (simp_all add: mem16_def mem32_def)

lemma bswap_16_u16_of [simp]: "bswap_16 (u16_of a b) = u16_of b a"
proof -
  have "bytes16 (u16_of a b) = [a, b]" by simp
  then show ?thesis by (simp add: bswap_16_def bytes16_def)
qed

lemma length_record_id [simp]: "length EBYE_RECORD_ID = 8" by (simp add: EBYE_RECORD_ID_def)

lemma ebye_header_mem:
  "ebye_record_header_of_mem (encode_ebye_header n r) =
     \<lparr>er_id = EBYE_RECORD_ID, er_sequence = (if ec_tape r then bswap_32 (ec_sequence r) else ec_sequence r),
       er_tape = (if ec_tape r then 0x0100 else 1), er_stream = (if ec_tape r then bswap_16 (ec_stream r) else ec_stream r),
       er_endian_tape = (if ec_tape r then 0x0100 else 1), er_endian_data = (if ec_data r then 0x0100 else 1),
       er_data_length = (if ec_tape r then bswap_32 (of_nat n) else of_nat n)\<rparr>"
proof -
  have one: "u16_of 0 1 = 0x0100" "u16_of 1 0 = 1" by (simp_all add: u16_of_def)
  show ?thesis unfolding encode_ebye_header_def
    by (cases "ec_tape r"; cases "ec_data r")
      (simp_all add: ebye_record_header_of_mem_def EBYE_RECORD_ID_def mem16_def mem32_def bytes16_def bytes32_def bswap_16_def bswap_32_def one)
qed

declare ebye_get_event.simps(2) [simp del] ebye_read_header.simps(2) [simp del]

lemma length_encode_token [simp]: "length (encode_token build s n) = 4"
  by (simp add: encode_token_def)

lemma token_word:
  assumes "n < 2 ^ 16"
  shows "ucast (drop_bit 16 (0xffff0000 + of_nat n :: u32)) = (0xffff :: u16)" "ucast ((0xffff0000 + of_nat n :: u32) AND 0xffff) = (of_nat n :: u16)"
proof -
  let ?w = "0xffff0000 + of_nat n :: u32"
  have w: "unat ?w = 0xffff0000 + n" using assms by (simp add: unat_word_ariths unat_of_nat)
  have m: "(0xffff0000 + n) mod 65536 = n" using assms mod_mult_self3 [of 65535 65536 n] by simp
  have "unat (drop_bit 16 ?w) = 0xffff" unfolding unat_drop_bit_eq w using assms by (simp add: drop_bit_eq_div)
  then have "drop_bit 16 ?w = 0xffff" by (simp add: word_unat_eq_iff)
  then show "ucast (drop_bit 16 ?w) = (0xffff :: u16)" by simp
  have "?w AND 0xffff = take_bit 16 ?w" by (simp add: take_bit_eq_mask mask_eq_exp_minus_1)
  then have "unat (ucast (?w AND 0xffff) :: u16) = n"
    unfolding unsigned_ucast_eq using w assms by (simp only: unsigned_take_bit_eq) (simp add: take_bit_eq_mod m)
  then show "ucast (?w AND 0xffff) = (of_nat n :: u16)" using assms by (simp add: word_unat_eq_iff unat_of_nat)
qed

lemma token_decoded:
  fixes s :: bool
  assumes "n < 2 ^ 16" "build \<noteq> Ebye_timestamped"
  defines "h \<equiv> ebye_event_header_of_mem build (encode_token build s n)"
  shows "ebye_token (if s then ebye_swap_event_header h else h) = 0xffff" "ebye_length (if s then ebye_swap_event_header h else h) = of_nat n"
proof -
  have "u16_of 65535 255 = 65535" by (simp add: u16_of_def)
  then have "(if s then ebye_swap_event_header h else h) = (if build = Ebye_16 then Header_16 0xffff (of_nat n) else Header_32 (0xffff0000 + of_nat n))"
    by (simp add: h_def ebye_event_header_of_mem_def encode_token_def mem16_def mem32_def bytes16_def bytes32_def nth_append)
  then show "ebye_token (if s then ebye_swap_event_header h else h) = 0xffff" "ebye_length (if s then ebye_swap_event_header h else h) = of_nat n"
    using token_word [OF assms(1)] by simp_all
qed

lemma ebye_take_data_at:
  assumes "chunks_full (eb_chunks src)" "concat (eb_chunks src) = d @ rest" "d \<noteq> []"
  shows "\<exists>ev src'. ebye_take_data (length d) src = (Inr (Some ev), src') \<and> ebye_event_of ev = (eb_swapping src, d) \<and>
    eb_input src' = eb_input src \<and> eb_swapping src' = eb_swapping src \<and> eb_record_header src' = eb_record_header src \<and>
    chunks_full (eb_chunks src') \<and> concat (eb_chunks src') = rest"
proof -
  from chunks_full_cont [OF assms] obtain got cs where
    "get_range_cont (eb_chunks src) (length d) = (Some got, cs)" "cont_bytes got = d" "concat cs = rest" "chunks_full cs" by auto
  then show ?thesis
    by (auto simp: ebye_take_data_def Let_def ebye_event_of_def ebye_get_data_src_def cont_bytes_def split: sum.splits prod.splits)
qed

lemma ebye_set_header_simps [simp]:
  "eb_input (ebye_set_header h src) = eb_input src" "eb_swapping (ebye_set_header h src) = eb_swapping src"
  "eb_chunks (ebye_set_header h src) = eb_chunks src" "eb_record_header (ebye_set_header h src) = eb_record_header src"
  by (simp_all add: ebye_set_header_def)

lemma ebye_get_token:
  assumes "chunks_full (eb_chunks src)" "concat (eb_chunks src) = encode_token build (eb_swapping src) n @ rest" "n < 2 ^ 16" "build \<noteq> Ebye_timestamped"
  shows "\<exists>h cs. ebye_token h = 0xffff \<and> ebye_length h = of_nat n \<and> concat cs = rest \<and> (rest \<noteq> [] \<longrightarrow> chunks_full cs) \<and>
    ebye_get_event vt build (Suc fuel) src =
      andthen (ebye_take_event h (ebye_set_header h (src\<lparr>eb_chunks := cs\<rparr>))) (\<lambda>got src.
        case got of None \<Rightarrow> ebye_get_event vt build fuel src | Some ev \<Rightarrow> (Inr (Some ev), src))"
proof -
  have ne: "encode_token build (eb_swapping src) n \<noteq> []" by (metis length_encode_token list.size(3) zero_neq_numeral)
  from chunks_full_get [OF assms(1,2) ne] obtain cs where
    g: "get_range (eb_chunks src) 4 = (Some (encode_token build (eb_swapping src) n), cs)" "concat cs = rest" "rest \<noteq> [] \<longrightarrow> chunks_full cs" by auto
  have "eb_chunks src \<noteq> []" using assms(2) ne by auto
  then show ?thesis using g token_decoded [OF assms(3,4), of "eb_swapping src"] assms(4)
    by (intro exI [of _ "let h = ebye_event_header_of_mem build (encode_token build (eb_swapping src) n) in if eb_swapping src then ebye_swap_event_header h else h"] exI [of _ cs])
      (simp add: ebye_get_event.simps(2) Let_def)
qed

lemma aligned_length:
  assumes "length d mod 4 = 0" "4 + length d < 2 ^ 16"
  shows "(of_nat (4 + length d) - of_nat 4 :: u16) AND 3 = 0" "unat (of_nat (4 + length d) - of_nat 4 :: u16) = length d" "(of_nat (4 + length d) :: u16) \<noteq> 0"
proof -
  have e: "(of_nat (4 + length d) - of_nat 4 :: u16) = of_nat (length d)" by simp
  show u: "unat (of_nat (4 + length d) - of_nat 4 :: u16) = length d" unfolding e using assms(2) by (simp add: unat_of_nat)
  have "(of_nat (length d) :: u16) AND 3 = take_bit 2 (of_nat (length d))" by (simp add: take_bit_eq_mask mask_eq_exp_minus_1)
  moreover have "unat (take_bit 2 (of_nat (length d) :: u16)) = 0"
    unfolding unsigned_take_bit_eq unat_of_nat using assms by (simp add: take_bit_eq_mod)
  ultimately show "(of_nat (4 + length d) - of_nat 4 :: u16) AND 3 = 0" unfolding e by (metis unat_eq_zero)
  have "unat (of_nat (4 + length d) :: u16) = 4 + length d" using assms(2) by (subst unat_of_nat) simp
  then show "(of_nat (4 + length d) :: u16) \<noteq> 0" by (metis add_is_0 unat_0 zero_neq_numeral)
qed

lemma ebye_get_event_at:
  assumes "chunks_full (eb_chunks src)" "concat (eb_chunks src) = encode_ebye_event build (eb_swapping src) d @ rest" "build \<noteq> Ebye_timestamped"
    and "d \<noteq> []" "length d mod 4 = 0" "4 + length d < 2 ^ 16"
  shows "\<exists>ev src'. ebye_get_event vt build (Suc fuel) src = (Inr (Some ev), src') \<and> ebye_event_of ev = (eb_swapping src, d) \<and>
    eb_input src' = eb_input src \<and> eb_swapping src' = eb_swapping src \<and> eb_record_header src' = eb_record_header src \<and>
    chunks_full (eb_chunks src') \<and> concat (eb_chunks src') = rest"
proof -
  have c: "concat (eb_chunks src) = encode_token build (eb_swapping src) (4 + length d) @ d @ rest" using assms(2) by (simp add: encode_ebye_event_def)
  from ebye_get_token [OF assms(1) c assms(6,3), of vt fuel] assms(4) obtain h cs where
    h: "ebye_token h = 0xffff" "ebye_length h = of_nat (4 + length d)" "concat cs = d @ rest" "chunks_full cs"
      "ebye_get_event vt build (Suc fuel) src =
        andthen (ebye_take_event h (ebye_set_header h (src\<lparr>eb_chunks := cs\<rparr>))) (\<lambda>got src.
          case got of None \<Rightarrow> ebye_get_event vt build fuel src | Some ev \<Rightarrow> (Inr (Some ev), src))" by auto
  have "ebye_take_event h (ebye_set_header h (src\<lparr>eb_chunks := cs\<rparr>)) = ebye_take_data (length d) (ebye_set_header h (src\<lparr>eb_chunks := cs\<rparr>))"
    using h(1,2) aligned_length [OF assms(5,6)] by (simp add: ebye_take_event_def Let_def)
  with ebye_take_data_at [of "ebye_set_header h (src\<lparr>eb_chunks := cs\<rparr>)" d rest] h(3-5) assms(4) show ?thesis by force
qed

lemma ebye_get_end:
  assumes "chunks_full (eb_chunks src)" "concat (eb_chunks src) = encode_token build (eb_swapping src) 0 @ u" "build \<noteq> Ebye_timestamped"
  shows "\<exists>src'. ebye_get_event vt build (Suc fuel) src = ebye_get_event vt build fuel src' \<and> eb_input src' = eb_input src \<and> eb_chunks src' = []"
proof -
  from ebye_get_token [OF assms(1,2) _ assms(3), of vt fuel] obtain h cs where
    h: "ebye_token h = 0xffff" "ebye_length h = 0"
      "ebye_get_event vt build (Suc fuel) src =
        andthen (ebye_take_event h (ebye_set_header h (src\<lparr>eb_chunks := cs\<rparr>))) (\<lambda>got src.
          case got of None \<Rightarrow> ebye_get_event vt build fuel src | Some ev \<Rightarrow> (Inr (Some ev), src))" by auto
  show ?thesis unfolding h(3) using h(1,2) by (auto simp: ebye_take_event_def Let_def)
qed

lemma ebye_get_block:
  assumes "chunks_full (eb_chunks src)" "concat (eb_chunks src) = d" "d \<noteq> []" "unat (er_data_length (eb_record_header src)) = length d"
  shows "\<exists>ev src'. ebye_get_event vt Ebye_timestamped (Suc fuel) src = (Inr (Some ev), src') \<and> ebye_event_of ev = (eb_swapping src, d) \<and>
    eb_input src' = eb_input src \<and> eb_chunks src' = []"
proof -
  let ?src = "ebye_set_header (Header_32 (er_data_length (eb_record_header src))) src"
  have "eb_chunks src \<noteq> []" using assms(2,3) by auto
  then have "ebye_get_event vt Ebye_timestamped (Suc fuel) src = ebye_take_data (length d) ?src"
    using assms(4) by (simp add: ebye_get_event.simps(2) Let_def)
  moreover from ebye_take_data_at [of ?src d "[]"] assms obtain ev src' where
    "ebye_take_data (length d) ?src = (Inr (Some ev), src')" "ebye_event_of ev = (eb_swapping src, d)" "eb_input src' = eb_input src"
      "chunks_full (eb_chunks src')" "concat (eb_chunks src') = []" by auto
  ultimately show ?thesis using chunks_full_Nil by auto
qed

end
