(* ===== verification/Ebye_Events.thy ===== *)
theory Ebye_Events
  imports Ebye_Input
begin

text \<open>
  What the reader of EBYE records delivers: whole files in the encoding of \<^verbatim>\<open>Ebye_Input\<close>, and any input. The lemmas are proved for each
  source of the locale \<open>input_source\<close>; the properties are their instances for the ring buffer.
\<close>

unbundle bit_operations_syntax

lemma kilobyte_after_filler:
  fixes p pad :: nat
  assumes "0 < pad" "pad < 1024" "1024 dvd p + pad"
  shows "p div 1024 * 1024 + 1024 = p + pad"
proof -
  obtain k where k: "p + pad = 1024 * k" using assms(3) by (rule dvdE)
  then have "p div 1024 = k - 1" using assms(1,2) by (intro div_nat_eqI) auto
  then show ?thesis using k assms(1) by (cases k) auto
qed

lemma length_encode_header [simp]: "length (encode_ebye_header n r) = 24"
  by (simp add: encode_ebye_header_def)

context input_source
begin

text \<open>The header of a record after filler, at a multiple of 1024 bytes.\<close>

lemma ebye_header_found:
  assumes "cont_pos S w p (eb_input src)" "drop p S = encode_ebye_header n r @ rest" "int (p + 24) \<le> released (ic_input (eb_input src)) + int w"
  shows "\<exists>ic. ebye_read_header vt (Suc fuel) src = (Inr True, src\<lparr>eb_input := ic, eb_record_header := ebye_record_header_of_mem (encode_ebye_header n r)\<rparr>) \<and>
    cont_at S w (p + 24) ic \<and> released (ic_input ic) = released (ic_input (eb_input src))"
proof -
  have "p + 24 \<le> length S" using arg_cong [OF assms(2), of length] by simp
  from cont_read_at [OF assms(1,3) this] obtain ic where
    "cont_read_range vt (eb_input src) 24 = (Inr (Some (slice p 24 S)), ic)" "cont_at S w (p + 24) ic" "released (ic_input ic) = released (ic_input (eb_input src))" by auto
  moreover have "slice p 24 S = encode_ebye_header n r" using assms(2) by (simp add: slice_def)
  moreover have "er_id (ebye_record_header_of_mem (encode_ebye_header n r)) = EBYE_RECORD_ID" by (simp add: ebye_header_mem)
  ultimately show ?thesis by (intro exI [of _ ic]) (simp add: ebye_read_header.simps(2))
qed

lemma ebye_filler_passed:
  assumes "cont_pos S w p (eb_input src)" "drop p S = replicate pad 0x5e @ rest" "24 \<le> pad + length rest" "0 < pad" "pad < 1024" "1024 dvd p + pad"
    and "int (p + 24) \<le> released (ic_input (eb_input src)) + int w"
  shows "\<exists>src'. ebye_read_header vt (Suc fuel) src = ebye_read_header vt fuel src' \<and> cont_pos S w (p + pad) (eb_input src') \<and>
    released (ic_input (eb_input src')) = released (ic_input (eb_input src))"
proof -
  have len: "p + 24 \<le> length S" using arg_cong [OF assms(2), of length] assms(3) by simp
  from cont_read_at [OF assms(1,7) len] obtain ic where
    r: "cont_read_range vt (eb_input src) 24 = (Inr (Some (slice p 24 S)), ic)" "cont_at S w (p + 24) ic"
      "released (ic_input ic) = released (ic_input (eb_input src))" by auto
  let ?h = "ebye_record_header_of_mem (slice p 24 S)"
  obtain k where k: "pad = Suc k" using assms(4) by (cases pad) auto
  have h0: "er_id ?h ! 0 = 0x5e" using assms(2) by (simp add: ebye_record_header_of_mem_def slice_def k)
  have "EBYE_RECORD_ID ! 0 = 0x45" by (simp add: EBYE_RECORD_ID_def)
  then have h: "er_id ?h \<noteq> EBYE_RECORD_ID" using h0 by auto
  have "ic_cur ic - 24 = int p" using r(2) by (simp add: cont_at_def Let_def)
  then have n: "next_kilobyte (ic_cur ic - 24) = int (p + pad)" using next_kilobyte_eq [of p] kilobyte_after_filler [OF assms(4-6)] by simp
  have "cont_pos S w (p + pad) (ic\<lparr>ic_cur := int (p + pad)\<rparr>)" using r(2,3) assms(1) by (auto simp: cont_at_def cont_pos_def Let_def)
  then show ?thesis using r(1,3) h h0 n
    by (intro exI [of _ "src\<lparr>eb_record_header := ?h, eb_input := ic\<lparr>ic_cur := int (p + pad)\<rparr>\<rparr>"]) (simp add: ebye_read_header.simps(2) Let_def)
qed

lemma ebye_read_header_at:
  assumes "cont_pos S w p (eb_input src)" "drop p S = replicate pad 0x5e @ encode_ebye_header n r @ rest" "pad < 1024" "1024 dvd p + pad"
    and "int (p + pad + 24) \<le> released (ic_input (eb_input src)) + int w" "2 \<le> fuel"
  shows "\<exists>src'. ebye_read_header vt fuel src = (Inr True, src') \<and> cont_at S w (p + pad + 24) (eb_input src') \<and>
    released (ic_input (eb_input src')) = released (ic_input (eb_input src)) \<and>
    eb_record_header src' = ebye_record_header_of_mem (encode_ebye_header n r)"
proof -
  obtain g where g: "fuel = Suc (Suc g)" using assms(6) by (metis Suc_le_D numeral_2_eq_2 Suc_le_mono)
  show ?thesis
  proof (cases "pad = 0")
    case True
    with ebye_header_found [of S w p src n r rest "Suc g"] assms g show ?thesis by auto
  next
    case False
    with ebye_filler_passed [OF assms(1,2) _ _ assms(3,4), of "Suc g"] assms(5) g obtain src1 where
      1: "ebye_read_header vt fuel src = ebye_read_header vt (Suc g) src1" "cont_pos S w (p + pad) (eb_input src1)"
        "released (ic_input (eb_input src1)) = released (ic_input (eb_input src))" by auto
    have "drop (p + pad) S = encode_ebye_header n r @ rest" using arg_cong [OF assms(2), of "drop pad"] by (simp add: add.commute)
    from ebye_header_found [OF 1(2) this, of g] 1(1,3) assms(5) show ?thesis by auto
  qed
qed

lemma ebye_read_header_end:
  assumes "cont_pos S w p (eb_input src)" "p \<le> length S" "drop p S = replicate pad 0x5e" "pad < 1024" "1024 dvd p + pad"
    and "int (p + pad + 24) \<le> released (ic_input (eb_input src)) + int w" "2 \<le> fuel"
  shows "\<exists>src'. ebye_read_header vt fuel src = (Inr False, src')"
proof -
  obtain g where g: "fuel = Suc (Suc g)" using assms(7) by (metis Suc_le_D numeral_2_eq_2 Suc_le_mono)
  have len: "length S = p + pad" using arg_cong [OF assms(3), of length] assms(2) by simp
  have stop: "\<exists>src'. ebye_read_header vt (Suc h) src = (Inr False, src')"
    if "cont_pos S w q (eb_input src)" "q \<le> length S" "length S < q + 24" "int (q + 24) \<le> released (ic_input (eb_input src)) + int w" for q src h
    using cont_read_end [OF that(1) _ that(3,4)] that(2) by (auto simp: ebye_read_header.simps(2))
  show ?thesis
  proof (cases "pad < 24")
    case True
    then show ?thesis using stop [OF assms(1,2), of "Suc g"] len assms(6) g by simp
  next
    case False
    have d: "drop p S = replicate pad 0x5e @ []" using assms(3) by simp
    from ebye_filler_passed [OF assms(1) d _ _ assms(4,5), of "Suc g"] False assms(6) g obtain src1 where
      "ebye_read_header vt fuel src = ebye_read_header vt (Suc g) src1" "cont_pos S w (p + pad) (eb_input src1)"
        "released (ic_input (eb_input src1)) = released (ic_input (eb_input src))" by auto
    then show ?thesis using stop [of "p + pad" src1 g] len assms(6) by simp
  qed
qed
end

lemma bswap_16_bswap_16 [simp]: "bswap_16 (bswap_16 w) = w"
  unfolding bswap_16_def [of w] bswap_16_u16_of by simp

lemma ebye_swap_header_at:
  assumes "eb_record_header src = ebye_record_header_of_mem (encode_ebye_header n r)"
  shows "\<exists>src'. ebye_swap_header src = (Inr (), src') \<and> eb_input src' = eb_input src \<and> er_tape (eb_record_header src') = 1 \<and>
    er_stream (eb_record_header src') = ec_stream r \<and> er_data_length (eb_record_header src') = of_nat n \<and>
    er_endian_data (eb_record_header src') = (if ec_data r then 0x0100 else 1)"
proof -
  have "bswap_16 0x0100 = 1" by (simp add: bswap_16_def u16_of_def)
  then show ?thesis using assms by (simp add: ebye_swap_header_def ebye_header_mem Let_def)
qed

lemma ebye_check_header_at:
  assumes "er_tape (eb_record_header src) = 1" "er_stream (eb_record_header src) \<le> 4" "er_data_length (eb_record_header src) \<le> 0x40000000"
  shows "\<exists>src'. ebye_check_header src = (Inr (), src') \<and> eb_input src' = eb_input src \<and> eb_record_header src' = eb_record_header src"
  using assms by (simp add: ebye_check_header_def Let_def not_less [symmetric])

context input_source
begin

lemma ebye_read_record_at:
  assumes "cont_at S w p (eb_input src)" "drop p S = replicate pad 0x5e @ encode_ebye_record build r @ rest" "pad < 1024" "1024 dvd p + pad"
    and "good_ebye_record build r" "pad + 24 + length (ebye_block build r) \<le> w" "2 \<le> fuel"
  shows "\<exists>src'. ebye_read_record vt fuel src = (Inr True, src') \<and> cont_at S w (p + pad + 24 + length (ebye_block build r)) (eb_input src') \<and>
    chunks_full (eb_chunks src') \<and> concat (eb_chunks src') = ebye_block build r \<and> eb_swapping src' = ec_data r \<and>
    unat (er_data_length (eb_record_header src')) = length (ebye_block build r)"
proof -
  define d where "d = ebye_block build r"
  let ?n = "length d"
  have D: "drop p S = replicate pad 0x5e @ encode_ebye_header ?n r @ d @ filler (24 + ?n) @ rest"
    using assms(2) by (simp add: encode_ebye_record_def d_def Let_def)
  have n: "?n \<le> 0x40000000" "d \<noteq> []" "ec_stream r \<le> 4" "pad + 24 + ?n \<le> w" using assms(5,6) by (simp_all add: good_ebye_record_def d_def)
  have u: "unat (of_nat ?n :: u32) = ?n" using n(1) by (simp add: unat_of_nat)
  let ?src = "src\<lparr>eb_input := cont_release_to vt (eb_input src) (ic_cur (eb_input src))\<rparr>"
  note rel = cont_release_at [OF assms(1)]
  have pos: "cont_pos S w p (eb_input ?src)" "released (ic_input (eb_input ?src)) = int p" using cont_at_pos [OF rel(1)] rel(2) by simp_all
  from ebye_read_header_at [OF pos(1) D assms(3,4)] pos(2) n(4) assms(7) obtain src1 where
    1: "ebye_read_header vt fuel ?src = (Inr True, src1)" "cont_at S w (p + pad + 24) (eb_input src1)" "released (ic_input (eb_input src1)) = int p"
      "eb_record_header src1 = ebye_record_header_of_mem (encode_ebye_header ?n r)" by auto
  from ebye_swap_header_at [OF 1(4)] obtain src2 where
    2: "ebye_swap_header src1 = (Inr (), src2)" "eb_input src2 = eb_input src1" "er_tape (eb_record_header src2) = 1"
      "er_stream (eb_record_header src2) = ec_stream r" "er_data_length (eb_record_header src2) = of_nat ?n"
      "er_endian_data (eb_record_header src2) = (if ec_data r then 0x0100 else 1)" by auto
  have "er_data_length (eb_record_header src2) \<le> 0x40000000" using n(1) u by (simp add: word_le_nat_alt 2(5))
  with ebye_check_header_at [of src2] 2(3,4) n(3) obtain src3 where
    3: "ebye_check_header src2 = (Inr (), src3)" "eb_input src3 = eb_input src1" "eb_record_header src3 = eb_record_header src2" using 2(2) by auto
  have S: "slice (p + pad + 24) ?n S = d"
    using arg_cong [OF D, of "\<lambda>x. take ?n (drop (pad + 24) x)"] by (simp add: slice_def ac_simps)
  have len: "p + pad + 24 + ?n \<le> length S" using arg_cong [OF D, of length] by simp
  from cont_map_at [OF cont_at_pos [OF 1(2)], of ?n] 1(3) n(4) len S obtain cs ic where
    4: "cont_map_range vt (eb_input src1) ?n = (Inr cs, ic)" "cs \<noteq> []" "two_chunks cs" "length cs = 2 \<longrightarrow> [] \<notin> set cs" "concat cs = d"
      "cont_at S w (p + pad + 24 + ?n) ic" by auto
  have full: "chunks_full cs" using 4(3-5) n(2) by (elim two_chunks_cases) (auto simp: chunks_full_def)
  let ?src4 = "src3\<lparr>eb_input := ic, eb_chunks := cs\<rparr>"
  have m: "ebye_map_data vt src3 = (Inr (), ?src4)" using 4(1,2) 3(2,3) 2(5) u by (simp add: ebye_map_data_def Let_def)
  have "ebye_read_record vt fuel src = ebye_data_order ?src4" using 1(1) 2(1) 3(1) m by (simp add: ebye_read_record_def)
  moreover have "ebye_data_order ?src4 = (Inr True, ?src4\<lparr>eb_swapping := ec_data r\<rparr>)" using 2(6) 3(3) by (simp add: ebye_data_order_def Let_def)
  ultimately show ?thesis using 4(5,6) full 3(3) 2(5) u d_def by simp
qed

lemma ebye_read_record_end:
  assumes "cont_at S w p (eb_input src)" "p \<le> length S" "drop p S = replicate pad 0x5e" "pad < 1024" "1024 dvd p + pad" "pad + 24 \<le> w" "2 \<le> fuel"
  shows "\<exists>src'. ebye_read_record vt fuel src = (Inr False, src')"
proof -
  let ?src = "src\<lparr>eb_input := cont_release_to vt (eb_input src) (ic_cur (eb_input src))\<rparr>"
  note rel = cont_release_at [OF assms(1)]
  have pos: "cont_pos S w p (eb_input ?src)" "released (ic_input (eb_input ?src)) = int p" using cont_at_pos [OF rel(1)] rel(2) by simp_all
  from ebye_read_header_end [OF pos(1) assms(2-5)] pos(2) assms(6,7) obtain src' where "ebye_read_header vt fuel ?src = (Inr False, src')" by auto
  then show ?thesis by (simp add: ebye_read_record_def)
qed
end

fun ebye_read_all :: "'s input_buffer \<Rightarrow> ebye_build \<Rightarrow> nat \<Rightarrow> nat \<Rightarrow> 's ebye_source \<Rightarrow> ((bool \<times> bytes) list, 's ebye_source) result" where
  "ebye_read_all vt build fuel 0 src = (Inl Fuel, src)"
| "ebye_read_all vt build fuel (Suc n) src =
     andthen (ebye_get_event vt build fuel src) (\<lambda>got src.
       case got of
         None \<Rightarrow> (Inr [], src)
       | Some ev \<Rightarrow> andthen (ebye_read_all vt build fuel n src) (\<lambda>r src. (Inr (ebye_event_of ev # r), src)))"

lemma filler_length: "length (filler m) < 1024" "1024 dvd m + length (filler m)"
proof -
  have l: "length (filler m) = (1024 - m mod 1024) mod 1024" by (simp only: filler_def length_replicate)
  show "length (filler m) < 1024" unfolding l by (rule mod_less_divisor) simp
  have "m + (1024 - m mod 1024) = 1024 * (m div 1024) + 1024" using mult_div_mod_eq [of 1024 m] mod_less_divisor [of 1024 m] by linarith
  then have "(m + (1024 - m mod 1024)) mod 1024 = 0" by (simp only:) simp
  then show "1024 dvd m + length (filler m)" unfolding l dvd_eq_mod_eq_0 mod_add_right_eq .
qed

text \<open>The events that are in the chunks of a record.\<close>

definition ebye_left :: "ebye_build \<Rightarrow> (bool \<times> bytes) list \<Rightarrow> 's ebye_source \<Rightarrow> bool" where
  "ebye_left build evs src \<longleftrightarrow> chunks_full (eb_chunks src) \<and>
     (if build = Ebye_timestamped then
        evs = [] \<and> eb_chunks src = [] \<or>
        (\<exists>d. evs = [(eb_swapping src, d)] \<and> d \<noteq> [] \<and> concat (eb_chunks src) = d \<and> unat (er_data_length (eb_record_header src)) = length d)
      else
        \<exists>ds u. evs = map (Pair (eb_swapping src)) ds \<and> list_all (\<lambda>d. d \<noteq> [] \<and> length d mod 4 = 0 \<and> 4 + length d < 2 ^ 16) ds \<and>
          concat (eb_chunks src) = concat (map (encode_ebye_event build (eb_swapping src)) ds) @
            (case u of None \<Rightarrow> [] | Some u \<Rightarrow> encode_token build (eb_swapping src) 0 @ u))"

lemma ebye_left_record:
  assumes "good_ebye_record build r" "chunks_full (eb_chunks src)" "concat (eb_chunks src) = ebye_block build r" "eb_swapping src = ec_data r"
    and "unat (er_data_length (eb_record_header src)) = length (ebye_block build r)"
  shows "ebye_left build (ebye_record_events build r) src"
proof (cases "build = Ebye_timestamped")
  case True
  then show ?thesis using assms by (simp add: ebye_left_def ebye_record_events_def good_ebye_record_def)
next
  case False
  then show ?thesis unfolding ebye_left_def ebye_record_events_def assms(3,4) ebye_block_def if_not_P [OF False]
    using assms(1,2) by (intro conjI exI [of _ "ec_events r"] exI [of _ "ec_unused r"]) (simp_all add: good_ebye_record_def)
qed

lemma ebye_left_Cons:
  assumes "ebye_left build (e # es) src"
  shows "\<exists>ev src'. ebye_get_event vt build (Suc fuel) src = (Inr (Some ev), src') \<and> ebye_event_of ev = e \<and> eb_input src' = eb_input src \<and>
    ebye_left build es src'"
proof (cases "build = Ebye_timestamped")
  case True
  with assms obtain d where "e = (eb_swapping src, d)" "es = []" "d \<noteq> []" "concat (eb_chunks src) = d" "unat (er_data_length (eb_record_header src)) = length d"
    "chunks_full (eb_chunks src)" by (auto simp: ebye_left_def simp del: concat_eq_Nil_conv)
  with ebye_get_block [of src d vt fuel] True show ?thesis by (auto simp: ebye_left_def chunks_full_def)
next
  case False
  from assms have ex: "chunks_full (eb_chunks src)" "\<exists>ds u. e # es = map (Pair (eb_swapping src)) ds \<and>
      list_all (\<lambda>d. d \<noteq> [] \<and> length d mod 4 = 0 \<and> 4 + length d < 2 ^ 16) ds \<and>
      concat (eb_chunks src) = concat (map (encode_ebye_event build (eb_swapping src)) ds) @
        (case u of None \<Rightarrow> [] | Some u \<Rightarrow> encode_token build (eb_swapping src) 0 @ u)" unfolding ebye_left_def if_not_P [OF False] by simp_all
  from ex(2) obtain ds0 u where 0: "e # es = map (Pair (eb_swapping src)) ds0" "list_all (\<lambda>d. d \<noteq> [] \<and> length d mod 4 = 0 \<and> 4 + length d < 2 ^ 16) ds0"
    "concat (eb_chunks src) = concat (map (encode_ebye_event build (eb_swapping src)) ds0) @
       (case u of None \<Rightarrow> [] | Some u \<Rightarrow> encode_token build (eb_swapping src) 0 @ u)" by (elim exE conjE) (rule that, assumption+)
  obtain d ds where c: "ds0 = d # ds" using 0(1) by (cases ds0) simp_all
  have d: "e = (eb_swapping src, d)" "es = map (Pair (eb_swapping src)) ds" "d \<noteq> []" "length d mod 4 = 0" "4 + length d < 2 ^ 16"
    "list_all (\<lambda>d. d \<noteq> [] \<and> length d mod 4 = 0 \<and> 4 + length d < 2 ^ 16) ds" "chunks_full (eb_chunks src)"
    "concat (eb_chunks src) = encode_ebye_event build (eb_swapping src) d @ concat (map (encode_ebye_event build (eb_swapping src)) ds) @
       (case u of None \<Rightarrow> [] | Some u \<Rightarrow> encode_token build (eb_swapping src) 0 @ u)" using 0 ex(1) unfolding c by simp_all
  from ebye_get_event_at [OF d(7,8) False d(3-5), of vt fuel] obtain ev src' where
    s: "ebye_get_event vt build (Suc fuel) src = (Inr (Some ev), src')" "ebye_event_of ev = (eb_swapping src, d)" "eb_input src' = eb_input src"
      "eb_swapping src' = eb_swapping src" "chunks_full (eb_chunks src')"
      "concat (eb_chunks src') = concat (map (encode_ebye_event build (eb_swapping src)) ds) @ (case u of None \<Rightarrow> [] | Some u \<Rightarrow> encode_token build (eb_swapping src) 0 @ u)"
    by auto
  have "ebye_left build es src'" unfolding ebye_left_def if_not_P [OF False] s(4,6)
    using d(2,6) s(5) by (intro conjI exI [of _ ds] exI [of _ u]) simp_all
  then show ?thesis using s(1-3) d(1) by auto
qed

lemma ebye_left_Nil:
  assumes "ebye_left build [] src" "2 \<le> fuel"
  shows "\<exists>g src'. ebye_get_event vt build fuel src = ebye_get_event vt build (Suc g) src' \<and> eb_chunks src' = [] \<and> eb_input src' = eb_input src \<and> fuel - 1 \<le> Suc g"
proof (cases "eb_chunks src = []")
  case True
  then show ?thesis using assms(2) by (intro exI [of _ "fuel - 1"] exI [of _ src]) simp
next
  case False
  obtain g where g: "fuel = Suc (Suc g)" using assms(2) by (metis Suc_le_D numeral_2_eq_2 Suc_le_mono)
  have full: "chunks_full (eb_chunks src)" and b: "build \<noteq> Ebye_timestamped" using assms(1) False by (auto simp: ebye_left_def)
  then obtain u where "concat (eb_chunks src) = encode_token build (eb_swapping src) 0 @ u"
    using assms(1) False chunks_full_Nil [OF full] by (auto simp: ebye_left_def split: option.splits)
  from ebye_get_end [OF full this b, of vt "Suc g"] g show ?thesis by (auto intro!: exI [of _ g])
qed

context input_source
begin

definition ebye_here :: "bytes \<Rightarrow> nat \<Rightarrow> ebye_build \<Rightarrow> (bool \<times> bytes) list \<Rightarrow> ebye_content list \<Rightarrow> 's ebye_source \<Rightarrow> bool" where
  "ebye_here S w build evs recs src \<longleftrightarrow>
     (\<exists>p pad. cont_at S w p (eb_input src) \<and> p \<le> length S \<and> pad < 1024 \<and> 1024 dvd p + pad \<and>
        drop p S = replicate pad 0x5e @ concat (map (encode_ebye_record build) recs)) \<and>
     ebye_left build evs src \<and> list_all (good_ebye_record build) recs \<and>
     list_all (\<lambda>r. 1048 + length (ebye_block build r) \<le> w) recs"

lemma ebye_take:
  assumes "ebye_here S w build (e # es) recs src"
  shows "\<exists>ev src'. ebye_get_event vt build (Suc fuel) src = (Inr (Some ev), src') \<and> ebye_event_of ev = e \<and> ebye_here S w build es recs src'"
proof -
  have "ebye_left build (e # es) src" using assms by (simp add: ebye_here_def)
  from ebye_left_Cons [OF this, of vt fuel] obtain ev src' where
    "ebye_get_event vt build (Suc fuel) src = (Inr (Some ev), src')" "ebye_event_of ev = e" "eb_input src' = eb_input src" "ebye_left build es src'" by auto
  then show ?thesis using assms unfolding ebye_here_def by auto
qed

lemma ebye_next_record:
  assumes "ebye_here S w build [] (r # recs) src" "3 \<le> fuel"
  shows "\<exists>g src'. ebye_get_event vt build fuel src = ebye_get_event vt build g src' \<and> ebye_here S w build (ebye_record_events build r) recs src' \<and> fuel - 2 \<le> g"
proof -
  have "ebye_left build [] src" "2 \<le> fuel" using assms by (simp_all add: ebye_here_def)
  from ebye_left_Nil [OF this, of vt] obtain g src2 where
    2: "ebye_get_event vt build fuel src = ebye_get_event vt build (Suc g) src2" "eb_chunks src2 = []" "eb_input src2 = eb_input src" "fuel - 1 \<le> Suc g" by auto
  define n where "n = length (ebye_block build r)"
  have "\<exists>p pad. cont_at S w p (eb_input src2) \<and> p \<le> length S \<and> pad < 1024 \<and> 1024 dvd p + pad \<and>
      drop p S = replicate pad 0x5e @ encode_ebye_record build r @ concat (map (encode_ebye_record build) recs)"
    using assms(1) 2(3) by (simp add: ebye_here_def)
  then obtain p pad where p: "cont_at S w p (eb_input src2)" "p \<le> length S" "pad < 1024" "1024 dvd p + pad"
    "drop p S = replicate pad 0x5e @ encode_ebye_record build r @ concat (map (encode_ebye_record build) recs)" by blast
  have g: "good_ebye_record build r" "pad + 24 + n \<le> w" using assms(1) p(3) by (simp_all add: ebye_here_def n_def)
  have f: "2 \<le> Suc g" using 2(4) assms(2) by linarith
  from ebye_read_record_at [OF p(1,5,3,4) g(1) _ f] g(2) obtain src3 where
    3: "ebye_read_record vt (Suc g) src2 = (Inr True, src3)" "cont_at S w (p + pad + 24 + n) (eb_input src3)" "chunks_full (eb_chunks src3)"
      "concat (eb_chunks src3) = ebye_block build r" "eb_swapping src3 = ec_data r" "unat (er_data_length (eb_record_header src3)) = length (ebye_block build r)"
    unfolding n_def by auto
  have get: "ebye_get_event vt build (Suc g) src2 = ebye_get_event vt build g src3" using 2(2) 3(1) by (simp add: ebye_get_event.simps(2))
  let ?pad = "length (filler (24 + n))"
  have D: "drop p S = (replicate pad 0x5e @ encode_ebye_header n r @ ebye_block build r) @ filler (24 + n) @ concat (map (encode_ebye_record build) recs)"
    using p(5) by (simp add: encode_ebye_record_def n_def Let_def)
  have "length (replicate pad 0x5e @ encode_ebye_header n r @ ebye_block build r) = pad + 24 + n" by (simp add: n_def)
  then have "drop (pad + 24 + n) (drop p S) = filler (24 + n) @ concat (map (encode_ebye_record build) recs)" unfolding D by (metis append_eq_conv_conj)
  then have "drop (p + pad + 24 + n) S = replicate ?pad 0x5e @ concat (map (encode_ebye_record build) recs)" by (simp add: filler_def ac_simps)
  moreover have "p + pad + 24 + n \<le> length S" using arg_cong [OF D, of length] p(2) by (simp add: n_def)
  moreover have "1024 dvd p + pad + 24 + n + ?pad" using dvd_add [OF p(4) filler_length(2) [of "24 + n"]] by (simp add: add.assoc)
  moreover have "ebye_left build (ebye_record_events build r) src3" by (rule ebye_left_record [OF g(1) 3(3-6)])
  ultimately have "ebye_here S w build (ebye_record_events build r) recs src3"
    using 3(2) filler_length(1) [of "24 + n"] assms(1) unfolding ebye_here_def
    by (intro conjI exI [of _ "p + pad + 24 + n"] exI [of _ ?pad]) simp_all
  then show ?thesis using 2(1,4) get by (intro exI [of _ g] exI [of _ src3]) simp
qed

lemma ebye_at_end:
  assumes "ebye_here S w build [] [] src" "3 \<le> fuel" "1048 \<le> w"
  shows "\<exists>src'. ebye_get_event vt build fuel src = (Inr None, src')"
proof -
  have "ebye_left build [] src" "2 \<le> fuel" using assms by (simp_all add: ebye_here_def)
  from ebye_left_Nil [OF this, of vt] obtain g src2 where
    2: "ebye_get_event vt build fuel src = ebye_get_event vt build (Suc g) src2" "eb_chunks src2 = []" "eb_input src2 = eb_input src" "fuel - 1 \<le> Suc g" by auto
  from assms(1) 2(3) obtain p pad where p: "cont_at S w p (eb_input src2)" "p \<le> length S" "drop p S = replicate pad 0x5e" "pad < 1024" "1024 dvd p + pad"
    by (auto simp: ebye_here_def)
  have f: "2 \<le> Suc g" using 2(4) assms(2) by linarith
  from ebye_read_record_end [OF p _ f] assms(3) p(4) obtain src' where "ebye_read_record vt (Suc g) src2 = (Inr False, src')" by auto
  then show ?thesis using 2(1,2) by (simp add: ebye_get_event.simps(2))
qed

lemma ebye_next:
  assumes "1048 \<le> w"
  shows "ebye_here S w build evs recs src \<Longrightarrow> 2 * length recs + 3 \<le> fuel \<Longrightarrow>
    (case evs @ concat (map (ebye_record_events build) recs) of
       [] \<Rightarrow> \<exists>src'. ebye_get_event vt build fuel src = (Inr None, src')
     | e # es \<Rightarrow> \<exists>ev src' evs' recs'. ebye_get_event vt build fuel src = (Inr (Some ev), src') \<and> ebye_event_of ev = e \<and>
         ebye_here S w build evs' recs' src' \<and> es = evs' @ concat (map (ebye_record_events build) recs') \<and> length recs' \<le> length recs)"
proof (induction recs arbitrary: evs src fuel)
  case Nil
  show ?case
  proof (cases evs)
    case e: Nil
    from ebye_at_end [of S w build src fuel] Nil e assms show ?thesis by simp
  next
    case (Cons e es)
    from ebye_take [of S w build e es "[]" src "fuel - 1"] Nil Cons obtain ev src' where
      "ebye_get_event vt build fuel src = (Inr (Some ev), src')" "ebye_event_of ev = e" "ebye_here S w build es [] src'" by auto
    then show ?thesis unfolding Cons by auto
  qed
next
  case (Cons r recs)
  let ?all = "\<lambda>recs. concat (map (ebye_record_events build) recs)"
  show ?case
  proof (cases evs)
    case e: Nil
    from ebye_next_record [of S w build r recs src fuel] Cons.prems e obtain g src' where
      n: "ebye_get_event vt build fuel src = ebye_get_event vt build g src'" "ebye_here S w build (ebye_record_events build r) recs src'" "2 * length recs + 3 \<le> g" by fastforce
    have all: "[] @ ?all (r # recs) = ebye_record_events build r @ ?all recs" by simp
    from Cons.IH [OF n(2,3)] show ?thesis unfolding e n(1) all
      by (cases "ebye_record_events build r @ ?all recs") (simp_all only: list.case, use le_SucI in force)
  next
    case (Cons e es)
    from ebye_take [of S w build e es "r # recs" src "fuel - 1"] Cons.prems Cons obtain ev src' where
      "ebye_get_event vt build fuel src = (Inr (Some ev), src')" "ebye_event_of ev = e" "ebye_here S w build es (r # recs) src'" by fastforce
    then show ?thesis unfolding Cons by fastforce
  qed
qed

lemma ebye_read_file:
  assumes "1048 \<le> w"
  shows "ebye_here S w build evs recs src \<Longrightarrow> 2 * length recs + 3 \<le> fuel \<Longrightarrow> length (evs @ concat (map (ebye_record_events build) recs)) < n \<Longrightarrow>
    \<exists>src'. ebye_read_all vt build fuel n src = (Inr (evs @ concat (map (ebye_record_events build) recs)), src')"
proof (induction n arbitrary: evs recs src)
  case (Suc n)
  show ?case
  proof (cases "evs @ concat (map (ebye_record_events build) recs)")
    case Nil
    from ebye_next [OF assms Suc.prems(1,2)] show ?thesis unfolding Nil by auto
  next
    case (Cons e es)
    with ebye_next [OF assms Suc.prems(1,2)] obtain ev src' evs' recs' where
      s: "ebye_get_event vt build fuel src = (Inr (Some ev), src')" "ebye_event_of ev = e" "ebye_here S w build evs' recs' src'"
        "es = evs' @ concat (map (ebye_record_events build) recs')" "length recs' \<le> length recs" by auto
    have "length (evs' @ concat (map (ebye_record_events build) recs')) < n" using Suc.prems(3) Cons s(4) by simp
    from Suc.IH [OF s(3) _ this] Suc.prems(2) s(5) obtain src'' where "ebye_read_all vt build fuel n src' = (Inr es, src'')" using s(4) by auto
    then show ?thesis using s(1,2) Cons by simp
  qed
qed simp

end

text \<open>C13. A file of records is read back completely through the buffered input: for each event the byte order and the data, in order, and then the
  end of the input, for each choice of the byte orders of the header and of the data, with any unused bytes after the end of a block, for each kind of
  data (a record as one event in the build for time stamps). Filler up to the next multiple of 1024 bytes is passed over. The input buffer has to hold a record and the
  filler before it, and may wrap anywhere.\<close>

theorem ebye_roundtrip:
  assumes "pipe_inv pb" "pb_done pb = 0" "eb_input src = \<lparr>ic_input = pb, ic_cur = 0\<rparr>" "eb_chunks src = []"
    and "pipe_stream pb = concat (map (encode_ebye_record build) recs)" "list_all (good_ebye_record build) recs"
    and "list_all (\<lambda>r. 1048 + length (ebye_block build r) \<le> pb_size pb) recs" "1048 \<le> pb_size pb" "2 * length recs + 3 \<le> fuel"
    and "length (concat (map (ebye_record_events build) recs)) < n"
  shows "\<exists>src'. ebye_read_all pipe_vt build fuel n src = (Inr (concat (map (ebye_record_events build) recs)), src')"
proof -
  have "ebye_left build [] src" using assms(4) by (auto simp: ebye_left_def chunks_full_def intro: exI [of _ None])
  moreover have "pipe.cont_at (pipe_stream pb) (pb_size pb) 0 (eb_input src)" using assms(1-3) by (simp add: pipe.cont_at_def Let_def)
  ultimately have "pipe.ebye_here (pipe_stream pb) (pb_size pb) build [] recs src"
    using assms(5-7) unfolding pipe.ebye_here_def by (intro conjI exI [of _ "0 :: nat"]) simp_all
  from pipe.ebye_read_file [OF assms(8) this assms(9)] assms(10) show ?thesis by simp
qed

section \<open>Any input\<close>

context input_source
begin

definition ebye_fails :: "bytes \<Rightarrow> cxx_error \<Rightarrow> 's ebye_source \<Rightarrow> bool" where
  "ebye_fails S e src \<longleftrightarrow> (\<exists>m. e = Err m) \<and> cont_held S (eb_input src)"

lemma ebye_fails_Err [simp]: "ebye_fails S (Err m) src \<longleftrightarrow> cont_held S (eb_input src)"
  by (simp add: ebye_fails_def)

definition ebye_moved :: "bytes \<Rightarrow> nat \<Rightarrow> nat \<Rightarrow> 's input_buffer_cont \<Rightarrow> bool" where
  "ebye_moved S w p ic \<longleftrightarrow> cont_held S ic \<and> (\<exists>q. p + 24 \<le> q \<and> q \<le> length S \<and> cont_at S w q ic)"

lemma ebye_moved_mono: "p \<le> p' \<Longrightarrow> ebye_moved S w p' ic \<Longrightarrow> ebye_moved S w p ic"
  unfolding ebye_moved_def by (meson add_le_mono1 le_trans)

lemma ebye_read_header_any:
  assumes "cont_pos S w p (eb_input src)" "p \<le> length S + 1024" "length S - p < fuel"
  shows "outcome (\<lambda>ok src'. cont_held S (eb_input src') \<and> (ok \<longrightarrow> ebye_moved S w p (eb_input src'))) (ebye_fails S) (ebye_read_header vt fuel src)"
  using assms
proof (induction fuel arbitrary: src p)
  case (Suc fuel)
  obtain r ic where r: "cont_read_range vt (eb_input src) 24 = (r, ic)" by fastforce
  have o: "outcome (\<lambda>b ic'. cont_held S ic' \<and> (\<forall>d. b = Some d \<longrightarrow> p + 24 \<le> length S \<and> length d = 24 \<and> cont_at S w (p + 24) ic' \<and>
      released (ic_input ic') = released (ic_input (eb_input src)))) (\<lambda>e ic'. cont_held S ic' \<and> (\<exists>m. e = Err m)) (r, ic)"
    unfolding r [symmetric] by (rule cont_read_any [OF Suc.prems(1)]) (use Suc.prems(2) in simp_all)
  show ?case
  proof (cases "\<exists>b. r = Inr (Some b)")
    case True
    then obtain b where b: "r = Inr (Some b)" by auto
    then have a: "p + 24 \<le> length S" "cont_at S w (p + 24) ic" "cont_held S ic" "released (ic_input ic) = released (ic_input (eb_input src))" using o by auto
    let ?src = "src\<lparr>eb_record_header := ebye_record_header_of_mem b, eb_input := ic\<lparr>ic_cur := int (p div 1024 * 1024 + 1024)\<rparr>\<rparr>"
    have d: "p < p div 1024 * 1024 + 1024" "p div 1024 * 1024 + 1024 \<le> p + 1024" using mult_div_mod_eq [of 1024 p] mod_less_divisor [of 1024 p] by linarith+
    have pos: "cont_pos S w (p div 1024 * 1024 + 1024) (eb_input ?src)"
      using a(2,4) Suc.prems(1) d(1) by (auto simp: cont_at_def cont_pos_def Let_def)
    have "length S - (p div 1024 * 1024 + 1024) < fuel" using Suc.prems(3) d(1) a(1) by linarith
    moreover have "p div 1024 * 1024 + 1024 \<le> length S + 1024" using d(2) a(1) by linarith
    ultimately have again: "outcome (\<lambda>ok src'. cont_held S (eb_input src') \<and> (ok \<longrightarrow> ebye_moved S w p (eb_input src'))) (ebye_fails S) (ebye_read_header vt fuel ?src)"
      using ebye_moved_mono [OF less_imp_le [OF d(1)]] by (intro outcome_mono [OF Suc.IH [OF pos]]) auto
    have "ic_cur ic - 24 = int p" using a(2) by (simp add: cont_at_def Let_def)
    then have n: "next_kilobyte (ic_cur ic - 24) = int (p div 1024 * 1024 + 1024)" using next_kilobyte_eq by simp
    have "ebye_moved S w p ic" using a unfolding ebye_moved_def by blast
    then show ?thesis using r b a(3) again n by (auto simp: ebye_read_header.simps(2) Let_def)
  next
    case False
    then show ?thesis using r o by (cases r) (auto simp: ebye_read_header.simps(2) ebye_fails_def split: option.splits)
  qed
qed simp

definition ebye_mapped :: "bytes \<Rightarrow> nat \<Rightarrow> nat \<Rightarrow> bool \<Rightarrow> 's ebye_source \<Rightarrow> bool" where
  "ebye_mapped S w p ok src \<longleftrightarrow> cont_held S (eb_input src) \<and> (ok \<longrightarrow> ebye_moved S w p (eb_input src) \<and> two_chunks (eb_chunks src))"

lemma ebye_swap_header_any:
  "ebye_moved S w p (eb_input src) \<Longrightarrow> outcome (\<lambda>_ src'. ebye_moved S w p (eb_input src')) (ebye_fails S) (ebye_swap_header src)"
  by (simp add: ebye_swap_header_def ebye_fails_def ebye_moved_def Let_def)

lemma ebye_check_header_any:
  "ebye_moved S w p (eb_input src) \<Longrightarrow>
   outcome (\<lambda>_ src'. ebye_moved S w p (eb_input src') \<and> er_data_length (eb_record_header src') \<le> 0x40000000) (ebye_fails S) (ebye_check_header src)"
  by (auto simp: ebye_check_header_def ebye_fails_def ebye_moved_def Let_def not_less)

lemma ebye_map_data_any:
  assumes "ebye_moved S w p (eb_input src) \<and> er_data_length (eb_record_header src) \<le> 0x40000000"
  shows "outcome (\<lambda>_ src'. ebye_moved S w p (eb_input src') \<and> two_chunks (eb_chunks src')) (ebye_fails S) (ebye_map_data vt src)"
proof -
  obtain q where q: "p + 24 \<le> q" "q \<le> length S" "cont_at S w q (eb_input src)" using assms by (auto simp: ebye_moved_def)
  have "unat (er_data_length (eb_record_header src)) \<le> unat (0x40000000 :: u32)" using assms by (simp only: word_le_nat_alt)
  then have n: "unat (er_data_length (eb_record_header src)) \<le> 2 ^ 33" by simp
  obtain r ic where r: "cont_map_range vt (eb_input src) (unat (er_data_length (eb_record_header src))) = (r, ic)" by fastforce
  have o: "outcome (\<lambda>cs ic'. cont_held S ic' \<and> (cs \<noteq> [] \<longrightarrow> two_chunks cs \<and> ebye_moved S w p ic')) (\<lambda>e ic'. cont_held S ic' \<and> (\<exists>m. e = Err m)) (r, ic)"
    unfolding r [symmetric]
  proof (rule outcome_mono [OF cont_map_any [OF cont_at_pos [OF q(3)] _ n]])
    fix cs and ic' :: "'s input_buffer_cont"
    let ?n = "unat (er_data_length (eb_record_header src))"
    assume a: "cont_held S ic' \<and> (cs \<noteq> [] \<longrightarrow> two_chunks cs \<and> q + ?n \<le> length S \<and> length (concat cs) = ?n \<and> cont_at S w (q + ?n) ic' \<and>
      released (ic_input ic') = released (ic_input (eb_input src)))"
    have "p + 24 \<le> q + ?n" using q(1) by (rule trans_le_add1)
    then show "cont_held S ic' \<and> (cs \<noteq> [] \<longrightarrow> two_chunks cs \<and> ebye_moved S w p ic')" using a unfolding ebye_moved_def by blast
  qed (use q(2) in simp_all)
  show ?thesis using r o by (cases r) (auto simp: ebye_map_data_def Let_def ebye_fails_def)
qed

lemma ebye_data_order_any:
  "ebye_moved S w p (eb_input src) \<and> two_chunks (eb_chunks src) \<Longrightarrow> outcome (ebye_mapped S w p) (ebye_fails S) (ebye_data_order src)"
  by (auto simp: ebye_data_order_def ebye_fails_def ebye_moved_def ebye_mapped_def Let_def)

lemma ebye_read_record_any:
  assumes "cont_at S w p (eb_input src)" "p \<le> length S" "length S - p < fuel"
  shows "outcome (ebye_mapped S w p) (ebye_fails S) (ebye_read_record vt fuel src)"
  unfolding ebye_read_record_def
proof (rule outcome_andthen)
  let ?src = "src\<lparr>eb_input := cont_release_to vt (eb_input src) (ic_cur (eb_input src))\<rparr>"
  have "cont_pos S w p (eb_input ?src)" using cont_at_pos [OF cont_release_at(1) [OF assms(1)]] by simp
  then show "outcome (\<lambda>ok src'. cont_held S (eb_input src') \<and> (ok \<longrightarrow> ebye_moved S w p (eb_input src'))) (ebye_fails S) (ebye_read_header vt fuel ?src)"
    by (rule ebye_read_header_any) (use assms(2,3) in simp_all)
next
  fix found and src1 :: "'s ebye_source"
  let ?rest = "andthen (ebye_swap_header src1) (\<lambda>_ src. andthen (ebye_check_header src) (\<lambda>_ src. andthen (ebye_map_data vt src) (\<lambda>_ src. ebye_data_order src)))"
  assume f: "cont_held S (eb_input src1) \<and> (found \<longrightarrow> ebye_moved S w p (eb_input src1))"
  have "outcome (ebye_mapped S w p) (ebye_fails S) ?rest" if "ebye_moved S w p (eb_input src1)"
    by (rule outcome_andthen [OF ebye_swap_header_any [OF that]], rule outcome_andthen [OF ebye_check_header_any], assumption,
        rule outcome_andthen [OF ebye_map_data_any], assumption, rule ebye_data_order_any)
  then show "outcome (ebye_mapped S w p) (ebye_fails S) (if \<not> found then (Inr False, src1) else ?rest)" using f by (simp add: ebye_mapped_def)
qed
end

lemma event_length_aligned:
  fixes x :: u16
  assumes "(x - of_nat 4) AND 3 = 0" "x \<noteq> 0"
  shows "unat (x - of_nat 4) + 4 = unat x" "4 dvd unat (x - of_nat 4)"
proof -
  have "(x - of_nat 4) AND 3 = take_bit 2 (x - of_nat 4)" by (simp add: take_bit_eq_mask mask_eq_exp_minus_1)
  then have "unat (take_bit 2 (x - of_nat 4)) = 0" using assms(1) by (metis unat_0)
  then have m: "unat (x - of_nat 4) mod 4 = 0" unfolding unsigned_take_bit_eq by (simp add: take_bit_eq_mod)
  then show "4 dvd unat (x - of_nat 4)" by (rule mod_0_imp_dvd)
  have nz: "unat x \<noteq> 0" using assms(2) by (simp add: unat_eq_zero)
  have s: "unat (x - of_nat 4) = (if 4 \<le> unat x then unat x - 4 else unat x + 65536 - 4)" using unat_sub_if' [of x 4] by (simp add: word_size)
  have "4 \<le> unat x"
  proof (rule ccontr)
    assume "\<not> 4 \<le> unat x"
    then have "unat x = 1 \<or> unat x = 2 \<or> unat x = 3" using nz by linarith
    then show False using m s by auto
  qed
  then show "unat (x - of_nat 4) + 4 = unat x" using s by simp
qed

text \<open>The data of an event is what its header says.\<close>

definition ebye_data_ok :: "ebye_build \<Rightarrow> ebye_event \<Rightarrow> bool" where
  "ebye_data_ok build ev \<longleftrightarrow>
     (let n = length (fst (ebye_get_data_src ev)); h = ee_header ev in
      if build = Ebye_timestamped then h = Header_32 (of_nat n)
      else ebye_token h = 0xffff \<and> n + sizeof_ebye_event_header = unat (ebye_length h) \<and> 4 dvd n)"

lemma ebye_take_data_any:
  assumes "two_chunks (eb_chunks src)"
  shows "outcome (\<lambda>got src'. got = Some (eb_file_event src') \<and> two_chunks (eb_chunks src') \<and> eb_input src' = eb_input src \<and>
      ee_header (eb_file_event src') = ee_header (eb_file_event src) \<and> length (fst (ebye_get_data_src (eb_file_event src'))) = n)
    (\<lambda>e src'. (\<exists>m. e = Err m) \<and> eb_input src' = eb_input src) (ebye_take_data n src)"
proof -
  obtain got cs where g: "get_range_cont (eb_chunks src) n = (got, cs)" by fastforce
  have two: "two_chunks cs" using two_chunks_rest(3) [OF assms, of n] g by simp
  have "length (cont_bytes x) = n" if "got = Some x" for x
    using assms g that by (elim two_chunks_cases) (auto simp: get_range_cont_def cont_bytes_def Let_def split: if_splits)
  then show ?thesis using g two
    by (auto simp: ebye_take_data_def Let_def ebye_get_data_src_def cont_bytes_def split: option.splits sum.splits prod.splits)
qed

lemma ebye_take_event_any:
  assumes "two_chunks (eb_chunks src)" "ee_header (eb_file_event src) = h" "build \<noteq> Ebye_timestamped"
  shows "outcome (\<lambda>got src'. eb_input src' = eb_input src \<and> two_chunks (eb_chunks src') \<and>
      (case got of None \<Rightarrow> eb_chunks src' = [] | Some ev \<Rightarrow> ev = eb_file_event src' \<and> ebye_data_ok build ev))
    (\<lambda>e src'. (\<exists>m. e = Err m) \<and> eb_input src' = eb_input src) (ebye_take_event h src)"
proof (cases "ebye_token h = 0xffff \<and> ebye_length h \<noteq> 0 \<and> (ebye_length h - of_nat 4) AND 3 = 0")
  case True
  then have "ebye_take_event h src = ebye_take_data (unat (ebye_length h - of_nat 4)) src" by (simp add: ebye_take_event_def Let_def)
  then show ?thesis using True event_length_aligned [of "ebye_length h"] assms(2,3)
    by (auto intro!: outcome_mono [OF ebye_take_data_any [OF assms(1)]] simp: ebye_data_ok_def Let_def)
next
  case False
  then show ?thesis by (auto simp: ebye_take_event_def Let_def)
qed

context input_source
begin

definition ebye_got :: "bytes \<Rightarrow> nat \<Rightarrow> ebye_build \<Rightarrow> ebye_event option \<Rightarrow> 's ebye_source \<Rightarrow> bool" where
  "ebye_got S w build got src \<longleftrightarrow> cont_held S (eb_input src) \<and>
     (\<forall>ev. got = Some ev \<longrightarrow> ev = eb_file_event src \<and> two_chunks (eb_chunks src) \<and> (\<exists>q. q \<le> length S \<and> cont_at S w q (eb_input src)) \<and> ebye_data_ok build ev)"

definition ebye_rounds :: "bytes \<Rightarrow> 's ebye_source \<Rightarrow> nat \<Rightarrow> nat" where
  "ebye_rounds S src p = length S - p + (if eb_chunks src = [] then 0 else 1)"

lemma ebye_after_header:
  assumes "cont_at S w p (eb_input src)" "p \<le> length S" "two_chunks (eb_chunks src)" "ee_header (eb_file_event src) = h" "build \<noteq> Ebye_timestamped"
    and "\<And>src'. eb_input src' = eb_input src \<Longrightarrow> eb_chunks src' = [] \<Longrightarrow> outcome (ebye_got S w build) (ebye_fails S) (next_event src')"
  shows "outcome (ebye_got S w build) (ebye_fails S)
    (andthen (ebye_take_event h src) (\<lambda>got src. case got of None \<Rightarrow> next_event src | Some ev \<Rightarrow> (Inr (Some ev), src)))"
proof (rule outcome_andthen)
  note held = cont_at_holds [OF assms(1)]
  show "outcome (\<lambda>got src'. eb_input src' = eb_input src \<and> two_chunks (eb_chunks src') \<and>
      (case got of None \<Rightarrow> eb_chunks src' = [] | Some ev \<Rightarrow> ev = eb_file_event src' \<and> ebye_data_ok build ev)) (ebye_fails S) (ebye_take_event h src)"
    by (rule outcome_mono [OF ebye_take_event_any [OF assms(3-5)]]) (use held in \<open>auto simp: ebye_fails_def\<close>)
  fix got and src' :: "'s ebye_source"
  assume a: "eb_input src' = eb_input src \<and> two_chunks (eb_chunks src') \<and>
    (case got of None \<Rightarrow> eb_chunks src' = [] | Some ev \<Rightarrow> ev = eb_file_event src' \<and> ebye_data_ok build ev)"
  show "outcome (ebye_got S w build) (ebye_fails S) (case got of None \<Rightarrow> next_event src' | Some ev \<Rightarrow> (Inr (Some ev), src'))"
  proof (cases got)
    case None
    then show ?thesis using a assms(6) [of src'] by simp
  qed (use a held assms(1,2) in \<open>auto simp: ebye_got_def\<close>)
qed

lemma ebye_get_event_any:
  assumes "cont_at S w p (eb_input src)" "p \<le> length S" "two_chunks (eb_chunks src)" "ebye_rounds S src p < fuel"
  shows "outcome (ebye_got S w build) (ebye_fails S) (ebye_get_event vt build fuel src)"
  using assms
proof (induction fuel arbitrary: src p)
  case (Suc fuel)
  note held = cont_at_holds [OF Suc.prems(1)]
  show ?case
  proof (cases "eb_chunks src = []")
    case True
    have step: "outcome (ebye_got S w build) (ebye_fails S) (if \<not> ok then (Inr None, src') else ebye_get_event vt build fuel src')"
      if "ebye_mapped S w p ok src'" for ok src'
    proof (cases ok)
      case True
      with that obtain q where q: "cont_at S w q (eb_input src')" "q \<le> length S" "two_chunks (eb_chunks src')" "p + 24 \<le> q" by (auto simp: ebye_mapped_def ebye_moved_def)
      have "ebye_rounds S src' q < fuel" using Suc.prems(4) q(2,4) by (auto simp: ebye_rounds_def split: if_splits)
      from Suc.IH [OF q(1,2,3) this] show ?thesis using True by simp
    qed (use that in \<open>simp add: ebye_got_def ebye_mapped_def\<close>)
    have "length S - p < Suc fuel" using Suc.prems(4) by (simp add: ebye_rounds_def)
    from outcome_andthen [OF ebye_read_record_any [OF Suc.prems(1,2) this] step] show ?thesis using True by (simp add: ebye_get_event.simps(2))
  next
    case False
    note src = False
    show ?thesis
    proof (cases "build = Ebye_timestamped")
      case True
      let ?len = "er_data_length (eb_record_header src)"
      let ?src = "ebye_set_header (Header_32 ?len) src"
      have "outcome (ebye_got S w build) (ebye_fails S) (ebye_take_data (unat ?len) ?src)"
        by (rule outcome_mono [OF ebye_take_data_any])
          (use Suc.prems(1-3) held True in \<open>auto simp: ebye_got_def ebye_data_ok_def ebye_fails_def ebye_set_header_def Let_def\<close>)
      then show ?thesis using src True by (simp add: ebye_get_event.simps(2) Let_def)
    next
      case False
      obtain b cs where g: "get_range (eb_chunks src) 4 = (b, cs)" by fastforce
      have two: "two_chunks cs" using two_chunks_rest(2) [OF Suc.prems(3), of 4] g by simp
      show ?thesis
      proof (cases b)
        case None
        then show ?thesis using src False g held by (simp add: ebye_get_event.simps(2))
      next
        case (Some b)
        define h where "h = (if eb_swapping src then ebye_swap_event_header (ebye_event_header_of_mem build b) else ebye_event_header_of_mem build b)"
        let ?src = "ebye_set_header h (src\<lparr>eb_chunks := cs\<rparr>)"
        have get: "ebye_get_event vt build (Suc fuel) src = andthen (ebye_take_event h ?src) (\<lambda>got src.
            case got of None \<Rightarrow> ebye_get_event vt build fuel src | Some ev \<Rightarrow> (Inr (Some ev), src))"
          using src False g Some by (simp add: ebye_get_event.simps(2) h_def Let_def)
        have again: "outcome (ebye_got S w build) (ebye_fails S) (ebye_get_event vt build fuel src')"
          if "eb_input src' = eb_input ?src" "eb_chunks src' = []" for src'
          using Suc.IH [of p src'] Suc.prems(1,2,4) src that by (simp add: ebye_rounds_def)
        show ?thesis unfolding get by (rule ebye_after_header [OF _ Suc.prems(2) _ _ False again])
          (use Suc.prems(1) two in \<open>simp_all add: ebye_set_header_def\<close>)
      qed
    qed
  qed
qed simp
end

definition ebye_ready :: "pipe_buffer ebye_source \<Rightarrow> bool" where
  "ebye_ready src \<longleftrightarrow>
     (let pb = ic_input (eb_input src) in
      pipe_inv pb \<and> int (pb_done pb) \<le> ic_cur (eb_input src) \<and> ic_cur (eb_input src) \<le> int (pb_avail pb) \<and> two_chunks (eb_chunks src))"

text \<open>C14. Whatever the input holds, \<^verbatim>\<open>get_event\<close> ends after at most as many rounds as the input has bytes, and two more, as does its search for the
  header of a record; it fails no assertion and takes no undefined step: it returns an event with the data that its header says, whole 32-bit words,
  reports the end of the input, or throws. The buffer keeps its invariant, and after an event the reader is ready for the next call.\<close>

theorem ebye_get_event_safe:
  assumes "ebye_ready src" "length (pipe_stream (ic_input (eb_input src))) + 2 \<le> fuel" "ebye_get_event pipe_vt build fuel src = (r, src')"
  shows "pipe_inv (ic_input (eb_input src')) \<and> pipe_stream (ic_input (eb_input src')) = pipe_stream (ic_input (eb_input src)) \<and>
    (case r of
       Inl e \<Rightarrow> \<exists>m. e = Err m
     | Inr None \<Rightarrow> True
     | Inr (Some ev) \<Rightarrow> ebye_ready src' \<and> eb_file_event src' = ev \<and> ebye_data_ok build ev)"
proof -
  let ?S = "pipe_stream (ic_input (eb_input src))" and ?p = "nat (ic_cur (eb_input src))"
  have "0 \<le> ic_cur (eb_input src)" using assms(1) by (auto simp: ebye_ready_def Let_def)
  then have p: "pipe.cont_at ?S (pb_size (ic_input (eb_input src))) ?p (eb_input src)" "?p \<le> length ?S" "two_chunks (eb_chunks src)"
    using assms(1) by (auto simp: ebye_ready_def pipe.cont_at_def pipe_inv_def Let_def)
  have "pipe.ebye_rounds ?S src ?p < fuel" using assms(2) by (auto simp: pipe.ebye_rounds_def)
  from pipe.ebye_get_event_any [OF p this, of build] show ?thesis unfolding assms(3)
    by (auto simp: pipe.ebye_fails_def pipe.ebye_got_def pipe.cont_held_def ebye_ready_def pipe.cont_at_def Let_def split: sum.splits option.splits)
qed

section \<open>Witnesses\<close>

definition ebye_source_on :: "pipe_buffer \<Rightarrow> pipe_buffer ebye_source" where
  "ebye_source_on pb =
     ebye_new_file \<lparr>eb_input = \<lparr>ic_input = pb, ic_cur = 0\<rparr>, eb_record_header = ebye_record_header_of_mem (replicate 24 0), eb_swapping = False,
       eb_last_seq_no = 0, eb_chunks = [],
       eb_file_event = \<lparr>ee_header = Header_32 0, ee_data = None, ee_chunks = [], ee_swapping = False\<rparr>, eb_warnings = []\<rparr>"

lemma ebye_source_on_simps [simp]: "eb_input (ebye_source_on pb) = \<lparr>ic_input = pb, ic_cur = 0\<rparr>" "eb_chunks (ebye_source_on pb) = []"
  by (simp_all add: ebye_source_on_def ebye_new_file_def)

definition ebye_example :: "ebye_content list" where
  "ebye_example =
     [\<lparr>ec_tape = True, ec_data = False, ec_sequence = 1, ec_stream = 2, ec_events = [[1, 2, 3, 4], [5, 6, 7, 8]], ec_unused = Some [9]\<rparr>,
      \<lparr>ec_tape = False, ec_data = True, ec_sequence = 2, ec_stream = 0, ec_events = [[10, 11, 12, 13]], ec_unused = None\<rparr>]"

lemma ebye_example_facts:
  "list_all (good_ebye_record Ebye_32) ebye_example" "list_all (\<lambda>r. 1048 + length (ebye_block Ebye_32 r) \<le> 2048) ebye_example"
  "concat (map (ebye_record_events Ebye_32) ebye_example) = [(False, [1, 2, 3, 4]), (False, [5, 6, 7, 8]), (True, [10, 11, 12, 13])]" "length ebye_example = 2"
  by (simp_all add: ebye_example_def good_ebye_record_def ebye_block_def encode_ebye_event_def ebye_record_events_def)

theorem ebye_roundtrip_witness:
  "\<exists>src'. ebye_read_all pipe_vt Ebye_32 7 4 (ebye_source_on (pipe_on 11 (concat (map (encode_ebye_record Ebye_32) ebye_example)))) =
     (Inr [(False, [1, 2, 3, 4]), (False, [5, 6, 7, 8]), (True, [10, 11, 12, 13])], src')"
proof -
  define S where "S = concat (map (encode_ebye_record Ebye_32) ebye_example)"
  have l: "length (encode_ebye_record Ebye_32 r) \<le> 5000" if "r \<in> set ebye_example" for r
    using ebye_example_facts(2) that filler_length(1) [of "24 + length (ebye_block Ebye_32 r)"] by (auto simp: encode_ebye_record_def list_all_iff Let_def)
  obtain a b where e: "ebye_example = [a, b]" by (simp add: ebye_example_def)
  have "length S \<le> 10000" using l [of a] l [of b] by (simp add: S_def e)
  then have "pipe_inv (pipe_on 11 S)" by (intro pipe_on_inv) simp_all
  from ebye_roundtrip [OF this, of "ebye_source_on (pipe_on 11 S)" Ebye_32 ebye_example 7 4] show ?thesis
    unfolding S_def [symmetric] using ebye_example_facts by (simp add: S_def [symmetric])
qed

theorem ebye_get_event_safe_witness:
  "fst (ebye_get_event pipe_vt Ebye_16 7 (ebye_source_on (pipe_on 3 [0x5e, 0x5e, 7, 0, 1]))) \<noteq> Inl Fuel"
proof -
  let ?src = "ebye_source_on (pipe_on 3 [0x5e, 0x5e, 7, 0, 1])"
  have "pipe_inv (pipe_on 3 [0x5e, 0x5e, 7, 0, 1])" by (rule pipe_on_inv) simp_all
  then have ready: "ebye_ready ?src" by (simp add: ebye_ready_def Let_def)
  obtain r src' where r: "ebye_get_event pipe_vt Ebye_16 7 ?src = (r, src')" by fastforce
  from ebye_get_event_safe [OF ready _ r] show ?thesis using r by auto
qed

end
