(* ===== verification/Spec2Isabelle.thy ===== *)
theory Spec2Isabelle
  imports Prelude Input_Buffer Pipe_Buffer Lmd_Format Lmd_Input Lmd_Reader_Safety Lmd_Event
    Lmd_Layout Lmd_Records Lmd_Reader Lmd_Event_Out Lmd_Sticky_Store Lmd_Sticky_Table
    Lmd_Sticky_Insert Lmd_Sticky_Compact Lmd_Sticky_Refine Limit_File_Size Lmd_Output Lmd_Writer
    Lmd_Roundtrip Lmd_File_Output Lmd_File_Split Thread_Queue Thread_Pipeline
    Select_Event Bitsone Zero_Suppress Hld_Input Hld_Events Pax_Input Pax_Events
    Ebye_Input Ebye_Events
begin

text \<open>
  \<^bold>\<open>A verification development for ucesb, a tool for unpacking and processing event data.\<close>

  The program reads list-mode data of nuclear physics experiments from files, pipes and
  network servers, cuts it into events and subevents, hands these to unpackers that are
  generated for each experiment, and writes selected events to files again. The part with
  logic of its own that does not depend on an experiment is the input and output of data,
  \<^verbatim>\<open>src/file_input\<close>, and around it the queues between the threads (\<^verbatim>\<open>src/threading\<close>) and the containers of
  unpacked data (\<^verbatim>\<open>src/eventloop\<close>). The development models the path of the LMD format through
  it, the readers of HADES data, PAX records and EBYE records, which share the input buffer, and these surroundings:

  \<^item> An input is a stream that is looked at through a window, \<^verbatim>\<open>input_buffer\<close> (theory
    \<^verbatim>\<open>Input_Buffer\<close>: chunks of memory, \<^verbatim>\<open>get_range\<close>, \<^verbatim>\<open>get_range_many\<close>, \<^verbatim>\<open>read_range\<close>, and the
    locale \<open>input_source\<close> with what a source promises). The ring buffer of \<^verbatim>\<open>pipe_buffer.cc\<close>
    (\<^verbatim>\<open>Pipe_Buffer\<close>) fulfils this promise in the build without a reader thread: the interpretation
    \<open>pipe\<close> carries every lemma about a source over to it.
  \<^item> The structures of the format and their layout in memory are in \<^verbatim>\<open>Lmd_Format\<close>
    (\<^verbatim>\<open>lmd_struct/*.h\<close>, \<^verbatim>\<open>lmd_event.hh\<close>, \<^verbatim>\<open>lmd_event.cc\<close>): headers as records of words at their width,
    sizes and the macros that compute them with the wrap-around of their C types, and the declarations of the
    structures for both byte orders, which are shown to fit together.
  \<^item> The reader of \<^verbatim>\<open>lmd_input.cc\<close> is in \<^verbatim>\<open>Lmd_Input\<close> (buffers, fragments, \<^verbatim>\<open>get_event\<close>) and
    \<^verbatim>\<open>Lmd_Event\<close> (event information, \<^verbatim>\<open>locate_subevents\<close>, \<^verbatim>\<open>get_subevent_data_src\<close>). Every ERROR,
    every assertion and every access outside an object is a value of \<open>cxx_error\<close>;
    \<^verbatim>\<open>Lmd_Reader_Safety\<close> shows which of them can happen on arbitrary input.
  \<^item> \<^verbatim>\<open>Lmd_Layout\<close> says what a correct LMD file is, without the code: buffers of one size that
    hold whole events and pieces of events. \<^verbatim>\<open>Lmd_Records\<close> and \<^verbatim>\<open>Lmd_Reader\<close> show that the reader
    delivers from such a file exactly its events.
  \<^item> The writer, \<^verbatim>\<open>lmd_output.cc\<close>, is in \<^verbatim>\<open>Lmd_Event_Out\<close> (an event to write and how it is
    collected from an input event) and \<^verbatim>\<open>Lmd_Output\<close> (buffers, fragmentation, files). \<^verbatim>\<open>Lmd_Writer\<close>
    shows that it produces files in that layout; \<^verbatim>\<open>Lmd_Roundtrip\<close> puts both together.
  \<^item> The store of sticky events that are still valid, \<^verbatim>\<open>lmd_sticky_store.cc\<close>, is in
    \<^verbatim>\<open>Lmd_Sticky_Store\<close>; \<^verbatim>\<open>Lmd_Sticky_Table\<close> (hash table), \<^verbatim>\<open>Lmd_Sticky_Insert\<close> (the loop over the
    subevents of a new event), \<^verbatim>\<open>Lmd_Sticky_Compact\<close> (compacting of both arrays) and
    \<^verbatim>\<open>Lmd_Sticky_Refine\<close> show that all of this is invisible: the store is a list of events, with
    at most one subevent for an identifier.

  \<^item> Output is split into files by the limits on size and number of events, \<^verbatim>\<open>limit_file_size.hh\<close> and
    \<^verbatim>\<open>limit_file_size.cc\<close> (\<^verbatim>\<open>Limit_File_Size\<close>: counters, the number in the name of a file). \<^verbatim>\<open>Lmd_File_Output\<close>
    has the change of files, the replay of sticky events at the begin of each file, the cut on
    event numbers and the comments of the file header; \<^verbatim>\<open>Lmd_File_Split\<close> shows that the files
    together hold all events, each file after the sticky events that were valid at its begin.
  \<^item> \<^verbatim>\<open>Select_Event\<close> is \<^verbatim>\<open>select_event.cc\<close>: the requests for events and subevents to keep, from the text
    that the user gives to the decision on an event, with \<^verbatim>\<open>get_wr_id\<close> of \<^verbatim>\<open>event_loop.cc\<close> and its errors. Which subevents are selected is
    stated over the unsigned members of the header; \<^verbatim>\<open>match\<close> reads them as signed, and the statement says what this costs.
  \<^item> \<^verbatim>\<open>Hld_Input\<close> is the reader of \<^verbatim>\<open>hld_input.cc\<close> over the same input buffer; \<^verbatim>\<open>Hld_Events\<close> shows what it
    delivers from encoded events through the locale \<open>input_source\<close> and its interpretation for the ring buffer, and the
    inputs that it does not guard against: more than 100 subevents, and a ring buffer that wraps inside of the padding of a subevent. \<^verbatim>\<open>Pax_Input\<close> and \<^verbatim>\<open>Pax_Events\<close> do the same for \<^verbatim>\<open>pax_input.cc\<close>, \<^verbatim>\<open>Ebye_Input\<close> and
    \<^verbatim>\<open>Ebye_Events\<close> for \<^verbatim>\<open>ebye_input.cc\<close>; for both it is shown that they end on any input.
  \<^item> The queue between two threads (\<^verbatim>\<open>thread_queue.hh\<close>, \<^verbatim>\<open>thread_block.hh\<close>) is in \<^verbatim>\<open>Thread_Queue\<close> as a step relation
    of the single accesses of both threads: what is kept, that no wakeup is lost, and the
    race. \<^verbatim>\<open>Thread_Pipeline\<close> has the queues that fan out and in and the single steps of the reader, the processing threads
    and the main thread, with their waiting, requests for a wakeup and tokens, over the locale \<open>fifo\<close> that the queue fulfils
    (interpretation \<open>ring\<close>). It shows the order and that nothing is lost or taken from a slot too early; it does not claim that the
    threads always go on, since the reader waits for a queue without flushing the others.
  \<^item> \<^verbatim>\<open>Bitsone\<close> (\<^verbatim>\<open>bitsone.hh\<close>) and \<^verbatim>\<open>Zero_Suppress\<close> (\<^verbatim>\<open>zero_suppress.hh\<close>) are the containers of unpacked
    data. The locale \<open>suppressed\<close> says what a container for data with an index promises; the array
    with marks (\<open>arr\<close>) and the sorted list (\<open>lst\<close>) both fulfil it and hence agree.

  \<^bold>\<open>Conventions.\<close> State is passed explicitly: an operation takes the record of its object and
  returns \<open>(error + value, state)\<close>, so the state at the time of an error is there. Loops whose end
  is not evident from their data take fuel, and for each a lemma shows that the fuel given to
  it is enough: the number of bytes for loops that consume at least one byte, the size of the
  table for probing. Sizes are natural numbers with \<open>wrap32\<close> and \<open>wrap64\<close> where the C expression can
  exceed its type; words of the format are \<open>32 word\<close>, \<open>16 word\<close> and \<open>8 word\<close>.

  Loops that may not end on their own are \<open>partial_function\<close>s (the iterator of \<^verbatim>\<open>Bitsone\<close>), and that they
  return is shown. Threads see memory in one order, which the fences of the source provide.
  Types and tables that come from generated code are parameters: the items of the containers, the
  names of subevents, the processing of an event.

  \<^bold>\<open>Not modelled.\<close> Printing; options of the command line; starting of threads, deferred release of memory and the
  build of the readers with threads; opening of files, sockets and decompressors (system calls: a file is
  its bytes, a file system a function that tells whether a file exists); the readers of the RIDF and the generic format;
  the generator of unpackers, the parser of structures and everything generated by them, which is
  most of the lines of the repository; the ntuple writers, which hand data to external libraries.
\<close>

end
